(* ===== verification/Prelude.thy ===== *)
theory Prelude
  imports Main "HOL-Library.Word" "HOL-Library.Multiset"
begin

text \<open>
  What every component of the model shares: the C++ integer types at their
  widths, faults as values (an index past the end of a vector, a failed
  \<open>assert\<close>, a null pointer that is dereferenced), the sequencing of fallible
  steps, association lists in key order (\<open>std::map\<close>), and generic lemmas on
  lists, options and sums.
\<close>

section \<open>Integers\<close>

type_synonym u8 = "8 word"
type_synonym u16 = "16 word"
type_synonym u32 = "32 word"
type_synonym u64 = "64 word"

text \<open>The value an \<open>int32_t\<close> holds after a conversion from a wider or unsigned integer.\<close>

definition to_i32 :: "int \<Rightarrow> int" where
  "to_i32 x = (x + 2147483648) mod 4294967296 - 2147483648"

text \<open>The value a \<open>uint32_t\<close> holds after a conversion from a signed integer.\<close>

definition to_u32 :: "int \<Rightarrow> int" where
  "to_u32 x = x mod 4294967296"

definition in_i32 :: "int \<Rightarrow> bool" where
  "in_i32 x \<longleftrightarrow> - 2147483648 \<le> x \<and> x < 2147483648"

lemma to_i32_id [simp]: "in_i32 x \<Longrightarrow> to_i32 x = x"
  by (simp add: to_i32_def in_i32_def)

definition in_i64 :: "int \<Rightarrow> bool" where
  "in_i64 x \<longleftrightarrow> - 9223372036854775808 \<le> x \<and> x \<le> 9223372036854775807"

definition to_i64 :: "int \<Rightarrow> int" where
  "to_i64 x = (x + 9223372036854775808) mod 18446744073709551616 - 9223372036854775808"

lemma to_i64_id [simp]: "in_i64 x \<Longrightarrow> to_i64 x = x"
  by (simp add: to_i64_def in_i64_def)

lemma to_i32_to_u32 [simp]: "to_i32 (to_u32 x) = to_i32 x"
  by (simp add: to_i32_def to_u32_def mod_simps)

lemma to_u32_nonneg [simp]: "0 \<le> to_u32 x"
  by (simp add: to_u32_def)

lemma to_u32_pos_iff: "in_i32 x \<Longrightarrow> 0 < to_u32 x \<longleftrightarrow> x \<noteq> 0"
proof (cases "0 \<le> x")
  case True
  moreover assume "in_i32 x"
  ultimately show ?thesis by (auto simp: to_u32_def in_i32_def)
next
  case False
  moreover assume "in_i32 x"
  ultimately have "(x + 4294967296) mod 4294967296 = x + 4294967296"
    by (intro mod_pos_pos_trivial) (auto simp: in_i32_def)
  with False \<open>in_i32 x\<close> show ?thesis by (simp add: to_u32_def in_i32_def)
qed

section \<open>Faults and sequencing\<close>

datatype fault = OutOfBounds | AssertionFailed | NullPointer

type_synonym 'a outcome = "fault + 'a"

fun obind :: "'a outcome \<Rightarrow> ('a \<Rightarrow> 'b outcome) \<Rightarrow> 'b outcome" where
  "obind (Inl e) f = Inl e"
| "obind (Inr a) f = f a"

fun omap :: "('a \<Rightarrow> 'b outcome) \<Rightarrow> 'a list \<Rightarrow> 'b list outcome" where
  "omap f [] = Inr []"
| "omap f (x # xs) = obind (f x) (\<lambda>y. obind (omap f xs) (\<lambda>ys. Inr (y # ys)))"

definition vec_at :: "'a list \<Rightarrow> nat \<Rightarrow> 'a outcome" where
  "vec_at xs i = (if i < length xs then Inr (xs ! i) else Inl OutOfBounds)"

lemma obind_eq_Inr_iff [simp]: "obind m f = Inr b \<longleftrightarrow> (\<exists>a. m = Inr a \<and> f a = Inr b)"
  by (cases m) auto

lemma vec_at_Inr_iff [simp]: "vec_at xs i = Inr x \<longleftrightarrow> i < length xs \<and> x = xs ! i"
  by (auto simp: vec_at_def)

lemma omap_Inr_length: "omap f xs = Inr ys \<Longrightarrow> length ys = length xs"
  by (induction xs arbitrary: ys) auto

lemma omap_Inr_nth: "omap f xs = Inr ys \<Longrightarrow> i < length xs \<Longrightarrow> f (xs ! i) = Inr (ys ! i)"
proof (induction xs arbitrary: ys i)
  case Nil
  then show ?case by simp
next
  case (Cons x xs)
  then show ?case by (cases i) auto
qed

lemma omap_total: "(\<And>x. x \<in> set xs \<Longrightarrow> \<exists>y. f x = Inr y) \<Longrightarrow> \<exists>ys. omap f xs = Inr ys"
proof (induction xs)
  case Nil
  then show ?case by simp
next
  case (Cons x xs)
  then obtain y ys where "f x = Inr y" "omap f xs = Inr ys" by force
  then show ?case by simp
qed

lemma omap_Inl:
  "\<forall>x \<in> set xs. (\<exists>y. f x = Inr y) \<or> f x = Inl e \<Longrightarrow> \<exists>x \<in> set xs. f x = Inl e \<Longrightarrow> omap f xs = Inl e"
proof (induction xs)
  case Nil
  then show ?case by simp
next
  case (Cons x xs)
  show ?case
  proof (cases "f x")
    case (Inr y)
    with Cons.prems have "omap f xs = Inl e" by (intro Cons.IH) auto
    with Inr show ?thesis by simp
  next
    case (Inl d)
    with Cons.prems show ?thesis by auto
  qed
qed

section \<open>Ordered maps\<close>

text \<open>
  \<open>std::map\<close> with \<open>operator[]\<close> assignment: an association list kept in
  increasing key order, so that iteration order and \<open>size()\<close> are those of the container.
\<close>

fun omap_put :: "'k::linorder \<Rightarrow> 'v \<Rightarrow> ('k \<times> 'v) list \<Rightarrow> ('k \<times> 'v) list" where
  "omap_put k v [] = [(k, v)]"
| "omap_put k v ((k', v') # m) =
     (if k < k' then (k, v) # (k', v') # m
      else if k = k' then (k, v) # m
      else (k', v') # omap_put k v m)"

lemma keys_omap_put [simp]: "set (map fst (omap_put k v m)) = insert k (set (map fst m))"
proof (induction m)
  case Nil
  then show ?case by simp
next
  case (Cons kv m)
  then show ?case by (cases kv) (simp, blast)
qed

lemma sorted_omap_put: "sorted_wrt (<) (map fst m) \<Longrightarrow> sorted_wrt (<) (map fst (omap_put k v m))"
proof (induction m)
  case Nil
  then show ?case by simp
next
  case (Cons kv m)
  obtain k' v' where [simp]: "kv = (k', v')" by force
  show ?case
  proof (cases "k \<le> k'")
    case True
    with Cons.prems show ?thesis by fastforce
  next
    case False
    then have "\<forall>x \<in> set (map fst (omap_put k v m)). k' < x"
      using Cons.prems by (subst keys_omap_put) auto
    with Cons False show ?thesis by auto
  qed
qed

lemma map_of_omap_put:
  "sorted_wrt (<) (map fst m) \<Longrightarrow> map_of (omap_put k v m) = (map_of m)(k \<mapsto> v)"
  by (induction m) (auto simp: fun_eq_iff map_of_eq_None_iff)

section \<open>Lists\<close>

lemma sum_list_update_int:
  "i < length xs \<Longrightarrow> sum_list (xs[i := v]) = sum_list xs - xs ! i + (v :: int)"
  by (induction xs arbitrary: i) (auto split: nat.split)

lemma upt_conv_Cons_numeral [simp]:
  "[0..<5] = [0, 1, 2, 3, 4]" "[Suc 0..<5] = [1, 2, 3, 4]" "[0..<3] = [0, 1, 2]"
  by (simp_all add: upt_rec)

end
