(* ===== verification/Deck.thy ===== *)
theory Deck
  imports Prelude
begin

text \<open>
  \<^verbatim>\<open>processes/lobby/deck.h\<close> and \<^verbatim>\<open>deck.cpp\<close>: cards, suits, ranks, the hand
  types (brands) of a dun of three or five cards with the points that break ties, and
  the special hands of all thirteen cards. A pointer to cards is the list of the cards
  from the pointer to the end of its array; a routine that sorts through the pointer
  returns the rearranged list with its result. \<open>Inl AssertionFailed\<close> is the
  failed \<open>assert\<close> of \<open>suit\<close> and \<open>rank\<close> on a number outside 1..52, and
  \<open>Inl OutOfBounds\<close> a read past the end of the array.
\<close>

section \<open>Cards\<close>

type_synonym card = nat

datatype suitT = diamond | club | heart | spade

fun suit_val :: "suitT \<Rightarrow> nat" where
  "suit_val diamond = 0"
| "suit_val club = 1"
| "suit_val heart = 2"
| "suit_val spade = 3"

datatype rankT = r2 | r3 | r4 | r5 | r6 | r7 | r8 | r9 | rX | rJ | rQ | rK | rA

fun rank_val :: "rankT \<Rightarrow> nat" where
  "rank_val r2 = 0" | "rank_val r3 = 1" | "rank_val r4 = 2" | "rank_val r5 = 3"
| "rank_val r6 = 4" | "rank_val r7 = 5" | "rank_val r8 = 6" | "rank_val r9 = 7"
| "rank_val rX = 8" | "rank_val rJ = 9" | "rank_val rQ = 10" | "rank_val rK = 11"
| "rank_val rA = 12"

definition suit_of_nat :: "nat \<Rightarrow> suitT" where
  "suit_of_nat n = [diamond, club, heart, spade] ! n"

definition rank_of_nat :: "nat \<Rightarrow> rankT" where
  "rank_of_nat n = [r2, r3, r4, r5, r6, r7, r8, r9, rX, rJ, rQ, rK, rA] ! n"

lemma suit_val_inject [simp]: "suit_val s = suit_val t \<longleftrightarrow> s = t"
  by (cases s; cases t) simp_all

lemma rank_val_inject: "rank_val s = rank_val t \<longleftrightarrow> s = t"
  by (cases s; cases t) simp_all

lemma rank_val_less [simp]: "rank_val r < 13"
  by (cases r) simp_all

lemma rank_val_le [simp]: "rank_val r \<le> 12"
  by (cases r) simp_all

lemma suit_val_less [simp]: "suit_val s < 4"
  by (cases s) simp_all

lemma rank_val_of_nat [simp]: "n < 13 \<Longrightarrow> rank_val (rank_of_nat n) = n"
  unfolding rank_of_nat_def
  by (auto simp: less_Suc_eq numeral_eq_Suc)

lemma suit_val_of_nat [simp]: "n < 4 \<Longrightarrow> suit_val (suit_of_nat n) = n"
  unfolding suit_of_nat_def
  by (auto simp: less_Suc_eq numeral_eq_Suc)

text \<open>The scoped enumeration \<open>Rank\<close> is compared by its underlying integer.\<close>

instantiation rankT :: linorder
begin

definition less_eq_rankT :: "rankT \<Rightarrow> rankT \<Rightarrow> bool" where
  "less_eq_rankT r s \<longleftrightarrow> rank_val r \<le> rank_val s"

definition less_rankT :: "rankT \<Rightarrow> rankT \<Rightarrow> bool" where
  "less_rankT r s \<longleftrightarrow> rank_val r < rank_val s"

instance
  by standard (auto simp: less_eq_rankT_def less_rankT_def rank_val_inject)

end

instantiation suitT :: linorder
begin

definition less_eq_suitT :: "suitT \<Rightarrow> suitT \<Rightarrow> bool" where
  "less_eq_suitT r s \<longleftrightarrow> suit_val r \<le> suit_val s"

definition less_suitT :: "suitT \<Rightarrow> suitT \<Rightarrow> bool" where
  "less_suitT r s \<longleftrightarrow> suit_val r < suit_val s"

instance
  by standard (auto simp: less_eq_suitT_def less_suitT_def)

end

definition valid_card :: "card \<Rightarrow> bool" where
  "valid_card c \<longleftrightarrow> 1 \<le> c \<and> c \<le> 52"

definition suit :: "card \<Rightarrow> suitT" where
  "suit c = suit_of_nat ((c - 1) div 13)"

definition rank :: "card \<Rightarrow> rankT" where
  "rank c = rank_of_nat ((c - 1) mod 13)"

definition lessSuit :: "card \<Rightarrow> card \<Rightarrow> bool" where
  "lessSuit c1 c2 \<longleftrightarrow> suit c1 < suit c2"

definition lessRank :: "card \<Rightarrow> card \<Rightarrow> bool" where
  "lessRank c1 c2 \<longleftrightarrow> rank c1 < rank c2"

definition lessCard :: "card \<Rightarrow> card \<Rightarrow> bool" where
  "lessCard c1 c2 \<longleftrightarrow> (if rank c1 \<noteq> rank c2 then lessRank c1 c2 else lessSuit c1 c2)"

lemma rank_val_rank: "rank_val (rank c) = (c - 1) mod 13"
  by (simp add: rank_def)

lemma suit_val_suit: "valid_card c \<Longrightarrow> suit_val (suit c) = (c - 1) div 13"
proof -
  assume "valid_card c"
  then have "(c - 1) div 13 < 4" by (auto simp: valid_card_def)
  then show ?thesis by (simp add: suit_def)
qed

text \<open>A card is determined by its rank and suit.\<close>

lemma card_eqI: "valid_card c \<Longrightarrow> valid_card d \<Longrightarrow> rank c = rank d \<Longrightarrow> suit c = suit d \<Longrightarrow> c = d"
proof -
  assume v: "valid_card c" "valid_card d" and "rank c = rank d" "suit c = suit d"
  then have "(c - 1) mod 13 = (d - 1) mod 13" "(c - 1) div 13 = (d - 1) div 13"
    by (metis rank_val_rank, metis suit_val_suit)
  then have "c - 1 = d - 1" by (metis div_mult_mod_eq)
  with v show "c = d" by (auto simp: valid_card_def)
qed

section \<open>Sorting\<close>

text \<open>
  The key whose order is \<open>lessCard\<close>. \<open>std::sort\<close> may permute equivalent
  elements, but equivalent valid cards are equal, so its result is the sorted list.
\<close>

definition card_key :: "card \<Rightarrow> nat" where
  "card_key c = rank_val (rank c) * 4 + suit_val (suit c)"

definition sort_cards :: "card list \<Rightarrow> card list" where
  "sort_cards cs = sort_key card_key cs"

lemma digit_less: "a < (4::nat) \<Longrightarrow> b < 4 \<Longrightarrow> m * 4 + a < n * 4 + b \<longleftrightarrow> m < n \<or> m = n \<and> a < b"
  by linarith

lemma digit_eq: "a < (4::nat) \<Longrightarrow> b < 4 \<Longrightarrow> m * 4 + a = n * 4 + b \<longleftrightarrow> m = n \<and> a = b"
  by presburger

lemma lessCard_key: "lessCard c d \<longleftrightarrow> card_key c < card_key d"
  by (simp add: lessCard_def card_key_def lessSuit_def lessRank_def less_suitT_def less_rankT_def
      digit_less rank_val_inject)

lemma mset_sort_cards [simp]: "mset (sort_cards cs) = mset cs"
  by (simp add: sort_cards_def)

lemma length_sort_cards [simp]: "length (sort_cards cs) = length cs"
  by (simp add: sort_cards_def)

lemma set_sort_cards [simp]: "set (sort_cards cs) = set cs"
  by (simp add: sort_cards_def)

lemma sort_cards_sorted: "sorted_wrt (\<lambda>c d. \<not> lessCard d c) (sort_cards cs)"
proof -
  have "sorted (map card_key (sort_cards cs))" by (simp add: sort_cards_def)
  then show ?thesis by (simp add: sorted_wrt_map lessCard_key not_less)
qed

lemma card_key_inj: "inj_on card_key {c. valid_card c}"
  by (rule inj_onI) (auto simp: card_key_def digit_eq rank_val_inject intro: card_eqI)

text \<open>Whatever order the cards arrive in, the sorted array is the same.\<close>

lemma sort_cards_perm:
  assumes "mset cs = mset ds" and "\<forall>c \<in> set cs. valid_card c"
  shows "sort_cards cs = sort_cards ds"
proof -
  have key: "map card_key (sort_cards xs) = sort (map card_key xs)" for xs
    by (rule properties_for_sort [symmetric]) (simp_all add: sort_cards_def)
  have "mset (map card_key cs) = mset (map card_key ds)" using assms(1) by simp
  then have "map card_key (sort_cards cs) = map card_key (sort_cards ds)"
    unfolding key by (simp add: properties_for_sort)
  moreover have "set ds = set cs" using assms(1) by (metis set_mset_mset)
  with assms(2) have "inj_on card_key (set (sort_cards cs) \<union> set (sort_cards ds))"
    by (auto intro: inj_on_subset [OF card_key_inj])
  ultimately show ?thesis by (rule map_inj_on)
qed

end
