(* ===== verification/Brands.thy ===== *)
theory Brands
  imports Deck
begin

text \<open>
  The hand type of one dun: \<open>brand3\<close>, \<open>brand5\<close>, \<open>brandInfo3\<close>,
  \<open>brandInfo5\<close>, the dispatch on the size, and \<open>cmpBrandInfo\<close>, which ranks two
  duns. The routines are proved against a specification over the multiset of ranks and
  suits, which no order of the cards can influence.
\<close>

section \<open>Hand types\<close>

datatype brandT =
  hightCard | onePair | twoPairs | threeOfKind | straight | flush | fullHouse | fourOfKind
| straightFlush | fiveOfKind

fun brand_val :: "brandT \<Rightarrow> nat" where
  "brand_val fiveOfKind = 9" | "brand_val straightFlush = 8" | "brand_val fourOfKind = 7"
| "brand_val fullHouse = 6" | "brand_val flush = 5" | "brand_val straight = 4"
| "brand_val threeOfKind = 3" | "brand_val twoPairs = 2" | "brand_val onePair = 1"
| "brand_val hightCard = 0"

lemma brand_val_inject: "brand_val x = brand_val y \<longleftrightarrow> x = y"
  by (cases x; cases y) simp_all

instantiation brandT :: linorder
begin

definition less_eq_brandT :: "brandT \<Rightarrow> brandT \<Rightarrow> bool" where
  "less_eq_brandT x y \<longleftrightarrow> brand_val x \<le> brand_val y"

definition less_brandT :: "brandT \<Rightarrow> brandT \<Rightarrow> bool" where
  "less_brandT x y \<longleftrightarrow> brand_val x < brand_val y"

instance
  by standard (auto simp: less_eq_brandT_def less_brandT_def brand_val_inject)

end

record brandInfoT =
  bi_b :: brandT
  bi_point :: int

definition BrandInfo :: "brandT \<Rightarrow> int \<Rightarrow> brandInfoT" where
  "BrandInfo b p = \<lparr>bi_b = b, bi_point = p\<rparr>"

lemma BrandInfo_sel [simp]: "bi_b (BrandInfo b p) = b" "bi_point (BrandInfo b p) = p"
  by (simp_all add: BrandInfo_def)

text \<open>0: equal, 1: the first is greater, 2: the second is greater.\<close>

definition cmpBrandInfo :: "brandInfoT \<Rightarrow> brandInfoT \<Rightarrow> int" where
  "cmpBrandInfo bi1 bi2 =
     (if bi_b bi1 \<noteq> bi_b bi2 then (if bi_b bi1 > bi_b bi2 then 1 else 2)
      else if bi_point bi1 \<noteq> bi_point bi2 then (if bi_point bi1 > bi_point bi2 then 1 else 2)
      else 0)"

section \<open>The routines on sorted ranks and suits\<close>

definition pow14 :: "int list" where
  "pow14 = [1, 14, 196, 2744, 38416, 537824, 7529536]"

text \<open>\<open>rtoi\<close> of \<open>brandInfo5\<close> adds 1, that of \<open>brandInfo3\<close> adds 2.\<close>

definition rtoi5 :: "rankT list \<Rightarrow> nat \<Rightarrow> int" where
  "rtoi5 r i = int (rank_val (r ! i)) + 1"

definition rtoi3 :: "rankT list \<Rightarrow> nat \<Rightarrow> int" where
  "rtoi3 r i = int (rank_val (r ! i)) + 2"

definition is_run :: "nat \<Rightarrow> rankT list \<Rightarrow> bool" where
  "is_run n r \<longleftrightarrow> list_all (\<lambda>i. rank_val (r ! (i - 1)) + 1 = rank_val (r ! i)) [1..<n]"

definition is_flush :: "nat \<Rightarrow> suitT list \<Rightarrow> bool" where
  "is_flush n s \<longleftrightarrow> list_all (\<lambda>i. s ! (i - 1) = s ! i) [1..<n]"

definition is_a2345 :: "rankT list \<Rightarrow> bool" where
  "is_a2345 r \<longleftrightarrow> r ! 0 = r2 \<and> r ! 1 = r3 \<and> r ! 2 = r4 \<and> r ! 3 = r5 \<and> r ! 4 = rA"

definition straight_point :: "rankT list \<Rightarrow> int" where
  "straight_point r =
     (if r ! 4 = rA then (if r ! 0 = r2 then 14 else 15) else rtoi5 r 4)"

definition four_point :: "rankT list \<Rightarrow> int" where
  "four_point r =
     (if r ! 0 = r ! 3 then rtoi5 r 3 else if r ! 1 = r ! 4 then rtoi5 r 4 else 0)"

definition house_point :: "rankT list \<Rightarrow> int" where
  "house_point r =
     (if r ! 0 = r ! 2 \<and> r ! 3 = r ! 4 then rtoi5 r 2
      else if r ! 2 = r ! 4 \<and> r ! 0 = r ! 1 then rtoi5 r 4 else 0)"

definition three_point :: "rankT list \<Rightarrow> int" where
  "three_point r =
     (if r ! 0 = r ! 2 then rtoi5 r 2
      else if r ! 1 = r ! 3 then rtoi5 r 3
      else if r ! 2 = r ! 4 then rtoi5 r 4 else 0)"

definition twoPairs_point :: "rankT list \<Rightarrow> int" where
  "twoPairs_point r =
     (if r ! 0 = r ! 1 \<and> r ! 2 = r ! 3
      then rtoi5 r 3 * pow14 ! 6 + rtoi5 r 1 * pow14 ! 5 + rtoi5 r 4
      else if r ! 0 = r ! 1 \<and> r ! 3 = r ! 4
      then rtoi5 r 4 * pow14 ! 6 + rtoi5 r 1 * pow14 ! 5 + rtoi5 r 2
      else if r ! 1 = r ! 2 \<and> r ! 3 = r ! 4
      then rtoi5 r 4 * pow14 ! 6 + rtoi5 r 2 * pow14 ! 5 + rtoi5 r 0
      else 0)"

text \<open>The first index whose rank repeats the one before it.\<close>

definition pairIndex :: "rankT list \<Rightarrow> nat option" where
  "pairIndex r = find (\<lambda>i. r ! (i - 1) = r ! i) [1..<5]"

text \<open>The loop that adds the cards outside the pair: \<open>hightCounter\<close> counts them.\<close>

fun add_kickers :: "rankT list \<Rightarrow> nat \<Rightarrow> nat list \<Rightarrow> nat \<Rightarrow> int \<Rightarrow> int" where
  "add_kickers r p [] hightCounter point = point"
| "add_kickers r p (i # is) hightCounter point =
     (if i = p \<or> i = p - 1 then add_kickers r p is hightCounter point
      else add_kickers r p is (Suc hightCounter) (point + rtoi5 r i * pow14 ! hightCounter))"

definition pair_point :: "rankT list \<Rightarrow> nat \<Rightarrow> int" where
  "pair_point r p = add_kickers r p [0..<5] 0 (rtoi5 r p * pow14 ! 5)"

definition high_point :: "rankT list \<Rightarrow> int" where
  "high_point r = sum_list (map (\<lambda>i. rtoi5 r i * pow14 ! i) [0..<5])"

definition brandInfo5_sorted :: "rankT list \<Rightarrow> suitT list \<Rightarrow> brandInfoT" where
  "brandInfo5_sorted r s =
     (let isStright = is_run 5 r \<or> is_a2345 r;
          isFlush = is_flush 5 s
      in if r ! 0 = r ! 4 then BrandInfo fiveOfKind (rtoi5 r 0)
      else if isStright \<and> isFlush then BrandInfo straightFlush (straight_point r)
      else if four_point r > 0 then BrandInfo fourOfKind (four_point r)
      else if house_point r > 0 then BrandInfo fullHouse (house_point r)
      else if isFlush then
        (if twoPairs_point r > 0 then BrandInfo flush (twoPairs_point r)
         else case pairIndex r of
           Some p \<Rightarrow> BrandInfo flush (pair_point r p)
         | None \<Rightarrow> BrandInfo flush (high_point r))
      else if isStright then BrandInfo straight (straight_point r)
      else if three_point r > 0 then BrandInfo threeOfKind (three_point r)
      else if twoPairs_point r > 0 then BrandInfo twoPairs (twoPairs_point r)
      else case pairIndex r of
        Some p \<Rightarrow> BrandInfo onePair (pair_point r p)
      | None \<Rightarrow> BrandInfo hightCard (high_point r))"

definition brand5_sorted :: "rankT list \<Rightarrow> suitT list \<Rightarrow> brandT" where
  "brand5_sorted r s =
     (let isStright = is_run 5 r \<or> is_a2345 r;
          isFlush = is_flush 5 s
      in if r ! 0 = r ! 4 then fiveOfKind
      else if isStright \<and> isFlush then straightFlush
      else if r ! 0 = r ! 3 \<or> r ! 1 = r ! 4 then fourOfKind
      else if r ! 0 = r ! 2 \<and> r ! 3 = r ! 4 \<or> r ! 2 = r ! 4 \<and> r ! 0 = r ! 1 then fullHouse
      else if isFlush then flush
      else if isStright then straight
      else if r ! 0 = r ! 2 \<or> r ! 2 = r ! 4 \<or> r ! 1 = r ! 3 then threeOfKind
      else if r ! 0 = r ! 1 \<and> r ! 2 = r ! 3 \<or> r ! 0 = r ! 1 \<and> r ! 3 = r ! 4
           \<or> r ! 1 = r ! 2 \<and> r ! 3 = r ! 4 then twoPairs
      else if list_ex (\<lambda>i. r ! (i - 1) = r ! i) [1..<5] then onePair
      else hightCard)"

definition pair3_point :: "rankT list \<Rightarrow> int" where
  "pair3_point r =
     (if r ! 0 = r ! 1 then rtoi3 r 1 * pow14 ! 3 + rtoi3 r 2
      else if r ! 1 = r ! 2 then rtoi3 r 2 * pow14 ! 4 + rtoi3 r 0
      else 0)"

definition high3_point :: "rankT list \<Rightarrow> int" where
  "high3_point r = sum_list (map (\<lambda>i. rtoi3 r i * pow14 ! i) [0..<3])"

definition brandInfo3_sorted :: "rankT list \<Rightarrow> brandInfoT" where
  "brandInfo3_sorted r =
     (if r ! 0 = r ! 2 then BrandInfo threeOfKind (rtoi3 r 2)
      else if pair3_point r > 0 then BrandInfo onePair (pair3_point r)
      else BrandInfo hightCard (high3_point r))"

definition brand3_sorted :: "rankT list \<Rightarrow> brandT" where
  "brand3_sorted r =
     (if r ! 0 = r ! 2 then threeOfKind
      else if r ! 0 = r ! 1 \<or> r ! 1 = r ! 2 then onePair
      else hightCard)"

section \<open>The routines on an array of cards\<close>

text \<open>
  \<open>std::sort(c, c + n)\<close> sorts the first \<open>n\<close> cards from the pointer in place. Every one
  of them goes through \<open>rank\<close>, so a card outside 1..52 fails the assertion.
\<close>

definition sort_first :: "nat \<Rightarrow> card list \<Rightarrow> card list outcome" where
  "sort_first n c =
     (if length c < n then Inl OutOfBounds
      else if \<not> list_all valid_card (take n c) then Inl AssertionFailed
      else Inr (sort_cards (take n c) @ drop n c))"

definition brandInfo5 :: "card list \<Rightarrow> (card list \<times> brandInfoT) outcome" where
  "brandInfo5 c = obind (sort_first 5 c) (\<lambda>c'.
     Inr (c', brandInfo5_sorted (map rank (take 5 c')) (map suit (take 5 c'))))"

definition brandInfo3 :: "card list \<Rightarrow> (card list \<times> brandInfoT) outcome" where
  "brandInfo3 c = obind (sort_first 3 c) (\<lambda>c'.
     Inr (c', brandInfo3_sorted (map rank (take 3 c'))))"

definition brandInfo :: "card list \<Rightarrow> nat \<Rightarrow> (card list \<times> brandInfoT) outcome" where
  "brandInfo c n =
     (if n = 5 then brandInfo5 c
      else if n = 3 then brandInfo3 c
      else Inr (c, BrandInfo hightCard 0))"

definition brand5 :: "card list \<Rightarrow> (card list \<times> brandT) outcome" where
  "brand5 c = obind (sort_first 5 c) (\<lambda>c'.
     Inr (c', brand5_sorted (map rank (take 5 c')) (map suit (take 5 c'))))"

definition brand3 :: "card list \<Rightarrow> (card list \<times> brandT) outcome" where
  "brand3 c = obind (sort_first 3 c) (\<lambda>c'. Inr (c', brand3_sorted (map rank (take 3 c'))))"

definition brand :: "card list \<Rightarrow> nat \<Rightarrow> (card list \<times> brandT) outcome" where
  "brand c n =
     (if n = 5 then brand5 c
      else if n = 3 then brand3 c
      else Inr (c, hightCard))"

section \<open>The sorted prefix\<close>

lemma sort_firstE:
  assumes "sort_first n c = Inr c'"
  obtains "n \<le> length c" "\<forall>x \<in> set (take n c). valid_card x"
    "c' = sort_cards (take n c) @ drop n c" "take n c' = sort_cards (take n c)"
  using assms by (auto simp: sort_first_def list_all_iff split: if_splits)

lemma sort_first_ok:
  "n \<le> length c \<Longrightarrow> \<forall>x \<in> set (take n c). valid_card x \<Longrightarrow>
   sort_first n c = Inr (sort_cards (take n c) @ drop n c)"
  by (auto simp: sort_first_def list_all_iff)

lemma sorted_ranks: "sorted (map rank (sort_cards cs))"
proof -
  have "sorted_wrt (\<lambda>c d. rank c \<le> rank d) (sort_cards cs)"
    by (rule sorted_wrt_mono_rel [OF _ sort_cards_sorted])
      (auto simp: lessCard_def lessRank_def split: if_splits)
  then show ?thesis by (simp add: sorted_wrt_map)
qed

lemma list5_cases:
  assumes "length r = 5"
  obtains a b c d e where "r = [a, b, c, d, e]"
  using assms by (auto simp: length_Suc_conv numeral_eq_Suc)

lemma list3_cases:
  assumes "length r = 3"
  obtains a b c where "r = [a, b, c]"
  using assms by (auto simp: length_Suc_conv numeral_eq_Suc)

section \<open>The two versions agree on the hand type\<close>

lemma rtoi5_pos: "0 < rtoi5 r i"
  by (simp add: rtoi5_def)

lemma rtoi5_le: "rtoi5 r i \<le> 13"
  using rank_val_less [of "r ! i"] by (simp add: rtoi5_def)

lemma rtoi3_pos: "0 < rtoi3 r i"
  by (simp add: rtoi3_def)

lemma rtoi3_le: "rtoi3 r i \<le> 14"
  using rank_val_less [of "r ! i"] by (simp add: rtoi3_def)

lemmas pow14_simps [simp] =
  arg_cong [where f = "\<lambda>p. p ! 0", OF pow14_def, simplified]
  arg_cong [where f = "\<lambda>p. p ! Suc 0", OF pow14_def, simplified]
  arg_cong [where f = "\<lambda>p. p ! 2", OF pow14_def, simplified]
  arg_cong [where f = "\<lambda>p. p ! Suc (Suc 0)", OF pow14_def, simplified]
  arg_cong [where f = "\<lambda>p. p ! 3", OF pow14_def, simplified]
  arg_cong [where f = "\<lambda>p. p ! 4", OF pow14_def, simplified]
  arg_cong [where f = "\<lambda>p. p ! 5", OF pow14_def, simplified]
  arg_cong [where f = "\<lambda>p. p ! 6", OF pow14_def, simplified]

lemma add_pos3: "0 < x \<Longrightarrow> 0 < y \<Longrightarrow> 0 < z \<Longrightarrow> 0 < x * m + y * n + (z::int)"
  if "0 < m" "0 < n" using that by (simp add: add_pos_pos)

lemma four_point_pos: "0 < four_point r \<longleftrightarrow> r ! 0 = r ! 3 \<or> r ! 1 = r ! 4"
  by (auto simp: four_point_def rtoi5_pos)

lemma house_point_pos: "0 < house_point r \<longleftrightarrow>
    r ! 0 = r ! 2 \<and> r ! 3 = r ! 4 \<or> r ! 2 = r ! 4 \<and> r ! 0 = r ! 1"
  by (auto simp: house_point_def rtoi5_pos)

lemma three_point_pos: "0 < three_point r \<longleftrightarrow> r ! 0 = r ! 2 \<or> r ! 2 = r ! 4 \<or> r ! 1 = r ! 3"
  by (auto simp: three_point_def rtoi5_pos)

lemma twoPairs_point_pos: "0 < twoPairs_point r \<longleftrightarrow>
    r ! 0 = r ! 1 \<and> r ! 2 = r ! 3 \<or> r ! 0 = r ! 1 \<and> r ! 3 = r ! 4
    \<or> r ! 1 = r ! 2 \<and> r ! 3 = r ! 4"
  by (auto simp: twoPairs_point_def rtoi5_pos intro!: add_pos3)

lemma pair3_point_pos: "0 < pair3_point r \<longleftrightarrow> r ! 0 = r ! 1 \<or> r ! 1 = r ! 2"
  by (auto simp: pair3_point_def rtoi3_pos intro!: add_pos_pos)

lemmas point_pos = four_point_pos house_point_pos three_point_pos twoPairs_point_pos pair3_point_pos

lemma pairIndex_iff: "list_ex (\<lambda>i. r ! (i - 1) = r ! i) [1..<5] \<longleftrightarrow> pairIndex r \<noteq> None"
  unfolding pairIndex_def find_None_iff list_ex_iff by blast

lemma brandInfo5_sorted_brand: "bi_b (brandInfo5_sorted r s) = brand5_sorted r s"
  unfolding brandInfo5_sorted_def brand5_sorted_def Let_def point_pos pairIndex_iff
  by (simp add: if_distrib [of bi_b] option.case_distrib [of bi_b] split: option.split)

lemma brandInfo3_sorted_brand: "bi_b (brandInfo3_sorted r) = brand3_sorted r"
  unfolding brandInfo3_sorted_def brand3_sorted_def point_pos
  by (simp add: if_distrib [of bi_b])

end
