(* ===== verification/SpecialBrand.thy ===== *)
theory SpecialBrand
  imports Brands
begin

text \<open>
  The special hands of all thirteen cards: \<open>g13SpecialBrandByDun\<close> (from the front
  dun and the types of the other two), \<open>g13SpecialBrandByAll\<close> (from all cards) and
  their composition, with the in-place sorting both do.
\<close>

section \<open>Special hands\<close>

datatype g13SpecialBrandT =
  g13_none | tripleFlush | tripleStraight | sixPairs | pentaPairsAndThreeOfKind
| quradThreeOfKind | redOrBlack | allLittle | allBig | tripleBombs | tripleStraightFlush
| royal | g13_straight | flushStriaght

fun g13_val :: "g13SpecialBrandT \<Rightarrow> int" where
  "g13_val flushStriaght = 135" | "g13_val g13_straight = 124" | "g13_val royal = 113"
| "g13_val tripleStraightFlush = 103" | "g13_val tripleBombs = 93" | "g13_val allBig = 82"
| "g13_val allLittle = 72" | "g13_val redOrBlack = 62" | "g13_val quradThreeOfKind = 52"
| "g13_val pentaPairsAndThreeOfKind = 42" | "g13_val sixPairs = 32"
| "g13_val tripleStraight = 22" | "g13_val tripleFlush = 12" | "g13_val g13_none = 0"

definition byDun_sorted :: "rankT list \<Rightarrow> suitT list \<Rightarrow> brandT \<Rightarrow> brandT \<Rightarrow> g13SpecialBrandT" where
  "byDun_sorted r s b2 b3 =
     (let isStright = (r ! 0 = r ! 1 \<and> r ! 1 = r ! 2);
          isFlush = (s ! 0 = s ! 1 \<and> s ! 1 = s ! 2)
      in if isStright \<and> isFlush \<and> b2 = straightFlush \<and> b3 = straightFlush then tripleStraightFlush
      else if isStright \<and> b2 = straight \<and> b3 = straight then tripleStraight
      else if isFlush \<and> b2 = flush \<and> b3 = flush then tripleFlush
      else g13_none)"

definition g13SpecialBrandByDun :: "card list \<Rightarrow> brandT \<Rightarrow> brandT \<Rightarrow> (card list \<times> g13SpecialBrandT) outcome" where
  "g13SpecialBrandByDun c b2 b3 = obind (sort_first 3 c) (\<lambda>c'.
     Inr (c', byDun_sorted (map rank (take 3 c')) (map suit (take 3 c')) b2 b3))"

definition tripleBombs_at :: "rankT list \<Rightarrow> bool" where
  "tripleBombs_at r \<longleftrightarrow>
     r ! 1 = r ! 4 \<and> r ! 5 = r ! 8 \<and> r ! 9 = r ! 12 \<or>
     r ! 0 = r ! 3 \<and> r ! 5 = r ! 8 \<and> r ! 9 = r ! 12 \<or>
     r ! 0 = r ! 3 \<and> r ! 4 = r ! 7 \<and> r ! 9 = r ! 12 \<or>
     r ! 0 = r ! 3 \<and> r ! 4 = r ! 7 \<and> r ! 8 = r ! 11"

definition quradThree_at :: "rankT list \<Rightarrow> bool" where
  "quradThree_at r \<longleftrightarrow>
     r ! 1 = r ! 3 \<and> r ! 4 = r ! 6 \<and> r ! 7 = r ! 9 \<and> r ! 10 = r ! 12 \<or>
     r ! 0 = r ! 2 \<and> r ! 4 = r ! 6 \<and> r ! 7 = r ! 9 \<and> r ! 10 = r ! 12 \<or>
     r ! 0 = r ! 2 \<and> r ! 3 = r ! 5 \<and> r ! 7 = r ! 9 \<and> r ! 10 = r ! 12 \<or>
     r ! 0 = r ! 2 \<and> r ! 3 = r ! 5 \<and> r ! 6 = r ! 8 \<and> r ! 10 = r ! 12 \<or>
     r ! 0 = r ! 2 \<and> r ! 3 = r ! 5 \<and> r ! 6 = r ! 8 \<and> r ! 9 = r ! 11"

text \<open>The loop that counts pairs: it looks at \<open>i - 1\<close>, \<open>i\<close> and \<open>i + 1\<close> and stops before the last card.\<close>

function pair_loop :: "rankT list \<Rightarrow> nat \<Rightarrow> nat \<Rightarrow> bool \<Rightarrow> nat \<times> bool" where
  "pair_loop r i pairSize have3Kind =
     (if i < 12 then
        (if r ! (i - 1) = r ! i then
           (if r ! (i + 1) = r ! i then pair_loop r (i + 3) pairSize True
            else pair_loop r (i + 2) (pairSize + 1) have3Kind)
         else pair_loop r (i + 1) pairSize have3Kind)
      else (pairSize, have3Kind))"
  by pat_completeness auto
termination
  by (relation "measure (\<lambda>(r, i, p, h). 12 - i)") auto

declare pair_loop.simps [simp del]

definition count_pairs :: "rankT list \<Rightarrow> nat \<times> bool" where
  "count_pairs r =
     pair_loop r 1 (if r ! 11 = r ! 12 \<and> r ! 10 \<noteq> r ! 12 then 1 else 0) False"

definition byAll_sorted :: "rankT list \<Rightarrow> suitT list \<Rightarrow> g13SpecialBrandT \<Rightarrow> g13SpecialBrandT" where
  "byAll_sorted r s dun =
     (let isStright = is_run 13 r;
          isFlush = is_flush 13 s;
          allRed = list_all (\<lambda>i. s ! i = heart \<or> s ! i = diamond) [0..<13];
          allBlack = list_all (\<lambda>i. s ! i = spade \<or> s ! i = club) [0..<13];
          (pairSize, have3Kind) = count_pairs r
      in if isStright \<and> isFlush then flushStriaght
      else if isStright then g13_straight
      else if r ! 0 \<ge> rJ then royal
      else if dun = tripleStraightFlush then dun
      else if tripleBombs_at r then tripleBombs
      else if r ! 0 \<ge> r8 then allBig
      else if r ! 12 \<le> r8 then allLittle
      else if allRed \<or> allBlack then redOrBlack
      else if quradThree_at r then quradThreeOfKind
      else if have3Kind \<and> pairSize = 5 then pentaPairsAndThreeOfKind
      else if pairSize = 6 then sixPairs
      else dun)"

definition g13SpecialBrandByAll :: "card list \<Rightarrow> g13SpecialBrandT \<Rightarrow> (card list \<times> g13SpecialBrandT) outcome" where
  "g13SpecialBrandByAll c dun = obind (sort_first 13 c) (\<lambda>c'.
     Inr (c', byAll_sorted (map rank (take 13 c')) (map suit (take 13 c')) dun))"

definition g13SpecialBrand :: "card list \<Rightarrow> brandT \<Rightarrow> brandT \<Rightarrow> (card list \<times> g13SpecialBrandT) outcome" where
  "g13SpecialBrand c b2 b3 = obind (g13SpecialBrandByDun c b2 b3) (\<lambda>(c', dun).
     g13SpecialBrandByAll c' dun)"

section \<open>Counting pairs\<close>

text \<open>The loop read off the rest of the array, from the card before index \<open>i\<close> on.\<close>

fun pairs_of :: "'a list \<Rightarrow> nat \<times> bool" where
  "pairs_of (x # y # z # zs) =
     (if x = y then
        (if z = y then (fst (pairs_of zs), True)
         else (fst (pairs_of (z # zs)) + 1, snd (pairs_of (z # zs))))
      else pairs_of (y # z # zs))"
| "pairs_of xs = (0, False)"

lemma pairs_of_short: "length xs \<le> 2 \<Longrightarrow> pairs_of xs = (0, False)"
  by (cases xs rule: pairs_of.cases) auto

lemma drop_three: "i + 2 < length xs \<Longrightarrow> drop i xs = xs ! i # xs ! (i + 1) # xs ! (i + 2) # drop (i + 3) xs"
  by (simp add: Cons_nth_drop_Suc numeral_3_eq_3)

lemma pair_loop_pairs_of:
  assumes "length r = 13" and "1 \<le> i"
  shows "pair_loop r i p h =
    (p + fst (pairs_of (drop (i - 1) r)), h \<or> snd (pairs_of (drop (i - 1) r)))"
  using assms
proof (induction r i p h rule: pair_loop.induct)
  case (1 r i p h)
  show ?case
  proof (cases "i < 12")
    case True
    obtain j where i: "i = Suc j" using "1.prems" by (cases i) auto
    have d: "drop j r = r ! j # r ! Suc j # r ! Suc (Suc j) # drop (Suc (Suc (Suc j))) r"
      using True "1.prems" drop_three [of j r] by (simp add: i numeral_3_eq_3)
    have d1: "drop (Suc j) r = r ! Suc j # r ! Suc (Suc j) # drop (Suc (Suc (Suc j))) r"
      and d2: "drop (Suc (Suc j)) r = r ! Suc (Suc j) # drop (Suc (Suc (Suc j))) r"
      using True "1.prems" by (simp_all add: i Cons_nth_drop_Suc)
    show ?thesis
      using True "1.IH" "1.prems" unfolding i
      by (subst pair_loop.simps) (simp add: d d1 d2 numeral_3_eq_3 split: if_splits)
  next
    case False
    then have "length (drop (i - 1) r) \<le> 2" using "1.prems" by simp
    then have "pairs_of (drop (i - 1) r) = (0, False)" by (rule pairs_of_short)
    with False show ?thesis by (subst pair_loop.simps) simp
  qed
qed

text \<open>
  The two cards the loop leaves out: the last two are a pair of their own when the third
  last differs.
\<close>

fun tail_pair :: "'a list \<Rightarrow> bool" where
  "tail_pair [x, y] = (x = y)"
| "tail_pair [x, y, z] = (y = z \<and> x \<noteq> y)"
| "tail_pair (x # y # z # u # zs) = tail_pair (y # z # u # zs)"
| "tail_pair xs = False"

definition exact_pairs :: "'a list \<Rightarrow> 'a set" where
  "exact_pairs xs = {x \<in> set xs. count_list xs x = 2}"

lemma finite_exact_pairs [simp]: "finite (exact_pairs xs)"
  by (simp add: exact_pairs_def)

lemma exact_pairs_count: "exact_pairs xs = {x. count_list xs x = 2}"
  by (auto simp: exact_pairs_def) (metis count_notin zero_neq_numeral)

lemma exact_pairs_drop3: "count_list zs x \<le> 1 \<Longrightarrow> exact_pairs (x # x # x # zs) = exact_pairs zs"
  by (auto simp: exact_pairs_def)

lemma exact_pairs_drop2: "x \<notin> set zs \<Longrightarrow> exact_pairs (x # x # zs) = insert x (exact_pairs zs)"
  by (auto simp: exact_pairs_def)

lemma exact_pairs_drop1: "x \<notin> set zs \<Longrightarrow> exact_pairs (x # zs) = exact_pairs zs"
  by (auto simp: exact_pairs_def)

lemma tail_pair_drop3: "count_list zs x \<le> 1 \<Longrightarrow> tail_pair (x # x # x # zs) = tail_pair zs"
  by (cases zs rule: tail_pair.cases) auto

lemma tail_pair_drop2: "x \<noteq> z \<Longrightarrow> tail_pair (x # x # z # zs) = tail_pair (z # zs)"
  by (cases zs rule: tail_pair.cases) auto

lemma tail_pair_drop1: "x \<noteq> y \<Longrightarrow> tail_pair (x # y # zs) = tail_pair (y # zs)"
  by (cases zs rule: tail_pair.cases) auto

lemma pairs_of_correct:
  fixes xs :: "'a::linorder list"
  assumes "sorted xs" and "\<forall>x. count_list xs x \<le> 4"
  shows "fst (pairs_of xs) + (if tail_pair xs then 1 else 0) = card (exact_pairs xs)
    \<and> (snd (pairs_of xs) \<longleftrightarrow> (\<exists>x. 3 \<le> count_list xs x))"
  using assms
proof (induction xs rule: pairs_of.induct)
  case (1 x y z zs)
  have mono: "count_list ws v \<le> count_list (w # ws) v" for w v :: 'a and ws by simp
  show ?case
  proof (cases "x = y")
    case xy: True
    show ?thesis
    proof (cases "z = y")
      case True
      have "count_list (x # y # z # zs) x \<le> 4" using "1.prems"(2) by blast
      then have c: "count_list zs x \<le> 1" using xy True by simp
      have "\<forall>v. count_list zs v \<le> 4" using "1.prems"(2) mono by (meson le_trans)
      with "1.IH"(1) [OF xy True] "1.prems"(1)
      have "fst (pairs_of zs) + (if tail_pair zs then 1 else 0) = card (exact_pairs zs)" by simp
      moreover have "\<exists>v. 3 \<le> count_list (x # y # z # zs) v" using xy True by (intro exI [of _ x]) simp
      ultimately show ?thesis
        using xy True tail_pair_drop3 [OF c] exact_pairs_drop3 [OF c] by simp
    next
      case False
      have "x \<notin> set (z # zs)" using "1.prems"(1) xy False by auto
      note d = exact_pairs_drop2 [OF this] this
      have "\<forall>v. count_list (z # zs) v \<le> 4" using "1.prems"(2) mono by (meson le_trans)
      with "1.IH"(2) [OF xy False] "1.prems"(1)
      have IH: "fst (pairs_of (z # zs)) + (if tail_pair (z # zs) then 1 else 0) = card (exact_pairs (z # zs))"
        "snd (pairs_of (z # zs)) \<longleftrightarrow> (\<exists>v. 3 \<le> count_list (z # zs) v)" by simp_all
      have "x \<notin> exact_pairs (z # zs)" using d(2) by (simp add: exact_pairs_def)
      then have "card (exact_pairs (x # x # z # zs)) = Suc (card (exact_pairs (z # zs)))" using d(1) by simp
      moreover have "(\<exists>v. 3 \<le> count_list (x # x # z # zs) v) \<longleftrightarrow> (\<exists>v. 3 \<le> count_list (z # zs) v)"
        using d(2) by (intro ex_cong1) (auto simp: count_list_0_iff)
      ultimately show ?thesis
        using IH xy False tail_pair_drop2 [of x z zs] by (simp split: if_splits)
    qed
  next
    case False
    then have n: "x \<notin> set (y # z # zs)" using "1.prems"(1) by auto
    have "\<forall>v. count_list (y # z # zs) v \<le> 4" using "1.prems"(2) mono by (meson le_trans)
    with "1.IH"(4) [OF False] "1.prems"(1)
    have IH: "fst (pairs_of (y # z # zs)) + (if tail_pair (y # z # zs) then 1 else 0)
        = card (exact_pairs (y # z # zs))"
      "snd (pairs_of (y # z # zs)) \<longleftrightarrow> (\<exists>v. 3 \<le> count_list (y # z # zs) v)" by simp_all
    have "(\<exists>v. 3 \<le> count_list (x # y # z # zs) v) \<longleftrightarrow> (\<exists>v. 3 \<le> count_list (y # z # zs) v)"
      using n by (intro ex_cong1) (auto simp: count_list_0_iff)
    then show ?thesis
      using IH False tail_pair_drop1 [OF False, of "z # zs"] exact_pairs_drop1 [OF n] by simp
  qed
qed (auto simp: exact_pairs_def)

end
