(* ===== verification/GameTypes.thy ===== *)
theory GameTypes
  imports SpecialBrand
begin

text \<open>
  The data of one game of \<^verbatim>\<open>processes/lobby/game13.h\<close>: the attributes fixed when
  the room is made, the seats, and what one round's settlement records for each seat.
  The player status and the vote are the enumerations of
  \<^verbatim>\<open>protocol/protobuf/public/client.proto\<close>.
\<close>

datatype gameStatus = prepare | play | vote | settle | settleAll | closed

datatype playerStatus = NONE | PREP | READY | SORT | COMPARE | DONE

datatype voteOfAbort = VT_NONE | VT_AYE | VT_NAY

record gameAttr =
  at_roomId :: u32
  at_playType :: nat
  at_rounds :: int
  at_payor :: u32
  at_daQiang :: u32
  at_quanLeiDa :: bool
  at_yiTiaoLong :: u32
  at_playerSize :: nat

definition GP_52 :: nat where "GP_52 = 52"
definition GP_65 :: nat where "GP_65 = 65"

definition PAY_BANKER :: u32 where "PAY_BANKER = 10"
definition PAY_SHARE_EQU :: u32 where "PAY_SHARE_EQU = 11"
definition PAY_WINNER :: u32 where "PAY_WINNER = 12"

record playerInfo =
  pi_cuid :: u64
  pi_name :: string
  pi_status :: playerStatus
  pi_money :: int
  pi_cards :: "card list"
  pi_vote :: voteOfAbort

text \<open>
  A seat as \<open>std::vector::resize\<close> makes it. The cards of a new seat are indeterminate
  in the source (no initialiser); nothing reads them before they are dealt, and here they
  are zeros. \<open>clear\<close> leaves the cards and the vote.
\<close>

definition PlayerInfo :: playerInfo where
  "PlayerInfo = \<lparr>pi_cuid = 0, pi_name = [], pi_status = NONE, pi_money = 0,
     pi_cards = replicate 13 0, pi_vote = VT_NONE\<rparr>"

definition clear :: "playerInfo \<Rightarrow> playerInfo" where
  "clear p = p\<lparr>pi_cuid := 0, pi_name := [], pi_status := NONE, pi_money := 0\<rparr>"

text \<open>\<open>losers\<close> is the \<open>std::map\<close> from a seat index to \<open>{score, swept}\<close>.\<close>

record playerData =
  pd_cuid :: u64
  pd_name :: string
  pd_cards :: "card list"
  pd_dun :: "brandInfoT list"
  pd_spec :: g13SpecialBrandT
  pd_prize :: int
  pd_losers :: "(nat \<times> int \<times> int) list"
  pd_quanLeiDa :: bool

end
