(* ===== verification/BrandSpec.thy ===== *)
theory BrandSpec
  imports Brands "HOL-Library.List_Lexorder"
begin

text \<open>
  What the hand types mean, stated without arrays, positions or sorting: a hand type is
  a property of how often each rank occurs, of whether the suits agree and of whether
  the ranks are consecutive; the tie-break compares the paired ranks and then the single
  ranks from the highest down.
\<close>

section \<open>The hand type of five cards\<close>

definition run_spec :: "nat multiset \<Rightarrow> bool" where
  "run_spec V \<longleftrightarrow> (\<exists>k. V = mset [k, k + 1, k + 2, k + 3, k + 4]) \<or> V = mset [0, 1, 2, 3, 12]"

definition flush_spec :: "suitT multiset \<Rightarrow> bool" where
  "flush_spec S \<longleftrightarrow> (\<forall>x \<in># S. \<forall>y \<in># S. x = y)"

definition brand5_spec :: "nat multiset \<Rightarrow> suitT multiset \<Rightarrow> brandT" where
  "brand5_spec V S =
     (if \<exists>x \<in># V. count V x = 5 then fiveOfKind
      else if run_spec V \<and> flush_spec S then straightFlush
      else if \<exists>x \<in># V. count V x = 4 then fourOfKind
      else if (\<exists>x \<in># V. count V x = 3) \<and> (\<exists>x \<in># V. count V x = 2) then fullHouse
      else if flush_spec S then flush
      else if run_spec V then straight
      else if \<exists>x \<in># V. count V x = 3 then threeOfKind
      else if \<exists>x \<in># V. \<exists>y \<in># V. x \<noteq> y \<and> count V x = 2 \<and> count V y = 2 then twoPairs
      else if \<exists>x \<in># V. count V x = 2 then onePair
      else hightCard)"

definition card_vals :: "card list \<Rightarrow> nat multiset" where
  "card_vals cs = image_mset (\<lambda>c. rank_val (rank c)) (mset cs)"

definition card_suits :: "card list \<Rightarrow> suitT multiset" where
  "card_suits cs = image_mset suit (mset cs)"

lemma mset_eq_sorted_iff:
  "sorted xs \<Longrightarrow> sorted ys \<Longrightarrow> mset xs = mset ys \<longleftrightarrow> xs = (ys :: nat list)"
  by (metis properties_for_sort sorted_sort_id)

lemma rank_eq_iff: "r = s \<longleftrightarrow> rank_val r = rank_val s"
  by (simp add: rank_val_inject)

lemma is_run5: "is_run 5 [a, b, c, d, e] \<longleftrightarrow>
    rank_val b = rank_val a + 1 \<and> rank_val c = rank_val a + 2 \<and> rank_val d = rank_val a + 3
    \<and> rank_val e = rank_val a + 4"
  by (auto simp: is_run_def)

lemma is_a2345_vals: "is_a2345 [a, b, c, d, e] \<longleftrightarrow>
    rank_val a = 0 \<and> rank_val b = 1 \<and> rank_val c = 2 \<and> rank_val d = 3 \<and> rank_val e = 12"
  by (simp add: is_a2345_def rank_eq_iff)

lemma is_flush5: "is_flush 5 [a, b, c, d, e] \<longleftrightarrow> flush_spec (mset [a, b, c, d, e])"
  by (auto simp: is_flush_def flush_spec_def)

lemma run_spec_sorted:
  assumes "sorted [a, b, c, d, e]"
  shows "run_spec (mset [a, b, c, d, e]) \<longleftrightarrow>
    b = a + 1 \<and> c = a + 2 \<and> d = a + 3 \<and> e = a + 4 \<or> [a, b, c, d, e] = [0, 1, 2, 3, 12]"
proof -
  have "mset [a, b, c, d, e] = mset [k, k + 1, k + 2, k + 3, k + 4] \<longleftrightarrow>
      [a, b, c, d, e] = [k, k + 1, k + 2, k + 3, k + 4]" for k
    by (rule mset_eq_sorted_iff [OF assms]) simp
  moreover have "mset [a, b, c, d, e] = mset [0, 1, 2, 3, 12] \<longleftrightarrow> [a, b, c, d, e] = [0, 1, 2, 3, 12]"
    by (rule mset_eq_sorted_iff [OF assms]) simp
  ultimately show ?thesis unfolding run_spec_def by auto
qed

text \<open>How often a rank occurs among five ranks in order, by the pattern of equal neighbours.\<close>

lemma counts5:
  assumes "sorted [a, b, c, d, e :: nat]"
  defines "V \<equiv> mset [a, b, c, d, e]"
  shows "(\<exists>x \<in># V. count V x = 5) \<longleftrightarrow> a = b \<and> b = c \<and> c = d \<and> d = e"
    and "(\<exists>x \<in># V. count V x = 4) \<longleftrightarrow>
      a = b \<and> b = c \<and> c = d \<and> d \<noteq> e \<or> a \<noteq> b \<and> b = c \<and> c = d \<and> d = e"
    and "(\<exists>x \<in># V. count V x = 3) \<longleftrightarrow> a = b \<and> b = c \<and> c \<noteq> d
      \<or> a \<noteq> b \<and> b = c \<and> c = d \<and> d \<noteq> e \<or> b \<noteq> c \<and> c = d \<and> d = e"
    and "(\<exists>x \<in># V. count V x = 2) \<longleftrightarrow>
      a = b \<and> b \<noteq> c \<or> a \<noteq> b \<and> b = c \<and> c \<noteq> d \<or> b \<noteq> c \<and> c = d \<and> d \<noteq> e \<or> c \<noteq> d \<and> d = e"
    and "(\<exists>x \<in># V. \<exists>y \<in># V. x \<noteq> y \<and> count V x = 2 \<and> count V y = 2) \<longleftrightarrow>
      a = b \<and> b \<noteq> c \<and> c = d \<and> d \<noteq> e \<or> a = b \<and> b \<noteq> c \<and> c \<noteq> d \<and> d = e
      \<or> a \<noteq> b \<and> b = c \<and> c \<noteq> d \<and> d = e"
  using assms(1) unfolding V_def
  by (cases "a = b"; cases "b = c"; cases "c = d"; cases "d = e"; force)+

text \<open>Among ranks in order, two positions hold one rank only if all between them do.\<close>

lemma sorted5_eq:
  assumes "sorted [a, b, c, d, e :: rankT]"
  shows "a = c \<longleftrightarrow> a = b \<and> b = c" "a = d \<longleftrightarrow> a = b \<and> b = c \<and> c = d"
    "a = e \<longleftrightarrow> a = b \<and> b = c \<and> c = d \<and> d = e" "b = d \<longleftrightarrow> b = c \<and> c = d"
    "b = e \<longleftrightarrow> b = c \<and> c = d \<and> d = e" "c = e \<longleftrightarrow> c = d \<and> d = e"
  using assms by (auto intro: antisym)

text \<open>The hand type by which neighbours in order are equal.\<close>

definition brand5_pattern :: "bool \<Rightarrow> bool \<Rightarrow> bool \<Rightarrow> bool \<Rightarrow> bool \<Rightarrow> bool \<Rightarrow> brandT" where
  "brand5_pattern p q u v R F =
     (if p \<and> q \<and> u \<and> v then fiveOfKind
      else if R \<and> F then straightFlush
      else if p \<and> q \<and> u \<or> q \<and> u \<and> v then fourOfKind
      else if p \<and> q \<and> v \<or> u \<and> v \<and> p then fullHouse
      else if F then flush
      else if R then straight
      else if p \<and> q \<or> u \<and> v \<or> q \<and> u then threeOfKind
      else if p \<and> u \<or> p \<and> v \<or> q \<and> v then twoPairs
      else if p \<or> q \<or> u \<or> v then onePair
      else hightCard)"

lemma brand5_patternD:
  "brand5_pattern p q u v R F = hightCard \<Longrightarrow> \<not> p \<and> \<not> q \<and> \<not> u \<and> \<not> v"
  "brand5_pattern p q u v R F = onePair \<Longrightarrow>
     p \<and> \<not> q \<and> \<not> u \<and> \<not> v \<or> \<not> p \<and> q \<and> \<not> u \<and> \<not> v
     \<or> \<not> p \<and> \<not> q \<and> u \<and> \<not> v \<or> \<not> p \<and> \<not> q \<and> \<not> u \<and> v"
  "brand5_pattern p q u v R F = twoPairs \<Longrightarrow>
     p \<and> \<not> q \<and> u \<and> \<not> v \<or> p \<and> \<not> q \<and> \<not> u \<and> v \<or> \<not> p \<and> q \<and> \<not> u \<and> v"
  unfolding brand5_pattern_def
  by (cases p; cases q; cases u; cases v; cases R; cases F; simp)+

lemma brand5_sorted_pattern:
  assumes "sorted [a, b, c, d, e :: rankT]"
  shows "brand5_sorted [a, b, c, d, e] s = brand5_pattern (a = b) (b = c) (c = d) (d = e)
    (is_run 5 [a, b, c, d, e] \<or> is_a2345 [a, b, c, d, e]) (is_flush 5 s)"
proof -
  let ?r = "[a, b, c, d, e]"
  have nth: "?r ! 0 = a" "?r ! 1 = b" "?r ! 2 = c" "?r ! 3 = d" "?r ! 4 = e" by simp_all
  have ex: "list_ex (\<lambda>i. ?r ! (i - 1) = ?r ! i) [1..<5] \<longleftrightarrow> a = b \<or> b = c \<or> c = d \<or> d = e"
    by simp
  show ?thesis
    unfolding brand5_sorted_def brand5_pattern_def Let_def ex
    by (simp only: nth sorted5_eq [OF assms] conj_assoc disj_assoc)
qed

lemma brand5_spec_pattern:
  assumes "sorted [a, b, c, d, e :: nat]"
  shows "brand5_spec (mset [a, b, c, d, e]) S = brand5_pattern (a = b) (b = c) (c = d) (d = e)
    (run_spec (mset [a, b, c, d, e])) (flush_spec S)"
  unfolding brand5_spec_def brand5_pattern_def counts5 [OF assms]
  by (cases "a = b"; cases "b = c"; cases "c = d"; cases "d = e"; simp only: simp_thms if_True if_False)

lemma brand5_sorted_spec:
  assumes "length r = 5" and "length s = 5" and "sorted r"
  shows "brand5_sorted r s = brand5_spec (mset (map rank_val r)) (mset s)"
proof -
  obtain a b c d e where r: "r = [a, b, c, d, e]" using assms(1) by (rule list5_cases)
  obtain t u v w x where s: "s = [t, u, v, w, x]" using assms(2) by (rule list5_cases)
  have srt: "sorted [rank_val a, rank_val b, rank_val c, rank_val d, rank_val e]"
    using assms(3) by (simp add: r less_eq_rankT_def)
  have "is_run 5 r \<or> is_a2345 r \<longleftrightarrow> run_spec (mset (map rank_val r))"
    using run_spec_sorted [OF srt] by (simp add: r is_run5 is_a2345_vals)
  moreover have "is_flush 5 s \<longleftrightarrow> flush_spec (mset s)" by (simp only: s is_flush5)
  ultimately show ?thesis
    using brand5_sorted_pattern [OF assms(3) [unfolded r], of s] brand5_spec_pattern [OF srt, of "mset s"]
    by (simp only: r list.map rank_val_inject)
qed

lemma brand5_spec_of_cards:
  assumes "brand5 c = Inr (c', b)"
  shows "b = brand5_spec (card_vals (take 5 c)) (card_suits (take 5 c))"
proof -
  obtain c1 where c1: "sort_first 5 c = Inr c1"
    and b: "b = brand5_sorted (map rank (take 5 c1)) (map suit (take 5 c1))"
    using assms by (auto simp: brand5_def)
  from c1 obtain len: "5 \<le> length c" and t: "take 5 c1 = sort_cards (take 5 c)"
    by (rule sort_firstE)
  have "b = brand5_spec (mset (map rank_val (map rank (take 5 c1)))) (mset (map suit (take 5 c1)))"
    unfolding b by (rule brand5_sorted_spec) (use len t in \<open>simp_all add: sorted_ranks\<close>)
  then show ?thesis
    by (simp add: t card_vals_def card_suits_def multiset.map_comp comp_def)
qed

text \<open>Three cards: the same specification without runs and suits.\<close>

definition brand3_spec :: "nat multiset \<Rightarrow> brandT" where
  "brand3_spec V =
     (if \<exists>x \<in># V. count V x = 3 then threeOfKind
      else if \<exists>x \<in># V. count V x = 2 then onePair
      else hightCard)"

lemma counts3:
  assumes "sorted [a, b, c :: nat]"
  defines "V \<equiv> mset [a, b, c]"
  shows "(\<exists>x \<in># V. count V x = 3) \<longleftrightarrow> a = b \<and> b = c"
    and "(\<exists>x \<in># V. count V x = 2) \<longleftrightarrow> a = b \<and> b \<noteq> c \<or> a \<noteq> b \<and> b = c"
  using assms(1) unfolding V_def by (cases "a = b"; cases "b = c"; force)+

lemma brand3_sorted_spec:
  assumes "length r = 3" and "sorted r"
  shows "brand3_sorted r = brand3_spec (mset (map rank_val r))"
proof -
  obtain a b c where r: "r = [a, b, c]" using assms(1) by (rule list3_cases)
  have srt: "sorted [rank_val a, rank_val b, rank_val c]"
    using assms(2) by (simp add: r less_eq_rankT_def)
  have "a \<le> b" "b \<le> c" using assms(2) by (simp_all add: r)
  then have eq: "a \<noteq> c" if "a \<noteq> b \<or> b \<noteq> c" using that by (metis antisym)
  show ?thesis
    unfolding brand3_sorted_def brand3_spec_def r list.map counts3 [OF srt, unfolded rank_val_inject]
    by (cases "a = b"; cases "b = c"; simp add: eq)
qed

lemma brand3_spec_of_cards:
  assumes "brand3 c = Inr (c', b)"
  shows "b = brand3_spec (card_vals (take 3 c))"
proof -
  obtain c1 where c1: "sort_first 3 c = Inr c1" and b: "b = brand3_sorted (map rank (take 3 c1))"
    using assms by (auto simp: brand3_def)
  from c1 obtain len: "3 \<le> length c" and t: "take 3 c1 = sort_cards (take 3 c)"
    by (rule sort_firstE)
  have "b = brand3_spec (mset (map rank_val (map rank (take 3 c1))))"
    unfolding b by (rule brand3_sorted_spec) (use len t in \<open>simp_all add: sorted_ranks\<close>)
  then show ?thesis by (simp add: t card_vals_def multiset.map_comp comp_def)
qed

section \<open>Points\<close>

lemma twoPairs_point_le: "twoPairs_point r \<le> 13 * 7529536 + 13 * 537824 + 13"
  using rtoi5_le [of r 0] rtoi5_le [of r 1] rtoi5_le [of r 2] rtoi5_le [of r 3] rtoi5_le [of r 4]
  by (simp add: twoPairs_point_def)

lemma rtoi5_bounds: "0 < rtoi5 r i \<and> rtoi5 r i \<le> 13"
  by (simp add: rtoi5_le rtoi5_pos)

lemma find_set: "find P xs = Some x \<Longrightarrow> x \<in> set xs \<and> P x"
  by (auto simp: find_Some_iff)

lemma pairIndexE:
  assumes "pairIndex r = Some p"
  obtains "p = 1" | "p = 2" | "p = 3" | "p = 4"
  using find_set [OF assms [unfolded pairIndex_def]] by auto

lemma pair_point_eq:
  "pair_point r 1 = rtoi5 r 1 * 537824 + rtoi5 r 2 + rtoi5 r 3 * 14 + rtoi5 r 4 * 196"
  "pair_point r 2 = rtoi5 r 2 * 537824 + rtoi5 r 0 + rtoi5 r 3 * 14 + rtoi5 r 4 * 196"
  "pair_point r 3 = rtoi5 r 3 * 537824 + rtoi5 r 0 + rtoi5 r 1 * 14 + rtoi5 r 4 * 196"
  "pair_point r 4 = rtoi5 r 4 * 537824 + rtoi5 r 0 + rtoi5 r 1 * 14 + rtoi5 r 2 * 196"
  by (simp_all add: pair_point_def)

lemma high_point_eq: "high_point r =
    rtoi5 r 0 + rtoi5 r 1 * 14 + rtoi5 r 2 * 196 + rtoi5 r 3 * 2744 + rtoi5 r 4 * 38416"
  by (simp add: high_point_def)

lemma pair_point_bounds:
  assumes "pairIndex r = Some p"
  shows "0 < pair_point r p \<and> pair_point r p < 7529536"
proof -
  note b = rtoi5_bounds [of r 0] rtoi5_bounds [of r 1] rtoi5_bounds [of r 2]
    rtoi5_bounds [of r 3] rtoi5_bounds [of r 4]
  show ?thesis
    by (rule pairIndexE [OF assms]; use b pair_point_eq in \<open>simp only:; linarith\<close>)
qed

lemma high_point_bounds: "0 < high_point r \<and> high_point r < 537824"
  using rtoi5_bounds [of r 0] rtoi5_bounds [of r 1] rtoi5_bounds [of r 2] rtoi5_bounds [of r 3]
    rtoi5_bounds [of r 4]
  unfolding high_point_eq by linarith

lemma small_points:
  "0 \<le> four_point r" "four_point r \<le> 13" "0 \<le> house_point r" "house_point r \<le> 13"
  "0 \<le> three_point r" "three_point r \<le> 13" "0 < straight_point r" "straight_point r \<le> 15"
  using rtoi5_bounds [of r 2] rtoi5_bounds [of r 3] rtoi5_bounds [of r 4]
  by (auto simp: four_point_def house_point_def three_point_def straight_point_def)

lemma brandInfo5_sorted_point:
  "0 < bi_point (brandInfo5_sorted r s) \<and> bi_point (brandInfo5_sorted r s) \<le> 104875693"
proof -
  note b = twoPairs_point_le [of r] small_points [of r] rtoi5_bounds [of r 0] high_point_bounds [of r]
  have p: "\<forall>p. pairIndex r = Some p \<longrightarrow> 0 < pair_point r p \<and> pair_point r p < 7529536"
    using pair_point_bounds by blast
  show ?thesis
    unfolding brandInfo5_sorted_def Let_def
    using b p by (auto split: option.split)
qed

lemma brandInfo3_sorted_point:
  "0 < bi_point (brandInfo3_sorted r) \<and> bi_point (brandInfo3_sorted r) \<le> 537838"
proof -
  have b: "0 < rtoi3 r i \<and> rtoi3 r i \<le> 14" for i by (simp add: rtoi3_le rtoi3_pos)
  show ?thesis
    using b [of 0] b [of 1] b [of 2]
    by (auto simp: brandInfo3_sorted_def pair3_point_def high3_point_def)
qed

end
