(* ===== verification/TieBreak.thy ===== *)
theory TieBreak
  imports BrandSpec
begin

text \<open>
  Which of two duns of the same hand type wins. For scattered cards, one pair and two
  pairs the points of \<open>brandInfo5\<close> order the hands as the rules do: the paired ranks
  first, the higher pair before the lower, then the single cards from the highest down.
  The front dun does not have this property (\<open>brandInfo3\<close> weighs a pair by where it
  stands in the sorted array).
\<close>

section \<open>The tie-break list and its points\<close>

definition tie5_spec :: "nat multiset \<Rightarrow> nat list" where
  "tie5_spec V =
     (let desc = rev (sorted_list_of_multiset V)
      in remdups (filter (\<lambda>x. count V x = 2) desc) @ filter (\<lambda>x. count V x = 1) desc)"

text \<open>The points as a number in base 14 whose digits are the ranks of the tie-break list.\<close>

fun tie_points :: "brandT \<Rightarrow> nat list \<Rightarrow> int" where
  "tie_points hightCard [e, d, c, b, a] =
     (int e + 1) * 38416 + (int d + 1) * 2744 + (int c + 1) * 196 + (int b + 1) * 14 + (int a + 1)"
| "tie_points onePair [p, c, b, a] =
     (int p + 1) * 537824 + (int c + 1) * 196 + (int b + 1) * 14 + (int a + 1)"
| "tie_points twoPairs [q, p, a] = (int q + 1) * 7529536 + (int p + 1) * 537824 + (int a + 1)"
| "tie_points b xs = 0"

lemma tie5_spec_sorted:
  assumes "sorted L"
  shows "tie5_spec (mset L) = remdups (filter (\<lambda>x. count_list L x = 2) (rev L))
    @ filter (\<lambda>x. count_list L x = 1) (rev L)"
  using assms by (simp add: tie5_spec_def sorted_sort_id count_mset Let_def)

lemma tie5_lists:
  "a < b \<Longrightarrow> b < c \<Longrightarrow> c < d \<Longrightarrow> d < (e::nat) \<Longrightarrow> tie5_spec (mset [a, b, c, d, e]) = [e, d, c, b, a]"
  "b < c \<Longrightarrow> c < d \<Longrightarrow> d < (e::nat) \<Longrightarrow> tie5_spec (mset [b, b, c, d, e]) = [b, e, d, c]"
  "a < c \<Longrightarrow> c < d \<Longrightarrow> d < (e::nat) \<Longrightarrow> tie5_spec (mset [a, c, c, d, e]) = [c, e, d, a]"
  "a < b \<Longrightarrow> b < d \<Longrightarrow> d < (e::nat) \<Longrightarrow> tie5_spec (mset [a, b, d, d, e]) = [d, e, b, a]"
  "a < b \<Longrightarrow> b < c \<Longrightarrow> c < (e::nat) \<Longrightarrow> tie5_spec (mset [a, b, c, e, e]) = [e, c, b, a]"
  "b < d \<Longrightarrow> d < (e::nat) \<Longrightarrow> tie5_spec (mset [b, b, d, d, e]) = [d, b, e]"
  "b < c \<Longrightarrow> c < (e::nat) \<Longrightarrow> tie5_spec (mset [b, b, c, e, e]) = [e, b, c]"
  "a < c \<Longrightarrow> c < (e::nat) \<Longrightarrow> tie5_spec (mset [a, c, c, e, e]) = [e, c, a]"
  by (subst tie5_spec_sorted; simp; linarith?)+


lemma length_3_4_5:
  "length xs = 3 \<longleftrightarrow> (\<exists>a b c. xs = [a, b, c])"
  "length xs = 4 \<longleftrightarrow> (\<exists>a b c d. xs = [a, b, c, d])"
  "length xs = 5 \<longleftrightarrow> (\<exists>a b c d e. xs = [a, b, c, d, e])"
  by (auto simp: length_Suc_conv numeral_eq_Suc)

fun tie_length :: "brandT \<Rightarrow> nat" where
  "tie_length hightCard = 5"
| "tie_length onePair = 4"
| "tie_length twoPairs = 3"
| "tie_length b = 0"

lemma tie_points_less:
  assumes "xs < ys" and "length xs = tie_length b" and "length ys = tie_length b"
    and "\<forall>x \<in> set xs. x \<le> 12" and "\<forall>x \<in> set ys. x \<le> 12"
  shows "tie_points b xs < tie_points b ys"
  using assms by (cases b) (auto simp: length_3_4_5)

lemma tie_points_less_iff:
  assumes "length xs = tie_length b" and "length ys = tie_length b"
    and "\<forall>x \<in> set xs. x \<le> 12" and "\<forall>x \<in> set ys. x \<le> 12"
  shows "tie_points b xs < tie_points b ys \<longleftrightarrow> xs < ys"
  using tie_points_less [OF _ assms] tie_points_less [OF _ assms(2,1,4,3)]
  by (metis less_asym linorder_less_linear)

text \<open>The points of the three hand types whose ties need more than one rank.\<close>

lemma brandInfo5_sorted_points:
  assumes "brand5_sorted r s = b"
  shows "b = hightCard \<Longrightarrow> bi_point (brandInfo5_sorted r s) = high_point r"
    and "b = onePair \<Longrightarrow> \<exists>p. pairIndex r = Some p \<and> bi_point (brandInfo5_sorted r s) = pair_point r p"
    and "b = twoPairs \<Longrightarrow> bi_point (brandInfo5_sorted r s) = twoPairs_point r"
  using assms unfolding brandInfo5_sorted_brand [symmetric] brandInfo5_sorted_def Let_def
  by (auto split: if_splits option.splits)

lemma rtoi5_vals:
  "rtoi5 [a, b, c, d, e] 0 = int (rank_val a) + 1" "rtoi5 [a, b, c, d, e] (Suc 0) = int (rank_val b) + 1"
  "rtoi5 [a, b, c, d, e] 2 = int (rank_val c) + 1" "rtoi5 [a, b, c, d, e] 3 = int (rank_val d) + 1"
  "rtoi5 [a, b, c, d, e] 4 = int (rank_val e) + 1"
  by (simp_all add: rtoi5_def)

lemma pair_hands:
  "pairIndex [b, b, c, d, e] = Some (Suc 0)"
  "a \<noteq> c \<Longrightarrow> pairIndex [a, c, c, d, e] = Some 2"
  "a \<noteq> b \<Longrightarrow> b \<noteq> d \<Longrightarrow> pairIndex [a, b, d, d, e] = Some 3"
  "a \<noteq> b \<Longrightarrow> b \<noteq> c \<Longrightarrow> c \<noteq> e \<Longrightarrow> pairIndex [a, b, c, e, e] = Some 4"
  "pair_point [b, b, c, d, e] (Suc 0) = tie_points onePair (map rank_val [b, e, d, c])"
  "pair_point [a, c, c, d, e] 2 = tie_points onePair (map rank_val [c, e, d, a])"
  "pair_point [a, b, d, d, e] 3 = tie_points onePair (map rank_val [d, e, b, a])"
  "pair_point [a, b, c, e, e] 4 = tie_points onePair (map rank_val [e, c, b, a])"
  "high_point [a, b, c, d, e] = tie_points hightCard (map rank_val [e, d, c, b, a])"
  by (simp_all add: pairIndex_def pair_point_eq [simplified] high_point_eq rtoi5_vals)

lemma twoPairs_hands:
  "b \<noteq> d \<Longrightarrow> d \<noteq> e \<Longrightarrow> twoPairs_point [b, b, d, d, e] = tie_points twoPairs (map rank_val [d, b, e])"
  "b \<noteq> c \<Longrightarrow> c \<noteq> e \<Longrightarrow> twoPairs_point [b, b, c, e, e] = tie_points twoPairs (map rank_val [e, b, c])"
  "a \<noteq> c \<Longrightarrow> c \<noteq> e \<Longrightarrow> twoPairs_point [a, c, c, e, e] = tie_points twoPairs (map rank_val [e, c, a])"
  by (simp_all add: twoPairs_point_def rtoi5_vals)

lemma tie5_ranks:
  "a < b \<Longrightarrow> b < c \<Longrightarrow> c < d \<Longrightarrow> d < (e::rankT) \<Longrightarrow>
    tie5_spec (mset (map rank_val [a, b, c, d, e])) = map rank_val [e, d, c, b, a]"
  "b < c \<Longrightarrow> c < d \<Longrightarrow> d < (e::rankT) \<Longrightarrow>
    tie5_spec (mset (map rank_val [b, b, c, d, e])) = map rank_val [b, e, d, c]"
  "a < c \<Longrightarrow> c < d \<Longrightarrow> d < (e::rankT) \<Longrightarrow>
    tie5_spec (mset (map rank_val [a, c, c, d, e])) = map rank_val [c, e, d, a]"
  "a < b \<Longrightarrow> b < d \<Longrightarrow> d < (e::rankT) \<Longrightarrow>
    tie5_spec (mset (map rank_val [a, b, d, d, e])) = map rank_val [d, e, b, a]"
  "a < b \<Longrightarrow> b < c \<Longrightarrow> c < (e::rankT) \<Longrightarrow>
    tie5_spec (mset (map rank_val [a, b, c, e, e])) = map rank_val [e, c, b, a]"
  "b < d \<Longrightarrow> d < (e::rankT) \<Longrightarrow>
    tie5_spec (mset (map rank_val [b, b, d, d, e])) = map rank_val [d, b, e]"
  "b < c \<Longrightarrow> c < (e::rankT) \<Longrightarrow>
    tie5_spec (mset (map rank_val [b, b, c, e, e])) = map rank_val [e, b, c]"
  "a < c \<Longrightarrow> c < (e::rankT) \<Longrightarrow>
    tie5_spec (mset (map rank_val [a, c, c, e, e])) = map rank_val [e, c, a]"
  unfolding list.map less_rankT_def by (rule tie5_lists; assumption)+

lemma tie5_high:
  assumes "sorted r" and "length r = 5" and "brand5_sorted r s = hightCard"
  shows "\<exists>xs. tie5_spec (mset (map rank_val r)) = xs \<and> length xs = 5
    \<and> bi_point (brandInfo5_sorted r s) = tie_points hightCard xs"
proof -
  obtain a b c d e where r: "r = [a, b, c, d, e]" using assms(2) by (rule list5_cases)
  have "a \<noteq> b" "b \<noteq> c" "c \<noteq> d" "d \<noteq> e"
    using brand5_patternD(1) [OF trans [OF brand5_sorted_pattern [symmetric] assms(3) [unfolded r]]]
      assms(1) r by simp_all
  then have lt: "a < b" "b < c" "c < d" "d < e" using assms(1) by (simp_all add: r less_le)
  show ?thesis
    using brandInfo5_sorted_points(1) [OF assms(3) refl]
    unfolding r tie5_ranks(1) [OF lt] pair_hands by simp
qed

lemma tie5_pair:
  assumes "sorted r" and "length r = 5" and "brand5_sorted r s = onePair"
  shows "\<exists>xs. tie5_spec (mset (map rank_val r)) = xs \<and> length xs = 4
    \<and> bi_point (brandInfo5_sorted r s) = tie_points onePair xs"
proof -
  obtain a b c d e where r: "r = [a, b, c, d, e]" using assms(2) by (rule list5_cases)
  have le: "a \<le> b" "b \<le> c" "c \<le> d" "d \<le> e" using assms(1) by (simp_all add: r)
  obtain p where p: "pairIndex r = Some p" "bi_point (brandInfo5_sorted r s) = pair_point r p"
    using brandInfo5_sorted_points(2) [OF assms(3) refl] by blast
  from brand5_patternD(2) [OF trans [OF brand5_sorted_pattern [symmetric] assms(3) [unfolded r]]]
    assms(1) r
  consider "a = b" "b < c" "c < d" "d < e" | "a < b" "b = c" "c < d" "d < e"
    | "a < b" "b < c" "c = d" "d < e" | "a < b" "b < c" "c < d" "d = e"
    using le by (auto simp: less_le)
  then show ?thesis
    by cases (use p in \<open>auto simp: r pair_hands tie5_ranks simp del: list.map mset.simps mset_map\<close>)
qed

lemma tie5_twoPairs:
  assumes "sorted r" and "length r = 5" and "brand5_sorted r s = twoPairs"
  shows "\<exists>xs. tie5_spec (mset (map rank_val r)) = xs \<and> length xs = 3
    \<and> bi_point (brandInfo5_sorted r s) = tie_points twoPairs xs"
proof -
  obtain a b c d e where r: "r = [a, b, c, d, e]" using assms(2) by (rule list5_cases)
  have le: "a \<le> b" "b \<le> c" "c \<le> d" "d \<le> e" using assms(1) by (simp_all add: r)
  note p = brandInfo5_sorted_points(3) [OF assms(3) refl]
  from brand5_patternD(3) [OF trans [OF brand5_sorted_pattern [symmetric] assms(3) [unfolded r]]]
    assms(1) r
  consider "a = b" "b < c" "c = d" "d < e" | "a = b" "b < c" "c < d" "d = e"
    | "a < b" "b = c" "c < d" "d = e"
    using le by (auto simp: less_le)
  then show ?thesis
    by cases (use p in \<open>auto simp: r twoPairs_hands tie5_ranks simp del: list.map mset.simps mset_map\<close>)
qed

lemma tie5_hand:
  assumes "sorted r" and "length r = 5" and "brand5_sorted r s = b"
    and "b \<in> {hightCard, onePair, twoPairs}"
  shows "length (tie5_spec (mset (map rank_val r))) = tie_length b
    \<and> bi_point (brandInfo5_sorted r s) = tie_points b (tie5_spec (mset (map rank_val r)))"
  using assms tie5_high [of r s] tie5_pair [of r s] tie5_twoPairs [of r s] by auto

lemma tie5_spec_le: "\<forall>x \<in> set (tie5_spec (mset (map rank_val r))). x \<le> 12"
  by (auto simp: tie5_spec_def Let_def)

lemma cmpBrandInfo_point:
  "bi_b i = bi_b j \<Longrightarrow> cmpBrandInfo i j = 1 \<longleftrightarrow> bi_point j < bi_point i"
  "bi_b i = bi_b j \<Longrightarrow> cmpBrandInfo i j = 2 \<longleftrightarrow> bi_point i < bi_point j"
  by (auto simp: cmpBrandInfo_def)

lemma brandInfo5E:
  assumes "brandInfo5 c = Inr (c', i)"
  obtains r s where "sorted r" "length r = 5" "length s = 5" "i = brandInfo5_sorted r s"
    "mset (map rank_val r) = card_vals (take 5 c)" "mset s = card_suits (take 5 c)"
proof -
  obtain c1 where c1: "sort_first 5 c = Inr c1"
    and i: "i = brandInfo5_sorted (map rank (take 5 c1)) (map suit (take 5 c1))"
    using assms by (auto simp: brandInfo5_def)
  from c1 obtain len: "5 \<le> length c" and t: "take 5 c1 = sort_cards (take 5 c)"
    by (rule sort_firstE)
  show thesis
    by (rule that [OF _ _ _ i])
      (use len in \<open>simp_all add: t sorted_ranks card_vals_def card_suits_def multiset.map_comp comp_def\<close>)
qed

end
