(* ===== verification/DeckTheorems.thy ===== *)
theory DeckTheorems
  imports TieBreak SpecialBrand
begin

text \<open>
  The properties of the card component: the two families of routines agree, the hand
  types and points mean what the rules say, the order of the cards in an array does not
  matter, and where the special hands and the front dun depart from the rules.
\<close>

section \<open>Hand types and points\<close>

text \<open>C22: \<open>brand\<close> is \<open>brandInfo\<close> without its points: on every array and every
  size both fail in the same way, or leave the same array and give the same hand type.\<close>

theorem brand_agrees_brandInfo:
  "brand c n = map_sum id (map_prod id bi_b) (brandInfo c n)"
  by (cases "sort_first 5 c"; cases "sort_first 3 c")
    (simp_all add: brand_def brandInfo_def brand5_def brandInfo5_def brand3_def brandInfo3_def
      brandInfo5_sorted_brand brandInfo3_sorted_brand)

text \<open>C7: on five cards of the deck \<open>brandInfo5\<close> succeeds, leaves the five cards sorted and
  the others in place, and its hand type is the one the specification gives for the ranks
  and suits; its points are positive and fit an \<open>int32_t\<close>.\<close>

theorem brandInfo5_correct:
  assumes "5 \<le> length c" and "\<forall>x \<in> set (take 5 c). valid_card x"
  shows "\<exists>i. brandInfo5 c = Inr (sort_cards (take 5 c) @ drop 5 c, i)
    \<and> bi_b i = brand5_spec (card_vals (take 5 c)) (card_suits (take 5 c))
    \<and> 0 < bi_point i \<and> bi_point i < 2 ^ 31"
proof -
  define i where "i = brandInfo5_sorted (map rank (sort_cards (take 5 c))) (map suit (sort_cards (take 5 c)))"
  have run: "brandInfo5 c = Inr (sort_cards (take 5 c) @ drop 5 c, i)"
    using assms by (simp add: brandInfo5_def sort_first_ok i_def)
  have "brand5 c = Inr (sort_cards (take 5 c) @ drop 5 c, bi_b i)"
    using brand_agrees_brandInfo [of c 5] run by (simp add: brand_def brandInfo_def)
  then have "bi_b i = brand5_spec (card_vals (take 5 c)) (card_suits (take 5 c))"
    by (rule brand5_spec_of_cards)
  moreover have "0 < bi_point i \<and> bi_point i \<le> 104875693"
    unfolding i_def by (rule brandInfo5_sorted_point)
  ultimately show ?thesis using run by simp
qed

theorem brandInfo5_correct_witness:
  "\<exists>i. brandInfo5 [6, 19, 32, 45, 44] = Inr (sort_cards [6, 19, 32, 45, 44] @ [], i)
    \<and> bi_b i = brand5_spec (card_vals [6, 19, 32, 45, 44]) (card_suits [6, 19, 32, 45, 44])
    \<and> 0 < bi_point i \<and> bi_point i < 2 ^ 31"
  using brandInfo5_correct [of "[6, 19, 32, 45, 44]"] by (simp add: valid_card_def)

text \<open>The order in which a dun's cards lie in the array does not matter: two duns of the
  same cards get the same hand type and the same points.\<close>

theorem brandInfo_order_irrelevant:
  assumes "brandInfo c n = Inr (c', i)" and "mset (take n d) = mset (take n c)" and "n = 3 \<or> n = 5"
  shows "\<exists>d'. brandInfo d n = Inr (d', i)"
proof -
  have "\<exists>c1. sort_first n c = Inr c1" using assms(1,3) by (auto simp: brandInfo_def brandInfo5_def brandInfo3_def)
  then have len: "n \<le> length c" and v: "\<forall>x \<in> set (take n c). valid_card x" by (auto elim: sort_firstE)
  have "size (mset (take n d)) = size (mset (take n c))" using assms(2) by simp
  then have lend: "n \<le> length d" using len by simp
  have vd: "\<forall>x \<in> set (take n d). valid_card x" using v assms(2) by (metis set_mset_mset)
  have eq: "sort_cards (take n d) = sort_cards (take n c)"
    by (rule sort_cards_perm [OF assms(2) vd])
  show ?thesis
    using assms(1,3) sort_first_ok [OF len v] sort_first_ok [OF lend vd] eq len lend
    by (auto simp: brandInfo_def brandInfo5_def brandInfo3_def min_absorb2)
qed

theorem brandInfo_order_irrelevant_witness:
  "\<exists>d'. brandInfo [27, 14, 1] 3 = Inr (d', BrandInfo threeOfKind 2)"
proof -
  have "brandInfo [1, 14, 27] 3 = Inr ([1, 14, 27], BrandInfo threeOfKind 2)" by code_simp
  then show ?thesis by (rule brandInfo_order_irrelevant) simp_all
qed

text \<open>C9: between two five-card duns of scattered cards, of one pair or of two pairs, the
  first wins exactly when its paired ranks and then its single ranks, each from the
  highest down, come later in lexicographic order.\<close>

theorem tie_break_five_cards:
  assumes "brandInfo5 c = Inr (c', i)" and "brandInfo5 d = Inr (d', j)"
    and "bi_b i = bi_b j" and "bi_b i \<in> {hightCard, onePair, twoPairs}"
  shows "cmpBrandInfo i j = 1 \<longleftrightarrow>
      tie5_spec (card_vals (take 5 d)) < tie5_spec (card_vals (take 5 c))"
proof -
  obtain r s where r: "sorted r" "length r = 5" "i = brandInfo5_sorted r s"
      "mset (map rank_val r) = card_vals (take 5 c)"
    using assms(1) by (rule brandInfo5E)
  obtain u v where u: "sorted u" "length u = 5" "j = brandInfo5_sorted u v"
      "mset (map rank_val u) = card_vals (take 5 d)"
    using assms(2) by (rule brandInfo5E)
  have b: "brand5_sorted r s = bi_b i" "brand5_sorted u v = bi_b i"
    using assms(3) by (simp_all add: r u brandInfo5_sorted_brand)
  note h = tie5_hand [OF r(1,2) b(1) assms(4)] tie5_hand [OF u(1,2) b(2) assms(4)]
  show ?thesis
    unfolding cmpBrandInfo_point(1) [OF assms(3)] r(4) [symmetric] u(4) [symmetric]
    using h tie_points_less_iff [OF _ _ tie5_spec_le tie5_spec_le, of u "bi_b i" r] r(3) u(3) by simp
qed

theorem tie_break_five_cards_witness:
  "cmpBrandInfo (BrandInfo onePair 1077486) (BrandInfo onePair 1076898) = 1 \<longleftrightarrow>
    tie5_spec (card_vals (take 5 [2, 15, 30, 18, 6])) < tie5_spec (card_vals (take 5 [2, 15, 30, 18, 9]))"
proof -
  have c: "brandInfo5 [2, 15, 30, 18, 9] = Inr ([2, 15, 30, 18, 9], BrandInfo onePair 1077486)"
    and d: "brandInfo5 [2, 15, 30, 18, 6] = Inr ([2, 15, 30, 18, 6], BrandInfo onePair 1076898)"
    by code_simp+
  show ?thesis by (rule tie_break_five_cards [OF c d]) simp_all
qed

section \<open>The front dun\<close>

lemma map_rank_sort: "map rank (sort_cards cs) = sort (map rank cs)"
  by (rule properties_for_sort [symmetric]) (simp_all add: sorted_ranks)

text \<open>In the front dun a pair whose third card is lower always beats a pair whose third
  card is higher, whatever the pairs are: the two branches of \<open>brandInfo3\<close> weigh the
  pair's rank by different powers of 14.\<close>

theorem front_pair_inversion:
  assumes "brandInfo3 [x, y, z] = Inr (c', i)" and "brandInfo3 [u, v, w] = Inr (d', j)"
    and "rank x = rank y" and "rank y < rank z" and "rank u = rank v" and "rank w < rank v"
  shows "cmpBrandInfo i j = 2"
proof -
  have i: "i = brandInfo3_sorted (map rank (sort_cards [x, y, z]))"
    and j: "j = brandInfo3_sorted (map rank (sort_cards [u, v, w]))"
    using assms(1,2) by (auto simp: brandInfo3_def elim!: sort_firstE)
  have ri: "map rank (sort_cards [x, y, z]) = [rank x, rank x, rank z]"
    and rj: "map rank (sort_cards [u, v, w]) = [rank w, rank v, rank v]"
    using assms(3-6) by (auto simp: map_rank_sort)
  have b: "bi_b i = onePair" "bi_b j = onePair"
    and p: "bi_point i = (int (rank_val (rank x)) + 2) * 2744 + (int (rank_val (rank z)) + 2)"
      "bi_point j = (int (rank_val (rank v)) + 2) * 38416 + (int (rank_val (rank w)) + 2)"
    using assms(3-6) unfolding i j ri rj
    by (auto simp: brandInfo3_sorted_def pair3_point_def rtoi3_def)
  have "rank_val (rank x) < rank_val (rank z)" "rank_val (rank w) < rank_val (rank v)"
    using assms(3-6) by (simp_all add: less_rankT_def)
  moreover have "rank_val (rank z) \<le> 12" by simp
  ultimately have "rank_val (rank x) \<le> 11 \<and> rank_val (rank z) \<le> 12 \<and> 1 \<le> rank_val (rank v)" by linarith
  then have "int (rank_val (rank x)) \<le> 11" "int (rank_val (rank z)) \<le> 12"
    "1 \<le> int (rank_val (rank v))" "0 \<le> int (rank_val (rank w))" by simp_all
  then have "bi_point i < bi_point j" unfolding p distrib_right by linarith
  then show ?thesis by (simp add: cmpBrandInfo_point(2) b)
qed

text \<open>Two kings and an ace lose to two threes and a two.\<close>

theorem front_pair_inversion_witness:
  "cmpBrandInfo (BrandInfo onePair 35686) (BrandInfo onePair 115250) = 2"
proof -
  have c: "brandInfo3 [12, 25, 13] = Inr ([12, 25, 13], BrandInfo onePair 35686)"
    and d: "brandInfo3 [2, 15, 1] = Inr ([1, 2, 15], BrandInfo onePair 115250)"
    by code_simp+
  show ?thesis by (rule front_pair_inversion [OF c d]) (simp_all add: rank_def less_rankT_def rank_of_nat_def)
qed

section \<open>Special hands\<close>

lemma byDun_equal_ranks:
  assumes "g13SpecialBrandByDun c b2 b3 = Inr (c', b)" and "b \<in> {tripleStraight, tripleStraightFlush}"
    and "x \<in> set (take 3 c)" and "y \<in> set (take 3 c)"
  shows "rank x = rank y" and "b = tripleStraightFlush \<Longrightarrow> suit x = suit y"
proof -
  obtain c1 where c1: "sort_first 3 c = Inr c1"
    and b: "b = byDun_sorted (map rank (take 3 c1)) (map suit (take 3 c1)) b2 b3"
    using assms(1) by (auto simp: g13SpecialBrandByDun_def)
  from c1 obtain len: "3 \<le> length c" and t: "take 3 c1 = sort_cards (take 3 c)" by (rule sort_firstE)
  have "length (take 3 c1) = 3" using len t by simp
  then obtain p q r where pqr: "take 3 c1 = [p, q, r]" by (rule list3_cases)
  have in3: "set (take 3 c) = {p, q, r}" using t pqr set_sort_cards by (metis list.set(1,2))
  have rk: "rank p = rank q" "rank q = rank r" and st: "b = tripleStraightFlush \<Longrightarrow> suit p = suit q \<and> suit q = suit r"
    using assms(2) unfolding b pqr byDun_sorted_def Let_def by (auto split: if_splits)
  show "rank x = rank y" using assms(3,4) rk unfolding in3 by auto
  show "suit x = suit y" if "b = tripleStraightFlush" using assms(3,4) st [OF that] unfolding in3 by auto
qed

lemma byAll_keeps:
  assumes "g13SpecialBrandByAll c dun = Inr (c', b)" and "b \<in> {tripleStraight, tripleStraightFlush}"
  shows "dun = b"
  using assms by (auto simp: g13SpecialBrandByAll_def byAll_sorted_def Let_def split: if_splits prod.splits)

lemma byDun_not_straightFlush:
  assumes "g13SpecialBrandByDun c b2 b3 = Inr (c', b)" and "distinct (take 3 c)"
  shows "b \<noteq> tripleStraightFlush"
proof
  assume b: "b = tripleStraightFlush"
  then have same: "rank x = rank y" "suit x = suit y"
    if "x \<in> set (take 3 c)" "y \<in> set (take 3 c)" for x y
    using byDun_equal_ranks [OF assms(1) _ that] by simp_all
  have "3 \<le> length c" and v: "\<forall>x \<in> set (take 3 c). valid_card x"
    using assms(1) by (auto simp: g13SpecialBrandByDun_def elim: sort_firstE)
  then have "length (take 3 c) = 3" by simp
  then obtain p q r where pqr: "take 3 c = [p, q, r]" by (rule list3_cases)
  then have "p = q" using same [of p q] v by (auto intro: card_eqI)
  with assms(2) pqr show False by simp
qed

text \<open>"three straights" is only ever found when the three cards of the front dun have one
  rank (a triple, not a run); and "three straight flushes" is never found when those
  cards are distinct, as they are in a 52-card deck.\<close>

theorem triple_straight_needs_triple:
  assumes "g13SpecialBrand c b2 b3 = Inr (c', b)"
  shows "(b \<in> {tripleStraight, tripleStraightFlush} \<longrightarrow>
      (\<forall>x \<in> set (take 3 c). \<forall>y \<in> set (take 3 c). rank x = rank y))
    \<and> (distinct (take 3 c) \<longrightarrow> b \<noteq> tripleStraightFlush)"
proof -
  obtain c1 dun where dun: "g13SpecialBrandByDun c b2 b3 = Inr (c1, dun)"
    and all: "g13SpecialBrandByAll c1 dun = Inr (c', b)"
    using assms by (auto simp: g13SpecialBrand_def)
  have keep: "dun = b" if "b \<in> {tripleStraight, tripleStraightFlush}"
    using byAll_keeps [OF all that] .
  show ?thesis
    using byDun_equal_ranks(1) [OF dun] byDun_not_straightFlush [OF dun] keep by blast
qed

theorem triple_straight_needs_triple_witness:
  "rank 1 = rank 14 \<and> rank 14 = rank 27"
proof -
  have "g13SpecialBrand [1, 14, 27, 2, 16, 4, 18, 6, 20, 8, 22, 10, 24] straight straight =
    Inr ([1, 14, 27, 2, 16, 4, 18, 6, 20, 8, 22, 10, 24], tripleStraight)" by code_simp
  from triple_straight_needs_triple [OF this]
  have same: "rank x = rank y"
    if "x \<in> set (take 3 [1, 14, 27, 2, 16, 4, 18, 6, 20, 8, 22, 10, 24])"
      "y \<in> set (take 3 [1, 14, 27, 2, 16, 4, 18, 6, 20, 8, 22, 10, 24])" for x y
    using that by blast
  show ?thesis by (intro conjI same) simp_all
qed

text \<open>The ranks of thirteen cards: at most four of a rank when the cards are distinct.\<close>

lemma four_suits: "length ss \<le> 4" if "distinct ss" for ss :: "suitT list"
proof -
  have "card (set ss) \<le> card {diamond, club, heart, spade}"
    by (rule card_mono) (auto intro: suitT.exhaust)
  then show ?thesis using that by (simp add: distinct_card)
qed

lemma count_ranks_distinct:
  assumes "distinct cs" and "\<forall>c \<in> set cs. valid_card c"
  shows "count_list (map rank cs) r \<le> 4"
proof -
  let ?f = "filter (\<lambda>c. rank c = r) cs"
  have "inj_on suit (set ?f)"
    using assms(2) by (intro inj_onI) (auto intro: card_eqI)
  then have "distinct (map suit ?f)" using assms(1) by (simp add: distinct_map)
  then have "length (map suit ?f) \<le> 4" by (rule four_suits)
  moreover have "count_list (map rank cs) r = length ?f"
    by (induction cs) auto
  ultimately show ?thesis by simp
qed

lemma tail_pair_nth:
  "length xs = Suc (Suc (Suc n)) \<Longrightarrow>
    tail_pair xs \<longleftrightarrow> xs ! Suc n = xs ! Suc (Suc n) \<and> xs ! n \<noteq> xs ! Suc (Suc n)"
proof (induction xs arbitrary: n rule: tail_pair.induct)
  case (3 x y z u zs)
  then show ?case by (cases n) auto
qed auto

lemma tail_pair13:
  "length r = 13 \<Longrightarrow> tail_pair r \<longleftrightarrow> r ! 11 = r ! 12 \<and> r ! 10 \<noteq> r ! 12"
  using tail_pair_nth [of r 10] by simp

lemma count_pairs_correct:
  assumes "length r = 13" and "sorted r" and "\<forall>x. count_list r x \<le> 4"
  shows "count_pairs r = (card (exact_pairs r), \<exists>x. 3 \<le> count_list r x)"
  using pairs_of_correct [OF assms(2,3)] pair_loop_pairs_of [OF assms(1), of 1] tail_pair13 [OF assms(1)]
  by (simp add: count_pairs_def)

lemma byAll_pairs:
  assumes "byAll_sorted r s dun = b" and "dun \<notin> {sixPairs, pentaPairsAndThreeOfKind}"
  shows "b = sixPairs \<Longrightarrow> fst (count_pairs r) = 6"
    and "b = pentaPairsAndThreeOfKind \<Longrightarrow> count_pairs r = (5, True)"
  using assms by (auto simp: byAll_sorted_def Let_def split: if_splits prod.splits)

lemma byDun_range:
  "g13SpecialBrandByDun c b2 b3 = Inr (c', b) \<Longrightarrow> b \<notin> {sixPairs, pentaPairsAndThreeOfKind}"
  by (auto simp: g13SpecialBrandByDun_def byDun_sorted_def Let_def split: if_splits)

lemma byDun_array:
  assumes "g13SpecialBrandByDun c b2 b3 = Inr (c', b)"
  shows "mset c' = mset c" and "length c' = length c"
proof -
  have c': "c' = sort_cards (take 3 c) @ drop 3 c"
    using assms by (auto simp: g13SpecialBrandByDun_def elim: sort_firstE)
  show "mset c' = mset c" unfolding c' by (metis append_take_drop_id mset_append mset_sort_cards)
  show "length c' = length c" unfolding c' by simp
qed

text \<open>with thirteen distinct cards, "six pairs" is found only when exactly six ranks occur
  exactly twice, and "five pairs and a triple" only when exactly five do and some rank
  occurs three times or more.\<close>

theorem pair_hands_sound:
  assumes "g13SpecialBrand c b2 b3 = Inr (c', b)" and "length c = 13" and "distinct c"
  shows "(b = sixPairs \<longrightarrow> card (exact_pairs (map rank c)) = 6)
    \<and> (b = pentaPairsAndThreeOfKind \<longrightarrow>
        card (exact_pairs (map rank c)) = 5 \<and> (\<exists>x. 3 \<le> count_list (map rank c) x))"
proof -
  obtain c1 dun where dun: "g13SpecialBrandByDun c b2 b3 = Inr (c1, dun)"
    and all: "g13SpecialBrandByAll c1 dun = Inr (c', b)"
    using assms by (auto simp: g13SpecialBrand_def)
  have len: "length c1 = 13" and ms: "mset c1 = mset c"
    using byDun_array [OF dun] assms(2) by simp_all
  then have dis: "distinct c1" using assms(3) by (metis mset_eq_imp_distinct_iff)
  define r where "r = map rank (sort_cards c1)"
  have v: "\<forall>x \<in> set c1. valid_card x"
    and b: "\<exists>s. byAll_sorted r s dun = b"
    using all len by (auto simp: g13SpecialBrandByAll_def r_def elim!: sort_firstE)
  have r: "length r = 13" "sorted r" "mset r = mset (map rank c)"
    using len ms by (simp_all add: r_def sorted_ranks) 
  then have cnt: "count_list r x = count_list (map rank c) x" for x
    by (simp only: count_mset [symmetric])
  have "\<forall>x. count_list r x \<le> 4"
    using count_ranks_distinct [of "sort_cards c1"] dis v
    by (simp add: r_def mset_eq_imp_distinct_iff [OF mset_sort_cards])
  note pairs = count_pairs_correct [OF r(1,2) this]
  have ep: "exact_pairs r = exact_pairs (map rank c)"
    by (simp add: exact_pairs_count cnt)
  show ?thesis
    using byAll_pairs [OF _ byDun_range [OF dun]] b pairs unfolding ep cnt by fastforce
qed

theorem pair_hands_sound_witness:
  "card (exact_pairs (map rank [1, 14, 2, 15, 3, 16, 4, 43, 5, 44, 39, 52, 50])) = 6"
proof -
  have "g13SpecialBrand [1, 14, 2, 15, 3, 16, 4, 43, 5, 44, 39, 52, 50] twoPairs twoPairs =
    Inr ([1, 14, 2, 15, 3, 16, 4, 43, 5, 44, 50, 39, 52], sixPairs)" by code_simp
  from pair_hands_sound [OF this] show ?thesis by simp
qed

text \<open>A run of thirteen starts at the lowest rank and climbs by one.\<close>

lemma is_run_nth: "is_run n r \<Longrightarrow> i < n \<Longrightarrow> rank_val (r ! i) = rank_val (r ! 0) + i"
proof (induction i)
  case 0
  then show ?case by simp
next
  case (Suc i)
  then have "rank_val (r ! (Suc i - 1)) + 1 = rank_val (r ! Suc i)"
    unfolding is_run_def list_all_iff by (metis atLeastLessThan_iff le_add1 plus_1_eq_Suc set_upt)
  with Suc show ?case by simp
qed

lemma is_flush_nth: "is_flush n s \<Longrightarrow> i < n \<Longrightarrow> s ! i = s ! 0"
proof (induction i)
  case 0
  then show ?case by simp
next
  case (Suc i)
  then have "s ! (Suc i - 1) = s ! Suc i"
    unfolding is_flush_def list_all_iff by (metis atLeastLessThan_iff le_add1 plus_1_eq_Suc set_upt)
  with Suc show ?case by simp
qed

lemma run_flush_cards:
  assumes "length cs = 13" and "\<forall>c \<in> set cs. valid_card c"
    and "is_run 13 (map rank cs)" and "is_flush 13 (map suit cs)"
  shows "\<exists>t<4. cs = [13 * t + 1..<13 * t + 14]"
proof -
  have len: "i < 13 \<Longrightarrow> i < length cs" for i using assms(1) by simp
  have "rank_val (rank (cs ! 12)) = rank_val (rank (cs ! 0)) + 12"
    using is_run_nth [OF assms(3), of 12] assms(1) by simp
  moreover have "rank_val (rank (cs ! 12)) \<le> 12" by simp
  ultimately have r0: "rank_val (rank (cs ! 0)) = 0" by linarith
  define t where "t = suit_val (suit (cs ! 0))"
  have "cs ! i = 13 * t + 1 + i" if i: "i < 13" for i
  proof -
    have v: "valid_card (cs ! i)" using assms(2) len [OF i] by simp
    have "(cs ! i - 1) mod 13 = i"
      using is_run_nth [OF assms(3) i] r0 assms(1) i by (simp add: rank_val_rank [simplified, symmetric])
    moreover have "suit (cs ! i) = suit (cs ! 0)"
      using is_flush_nth [OF assms(4) i] assms(1) i by simp
    then have "(cs ! i - 1) div 13 = t" using suit_val_suit [OF v] by (simp add: t_def)
    ultimately have "cs ! i - 1 = 13 * t + i" by (metis mult_div_mod_eq)
    then show ?thesis using v unfolding valid_card_def by linarith
  qed
  then have "cs = [13 * t + 1..<13 * t + 14]"
    using assms(1) by (intro nth_equalityI) auto
  then show ?thesis unfolding t_def using suit_val_less by blast
qed

lemma one_suit_sorted:
  assumes "t < 4"
  defines "cs \<equiv> sort_cards [13 * t + 1..<13 * t + 14]"
  shows "is_run 13 (map rank cs) \<and> is_flush 13 (map suit cs)"
proof -
  have s: "is_run 13 (map rank (sort_cards [1..<14])) \<and> is_flush 13 (map suit (sort_cards [1..<14]))"
    "is_run 13 (map rank (sort_cards [14..<27])) \<and> is_flush 13 (map suit (sort_cards [14..<27]))"
    "is_run 13 (map rank (sort_cards [27..<40])) \<and> is_flush 13 (map suit (sort_cards [27..<40]))"
    "is_run 13 (map rank (sort_cards [40..<53])) \<and> is_flush 13 (map suit (sort_cards [40..<53]))"
    by code_simp+
  from assms(1) consider "t = 0" | "t = 1" | "t = 2" | "t = 3" by linarith
  then show ?thesis unfolding cs_def by cases (use s in simp_all)
qed

lemma byAll_flushStriaght:
  "dun \<noteq> flushStriaght \<Longrightarrow> byAll_sorted r s dun = flushStriaght \<longleftrightarrow> is_run 13 r \<and> is_flush 13 s"
  by (simp add: byAll_sorted_def Let_def split: prod.split)

text \<open>thirteen cards are the highest special hand exactly when they are, in some order, all
  the cards of one suit.\<close>

theorem dragon_iff_one_suit:
  assumes "g13SpecialBrand c b2 b3 = Inr (c', b)" and "length c = 13"
  shows "b = flushStriaght \<longleftrightarrow> (\<exists>t<4. mset c = mset [13 * t + 1..<13 * t + 14])"
proof -
  obtain c1 dun where dun: "g13SpecialBrandByDun c b2 b3 = Inr (c1, dun)"
    and all: "g13SpecialBrandByAll c1 dun = Inr (c', b)"
    using assms by (auto simp: g13SpecialBrand_def)
  have len: "length c1 = 13" and ms: "mset c1 = mset c"
    using byDun_array [OF dun] assms(2) by simp_all
  let ?cs = "sort_cards c1"
  have v: "\<forall>x \<in> set c1. valid_card x"
    and b: "byAll_sorted (map rank ?cs) (map suit ?cs) dun = b"
    using all len by (auto simp: g13SpecialBrandByAll_def elim!: sort_firstE)
  have "dun \<noteq> flushStriaght"
    using dun by (auto simp: g13SpecialBrandByDun_def byDun_sorted_def Let_def split: if_splits)
  then have "b = flushStriaght \<longleftrightarrow> is_run 13 (map rank ?cs) \<and> is_flush 13 (map suit ?cs)"
    using byAll_flushStriaght b by blast
  also have "\<dots> \<longleftrightarrow> (\<exists>t<4. mset c = mset [13 * t + 1..<13 * t + 14])"
  proof
    assume "is_run 13 (map rank ?cs) \<and> is_flush 13 (map suit ?cs)"
    then obtain t where "t < 4" "?cs = [13 * t + 1..<13 * t + 14]"
      using run_flush_cards [of ?cs] len v by auto
    then show "\<exists>t<4. mset c = mset [13 * t + 1..<13 * t + 14]"
      using ms mset_sort_cards by metis
  next
    assume "\<exists>t<4. mset c = mset [13 * t + 1..<13 * t + 14]"
    then obtain t where t: "t < 4" "mset c1 = mset [13 * t + 1..<13 * t + 14]" using ms by auto
    then have "?cs = sort_cards [13 * t + 1..<13 * t + 14]" by (intro sort_cards_perm v)
    then show "is_run 13 (map rank ?cs) \<and> is_flush 13 (map suit ?cs)"
      using one_suit_sorted [OF t(1)] by simp
  qed
  finally show ?thesis .
qed

theorem dragon_iff_one_suit_witness:
  "\<exists>t<4. mset [39, 28, 29, 30, 31, 32, 33, 34, 35, 36, 37, 38, 27] = mset [13 * t + 1..<13 * t + 14]"
proof -
  have "g13SpecialBrand [39, 28, 29, 30, 31, 32, 33, 34, 35, 36, 37, 38, 27] straightFlush straightFlush =
    Inr ([27, 28, 29, 30, 31, 32, 33, 34, 35, 36, 37, 38, 39], flushStriaght)" by code_simp
  from dragon_iff_one_suit [OF this] show ?thesis by simp
qed

end
