(* ===== verification/Settle.thy ===== *)
theory Settle
  imports GameTypes DeckTheorems
begin

text \<open>
  \<open>Game13::calcRound\<close> of \<^verbatim>\<open>processes/lobby/game13.cpp\<close>: the hand types of
  every seat, the comparison of every two seats, and the payments. The comparisons only
  fill the \<open>losers\<close> maps; the scores move in a last pass over the seats.
\<close>

section \<open>The hands of a seat\<close>

text \<open>
  The three duns are the cards 0..2, 3..7 and 8..12; each call sorts its part of the array,
  and \<open>g13SpecialBrand\<close> sorts the front part and then the whole array.
\<close>

definition seat_data :: "playerInfo \<Rightarrow> playerData outcome" where
  "seat_data info =
     obind (brandInfo (pi_cards info) 3) (\<lambda>(c1, d0).
     obind (brandInfo (drop 3 c1) 5) (\<lambda>(c2, d1).
     obind (brandInfo (drop 5 c2) 5) (\<lambda>(c3, d2).
     obind (g13SpecialBrand (take 3 c1 @ take 5 c2 @ c3) (bi_b d1) (bi_b d2)) (\<lambda>(c4, spec).
       Inr \<lparr>pd_cuid = pi_cuid info, pd_name = pi_name info, pd_cards = c4, pd_dun = [d0, d1, d2],
            pd_spec = spec, pd_prize = 0, pd_losers = [], pd_quanLeiDa = False\<rparr>))))"

section \<open>Two seats\<close>

fun spec_prize :: "g13SpecialBrandT \<Rightarrow> int" where
  "spec_prize flushStriaght = 104"
| "spec_prize g13_straight = 52"
| "spec_prize royal = 26"
| "spec_prize tripleStraightFlush = 26"
| "spec_prize tripleBombs = 26"
| "spec_prize allBig = 6"
| "spec_prize allLittle = 6"
| "spec_prize redOrBlack = 6"
| "spec_prize quradThreeOfKind = 6"
| "spec_prize pentaPairsAndThreeOfKind = 6"
| "spec_prize sixPairs = 6"
| "spec_prize tripleStraight = 6"
| "spec_prize tripleFlush = 6"
| "spec_prize g13_none = 0"

definition specCmpValue :: "playerData \<Rightarrow> int" where
  "specCmpValue d = g13_val (pd_spec d) mod 10"

definition put_loser :: "nat \<Rightarrow> nat \<Rightarrow> int \<Rightarrow> int \<Rightarrow> playerData list \<Rightarrow> playerData list" where
  "put_loser w k price gun ds =
     ds[w := (ds ! w)\<lparr>pd_losers := omap_put k (price, gun) (pd_losers (ds ! w))\<rparr>]"

text \<open>
  Different special hands. The winner's map gets the winner's own index: the source writes
  \<open>specWinner.losers[i]\<close> when \<open>i\<close> wins and \<open>losers[j]\<close> when \<open>j\<close> does.
\<close>

definition settle_special :: "nat \<Rightarrow> nat \<Rightarrow> playerData list \<Rightarrow> playerData list" where
  "settle_special i j ds =
     (let ci = specCmpValue (ds ! i); cj = specCmpValue (ds ! j)
      in if ci = cj then ds
      else if ci > cj then put_loser i i (spec_prize (pd_spec (ds ! i))) 0 ds
      else put_loser j j (spec_prize (pd_spec (ds ! j))) 0 ds)"

definition dunCmps :: "playerData \<Rightarrow> playerData \<Rightarrow> int list" where
  "dunCmps dataI dataJ =
     [cmpBrandInfo (pd_dun dataI ! 0) (pd_dun dataJ ! 0),
      cmpBrandInfo (pd_dun dataI ! 1) (pd_dun dataJ ! 2),
      cmpBrandInfo (pd_dun dataI ! 1) (pd_dun dataJ ! 2)]"

definition base_prize :: "int \<Rightarrow> int" where
  "base_prize c = (if c = 1 then 1 else if c = 2 then -1 else 0)"

text \<open>One bonus rule: dun \<open>d\<close> won with hand type \<open>b\<close> scores \<open>extra\<close> more.\<close>

definition add_extra :: "playerData \<Rightarrow> playerData \<Rightarrow> int list \<Rightarrow> nat \<times> brandT \<times> int \<Rightarrow> int list \<Rightarrow> int list" where
  "add_extra dataI dataJ cmps rule prizes =
     (case rule of (d, b, extra) \<Rightarrow>
       if cmps ! d \<noteq> 0 then
         (if cmps ! d = 1 \<and> bi_b (pd_dun dataI ! d) = b then prizes[d := prizes ! d + extra]
          else if cmps ! d = 2 \<and> bi_b (pd_dun dataJ ! d) = b then prizes[d := prizes ! d - extra]
          else prizes)
       else prizes)"

definition extra_rules :: "(nat \<times> brandT \<times> int) list" where
  "extra_rules =
     [(0, threeOfKind, 2), (1, fullHouse, 1), (1, fiveOfKind, 19), (2, fiveOfKind, 9),
      (1, straightFlush, 9), (2, straightFlush, 4), (1, fourOfKind, 7), (2, fourOfKind, 3)]"

definition dunPrize :: "playerData \<Rightarrow> playerData \<Rightarrow> int list" where
  "dunPrize dataI dataJ =
     fold (add_extra dataI dataJ (dunCmps dataI dataJ)) extra_rules
       (map base_prize (dunCmps dataI dataJ))"

text \<open>
  The ordinary comparison. The sum is held in a \<open>uint32_t\<close>, so it is never below zero; the
  second test for a sweep repeats the first; and a tie leaves the loop over \<open>j\<close> (the
  flag \<open>True\<close> of the result is that \<open>break\<close>).
\<close>

definition settle_ordinary :: "gameAttr \<Rightarrow> nat \<Rightarrow> nat \<Rightarrow> playerData list \<Rightarrow> playerData list \<times> bool" where
  "settle_ordinary attr i j ds =
     (let dp = dunPrize (ds ! i) (ds ! j);
          prize = to_u32 (dp ! 0 + dp ! 1 + dp ! 2)
      in if at_daQiang attr \<noteq> 0 then
           (if dp ! 0 > 0 \<and> dp ! 1 > 0 \<and> dp ! 2 > 0
            then (put_loser i j (to_i32 prize) 1 ds, False)
            else if dp ! 0 > 0 \<and> dp ! 1 > 0 \<and> dp ! 2 > 0
            then (put_loser j i (to_i32 prize) 1 ds, False)
            else if prize = 0 then (ds, True)
            else if prize > 0 then (put_loser i j (to_i32 prize) 0 ds, False)
            else (put_loser j i (to_i32 prize) 0 ds, False))
         else (ds, False))"

definition settle_pair :: "gameAttr \<Rightarrow> nat \<Rightarrow> nat \<Rightarrow> playerData list \<Rightarrow> playerData list \<times> bool" where
  "settle_pair attr i j ds =
     (if pd_spec (ds ! i) \<noteq> pd_spec (ds ! j) then (settle_special i j ds, False)
      else settle_ordinary attr i j ds)"

section \<open>All seats\<close>

fun settle_row :: "gameAttr \<Rightarrow> nat \<Rightarrow> nat list \<Rightarrow> playerData list \<Rightarrow> playerData list" where
  "settle_row attr i [] ds = ds"
| "settle_row attr i (j # js) ds =
     (case settle_pair attr i j ds of (ds', brk) \<Rightarrow> if brk then ds' else settle_row attr i js ds')"

fun settle_rows :: "gameAttr \<Rightarrow> nat list \<Rightarrow> playerData list \<Rightarrow> playerData list" where
  "settle_rows attr [] ds = ds"
| "settle_rows attr (i # is) ds = settle_rows attr is (settle_row attr i [i + 1..<length ds] ds)"

section \<open>Payments\<close>

text \<open>The search for an opponent who was not swept only ever clears the flag.\<close>

fun quan_loop :: "bool \<Rightarrow> (nat \<times> int \<times> int) list \<Rightarrow> bool" where
  "quan_loop q [] = q"
| "quan_loop q ((k, price, gun) # ls) = (if gun = 0 then False else quan_loop q ls)"

definition quanLeiDa_flag :: "gameAttr \<Rightarrow> nat \<Rightarrow> playerData \<Rightarrow> bool" where
  "quanLeiDa_flag attr n winner =
     (let q = False
      in if at_quanLeiDa attr \<and> at_playerSize attr > 2 \<and> length (pd_losers winner) + 1 = n
         then quan_loop q (pd_losers winner) else q)"

definition add_prize :: "nat \<Rightarrow> int \<Rightarrow> playerData list \<Rightarrow> playerData list" where
  "add_prize i p ds = ds[i := (ds ! i)\<lparr>pd_prize := pd_prize (ds ! i) + p\<rparr>]"

definition pay_amount :: "bool \<Rightarrow> int \<Rightarrow> int \<Rightarrow> int" where
  "pay_amount q price gun =
     (let p1 = (if gun > 0 then price * 2 else price) in if q then p1 * 2 else p1)"

fun pay_losers :: "nat \<Rightarrow> bool \<Rightarrow> (nat \<times> int \<times> int) list \<Rightarrow> playerData list \<Rightarrow> playerData list outcome" where
  "pay_losers w q [] ds = Inr ds"
| "pay_losers w q ((k, price, gun) # ls) ds =
     (if k < length ds
      then pay_losers w q ls (add_prize k (- pay_amount q price gun) (add_prize w (pay_amount q price gun) ds))
      else Inl OutOfBounds)"

fun pay_all :: "gameAttr \<Rightarrow> nat list \<Rightarrow> playerData list \<Rightarrow> playerData list outcome" where
  "pay_all attr [] ds = Inr ds"
| "pay_all attr (i # is) ds =
     (let q = quanLeiDa_flag attr (length ds) (ds ! i);
          ds' = ds[i := (ds ! i)\<lparr>pd_quanLeiDa := q\<rparr>]
      in obind (pay_losers i q (pd_losers (ds' ! i)) ds') (pay_all attr is))"

definition calcRound :: "gameAttr \<Rightarrow> playerInfo list \<Rightarrow> playerData list outcome" where
  "calcRound attr players =
     obind (omap seat_data players) (\<lambda>ds.
       pay_all attr [0..<length ds] (settle_rows attr [0..<length ds] ds))"

section \<open>What the comparisons leave alone\<close>

text \<open>Everything of a seat but its map of losers.\<close>

definition frame :: "playerData \<Rightarrow> playerData" where
  "frame d = d\<lparr>pd_losers := []\<rparr>"

lemma map_frame_update:
  "i < length ds \<Longrightarrow> frame d = frame (ds ! i) \<Longrightarrow> map frame (ds[i := d]) = map frame ds"
  by (metis list_update_id map_update)

lemma put_loser_frame [simp]: "map frame (put_loser w k p g ds) = map frame ds"
proof (cases "w < length ds")
  case True
  then show ?thesis unfolding put_loser_def by (rule map_frame_update) (simp add: frame_def)
qed (simp add: put_loser_def not_less list_update_beyond)

lemma settle_pair_frame: "map frame (fst (settle_pair attr i j ds)) = map frame ds"
  by (simp add: settle_pair_def settle_special_def settle_ordinary_def Let_def)

lemma settle_row_frame: "map frame (settle_row attr i js ds) = map frame ds"
proof (induction js arbitrary: ds)
  case (Cons j js)
  then show ?case
    using settle_pair_frame [of attr i j ds] by (auto split: prod.split)
qed simp

lemma settle_rows_frame: "map frame (settle_rows attr is ds) = map frame ds"
  by (induction "is" arbitrary: ds) (simp_all add: settle_row_frame)

lemma frame_length: "map frame xs = map frame ys \<Longrightarrow> length xs = length ys"
  by (metis length_map)

lemma frame_prizes: "map frame xs = map frame ys \<Longrightarrow> map pd_prize xs = map pd_prize ys"
proof -
  have "pd_prize = pd_prize \<circ> frame" by (auto simp: frame_def)
  then show "map frame xs = map frame ys \<Longrightarrow> map pd_prize xs = map pd_prize ys"
    by (metis map_map)
qed

text \<open>The indices in the maps of losers are seats.\<close>

definition losers_in :: "nat \<Rightarrow> playerData list \<Rightarrow> bool" where
  "losers_in n ds \<longleftrightarrow> (\<forall>d \<in> set ds. \<forall>k \<in> fst ` set (pd_losers d). k < n)"

lemma losers_in_nth: "losers_in n ds \<Longrightarrow> w < length ds \<Longrightarrow> \<forall>k \<in> fst ` set (pd_losers (ds ! w)). k < n"
  unfolding losers_in_def using nth_mem by blast

lemma losers_in_update:
  "losers_in n ds \<Longrightarrow> \<forall>k \<in> fst ` set (pd_losers d). k < n \<Longrightarrow> losers_in n (ds[i := d])"
  unfolding losers_in_def using set_update_subset_insert [of ds i d] by blast

lemma put_loser_in:
  assumes "losers_in n ds" and "k < n"
  shows "losers_in n (put_loser w k p g ds)"
proof (cases "w < length ds")
  case True
  then have "\<forall>k \<in> fst ` set (pd_losers (ds ! w)). k < n" by (rule losers_in_nth [OF assms(1)])
  moreover have "fst ` set (omap_put k (p, g) m) = insert k (fst ` set m)" for m
    using keys_omap_put [of k "(p, g)" m] by (simp only: set_map)
  ultimately show ?thesis
    unfolding put_loser_def by (intro losers_in_update assms(1)) (simp add: assms(2))
qed (simp add: put_loser_def assms(1) not_less list_update_beyond)

lemma settle_pair_in:
  "losers_in n ds \<Longrightarrow> i < n \<Longrightarrow> j < n \<Longrightarrow> losers_in n (fst (settle_pair attr i j ds))"
  by (simp add: settle_pair_def settle_special_def settle_ordinary_def Let_def put_loser_in)

lemma settle_row_in:
  "losers_in n ds \<Longrightarrow> i < n \<Longrightarrow> \<forall>j \<in> set js. j < n \<Longrightarrow> losers_in n (settle_row attr i js ds)"
proof (induction js arbitrary: ds)
  case (Cons j js)
  then show ?case
    using settle_pair_in [of n ds i j attr] by (auto split: prod.split)
qed simp

lemma settle_rows_in:
  "losers_in (length ds) ds \<Longrightarrow> \<forall>i \<in> set is. i < length ds \<Longrightarrow> losers_in (length ds) (settle_rows attr is ds)"
proof (induction "is" arbitrary: ds)
  case (Cons i "is")
  have len: "length (settle_row attr i [i + 1..<length ds] ds) = length ds"
    by (rule frame_length [OF settle_row_frame])
  have "losers_in (length ds) (settle_row attr i [i + 1..<length ds] ds)"
    by (rule settle_row_in) (use Cons.prems in auto)
  then show ?case using Cons.IH [of "settle_row attr i [i + 1..<length ds] ds"] Cons.prems len by simp
qed simp

section \<open>Payments\<close>

lemma length_add_prize [simp]: "length (add_prize i p ds) = length ds"
  by (simp add: add_prize_def)

lemma losers_add_prize: "map pd_losers (add_prize i p ds) = map pd_losers ds"
  by (cases "i < length ds") (simp_all add: add_prize_def map_update list_update_same_conv not_less list_update_beyond)

lemma quan_add_prize: "map pd_quanLeiDa (add_prize i p ds) = map pd_quanLeiDa ds"
  by (cases "i < length ds") (simp_all add: add_prize_def map_update list_update_same_conv not_less list_update_beyond)

lemma sum_add_prize:
  "i < length ds \<Longrightarrow> sum_list (map pd_prize (add_prize i p ds)) = sum_list (map pd_prize ds) + p"
  by (simp add: add_prize_def map_update sum_list_update_int)

lemma pay_losers_ok:
  assumes "w < length ds" and "\<forall>k \<in> fst ` set ls. k < length ds"
  shows "\<exists>ds'. pay_losers w q ls ds = Inr ds' \<and> length ds' = length ds
    \<and> sum_list (map pd_prize ds') = sum_list (map pd_prize ds) \<and> map pd_losers ds' = map pd_losers ds
    \<and> map pd_quanLeiDa ds' = map pd_quanLeiDa ds"
  using assms
proof (induction ls arbitrary: ds)
  case (Cons l ls)
  obtain k price gun where l: "l = (k, price, gun)" by (cases l)
  let ?a = "pay_amount q price gun"
  let ?ds = "add_prize k (- ?a) (add_prize w ?a ds)"
  have k: "k < length ds" using Cons.prems(2) l by simp
  obtain ds' where "pay_losers w q ls ?ds = Inr ds'" "length ds' = length ?ds"
    "sum_list (map pd_prize ds') = sum_list (map pd_prize ?ds)" "map pd_losers ds' = map pd_losers ?ds"
    "map pd_quanLeiDa ds' = map pd_quanLeiDa ?ds"
    using Cons.IH [of ?ds] Cons.prems by auto
  then show ?case
    using k Cons.prems(1) by (simp add: l sum_add_prize losers_add_prize quan_add_prize)
qed simp

lemma losers_in_map: "map pd_losers xs = map pd_losers ys \<Longrightarrow> losers_in n xs \<longleftrightarrow> losers_in n ys"
proof -
  have "losers_in n ds \<longleftrightarrow> (\<forall>ls \<in> set (map pd_losers ds). \<forall>k \<in> fst ` set ls. k < n)" for ds
    by (simp add: losers_in_def)
  then show "map pd_losers xs = map pd_losers ys \<Longrightarrow> losers_in n xs \<longleftrightarrow> losers_in n ys" by metis
qed

lemma quan_loop_False [simp]: "quan_loop False ls = False"
  by (induction "False" ls rule: quan_loop.induct) auto

lemma quanLeiDa_flag_False [simp]: "quanLeiDa_flag attr n d = False"
  by (simp add: quanLeiDa_flag_def)

lemma pay_all_ok:
  assumes "losers_in (length ds) ds" and "\<forall>i \<in> set is. i < length ds" and "\<forall>d \<in> set ds. \<not> pd_quanLeiDa d"
  shows "\<exists>ds'. pay_all attr is ds = Inr ds' \<and> length ds' = length ds
    \<and> sum_list (map pd_prize ds') = sum_list (map pd_prize ds) \<and> (\<forall>d \<in> set ds'. \<not> pd_quanLeiDa d)"
  using assms
proof (induction "is" arbitrary: ds)
  case (Cons i "is")
  let ?ds = "ds[i := (ds ! i)\<lparr>pd_quanLeiDa := False\<rparr>]"
  have i: "i < length ds" using Cons.prems(2) by simp
  then have "\<not> pd_quanLeiDa (ds ! i)" using Cons.prems(3) by simp
  then have same: "?ds = ds" by (simp add: list_update_same_conv i)
  obtain ds1 where ds1: "pay_losers i False (pd_losers (ds ! i)) ds = Inr ds1"
    "length ds1 = length ds" "sum_list (map pd_prize ds1) = sum_list (map pd_prize ds)"
    "map pd_losers ds1 = map pd_losers ds" "map pd_quanLeiDa ds1 = map pd_quanLeiDa ds"
    using pay_losers_ok [of i ds "pd_losers (ds ! i)" False] i losers_in_nth [OF Cons.prems(1) i] by auto
  then have "losers_in (length ds1) ds1"
    using losers_in_map [OF ds1(4)] Cons.prems(1) by simp
  moreover have "\<forall>d \<in> set ds1. \<not> pd_quanLeiDa d"
    using Cons.prems(3) arg_cong [OF ds1(5), of set] by auto
  ultimately show ?case
    using Cons.IH [of ds1] Cons.prems(2) ds1 same by (simp add: Let_def)
qed simp

section \<open>A whole round\<close>

lemma seat_data_fresh:
  assumes "seat_data info = Inr d"
  shows "pd_prize d = 0" "pd_losers d = []" "\<not> pd_quanLeiDa d"
  using assms by (auto simp: seat_data_def split: prod.splits)

lemma omap_seat_fresh:
  assumes "omap seat_data players = Inr ds" and "d \<in> set ds"
  shows "pd_prize d = 0 \<and> pd_losers d = [] \<and> \<not> pd_quanLeiDa d"
proof -
  obtain i where "i < length ds" "d = ds ! i" using assms(2) by (auto simp: in_set_conv_nth)
  then have "seat_data (players ! i) = Inr d"
    using omap_Inr_nth [OF assms(1)] omap_Inr_length [OF assms(1)] by simp
  then show ?thesis using seat_data_fresh by blast
qed

lemma frame_quan: "map frame xs = map frame ys \<Longrightarrow> map pd_quanLeiDa xs = map pd_quanLeiDa ys"
proof -
  have "pd_quanLeiDa = pd_quanLeiDa \<circ> frame" by (auto simp: frame_def)
  then show "map frame xs = map frame ys \<Longrightarrow> map pd_quanLeiDa xs = map pd_quanLeiDa ys"
    by (metis map_map)
qed

lemma calcRound_phases:
  assumes "omap seat_data players = Inr ds"
  shows "\<exists>ds'. calcRound attr players = Inr ds' \<and> length ds' = length players
    \<and> sum_list (map pd_prize ds') = 0 \<and> (\<forall>d \<in> set ds'. \<not> pd_quanLeiDa d)"
proof -
  let ?s = "settle_rows attr [0..<length ds] ds"
  have fr: "map frame ?s = map frame ds" by (rule settle_rows_frame)
  have len: "length ?s = length ds" by (rule frame_length [OF fr])
  have "losers_in (length ds) ds"
    using omap_seat_fresh [OF assms] by (simp add: losers_in_def)
  then have "losers_in (length ?s) ?s" using settle_rows_in [of ds] len by simp
  moreover have "\<forall>d \<in> set ?s. \<not> pd_quanLeiDa d"
    using omap_seat_fresh [OF assms] arg_cong [OF frame_quan [OF fr], of set] by auto
  moreover have "sum_list (map pd_prize ?s) = 0"
  proof -
    have "map pd_prize ds = map (\<lambda>_. 0) ds" using omap_seat_fresh [OF assms] by simp
    then show ?thesis by (simp only: frame_prizes [OF fr] sum_list_0)
  qed
  ultimately show ?thesis
    using pay_all_ok [of ?s "[0..<length ds]" attr] assms len omap_Inr_length [OF assms]
    by (auto simp: calcRound_def)
qed

end
