(* ===== verification/FastTravel.thy ===== *)
theory FastTravel
  imports Prelude
begin

text \<open>
  \<open>componet::FastTravelUnorderedMap\<close> of
  \<^verbatim>\<open>water/componet/fast_travel_unordered_map.h\<close>: the pairs lie in a vector, and a
  hash map gives the index of every key. \<open>erase\<close> moves the last pair into the hole. The
  contract a map owes its clients is the locale \<open>key_map\<close>.
\<close>

section \<open>What a map owes its clients\<close>

locale key_map =
  fixes inv :: "'m \<Rightarrow> bool"
    and lookup :: "'m \<Rightarrow> 'k \<Rightarrow> 'v option"
    and ins :: "'k \<Rightarrow> 'v \<Rightarrow> 'm \<Rightarrow> 'm \<times> bool"
    and del :: "'k \<Rightarrow> 'm \<Rightarrow> 'm"
  assumes inv_ins: "inv m \<Longrightarrow> inv (fst (ins k v m))"
    and inv_del: "inv m \<Longrightarrow> inv (del k m)"
    and ins_new: "inv m \<Longrightarrow> lookup m k = None \<Longrightarrow>
      snd (ins k v m) \<and> lookup (fst (ins k v m)) = (lookup m)(k \<mapsto> v)"
    and ins_old: "inv m \<Longrightarrow> lookup m k \<noteq> None \<Longrightarrow> ins k v m = (m, False)"
    and lookup_del: "inv m \<Longrightarrow> lookup (del k m) = (lookup m)(k := None)"
begin

lemma ins_ok_iff: "inv m \<Longrightarrow> snd (ins k v m) \<longleftrightarrow> lookup m k = None"
  using ins_new ins_old by (cases "lookup m k") force+

lemma lookup_ins:
  "inv m \<Longrightarrow> lookup (fst (ins k v m)) = (if lookup m k = None then (lookup m)(k \<mapsto> v) else lookup m)"
  using ins_new ins_old by force

text \<open>An insertion that is taken back leaves every key as it was.\<close>

lemma del_ins: "inv m \<Longrightarrow> lookup m k = None \<Longrightarrow> lookup (del k (fst (ins k v m))) = lookup m"
  using inv_ins [of m k v] lookup_del ins_new by (auto simp: fun_eq_iff)

lemma ins_del:
  "inv m \<Longrightarrow> snd (ins k v (del k m)) \<and> lookup (fst (ins k v (del k m))) = (lookup m)(k \<mapsto> v)"
  using ins_new [OF inv_del, of m k k v] lookup_del by simp

end

section \<open>The container\<close>

record ('k, 'v) ftm =
  ft_vec :: "('k \<times> 'v) list"
  ft_map :: "'k \<rightharpoonup> nat"

definition ftm_empty :: "('k, 'v) ftm" where
  "ftm_empty = \<lparr>ft_vec = [], ft_map = Map.empty\<rparr>"

definition ftm_size :: "('k, 'v) ftm \<Rightarrow> nat" where
  "ftm_size m = length (ft_vec m)"

definition ftm_insert :: "'k \<Rightarrow> 'v \<Rightarrow> ('k, 'v) ftm \<Rightarrow> ('k, 'v) ftm \<times> bool" where
  "ftm_insert k v m =
     (case ft_map m k of
       Some i \<Rightarrow> (m, False)
     | None \<Rightarrow> (\<lparr>ft_vec = ft_vec m @ [(k, v)], ft_map = (ft_map m)(k \<mapsto> length (ft_vec m))\<rparr>, True))"

text \<open>The position \<open>find\<close> answers with; \<open>None\<close> is \<open>end()\<close>.\<close>

definition ftm_pos :: "('k, 'v) ftm \<Rightarrow> 'k \<Rightarrow> nat option" where
  "ftm_pos m k = ft_map m k"

definition ftm_find :: "('k, 'v) ftm \<Rightarrow> 'k \<Rightarrow> 'v option" where
  "ftm_find m k = (case ftm_pos m k of None \<Rightarrow> None | Some i \<Rightarrow> Some (snd (ft_vec m ! i)))"

definition ftm_erase :: "'k \<Rightarrow> ('k, 'v) ftm \<Rightarrow> ('k, 'v) ftm" where
  "ftm_erase k m =
     (case ft_map m k of
       None \<Rightarrow> m
     | Some i \<Rightarrow>
         if length (ft_vec m) = 1 then ftm_empty
         else
           let (vec, idx) =
             (if i + 1 \<noteq> length (ft_vec m)
              then let vec = (ft_vec m)[i := last (ft_vec m)] in (vec, (ft_map m)(fst (vec ! i) \<mapsto> i))
              else (ft_vec m, ft_map m))
           in \<lparr>ft_vec = butlast vec, ft_map = idx(k := None)\<rparr>)"

text \<open>
  \<open>erase(iterator)\<close>: the pair at position \<open>j\<close> is erased by its key, and the answer is the
  position itself, which now holds another pair (or is the end). An index map that does
  not know the key is the exception \<open>InvalidIter\<close>.
\<close>

definition ftm_erase_at :: "nat \<Rightarrow> ('k, 'v) ftm \<Rightarrow> (('k, 'v) ftm \<times> nat) outcome" where
  "ftm_erase_at j m =
     obind (vec_at (ft_vec m) j) (\<lambda>kv.
       case ft_map m (fst kv) of
         None \<Rightarrow> Inl AssertionFailed
       | Some i \<Rightarrow> Inr (ftm_erase (fst kv) m, i))"

definition ftm_getValues :: "('k, 'v) ftm \<Rightarrow> 'v list" where
  "ftm_getValues m = map snd (ft_vec m)"

lemma length_erase:
  "ft_map m k \<noteq> None \<Longrightarrow> length (ft_vec (ftm_erase k m)) = length (ft_vec m) - 1"
  by (auto simp: ftm_erase_def ftm_empty_def Let_def split: option.split)

section \<open>The invariant\<close>

definition ftm_inv :: "('k, 'v) ftm \<Rightarrow> bool" where
  "ftm_inv m \<longleftrightarrow> distinct (map fst (ft_vec m))
     \<and> (\<forall>k i. ft_map m k = Some i \<longleftrightarrow> i < length (ft_vec m) \<and> fst (ft_vec m ! i) = k)"

lemma ftm_inv_empty [simp]: "ftm_inv ftm_empty"
  by (simp add: ftm_inv_def ftm_empty_def)

lemma ftm_invD:
  assumes "ftm_inv m" and "ft_map m k = Some i"
  shows "i < length (ft_vec m)" "fst (ft_vec m ! i) = k"
  using assms by (auto simp: ftm_inv_def)

lemma ftm_inv_key: "ftm_inv m \<Longrightarrow> i < length (ft_vec m) \<Longrightarrow> ft_map m (fst (ft_vec m ! i)) = Some i"
  by (auto simp: ftm_inv_def)

lemma ftm_find_nth:
  "ftm_inv m \<Longrightarrow> i < length (ft_vec m) \<Longrightarrow> ftm_find m (fst (ft_vec m ! i)) = Some (snd (ft_vec m ! i))"
  by (simp add: ftm_find_def ftm_pos_def ftm_inv_key)

text \<open>A consistent container answers as the association list of its vector.\<close>

lemma ftm_find_map_of: "ftm_inv m \<Longrightarrow> ftm_find m = map_of (ft_vec m)"
proof
  fix k
  assume inv: "ftm_inv m"
  show "ftm_find m k = map_of (ft_vec m) k"
  proof (cases "ft_map m k")
    case (Some i)
    then have i: "i < length (ft_vec m)" "fst (ft_vec m ! i) = k" using ftm_invD [OF inv] by auto
    then have "ft_vec m ! i \<in> set (ft_vec m)" by simp
    then have "(k, snd (ft_vec m ! i)) \<in> set (ft_vec m)" using i(2) by (metis prod.collapse)
    then show ?thesis
      using inv by (simp add: ftm_find_def ftm_pos_def Some map_of_is_SomeI ftm_inv_def del: map_of_eq_Some_iff)
  next
    case None
    then have "k \<notin> fst ` set (ft_vec m)"
      using ftm_inv_key [OF inv] by (force simp: in_set_conv_nth)
    then have "map_of (ft_vec m) k = None" by (simp add: map_of_eq_None_iff)
    then show ?thesis using None by (simp add: ftm_find_def ftm_pos_def)
  qed
qed

lemma ftm_inv_insert:
  assumes "ftm_inv m"
  shows "ftm_inv (fst (ftm_insert k v m))"
proof (cases "ft_map m k")
  case None
  then have new: "k \<notin> fst ` set (ft_vec m)"
    using ftm_inv_key [OF assms] by (force simp: in_set_conv_nth)
  then have "\<And>i. i < length (ft_vec m) \<Longrightarrow> fst (ft_vec m ! i) \<noteq> k" by (metis image_eqI nth_mem)
  then show ?thesis
    using assms None new by (auto simp: ftm_inv_def ftm_insert_def nth_append less_Suc_eq)
qed (simp add: ftm_insert_def assms)

lemma ftm_find_insert:
  assumes "ftm_inv m" and "ftm_find m k = None"
  shows "snd (ftm_insert k v m) \<and> ftm_find (fst (ftm_insert k v m)) = (ftm_find m)(k \<mapsto> v)"
proof -
  have k: "ft_map m k = None" using assms(2) by (simp add: ftm_find_def ftm_pos_def split: option.splits)
  then have "ftm_find (fst (ftm_insert k v m)) k' = ((ftm_find m)(k \<mapsto> v)) k'" for k'
    using ftm_invD [OF assms(1), of k']
    by (auto simp: ftm_find_def ftm_pos_def ftm_insert_def nth_append split: option.split)
  with k show ?thesis by (auto simp: ftm_insert_def)
qed

text \<open>Erasing: the vector loses the pair, and every other key finds its own.\<close>

lemma ftm_erase_vec:
  assumes "ftm_inv m" and "ft_map m k = Some i"
  shows "ft_vec (ftm_erase k m) = butlast ((ft_vec m)[i := last (ft_vec m)])"
proof -
  have i: "i < length (ft_vec m)" using ftm_invD(1) [OF assms] .
  show ?thesis
  proof (cases "i + 1 = length (ft_vec m)")
    case True
    then have "(ft_vec m)[i := last (ft_vec m)] = ft_vec m"
      using i by (metis add_diff_cancel_right' last_conv_nth list.size(3) list_update_id not_less_zero)
    then show ?thesis
      using assms(2) True by (cases "ft_vec m") (auto simp: ftm_erase_def ftm_empty_def Let_def)
  next
    case False
    then show ?thesis using assms(2) i by (simp add: ftm_erase_def Let_def)
  qed
qed

lemma ftm_erase_index:
  assumes "ftm_inv m" and "ft_map m k = Some i"
  shows "ft_map (ftm_erase k m) = (if length (ft_vec m) = 1 then Map.empty
    else ((ft_map m)(fst (last (ft_vec m)) \<mapsto> i))(k := None))"
proof -
  have i: "i < length (ft_vec m)" "fst (ft_vec m ! i) = k" using ftm_invD [OF assms] by auto
  then have ne: "ft_vec m \<noteq> []" by auto
  show ?thesis
  proof (cases "i + 1 = length (ft_vec m)")
    case True
    then have "ft_vec m ! i = last (ft_vec m)" using ne by (simp add: last_conv_nth flip: True)
    then have "fst (last (ft_vec m)) = k" using i(2) by simp
    then show ?thesis using assms(2) True by (simp add: ftm_erase_def ftm_empty_def Let_def)
  next
    case False
    then show ?thesis using assms(2) i by (simp add: ftm_erase_def ftm_empty_def Let_def)
  qed
qed

lemma butlast_swap:
  assumes "i < length xs" and "distinct (map fst xs)"
  shows "set (butlast (xs[i := last xs])) = set xs - {xs ! i}"
    and "distinct (map fst (butlast (xs[i := last xs])))"
proof -
  obtain ys z where xs: "xs = ys @ [z]" using assms(1) by (cases xs rule: rev_cases) auto
  have "set (butlast (xs[i := last xs])) = set xs - {xs ! i} \<and> distinct (map fst (butlast (xs[i := last xs])))"
  proof (cases "i = length ys")
    case True
    then show ?thesis using assms(2) xs by auto
  next
    case False
    then have i: "i < length ys" using assms(1) xs by simp
    obtain as b bs where ys: "ys = as @ b # bs" "length as = i" using i by (metis id_take_nth_drop length_take min_absorb2 less_imp_le)
    then show ?thesis using assms(2) xs by (auto simp: list_update_append nth_append butlast_append)
  qed
  then show "set (butlast (xs[i := last xs])) = set xs - {xs ! i}"
    and "distinct (map fst (butlast (xs[i := last xs])))" by auto
qed

text \<open>The index map after an erasure is the inverse of the new vector.\<close>

lemma ftm_inv_erase:
  assumes inv: "ftm_inv m"
  shows "ftm_inv (ftm_erase k m)"
proof (cases "ft_map m k")
  case None
  then show ?thesis using inv by (simp add: ftm_erase_def)
next
  case (Some i)
  let ?xs = "ft_vec m"
  have i: "i < length ?xs" "fst (?xs ! i) = k" using ftm_invD [OF inv Some] by auto
  have d: "distinct (map fst ?xs)" using inv by (simp add: ftm_inv_def)
  show ?thesis
  proof (cases "length ?xs = 1")
    case True
    then show ?thesis using Some by (simp add: ftm_erase_def)
  next
    case False
    have last: "last ?xs = ?xs ! (length ?xs - 1)" using i(1) by (cases ?xs) (auto simp: last_conv_nth)
    have key: "ft_map m k' = Some j \<longleftrightarrow> j < length ?xs \<and> fst (?xs ! j) = k'" for k' j
      using inv by (simp add: ftm_inv_def)
    have inj: "a < length ?xs \<Longrightarrow> b < length ?xs \<Longrightarrow> fst (?xs ! a) = fst (?xs ! b) \<Longrightarrow> a = b" for a b
      using d by (simp add: distinct_conv_nth) metis
    have nth: "j < length ?xs - 1 \<Longrightarrow>
        butlast (?xs[i := last ?xs]) ! j = (if j = i then last ?xs else ?xs ! j)" for j
      using i(1) by (simp add: nth_butlast nth_list_update)
    have "ft_map (ftm_erase k m) k' = Some j \<longleftrightarrow>
        j < length ?xs - 1 \<and> fst (butlast (?xs[i := last ?xs]) ! j) = k'" for k' j
    proof -
      have "ft_map (ftm_erase k m) k' = Some j \<longleftrightarrow>
          k' \<noteq> k \<and> (if k' = fst (last ?xs) then j = i else ft_map m k' = Some j)"
        using False by (auto simp: ftm_erase_index [OF inv Some])
      also have "\<dots> \<longleftrightarrow> j < length ?xs - 1 \<and> fst (butlast (?xs[i := last ?xs]) ! j) = k'"
      proof (cases "j < length ?xs - 1")
        case True
        have pos: "length ?xs - 1 < length ?xs" using i(1) by simp
        have "fst (?xs ! j) \<noteq> fst (last ?xs)"
          using True inj [OF _ pos, of j] less_trans [OF True pos] by (auto simp: last)
        moreover have "fst (last ?xs) \<noteq> k" if "j = i" using that True inj [OF i(1) pos] i(2) by (auto simp: last)
        moreover have "fst (?xs ! j) \<noteq> k" if "j \<noteq> i" using that inj [OF i(1), of j] less_trans [OF True pos] i(2) by auto
        ultimately show ?thesis using True i by (auto simp: nth key)
      next
        case F: False
        show ?thesis
        proof (cases "j = i")
          case True
          then have "i = length ?xs - 1" using F i(1) by simp
          then show ?thesis using F i True by (auto simp: last key)
        next
          case ne: False
          then show ?thesis using F i by (auto simp: key last) (metis One_nat_def Suc_pred less_antisym list.size(3) length_greater_0_conv not_less_zero)
        qed
      qed
      finally show ?thesis .
    qed
    then show ?thesis
      using butlast_swap(2) [OF i(1) d] by (simp add: ftm_inv_def ftm_erase_vec [OF inv Some])
  qed
qed

lemma ftm_find_erase:
  assumes inv: "ftm_inv m"
  shows "ftm_find (ftm_erase k m) = (ftm_find m)(k := None)"
proof (cases "ft_map m k")
  case None
  then show ?thesis by (auto simp: ftm_erase_def ftm_find_def ftm_pos_def)
next
  case (Some i)
  let ?xs = "ft_vec m"
  have i: "i < length ?xs" "fst (?xs ! i) = k" using ftm_invD [OF inv Some] by auto
  have d: "distinct (map fst ?xs)" using inv by (simp add: ftm_inv_def)
  have eq: "(\<forall>v. (map_of zs k' = Some v) = (map_of ys k' = Some v)) \<Longrightarrow> map_of zs k' = map_of ys k'"
    for zs ys :: "('a \<times> 'b) list" and k' by (metis not_None_eq)
  have "map_of (butlast (?xs[i := last ?xs])) = (map_of ?xs)(k := None)"
  proof
    fix k'
    have only: "(k, v) \<in> set ?xs \<Longrightarrow> (k, v) = ?xs ! i" for v
      using d i by (metis distinct_map in_set_conv_nth inj_onD nth_mem fst_conv)
    show "map_of (butlast (?xs[i := last ?xs])) k' = ((map_of ?xs)(k := None)) k'"
    proof (cases "k' = k")
      case True
      have "k \<notin> fst ` set (butlast (?xs[i := last ?xs]))"
        using only by (auto simp: butlast_swap [OF i(1) d])
      then show ?thesis using True by (simp add: map_of_eq_None_iff)
    next
      case False
      have ik: "(k', v) \<noteq> ?xs ! i" for v using False i(2) by (metis fst_conv)
      have "map_of (butlast (?xs[i := last ?xs])) k' = map_of ?xs k'"
        by (rule eq) (use ik in \<open>auto simp: map_of_eq_Some_iff butlast_swap [OF i(1) d] d\<close>)
      then show ?thesis using False by simp
    qed
  qed
  then show ?thesis
    by (simp add: ftm_find_map_of [OF inv] ftm_find_map_of [OF ftm_inv_erase [OF inv]] ftm_erase_vec [OF inv Some])
qed

lemma ftm_insert_old: "ftm_find m k \<noteq> None \<Longrightarrow> ftm_insert k v m = (m, False)"
  by (simp add: ftm_find_def ftm_pos_def ftm_insert_def split: option.splits)

interpretation ftm: key_map ftm_inv ftm_find ftm_insert ftm_erase
  by unfold_locales
    (simp_all add: ftm_inv_insert ftm_inv_erase ftm_find_insert ftm_insert_old ftm_find_erase)

text \<open>C32: \<open>FastTravelUnorderedMap\<close> is a map: starting from a consistent container, insertion
  reports failure exactly for a present key and otherwise adds the pair, erasing removes
  exactly the key, the container stays consistent (the index map is the inverse of the
  vector, whatever happens to the hash map's own storage), and the vector lists every
  pair once.\<close>

theorem ftm_refines_map:
  assumes "ftm_inv m"
  shows "ftm_inv (fst (ftm_insert k v m)) \<and> ftm_inv (ftm_erase k m)
    \<and> ftm_find (fst (ftm_insert k v m)) = (if ftm_find m k = None then (ftm_find m)(k \<mapsto> v) else ftm_find m)
    \<and> snd (ftm_insert k v m) = (ftm_find m k = None)
    \<and> ftm_find (ftm_erase k m) = (ftm_find m)(k := None)
    \<and> ftm_size m = card (dom (ftm_find m))"
proof -
  have "distinct (map fst (ft_vec m))" using assms by (simp add: ftm_inv_def)
  then have "card (set (map fst (ft_vec m))) = length (ft_vec m)" by (simp add: distinct_card del: set_map)
  then have "card (dom (ftm_find m)) = length (ft_vec m)"
    by (simp add: ftm_find_map_of [OF assms] dom_map_of_conv_image_fst)
  then show ?thesis
    using ftm.inv_ins [OF assms] ftm.inv_del [OF assms] ftm.lookup_ins [OF assms] ftm.ins_ok_iff [OF assms]
      ftm.lookup_del [OF assms] by (simp add: ftm_size_def)
qed

theorem ftm_refines_map_witness:
  "ftm_find (ftm_erase (7::nat) (fst (ftm_insert 9 True (fst (ftm_insert 7 False ftm_empty))))) 9 = Some True"
proof -
  note step = ftm_refines_map [of "fst (ftm_insert 9 True (fst (ftm_insert 7 False ftm_empty)))" "7 :: nat"]
  have "ftm_inv (fst (ftm_insert 9 True (fst (ftm_insert (7 :: nat) False ftm_empty))))"
    by (intro ftm_inv_insert ftm_inv_empty)
  from step [OF this] show ?thesis
    by (simp add: ftm_insert_def ftm_empty_def ftm_find_def ftm_pos_def)
qed

end
