(* ===== verification/LobbyState.thy ===== *)
theory LobbyState
  imports Settle FastTravel
begin

text \<open>
  The state of the lobby process: the client objects, the three indices of
  \<open>ClientManager\<close>, the rooms, the shared deck, the clock of the last timer tick, and what
  the process has sent. Client objects are shared by pointers, so they lie in a store and
  a pointer is a position in it; a room object is only ever held by the room map (and by
  the handler that runs on it).
\<close>

section \<open>Messages\<close>

text \<open>The texts of \<open>noticeMessageBox\<close>, one constructor for each.\<close>

datatype notice =
    AlreadyInRoom | RoomDismissed | NotInRoom | GameAlreadyStarted | CannotBringOut | CannotBringOutAgain
  | WrongCardCount | InOtherRoom u32 | EnterFailedStarted | EnterFailedFull | CreateFailedMoney
  | EnterFailedMoney | VotePassed | VoteTimedOut

record finalCount =
  fc_cuid :: u64
  fc_win :: nat
  fc_daqiang :: nat
  fc_quanleida :: nat
  fc_rank :: int

datatype chatContent = CHAT_TEXT string | CHAT_FACE int | CHAT_VOICE int

datatype clientMsg =
    S_Notice notice
  | S_G13_PlayerQuited
  | S_G13_RoomAttr u64 gameAttr
  | S_G13_PlayersInRoom "(u64 \<times> string \<times> playerStatus \<times> int) list" int
  | S_G13_HandOfMine "card list"
  | S_G13_AbortGameOrNot int u64 "(u64 \<times> voteOfAbort) list"
  | S_G13_VoteFailed u64
  | S_G13_AllHands "(u64 \<times> card list \<times> int \<times> (brandT \<times> int) list \<times> g13SpecialBrandT) list"
  | S_G13_AllRounds "finalCount list"
  | S_Chat u64 chatContent

datatype retCode = RLQ_REG_FAILED | RLQ_SUCCES

datatype gatewayMsg =
    RetLoginQuest u64 retCode u64 "string option"
  | ClientBeReplaced u64 u64 string

text \<open>Everything leaves through the router: a message for a client's connection, or one for a
  gateway process.\<close>

datatype packet = ToClient u64 clientMsg | ToGateway u32 gatewayMsg

section \<open>Clients, rooms, the process\<close>

type_synonym cptr = nat

record client =
  cl_ccid :: u64
  cl_cuid :: u64
  cl_openid :: string
  cl_name :: string
  cl_roomId :: u32
  cl_money :: int

definition Client :: client where
  "Client = \<lparr>cl_ccid = 0, cl_cuid = 0, cl_openid = [], cl_name = [], cl_roomId = 0, cl_money = 10000\<rparr>"

record game13 =
  g_id :: u32
  g_ownerCuid :: u64
  g_maxSize :: nat
  g_attr :: gameAttr
  g_players :: "playerInfo list"
  g_status :: gameStatus
  g_rounds :: int
  g_startVoteTime :: int
  g_voteSponsorCuid :: u64
  g_settleAllTime :: int
  g_settleData :: "playerData list list"

record lobby =
  lb_store :: "client list"
  lb_openid2Clients :: "(string, cptr) ftm"
  lb_cuid2Clients :: "(u64, cptr) ftm"
  lb_ccid2Clients :: "(u64, cptr) ftm"
  lb_uniqueIdCounter :: u32
  lb_rooms :: "u32 \<rightharpoonup> game13"
  lb_lastRoomId :: u32
  lb_expiredIds :: "u32 list"
  lb_timerTime :: int
  lb_deck :: "card list"
  lb_out :: "packet list"

definition lobby_init :: lobby where
  "lobby_init = \<lparr>lb_store = [], lb_openid2Clients = ftm_empty, lb_cuid2Clients = ftm_empty,
     lb_ccid2Clients = ftm_empty, lb_uniqueIdCounter = 0, lb_rooms = Map.empty, lb_lastRoomId = 100000,
     lb_expiredIds = [], lb_timerTime = 0, lb_deck = [], lb_out = []\<rparr>"

section \<open>One client\<close>

definition client_at :: "lobby \<Rightarrow> cptr \<Rightarrow> client" where
  "client_at st p = lb_store st ! p"

definition upd_client :: "cptr \<Rightarrow> (client \<Rightarrow> client) \<Rightarrow> lobby \<Rightarrow> lobby" where
  "upd_client p f st = st\<lparr>lb_store := (lb_store st)[p := f (lb_store st ! p)]\<rparr>"

definition sendToMe :: "cptr \<Rightarrow> clientMsg \<Rightarrow> lobby \<Rightarrow> lobby" where
  "sendToMe p msg st = st\<lparr>lb_out := lb_out st @ [ToClient (cl_ccid (client_at st p)) msg]\<rparr>"

definition noticeMessageBox :: "cptr \<Rightarrow> notice \<Rightarrow> lobby \<Rightarrow> lobby" where
  "noticeMessageBox p n st = sendToMe p (S_Notice n) st"

definition setRoomId :: "cptr \<Rightarrow> u32 \<Rightarrow> lobby \<Rightarrow> lobby" where
  "setRoomId p r st = upd_client p (\<lambda>c. c\<lparr>cl_roomId := r\<rparr>) st"

definition afterLeaveRoom :: "cptr \<Rightarrow> lobby \<Rightarrow> lobby" where
  "afterLeaveRoom p st = sendToMe p S_G13_PlayerQuited (setRoomId p 0 st)"

definition enoughMoney :: "cptr \<Rightarrow> int \<Rightarrow> lobby \<Rightarrow> bool" where
  "enoughMoney p money st \<longleftrightarrow> cl_money (client_at st p) > money"

definition addMoney :: "cptr \<Rightarrow> int \<Rightarrow> lobby \<Rightarrow> lobby" where
  "addMoney p money st = upd_client p (\<lambda>c. c\<lparr>cl_money := to_i32 (cl_money c + money)\<rparr>) st"

definition sendToGateway :: "u32 \<Rightarrow> gatewayMsg \<Rightarrow> lobby \<Rightarrow> lobby" where
  "sendToGateway pid msg st = st\<lparr>lb_out := lb_out st @ [ToGateway pid msg]\<rparr>"

section \<open>The client manager\<close>

definition getByCcid :: "lobby \<Rightarrow> u64 \<Rightarrow> cptr option" where
  "getByCcid st ccid = ftm_find (lb_ccid2Clients st) ccid"

definition getByCuid :: "lobby \<Rightarrow> u64 \<Rightarrow> cptr option" where
  "getByCuid st cuid = ftm_find (lb_cuid2Clients st) cuid"

definition getByOpenid :: "lobby \<Rightarrow> string \<Rightarrow> cptr option" where
  "getByOpenid st openid = ftm_find (lb_openid2Clients st) openid"

text \<open>\<open>insert\<close> takes back what it did when a later index refuses the client.\<close>

definition insert_client :: "cptr \<Rightarrow> lobby \<Rightarrow> lobby \<times> bool" where
  "insert_client p st =
     (let c = client_at st p;
          (om, ok1) = ftm_insert (cl_openid c) p (lb_openid2Clients st)
      in if \<not> ok1 then (st, False)
      else let (um, ok2) = ftm_insert (cl_cuid c) p (lb_cuid2Clients st)
        in if \<not> ok2 then (st\<lparr>lb_openid2Clients := ftm_erase (cl_openid c) om\<rparr>, False)
        else let (cm, ok3) = ftm_insert (cl_ccid c) p (lb_ccid2Clients st)
          in if \<not> ok3 then
               (st\<lparr>lb_openid2Clients := ftm_erase (cl_openid c) om,
                  lb_cuid2Clients := ftm_erase (cl_cuid c) um\<rparr>, False)
             else (st\<lparr>lb_openid2Clients := om, lb_cuid2Clients := um, lb_ccid2Clients := cm\<rparr>, True))"

definition erase_client :: "cptr \<Rightarrow> lobby \<Rightarrow> lobby" where
  "erase_client p st =
     (let c = client_at st p
      in st\<lparr>lb_openid2Clients := ftm_erase (cl_openid c) (lb_openid2Clients st),
            lb_cuid2Clients := ftm_erase (cl_cuid c) (lb_cuid2Clients st),
            lb_ccid2Clients := ftm_erase (cl_ccid c) (lb_ccid2Clients st)\<rparr>)"

definition getClientUniqueId :: "lobby \<Rightarrow> lobby \<times> u64" where
  "getClientUniqueId st =
     (let n = lb_uniqueIdCounter st + 1 in (st\<lparr>lb_uniqueIdCounter := n\<rparr>, ucast n))"

definition new_client :: "client \<Rightarrow> lobby \<Rightarrow> lobby \<times> cptr" where
  "new_client c st = (st\<lparr>lb_store := lb_store st @ [c]\<rparr>, length (lb_store st))"

text \<open>The database is still to be written: no client is ever loaded, and saving always succeeds.\<close>

definition loadClientFromDB :: "string \<Rightarrow> cptr option" where
  "loadClientFromDB openid = None"

definition saveClientToDB :: "cptr \<Rightarrow> bool" where
  "saveClientToDB p = True"

section \<open>Rooms\<close>

definition getRoomId :: "lobby \<Rightarrow> lobby \<times> u32" where
  "getRoomId st =
     (case lb_expiredIds st of
       [] \<Rightarrow> (let n = lb_lastRoomId st + 1 in (st\<lparr>lb_lastRoomId := n\<rparr>, n))
     | r # rs \<Rightarrow> (st\<lparr>lb_expiredIds := rs\<rparr>, r))"

definition destroyLater :: "game13 \<Rightarrow> game13" where
  "destroyLater g = g\<lparr>g_id := 0\<rparr>"

definition room_add :: "game13 \<Rightarrow> lobby \<Rightarrow> lobby \<times> bool" where
  "room_add g st =
     (case lb_rooms st (g_id g) of
       Some _ \<Rightarrow> (st, False)
     | None \<Rightarrow> (st\<lparr>lb_rooms := (lb_rooms st)(g_id g \<mapsto> g)\<rparr>, True))"

definition room_get :: "lobby \<Rightarrow> u32 \<Rightarrow> game13 option" where
  "room_get st rid = lb_rooms st rid"

definition put_room :: "u32 \<Rightarrow> game13 \<times> lobby \<Rightarrow> lobby" where
  "put_room rid r = (snd r)\<lparr>lb_rooms := (lb_rooms (snd r))(rid \<mapsto> fst r)\<rparr>"

section \<open>Fields that operations leave alone\<close>

named_theorems lobby_ops

lemmas [lobby_ops] = client_at_def upd_client_def sendToMe_def noticeMessageBox_def setRoomId_def
  afterLeaveRoom_def addMoney_def sendToGateway_def

lemma getBy_simps [simp]:
  "getByCuid (sendToMe p m st) = getByCuid st" "getByCuid (upd_client p f st) = getByCuid st"
  "getByCcid (sendToMe p m st) = getByCcid st" "getByCcid (upd_client p f st) = getByCcid st"
  by (simp_all add: getByCuid_def getByCcid_def lobby_ops fun_eq_iff)

end
