(* ===== verification/Game13.thy ===== *)
theory Game13
  imports LobbyState
begin

text \<open>
  The methods of one game, \<^verbatim>\<open>processes/lobby/game13.cpp\<close>. A method runs on the game
  object and on the rest of the process, and gives both back; the handlers put the game
  back under its key. \<open>std::shuffle\<close> is a parameter: a function on the deck.
\<close>

section \<open>Sending\<close>

text \<open>The loop over the seats that looks each player's client up.\<close>

definition each_client :: "(cptr \<Rightarrow> lobby \<Rightarrow> lobby) \<Rightarrow> u64 list \<Rightarrow> lobby \<Rightarrow> lobby" where
  "each_client f cuids st =
     fold (\<lambda>cuid st. case getByCuid st cuid of None \<Rightarrow> st | Some p \<Rightarrow> f p st) cuids st"

definition sendToAll :: "game13 \<Rightarrow> clientMsg \<Rightarrow> lobby \<Rightarrow> lobby" where
  "sendToAll g msg st =
     each_client (\<lambda>p. sendToMe p msg) (filter (\<lambda>u. u \<noteq> 0) (map pi_cuid (g_players g))) st"

definition sendToOthers :: "game13 \<Rightarrow> u64 \<Rightarrow> clientMsg \<Rightarrow> lobby \<Rightarrow> lobby" where
  "sendToOthers g cuid msg st =
     each_client (\<lambda>p. sendToMe p msg) (filter (\<lambda>u. u \<noteq> 0 \<and> u \<noteq> cuid) (map pi_cuid (g_players g))) st"

definition players_msg :: "playerInfo list \<Rightarrow> int \<Rightarrow> clientMsg" where
  "players_msg ps rounds =
     S_G13_PlayersInRoom (map (\<lambda>i. (pi_cuid i, pi_name i, pi_status i, pi_money i)) ps) rounds"

definition syncAll :: "game13 \<Rightarrow> lobby \<Rightarrow> lobby" where
  "syncAll g st = sendToAll g (players_msg (g_players g) (g_rounds g)) st"

section \<open>Seats\<close>

fun seat_index :: "(playerInfo \<Rightarrow> bool) \<Rightarrow> playerInfo list \<Rightarrow> nat option" where
  "seat_index P [] = None"
| "seat_index P (i # is) = (if P i then Some 0 else map_option Suc (seat_index P is))"

definition getEmptySeatIndex :: "game13 \<Rightarrow> nat option" where
  "getEmptySeatIndex g = seat_index (\<lambda>i. pi_cuid i = 0) (g_players g)"

definition getPlayerInfoByCuid :: "game13 \<Rightarrow> u64 \<Rightarrow> nat option" where
  "getPlayerInfoByCuid g cuid = seat_index (\<lambda>i. pi_cuid i = cuid) (g_players g)"

definition upd_seat :: "nat \<Rightarrow> (playerInfo \<Rightarrow> playerInfo) \<Rightarrow> game13 \<Rightarrow> game13" where
  "upd_seat i f g = g\<lparr>g_players := (g_players g)[i := f (g_players g ! i)]\<rparr>"

section \<open>Votes\<close>

definition MAX_VOTE_DURATION :: int where "MAX_VOTE_DURATION = 300"

definition remain_seconds :: "game13 \<Rightarrow> lobby \<Rightarrow> int" where
  "remain_seconds g st =
     (let elapse = lb_timerTime st - g_startVoteTime g
      in if MAX_VOTE_DURATION > elapse then MAX_VOTE_DURATION - elapse else 0)"

text \<open>Nobody is in the room any more, and the room is to be destroyed.\<close>

definition abortGame :: "game13 \<Rightarrow> lobby \<Rightarrow> game13 \<times> lobby" where
  "abortGame g st =
     (destroyLater (g\<lparr>g_players := [], g_status := closed\<rparr>),
      each_client afterLeaveRoom (map pi_cuid (g_players g)) st)"

text \<open>The count of the votes stops at the first vote against.\<close>

fun count_votes :: "playerInfo list \<Rightarrow> nat \<Rightarrow> (u64 \<times> voteOfAbort) list \<Rightarrow> nat \<times> u64 \<times> (u64 \<times> voteOfAbort) list" where
  "count_votes [] ayes votes = (ayes, 0, votes)"
| "count_votes (i # is) ayes votes =
     (if pi_vote i = VT_NAY then (ayes, pi_cuid i, votes)
      else count_votes is (if pi_vote i = VT_AYE then ayes + 1 else ayes) (votes @ [(pi_cuid i, pi_vote i)]))"

definition reset_votes :: "game13 \<Rightarrow> game13" where
  "reset_votes g = g\<lparr>g_players := map (\<lambda>i. i\<lparr>pi_vote := VT_NONE\<rparr>) (g_players g)\<rparr>"

definition checkAllVotes :: "game13 \<Rightarrow> lobby \<Rightarrow> game13 \<times> lobby" where
  "checkAllVotes g st =
     (if g_status g \<noteq> vote then (g, st)
      else
        let (ayeSize, oppositionCuid, votes) = count_votes (g_players g) 0 [];
            cuids = map pi_cuid (g_players g)
        in if oppositionCuid \<noteq> 0 then
             ((reset_votes g)\<lparr>g_startVoteTime := 0, g_voteSponsorCuid := 0, g_status := play\<rparr>,
              each_client (\<lambda>p. sendToMe p (S_G13_VoteFailed oppositionCuid)) cuids st)
           else if ayeSize = length (g_players g) then
             abortGame ((reset_votes g)\<lparr>g_startVoteTime := 0, g_voteSponsorCuid := 0\<rparr>)
               (each_client (\<lambda>p. noticeMessageBox p VotePassed) cuids st)
           else
             (g, each_client
                (\<lambda>p. sendToMe p (S_G13_AbortGameOrNot (remain_seconds g st) (g_voteSponsorCuid g) votes)) cuids st))"

section \<open>Entering and leaving\<close>

definition afterEnterRoom :: "game13 \<Rightarrow> cptr \<Rightarrow> lobby \<Rightarrow> lobby" where
  "afterEnterRoom g p st =
     (let st1 = syncAll g (sendToMe p (S_G13_RoomAttr (g_ownerCuid g) (g_attr g)) st);
          hands = (if g_status g = play \<or> g_status g = vote then g_players g else []);
          st2 = fold (\<lambda>i. sendToMe p (S_G13_HandOfMine (pi_cards i))) hands st1
      in if g_status g = vote
         then sendToMe p (S_G13_AbortGameOrNot (remain_seconds g st) (g_voteSponsorCuid g)
                (map (\<lambda>i. (pi_cuid i, pi_vote i)) hands)) st2
         else st2)"

text \<open>
  The seat is taken before the money is looked at, and a refusal for want of money does
  not give it back. The two refusals' texts are chosen the wrong way round.
\<close>

definition enterRoom :: "game13 \<Rightarrow> cptr \<Rightarrow> lobby \<Rightarrow> game13 \<times> lobby \<times> bool" where
  "enterRoom g p st =
     (let c = client_at st p
      in if cl_roomId c \<noteq> 0 then
           (if cl_roomId c = g_id g then (g, st, True)
            else (g, noticeMessageBox p (InOtherRoom (cl_roomId c)) st, False))
         else if g_status g \<noteq> prepare then (g, noticeMessageBox p EnterFailedStarted st, False)
         else case getEmptySeatIndex g of
           None \<Rightarrow> (g, noticeMessageBox p EnterFailedFull st, False)
         | Some index \<Rightarrow>
             let g' = upd_seat index (\<lambda>i. i\<lparr>pi_cuid := cl_cuid c, pi_name := cl_name c,
                        pi_status := PREP, pi_money := cl_money c\<rparr>) g;
                 payor = at_payor (g_attr g)
             in if payor \<noteq> PAY_BANKER \<and> payor \<noteq> PAY_SHARE_EQU \<and> payor \<noteq> PAY_WINNER then (g', st, False)
                else if (if payor = PAY_BANKER then g_ownerCuid g \<noteq> cl_cuid c \<or> enoughMoney p 10 st
                         else if payor = PAY_SHARE_EQU then enoughMoney p 5 st
                         else enoughMoney p 10 st)
                then (g', afterEnterRoom g' p (setRoomId p (g_id g) st), True)
                else (g', noticeMessageBox p
                        (if g_ownerCuid g \<noteq> cl_cuid c then CreateFailedMoney else EnterFailedMoney) st, False))"

definition clientOnlineExec :: "game13 \<Rightarrow> cptr \<Rightarrow> lobby \<Rightarrow> lobby" where
  "clientOnlineExec g p st =
     (let c = client_at st p
      in if cl_roomId c = g_id g \<and> getPlayerInfoByCuid g (cl_cuid c) = None
         then setRoomId p 0 st
         else afterEnterRoom g p st)"

definition removePlayer :: "game13 \<Rightarrow> cptr \<Rightarrow> lobby \<Rightarrow> game13 \<times> lobby" where
  "removePlayer g p st =
     (case getPlayerInfoByCuid g (cl_cuid (client_at st p)) of
       None \<Rightarrow> (g, syncAll g st)
     | Some i \<Rightarrow> let g' = upd_seat i clear g in (g', syncAll g' (afterLeaveRoom p st)))"

section \<open>Starting a round\<close>

text \<open>
  Both loops write the deck by index. \<open>resize(52)\<close> makes the indices valid;
  \<open>reserve(65)\<close> changes no size, so with the other variant an index past the deck's
  current size is written.
\<close>

definition write_all :: "(nat \<times> card) list \<Rightarrow> card list \<Rightarrow> card list outcome" where
  "write_all ws deck =
     (if \<forall>(i, c) \<in> set ws. i < length deck then Inr (fold (\<lambda>(i, c) d. d[i := c]) ws deck)
      else Inl OutOfBounds)"

definition resize :: "nat \<Rightarrow> card list \<Rightarrow> card list" where
  "resize n deck = take n deck @ replicate (n - length deck) 0"

definition init_deck :: "nat \<Rightarrow> card list \<Rightarrow> card list outcome" where
  "init_deck playType deck =
     (if playType = GP_52 then write_all (map (\<lambda>i. (i, i + 1)) [0..<52]) (resize 52 deck)
      else obind (write_all (map (\<lambda>i. (i, i + 1)) [0..<52]) deck)
             (write_all (map (\<lambda>i. (i, i + 39 + 1)) [0..<13])))"

text \<open>Thirteen cards from \<open>index\<close> on, then \<open>std::sort\<close>.\<close>

definition deal_hand :: "card list \<Rightarrow> nat \<Rightarrow> card list outcome" where
  "deal_hand deck index = map_sum id sort (omap (\<lambda>i. vec_at deck (index + i)) [0..<13])"

text \<open>The fee, taken from the client and from the seat in the first round.\<close>

definition take_fee :: "game13 \<Rightarrow> cptr \<Rightarrow> playerInfo \<Rightarrow> lobby \<Rightarrow> playerInfo \<times> lobby" where
  "take_fee g p info st =
     (if g_rounds g = 1 then
        (if at_payor (g_attr g) = PAY_BANKER \<and> cl_cuid (client_at st p) = g_ownerCuid g
         then (info\<lparr>pi_money := to_i32 (pi_money info - 10)\<rparr>, addMoney p (-10) st)
         else if at_payor (g_attr g) = PAY_SHARE_EQU
         then (info\<lparr>pi_money := to_i32 (pi_money info - 5)\<rparr>, addMoney p (-5) st)
         else (info, st))
      else (info, st))"

definition deal_seat :: "game13 \<Rightarrow> card list \<Rightarrow> playerInfo \<Rightarrow> lobby \<Rightarrow> playerInfo \<times> lobby" where
  "deal_seat g hand info st =
     (let info1 = info\<lparr>pi_cards := hand\<rparr>;
          (info2, st2) =
            (case getByCuid st (pi_cuid info) of
              None \<Rightarrow> (info1, st)
            | Some p \<Rightarrow>
                let (info2, st2) = take_fee g p info1 st
                in (info2, sendToMe p (S_G13_HandOfMine hand) st2))
      in (info2\<lparr>pi_status := SORT\<rparr>, st2))"

fun deal_loop :: "game13 \<Rightarrow> card list \<Rightarrow> nat \<Rightarrow> playerInfo list \<Rightarrow> lobby \<Rightarrow> (playerInfo list \<times> lobby) outcome" where
  "deal_loop g deck index [] st = Inr ([], st)"
| "deal_loop g deck index (info # infos) st =
     obind (deal_hand deck index) (\<lambda>hand.
       let (info', st') = deal_seat g hand info st
       in obind (deal_loop g deck (index + 13) infos st') (\<lambda>(infos', st''). Inr (info' # infos', st'')))"

definition all_ready :: "game13 \<Rightarrow> lobby \<Rightarrow> bool" where
  "all_ready g st \<longleftrightarrow>
     (if g_status g = prepare then
        list_all (\<lambda>i. pi_cuid i \<noteq> 0 \<and> pi_status i = READY \<and> getByCuid st (pi_cuid i) \<noteq> None) (g_players g)
      else if g_status g \<noteq> settle then
        list_all (\<lambda>i. pi_cuid i \<noteq> 0 \<and> pi_status i = COMPARE) (g_players g)
      else True)"

definition tryStartRound :: "(card list \<Rightarrow> card list) \<Rightarrow> game13 \<Rightarrow> lobby \<Rightarrow> (game13 \<times> lobby) outcome" where
  "tryStartRound shuffle g st =
     (if \<not> all_ready g st then Inr (g, st)
      else
        let g1 = g\<lparr>g_rounds := to_i32 (g_rounds g + 1)\<rparr>
        in obind (init_deck (at_playType (g_attr g)) (lb_deck st)) (\<lambda>deck0.
          let deck = shuffle deck0
          in obind (deal_loop g1 deck 0 (g_players g1) (st\<lparr>lb_deck := deck\<rparr>)) (\<lambda>(ps, st').
            let g2 = g1\<lparr>g_players := ps\<rparr>
            in Inr (g2\<lparr>g_status := play\<rparr>, sendToAll g2 (players_msg ps (g_rounds g2)) st'))))"

end
