(* ===== verification/Handlers.thy ===== *)
theory Handlers
  imports Game13
begin

text \<open>
  Settling a round, the timer of a game, the handlers of the client messages, the room
  map's timer loop, and the login and chat handlers of \<open>ClientManager\<close>.
\<close>

section \<open>Settling\<close>

definition FinalCount :: finalCount where
  "FinalCount = \<lparr>fc_cuid = 0, fc_win = 0, fc_daqiang = 0, fc_quanleida = 0, fc_rank = 0\<rparr>"

text \<open>\<open>daqiang\<close> is a \<open>bool\<close> in the source, so the sweeps of a round count once.\<close>

definition add_count :: "playerData \<Rightarrow> finalCount \<Rightarrow> finalCount" where
  "add_count pd c =
     c\<lparr>fc_cuid := pd_cuid pd, fc_win := fc_win c + length (pd_losers pd),
       fc_daqiang := fc_daqiang c + (if \<exists>(k, price, gun) \<in> set (pd_losers pd). gun \<noteq> 0 then 1 else 0),
       fc_quanleida := fc_quanleida c + (if pd_quanLeiDa pd then 1 else 0),
       fc_rank := to_i32 (fc_rank c + pd_prize pd)\<rparr>"

fun count_round :: "playerData list \<Rightarrow> nat \<Rightarrow> finalCount list \<Rightarrow> finalCount list outcome" where
  "count_round [] i counts = Inr counts"
| "count_round (pd # pds) i counts =
     obind (vec_at counts i) (\<lambda>c. count_round pds (i + 1) (counts[i := add_count pd c]))"

fun count_rounds :: "playerData list list \<Rightarrow> finalCount list \<Rightarrow> finalCount list outcome" where
  "count_rounds [] counts = Inr counts"
| "count_rounds (round # rs) counts = obind (count_round round 0 counts) (count_rounds rs)"

definition hands_msg :: "playerData list \<Rightarrow> clientMsg" where
  "hands_msg ds =
     S_G13_AllHands (map (\<lambda>pd. (pd_cuid pd, pd_cards pd, pd_prize pd,
       map (\<lambda>d. (bi_b d, bi_point d)) (pd_dun pd), pd_spec pd)) ds)"

text \<open>The cards the players arranged, not the sorted copies, go out with the result.\<close>

definition own_cards :: "playerInfo list \<Rightarrow> playerData list \<Rightarrow> playerData list" where
  "own_cards ps ds = map2 (\<lambda>p d. d\<lparr>pd_cards := pi_cards p\<rparr>) ps ds"

definition trySettleGame :: "game13 \<Rightarrow> lobby \<Rightarrow> (game13 \<times> lobby) outcome" where
  "trySettleGame g st =
     (if g_status g \<noteq> play then Inr (g, st)
      else if \<not> list_all (\<lambda>i. pi_cuid i \<noteq> 0 \<and> pi_status i = COMPARE) (g_players g) then Inr (g, st)
      else obind (calcRound (g_attr g) (g_players g)) (\<lambda>ds.
        let ds' = own_cards (g_players g) ds;
            g1 = g\<lparr>g_settleData := g_settleData g @ [ds']\<rparr>;
            st1 = sendToAll g1 (hands_msg ds') st
        in if g_rounds g1 \<ge> at_rounds (g_attr g1) then
             obind (count_rounds (g_settleData g1) (replicate (length (g_players g1)) FinalCount)) (\<lambda>counts.
               Inr (g1\<lparr>g_status := settleAll, g_settleAllTime := lb_timerTime st1\<rparr>,
                    sendToAll g1 (S_G13_AllRounds counts) st1))
           else Inr (g1\<lparr>g_status := settle\<rparr>, st1)))"

section \<open>The timer of a game\<close>

definition timerExec :: "(card list \<Rightarrow> card list) \<Rightarrow> game13 \<Rightarrow> lobby \<Rightarrow> (game13 \<times> lobby) outcome" where
  "timerExec shuffle g st =
     (case g_status g of
       prepare \<Rightarrow> tryStartRound shuffle g st
     | play \<Rightarrow> Inr (g, st)
     | vote \<Rightarrow>
         if lb_timerTime st - g_startVoteTime g \<ge> MAX_VOTE_DURATION then
           Inr (abortGame ((reset_votes g)\<lparr>g_startVoteTime := 0\<rparr>)
             (each_client (\<lambda>p. noticeMessageBox p VoteTimedOut) (map pi_cuid (g_players g)) st))
         else Inr (g, st)
     | settle \<Rightarrow> Inr (g, st)
     | settleAll \<Rightarrow>
         if lb_timerTime st - g_settleAllTime g \<ge> 120 then Inr (abortGame (g\<lparr>g_settleAllTime := 0\<rparr>) st)
         else Inr (g, st)
     | closed \<Rightarrow> Inr (destroyLater g, st))"

text \<open>
  \<open>Room::timerExecAll\<close>. The order in which the hash map is traversed is a parameter. A
  destroyed room is erased, and the loop ends there: the rooms after it wait for the
  next tick.
\<close>

fun timer_loop :: "(u32 \<Rightarrow> card list \<Rightarrow> card list) \<Rightarrow> u32 list \<Rightarrow> lobby \<Rightarrow> lobby outcome" where
  "timer_loop shuffle [] st = Inr st"
| "timer_loop shuffle (rid # rids) st =
     (case lb_rooms st rid of
       None \<Rightarrow> timer_loop shuffle rids st
     | Some g \<Rightarrow>
         if g_id g = 0 then Inr (st\<lparr>lb_rooms := (lb_rooms st)(rid := None)\<rparr>)
         else obind (timerExec (shuffle rid) g st) (\<lambda>r. timer_loop shuffle rids (put_room rid r)))"

definition timerExecAll :: "(u32 \<Rightarrow> card list \<Rightarrow> card list) \<Rightarrow> u32 list \<Rightarrow> int \<Rightarrow> lobby \<Rightarrow> lobby outcome" where
  "timerExecAll shuffle order now st = timer_loop shuffle order (st\<lparr>lb_timerTime := now\<rparr>)"

section \<open>The handlers of the client messages\<close>

record createMsg =
  cm_player_size :: nat
  cm_play_type :: int
  cm_rounds :: int
  cm_payor :: u32
  cm_da_qiang :: u32
  cm_quan_lei_da :: bool
  cm_yi_tiao_long :: u32

definition Game :: "u32 \<Rightarrow> u64 \<Rightarrow> nat \<Rightarrow> gameAttr \<Rightarrow> game13" where
  "Game gid owner maxSize attr =
     \<lparr>g_id = gid, g_ownerCuid = owner, g_maxSize = maxSize, g_attr = attr, g_players = [],
      g_status = prepare, g_rounds = 0, g_startVoteTime = 0, g_voteSponsorCuid = 0,
      g_settleAllTime = 0, g_settleData = []\<rparr>"

definition proto_CreateGame :: "createMsg \<Rightarrow> u64 \<Rightarrow> lobby \<Rightarrow> lobby" where
  "proto_CreateGame rcv ccid st =
     (case getByCcid st ccid of
       None \<Rightarrow> st
     | Some p \<Rightarrow>
         if cl_roomId (client_at st p) \<noteq> 0 then noticeMessageBox p AlreadyInRoom st
         else
           let (st1, gid) = getRoomId st;
               attr = \<lparr>at_roomId = gid,
                       at_playType = (if cm_play_type rcv > int GP_52 then GP_65 else GP_52),
                       at_rounds = cm_rounds rcv, at_payor = cm_payor rcv, at_daQiang = cm_da_qiang rcv,
                       at_quanLeiDa = cm_quan_lei_da rcv, at_yiTiaoLong = cm_yi_tiao_long rcv,
                       at_playerSize = cm_player_size rcv\<rparr>;
               g = Game gid (cl_cuid (client_at st1 p)) (cm_player_size rcv) attr;
               (st2, ok) = room_add g st1
           in if \<not> ok then st2
              else
                let g1 = g\<lparr>g_players := replicate (at_playerSize attr) PlayerInfo\<rparr>;
                    (g2, st3, _) = enterRoom g1 p st2
                in put_room gid (g2, st3))"

definition proto_JionGame :: "u32 \<Rightarrow> u64 \<Rightarrow> lobby \<Rightarrow> lobby" where
  "proto_JionGame rid ccid st =
     (case getByCcid st ccid of
       None \<Rightarrow> st
     | Some p \<Rightarrow>
         (case room_get st rid of
           None \<Rightarrow> noticeMessageBox p RoomDismissed st
         | Some g \<Rightarrow> let (g1, st1, _) = enterRoom g p st in put_room rid (g1, st1)))"

definition start_vote :: "u64 \<Rightarrow> lobby \<Rightarrow> game13 \<Rightarrow> game13" where
  "start_vote cuid st g =
     g\<lparr>g_startVoteTime := lb_timerTime st, g_voteSponsorCuid := cuid, g_status := vote\<rparr>"

text \<open>
  The switch of \<open>C_G13_GiveUp\<close>: from \<open>play\<close> it falls through into \<open>vote\<close>.
\<close>

definition giveUp :: "nat \<Rightarrow> cptr \<Rightarrow> game13 \<Rightarrow> lobby \<Rightarrow> game13 \<times> lobby" where
  "giveUp seat p g st =
     (case g_status g of
       prepare \<Rightarrow>
         if cl_cuid (client_at st p) = g_ownerCuid g then abortGame g st else removePlayer g p st
     | play \<Rightarrow> checkAllVotes (upd_seat seat (\<lambda>i. i\<lparr>pi_vote := VT_AYE\<rparr>)
                 (start_vote (pi_cuid (g_players g ! seat)) st g)) st
     | vote \<Rightarrow> checkAllVotes (upd_seat seat (\<lambda>i. i\<lparr>pi_vote := VT_AYE\<rparr>) g) st
     | settle \<Rightarrow> (g, st)
     | settleAll \<Rightarrow> removePlayer g p st
     | closed \<Rightarrow> removePlayer g p st)"

definition proto_GiveUp :: "u64 \<Rightarrow> lobby \<Rightarrow> lobby" where
  "proto_GiveUp ccid st =
     (case getByCcid st ccid of
       None \<Rightarrow> st
     | Some p \<Rightarrow>
         let rid = cl_roomId (client_at st p)
         in if rid = 0 then noticeMessageBox p NotInRoom st
            else (case room_get st rid of
                None \<Rightarrow> afterLeaveRoom p st
              | Some g \<Rightarrow>
                  (case getPlayerInfoByCuid g (cl_cuid (client_at st p)) of
                    None \<Rightarrow> st
                  | Some seat \<Rightarrow> put_room rid (giveUp seat p g st))))"

definition proto_VoteFoAbortGame :: "voteOfAbort \<Rightarrow> u64 \<Rightarrow> lobby \<Rightarrow> lobby" where
  "proto_VoteFoAbortGame v ccid st =
     (case getByCcid st ccid of
       None \<Rightarrow> st
     | Some p \<Rightarrow>
         let rid = cl_roomId (client_at st p)
         in (case room_get st rid of
              None \<Rightarrow> afterLeaveRoom p st
            | Some g \<Rightarrow>
                if g_status g \<noteq> vote then st
                else (case getPlayerInfoByCuid g (cl_cuid (client_at st p)) of
                    None \<Rightarrow> afterLeaveRoom p st
                  | Some seat \<Rightarrow>
                      let g1 = upd_seat seat (\<lambda>i. i\<lparr>pi_vote := v\<rparr>) g
                      in put_room rid (if v = VT_NONE then (g1, st) else checkAllVotes g1 st))))"

definition proto_ReadyFlag :: "(card list \<Rightarrow> card list) \<Rightarrow> bool \<Rightarrow> u64 \<Rightarrow> lobby \<Rightarrow> lobby outcome" where
  "proto_ReadyFlag shuffle ready ccid st =
     (case getByCcid st ccid of
       None \<Rightarrow> Inr st
     | Some p \<Rightarrow>
         let rid = cl_roomId (client_at st p)
         in if rid = 0 then Inr (noticeMessageBox p NotInRoom st)
            else (case room_get st rid of
                None \<Rightarrow> Inr (afterLeaveRoom p st)
              | Some g \<Rightarrow>
                  if g_status g \<noteq> prepare then Inr (noticeMessageBox p GameAlreadyStarted st)
                  else (case getPlayerInfoByCuid g (cl_cuid (client_at st p)) of
                      None \<Rightarrow> Inr (afterLeaveRoom p st)
                    | Some seat \<Rightarrow>
                        let newStatus = (if ready then READY else PREP)
                        in if pi_status (g_players g ! seat) = newStatus then Inr st
                           else
                             let g1 = upd_seat seat (\<lambda>i. i\<lparr>pi_status := newStatus\<rparr>) g;
                                 st1 = syncAll g1 st
                             in if newStatus = READY
                                then map_sum id (put_room rid) (tryStartRound shuffle g1 st1)
                                else Inr (put_room rid (g1, st1)))))"

definition bringOut :: "(card list \<Rightarrow> card list) \<Rightarrow> nat \<Rightarrow> card list \<Rightarrow> game13 \<Rightarrow> lobby \<Rightarrow> (game13 \<times> lobby) outcome" where
  "bringOut shuffle seat cards g st =
     (let g1 = upd_seat seat (\<lambda>i. i\<lparr>pi_status := COMPARE, pi_cards := cards\<rparr>) g
      in obind (trySettleGame g1 (syncAll g1 st)) (\<lambda>(g2, st2).
           if g_status g2 = settle then tryStartRound shuffle g2 st2 else Inr (g2, st2)))"

text \<open>The card numbers of the message are \<open>int32_t\<close>; a seat holds \<open>uint16_t\<close>.\<close>

definition to_card :: "int \<Rightarrow> card" where
  "to_card c = nat (c mod 65536)"

definition proto_BringOut :: "(card list \<Rightarrow> card list) \<Rightarrow> int list \<Rightarrow> u64 \<Rightarrow> lobby \<Rightarrow> lobby outcome" where
  "proto_BringOut shuffle cards ccid st =
     (case getByCcid st ccid of
       None \<Rightarrow> Inr st
     | Some p \<Rightarrow>
         let rid = cl_roomId (client_at st p)
         in if rid = 0 then Inr (noticeMessageBox p NotInRoom st)
            else (case room_get st rid of
                None \<Rightarrow> Inr (afterLeaveRoom p st)
              | Some g \<Rightarrow>
                  if g_status g \<noteq> play then Inr (noticeMessageBox p CannotBringOut st)
                  else (case getPlayerInfoByCuid g (cl_cuid (client_at st p)) of
                      None \<Rightarrow> Inr (afterLeaveRoom p st)
                    | Some seat \<Rightarrow>
                        if pi_status (g_players g ! seat) \<noteq> SORT then Inr (noticeMessageBox p CannotBringOutAgain st)
                        else if length cards \<noteq> 13 then Inr (noticeMessageBox p WrongCardCount st)
                        else map_sum id (put_room rid) (bringOut shuffle seat (map to_card cards) g st))))"

section \<open>Login and chat\<close>

definition clientOnline :: "cptr \<Rightarrow> lobby \<Rightarrow> lobby" where
  "clientOnline p st =
     (let rid = cl_roomId (client_at st p)
      in if rid = 0 then st
         else case room_get st rid of
           None \<Rightarrow> setRoomId p 0 st
         | Some g \<Rightarrow> clientOnlineExec g p st)"

definition login_ok :: "u32 \<Rightarrow> u64 \<Rightarrow> cptr \<Rightarrow> lobby \<Rightarrow> lobby" where
  "login_ok gatewayPid ccid p st =
     (let c = client_at st p
      in clientOnline p
           (sendToGateway gatewayPid (RetLoginQuest ccid RLQ_SUCCES (cl_cuid c) (Some (cl_openid c))) st))"

definition reg_failed :: "u32 \<Rightarrow> u64 \<Rightarrow> cptr \<Rightarrow> lobby \<Rightarrow> lobby" where
  "reg_failed gatewayPid ccid p st =
     sendToGateway gatewayPid (RetLoginQuest ccid RLQ_REG_FAILED (cl_cuid (client_at st p)) None) st"

text \<open>
  Three cases: a new user is registered; a known user who is offline gets the new
  connection; a user who is online is replaced. In the last case a failed insertion is
  reported and the code then goes on to the success path all the same.
\<close>

definition proto_LoginQuest :: "u32 \<Rightarrow> u64 \<Rightarrow> string \<Rightarrow> string \<Rightarrow> lobby \<Rightarrow> lobby" where
  "proto_LoginQuest gatewayPid ccid openid name st =
     (case getByOpenid st openid of
       None \<Rightarrow>
         (case loadClientFromDB openid of
           None \<Rightarrow>
             let (st1, cuid) = getClientUniqueId st;
                 (st2, p) = new_client (Client\<lparr>cl_ccid := ccid, cl_cuid := cuid, cl_openid := openid, cl_name := name\<rparr>) st1;
                 (st3, ok) = insert_client p st2
             in if ok then (if saveClientToDB p then login_ok gatewayPid ccid p st3 else reg_failed gatewayPid ccid p st3)
                else reg_failed gatewayPid ccid p (erase_client p st3)
         | Some p \<Rightarrow> login_ok gatewayPid ccid p (upd_client p (\<lambda>c. c\<lparr>cl_ccid := ccid\<rparr>) st))
     | Some p \<Rightarrow>
         let c = client_at st p;
             st1 = sendToGateway gatewayPid (ClientBeReplaced (cl_cuid c) (cl_ccid c) (cl_openid c)) st;
             st2 = upd_client p (\<lambda>c. c\<lparr>cl_ccid := ccid\<rparr>) (erase_client p st1);
             (st3, ok) = insert_client p st2
         in login_ok gatewayPid ccid p (if ok then st3 else reg_failed gatewayPid ccid p st3))"

definition proto_SendChat :: "chatContent \<Rightarrow> u64 \<Rightarrow> lobby \<Rightarrow> lobby" where
  "proto_SendChat content ccid st =
     (case getByCcid st ccid of
       None \<Rightarrow> st
     | Some p \<Rightarrow>
         (case room_get st (cl_roomId (client_at st p)) of
           None \<Rightarrow> st
         | Some g \<Rightarrow> sendToOthers g (cl_cuid (client_at st p)) (S_Chat (cl_cuid (client_at st p)) content) st))"

end
