(* ===== verification/LobbyFrame.thy ===== *)
theory LobbyFrame
  imports Handlers
begin

text \<open>
  What the methods of a game leave alone: they send, and they change the room number and
  the money of client objects, but never an index, a counter, another room or the
  identity of a client; and the deck is either still empty or has 52 cards.
  \<open>calm st st'\<close> says that of two states of the process.
\<close>

text \<open>What the standard library promises of \<open>std::shuffle\<close>.\<close>

definition shuffles :: "(card list \<Rightarrow> card list) \<Rightarrow> bool" where
  "shuffles f \<longleftrightarrow> (\<forall>deck. mset (f deck) = mset deck)"

lemma shuffles_length: "shuffles f \<Longrightarrow> length (f deck) = length deck"
  unfolding shuffles_def by (metis size_mset)

definition deck_ok :: "lobby \<Rightarrow> bool" where
  "deck_ok st \<longleftrightarrow> length (lb_deck st) = 0 \<or> length (lb_deck st) = 52"

definition client_key :: "client \<Rightarrow> u64 \<times> u64 \<times> string \<times> string" where
  "client_key c = (cl_ccid c, cl_cuid c, cl_openid c, cl_name c)"

definition calm :: "lobby \<Rightarrow> lobby \<Rightarrow> bool" where
  "calm st st' \<longleftrightarrow>
     lb_openid2Clients st' = lb_openid2Clients st \<and> lb_cuid2Clients st' = lb_cuid2Clients st
   \<and> lb_ccid2Clients st' = lb_ccid2Clients st \<and> lb_uniqueIdCounter st' = lb_uniqueIdCounter st
   \<and> lb_rooms st' = lb_rooms st \<and> lb_lastRoomId st' = lb_lastRoomId st
   \<and> lb_expiredIds st' = lb_expiredIds st \<and> lb_timerTime st' = lb_timerTime st
   \<and> map client_key (lb_store st') = map client_key (lb_store st) \<and> (deck_ok st \<longrightarrow> deck_ok st')"

named_theorems calm_intros

lemma calm_refl [calm_intros]: "calm st st"
  by (simp add: calm_def)

lemma calm_trans: "calm s t \<Longrightarrow> calm t u \<Longrightarrow> calm s u"
  by (simp add: calm_def)

lemma calm_rooms: "calm st st' \<Longrightarrow> lb_rooms st' = lb_rooms st"
  by (simp add: calm_def)

lemma calm_time: "calm st st' \<Longrightarrow> lb_timerTime st' = lb_timerTime st"
  by (simp add: calm_def)

lemma calm_deck_ok: "calm st st' \<Longrightarrow> deck_ok st \<Longrightarrow> deck_ok st'"
  by (simp add: calm_def)

lemma calm_get: "calm st st' \<Longrightarrow> getByCuid st' = getByCuid st \<and> getByCcid st' = getByCcid st"
  by (simp add: calm_def getByCuid_def getByCcid_def fun_eq_iff)

lemma calm_length: "calm st st' \<Longrightarrow> length (lb_store st') = length (lb_store st)"
  unfolding calm_def by (metis length_map)

lemma calm_key: "calm st st' \<Longrightarrow> p < length (lb_store st) \<Longrightarrow>
    client_key (client_at st' p) = client_key (client_at st p)"
  using calm_length [of st st'] unfolding calm_def client_at_def by (metis nth_map)

lemma calm_upd_client:
  assumes "\<And>c. client_key (f c) = client_key c" and "calm s st"
  shows "calm s (upd_client p f st)"
proof -
  have "map client_key ((lb_store st)[p := f (lb_store st ! p)]) = map client_key (lb_store st)"
    by (cases "p < length (lb_store st)") (simp_all add: map_update assms(1) list_update_same_conv list_update_beyond)
  then show ?thesis using assms(2) by (simp add: calm_def deck_ok_def upd_client_def)
qed

lemma calm_sendToMe [calm_intros]: "calm s st \<Longrightarrow> calm s (sendToMe p m st)"
  by (simp add: calm_def deck_ok_def sendToMe_def)

lemma calm_notice [calm_intros]: "calm s st \<Longrightarrow> calm s (noticeMessageBox p m st)"
  unfolding noticeMessageBox_def by (rule calm_sendToMe)

lemma calm_setRoomId [calm_intros]: "calm s st \<Longrightarrow> calm s (setRoomId p r st)"
  unfolding setRoomId_def by (rule calm_upd_client) (simp_all add: client_key_def)

lemma calm_addMoney [calm_intros]: "calm s st \<Longrightarrow> calm s (addMoney p r st)"
  unfolding addMoney_def by (rule calm_upd_client) (simp_all add: client_key_def)

lemma calm_afterLeaveRoom [calm_intros]: "calm s st \<Longrightarrow> calm s (afterLeaveRoom p st)"
  unfolding afterLeaveRoom_def by (intro calm_intros)

lemma calm_gateway [calm_intros]: "calm s st \<Longrightarrow> calm s (sendToGateway p m st)"
  by (simp add: calm_def deck_ok_def sendToGateway_def)

lemma calm_deck: "calm s st \<Longrightarrow> length d = 52 \<Longrightarrow> calm s (st\<lparr>lb_deck := d\<rparr>)"
  by (simp add: calm_def deck_ok_def)

lemma calm_fold:
  "(\<And>x st. x \<in> set xs \<Longrightarrow> calm s st \<Longrightarrow> calm s (f x st)) \<Longrightarrow> calm s st \<Longrightarrow> calm s (fold f xs st)"
  by (induction xs arbitrary: st) auto

lemma calm_each_client:
  "(\<And>p st. calm s st \<Longrightarrow> calm s (f p st)) \<Longrightarrow> calm s st \<Longrightarrow> calm s (each_client f us st)"
  unfolding each_client_def by (rule calm_fold) (auto split: option.split)

lemma calm_sendToAll [calm_intros]: "calm s st \<Longrightarrow> calm s (sendToAll g m st)"
  unfolding sendToAll_def by (rule calm_each_client) (intro calm_intros)

lemma calm_sendToOthers [calm_intros]: "calm s st \<Longrightarrow> calm s (sendToOthers g u m st)"
  unfolding sendToOthers_def by (rule calm_each_client) (intro calm_intros)

lemma calm_syncAll [calm_intros]: "calm s st \<Longrightarrow> calm s (syncAll g st)"
  unfolding syncAll_def by (intro calm_intros)

lemma calm_abortGame [calm_intros]: "calm s st \<Longrightarrow> calm s (snd (abortGame g st))"
  by (simp add: abortGame_def) (rule calm_each_client, intro calm_intros)

lemma calm_checkAllVotes [calm_intros]:
  assumes "calm s st"
  shows "calm s (snd (checkAllVotes g st))"
proof -
  have each: "calm s (each_client (\<lambda>p. sendToMe p m) us st)" "calm s (each_client (\<lambda>p. noticeMessageBox p n) us st)" for m n us
    by (rule calm_each_client; intro calm_intros assms; assumption)+
  then show ?thesis
    by (auto simp: checkAllVotes_def Let_def assms intro!: calm_abortGame split: prod.split)
qed

lemma calm_afterEnterRoom [calm_intros]:
  assumes "calm s st"
  shows "calm s (afterEnterRoom g p st)"
proof -
  have "calm s (fold (\<lambda>i. sendToMe p (S_G13_HandOfMine (pi_cards i))) hs (syncAll g (sendToMe p m st)))" for hs m
    by (rule calm_fold) (intro calm_intros assms | assumption)+
  then show ?thesis
    by (auto simp: afterEnterRoom_def Let_def assms intro!: calm_sendToMe calm_syncAll)
qed

lemma calm_enterRoom [calm_intros]: "calm s st \<Longrightarrow> calm s (fst (snd (enterRoom g p st)))"
  unfolding enterRoom_def Let_def
  by (auto intro!: calm_intros split: option.split)

lemma calm_clientOnlineExec [calm_intros]: "calm s st \<Longrightarrow> calm s (clientOnlineExec g p st)"
  by (auto simp: clientOnlineExec_def Let_def intro!: calm_intros)

lemma calm_clientOnline [calm_intros]: "calm s st \<Longrightarrow> calm s (clientOnline p st)"
  by (auto simp: clientOnline_def Let_def intro!: calm_intros split: option.split)

lemma calm_removePlayer [calm_intros]: "calm s st \<Longrightarrow> calm s (snd (removePlayer g p st))"
  by (auto simp: removePlayer_def Let_def intro!: calm_intros split: option.split)

lemma calm_take_fee [calm_intros]: "calm s st \<Longrightarrow> calm s (snd (take_fee g p info st))"
  by (auto simp: take_fee_def intro!: calm_intros)

lemma calm_deal_seat: "calm s st \<Longrightarrow> calm s (snd (deal_seat g hand info st))"
proof (cases "getByCuid st (pi_cuid info)")
  case (Some p)
  assume "calm s st"
  then have "calm s (snd (take_fee g p (info\<lparr>pi_cards := hand\<rparr>) st))" by (rule calm_take_fee)
  then show ?thesis
    by (cases "take_fee g p (info\<lparr>pi_cards := hand\<rparr>) st")
      (auto simp: deal_seat_def Let_def Some intro!: calm_sendToMe)
qed (simp add: deal_seat_def Let_def)

lemma calm_deal_loop:
  "deal_loop g deck index infos st = Inr (infos', st') \<Longrightarrow> calm s st \<Longrightarrow> calm s st'"
proof (induction infos arbitrary: index st infos')
  case (Cons info infos)
  from Cons.prems(1) obtain hand where hand: "deal_hand deck index = Inr hand" by auto
  let ?r = "deal_seat g hand info st"
  from Cons.prems(1) hand obtain rest where
    "deal_loop g deck (index + 13) infos (snd ?r) = Inr (rest, st')"
    by (cases ?r) auto
  then show ?case by (rule Cons.IH) (rule calm_deal_seat [OF Cons.prems(2)])
qed simp

text \<open>The deck that a round starts from.\<close>

lemma write_all_Inr:
  "write_all ws deck = Inr deck' \<Longrightarrow>
    length deck' = length deck \<and> (\<forall>(i, c) \<in> set ws. i < length deck) \<and> deck' = fold (\<lambda>(i, c) d. d[i := c]) ws deck"
proof -
  have "length (fold (\<lambda>(i, c) d. d[i := c]) ws deck) = length deck"
    by (induction ws arbitrary: deck) auto
  then show "write_all ws deck = Inr deck' \<Longrightarrow> ?thesis" by (auto simp: write_all_def split: if_splits)
qed

lemma length_init_deck:
  assumes "init_deck pt deck = Inr deck'" and "length deck = 0 \<or> length deck = 52"
  shows "length deck' = 52"
proof (cases "pt = GP_52")
  case True
  then show ?thesis using assms by (auto simp: init_deck_def resize_def dest: write_all_Inr)
next
  case False
  then obtain d where d: "write_all (map (\<lambda>i. (i, i + 1)) [0..<52]) deck = Inr d"
    and d': "write_all (map (\<lambda>i. (i, i + 39 + 1)) [0..<13]) d = Inr deck'"
    using assms(1) by (auto simp: init_deck_def)
  have "length d = length deck" "length deck' = length d"
    using write_all_Inr [OF d] write_all_Inr [OF d'] by blast+
  moreover have "\<forall>(i, c) \<in> set (map (\<lambda>i. (i, i + 1)) [0..<52]). i < length deck"
    using write_all_Inr [OF d] by blast
  then have "\<forall>i \<in> {0..<52}. i < length deck" by simp
  then have "0 < length deck" by (rule bspec) simp
  ultimately show ?thesis using assms(2) by linarith
qed

lemma calm_tryStartRound:
  assumes "tryStartRound shuffle g st = Inr (g', st')" and "calm s st" and "shuffles shuffle" and "deck_ok s"
  shows "calm s st'"
proof (cases "all_ready g st")
  case True
  then obtain deck ps st1 where
    init: "init_deck (at_playType (g_attr g)) (lb_deck st) = Inr deck" and
    loop: "deal_loop (g\<lparr>g_rounds := to_i32 (g_rounds g + 1)\<rparr>) (shuffle deck) 0 (g_players g)
      (st\<lparr>lb_deck := shuffle deck\<rparr>) = Inr (ps, st1)"
    and st': "st' = sendToAll (g\<lparr>g_rounds := to_i32 (g_rounds g + 1), g_players := ps\<rparr>)
      (players_msg ps (to_i32 (g_rounds g + 1))) st1"
    using assms(1) by (auto simp: tryStartRound_def Let_def)
  have "length (lb_deck st) = 0 \<or> length (lb_deck st) = 52" using calm_deck_ok [OF assms(2,4)] by (simp add: deck_ok_def)
  then have "length deck = 52" using length_init_deck [OF init] by simp
  then have "length (shuffle deck) = 52" by (simp add: shuffles_length [OF assms(3)])
  then show ?thesis unfolding st'
    by (intro calm_sendToAll calm_deal_loop [OF loop] calm_deck assms(2))
qed (use assms in \<open>simp add: tryStartRound_def\<close>)

lemma calm_trySettleGame:
  assumes "trySettleGame g st = Inr (g', st')" and "calm s st"
  shows "calm s st'"
  using assms by (auto simp: trySettleGame_def Let_def intro!: calm_intros split: if_splits)

lemma calm_timerExec:
  assumes "timerExec shuffle g st = Inr (g', st')" and "calm s st" and "shuffles shuffle" and "deck_ok s"
  shows "calm s st'"
proof -
  have each: "calm s (each_client (\<lambda>p. noticeMessageBox p n) us st)" for n us
    by (rule calm_each_client) (intro calm_intros assms(2); assumption)+
  have ab: "calm s (snd (abortGame h t))" if "calm s t" for h t using that by (rule calm_abortGame)
  show ?thesis
    using assms ab [OF each] ab [OF assms(2)]
    by (cases "g_status g") (auto simp: timerExec_def calm_tryStartRound split: if_splits, (metis snd_conv)+)
qed

lemma calm_giveUp [calm_intros]: "calm s st \<Longrightarrow> calm s (snd (giveUp seat p g st))"
  by (auto simp: giveUp_def intro!: calm_intros split: gameStatus.split)

lemma calm_bringOut:
  assumes "bringOut shuffle seat cards g st = Inr (g', st')" and "calm s st" and "shuffles shuffle" and "deck_ok s"
  shows "calm s st'"
proof -
  let ?g = "upd_seat seat (\<lambda>i. i\<lparr>pi_status := COMPARE, pi_cards := cards\<rparr>) g"
  obtain g2 st2 where settle: "trySettleGame ?g (syncAll ?g st) = Inr (g2, st2)"
    and rest: "(if g_status g2 = settle then tryStartRound shuffle g2 st2 else Inr (g2, st2)) = Inr (g', st')"
    using assms(1) by (auto simp: bringOut_def Let_def)
  have "calm s st2" by (rule calm_trySettleGame [OF settle]) (intro calm_intros assms(2))
  with rest show ?thesis using calm_tryStartRound [OF _ _ assms(3,4)] by (auto split: if_splits)
qed

end
