(* ===== verification/GameInv.thy ===== *)
theory GameInv
  imports LobbyFrame
begin

text \<open>
  The invariant of one game between two events, and that every method keeps it.
\<close>

section \<open>The invariant\<close>

definition playing :: "game13 \<Rightarrow> bool" where
  "playing g \<longleftrightarrow> g_status g = play \<or> g_status g = vote"

definition seats_ok :: "game13 \<Rightarrow> bool" where
  "seats_ok g \<longleftrightarrow> (\<forall>i \<in> set (g_players g). length (pi_cards i) = 13)
     \<and> (if g_status g = closed then g_players g = [] \<and> g_id g = 0
        else length (g_players g) = at_playerSize (g_attr g))"

text \<open>While a round is played every seat is taken, and somebody still has to show.\<close>

definition round_ok :: "game13 \<Rightarrow> bool" where
  "round_ok g \<longleftrightarrow> (playing g \<longrightarrow>
     (\<forall>i \<in> set (g_players g). pi_cuid i \<noteq> 0 \<and> (pi_status i = SORT \<or> pi_status i = COMPARE))
     \<and> (g_players g = [] \<or> (\<exists>i \<in> set (g_players g). pi_status i = SORT)))"

definition votes_ok :: "game13 \<Rightarrow> bool" where
  "votes_ok g \<longleftrightarrow> (\<forall>i \<in> set (g_players g).
     if g_status g = vote then pi_vote i \<noteq> VT_NAY else pi_vote i = VT_NONE)"

text \<open>A settled round: one score per seat, and no point made or lost.\<close>

definition settled_ok :: "game13 \<Rightarrow> playerData list \<Rightarrow> bool" where
  "settled_ok g ds \<longleftrightarrow> length ds = at_playerSize (g_attr g) \<and> sum_list (map pd_prize ds) = 0"

definition count_ok :: "game13 \<Rightarrow> bool" where
  "count_ok g \<longleftrightarrow> in_i32 (at_rounds (g_attr g))
     \<and> (g_status g = prepare \<longrightarrow> g_rounds g = 0 \<and> g_settleData g = [])
     \<and> (playing g \<longrightarrow> int (length (g_settleData g)) = g_rounds g - 1
          \<and> g_rounds g \<le> max 1 (at_rounds (g_attr g)))
     \<and> (g_status g = settleAll \<longrightarrow> int (length (g_settleData g)) = g_rounds g
          \<and> g_rounds g = max 1 (at_rounds (g_attr g)))"

definition game_ok :: "game13 \<Rightarrow> bool" where
  "game_ok g \<longleftrightarrow> g_status g \<noteq> settle \<and> seats_ok g \<and> round_ok g \<and> votes_ok g
     \<and> (\<forall>ds \<in> set (g_settleData g). settled_ok g ds) \<and> count_ok g"

lemmas game_ok_defs = game_ok_def seats_ok_def round_ok_def votes_ok_def count_ok_def playing_def

section \<open>Seats\<close>

lemma seat_index_Some:
  "seat_index P is = Some k \<Longrightarrow> k < length is \<and> P (is ! k) \<and> (\<forall>j < k. \<not> P (is ! j))"
proof (induction "is" arbitrary: k)
  case (Cons i "is")
  then show ?case
    by (auto split: if_splits simp: less_Suc_eq_0_disj)
qed simp

lemma seat_index_None: "seat_index P is = None \<longleftrightarrow> (\<forall>i \<in> set is. \<not> P i)"
  by (induction "is") auto

lemma upd_seat_simps [simp]:
  "g_status (upd_seat k f g) = g_status g" "g_id (upd_seat k f g) = g_id g"
  "g_attr (upd_seat k f g) = g_attr g" "g_rounds (upd_seat k f g) = g_rounds g"
  "g_settleData (upd_seat k f g) = g_settleData g" "length (g_players (upd_seat k f g)) = length (g_players g)"
  "g_ownerCuid (upd_seat k f g) = g_ownerCuid g"
  by (simp_all add: upd_seat_def)

lemma reset_votes_simps [simp]:
  "g_status (reset_votes g) = g_status g" "g_id (reset_votes g) = g_id g"
  "g_attr (reset_votes g) = g_attr g" "g_rounds (reset_votes g) = g_rounds g"
  "g_settleData (reset_votes g) = g_settleData g" "length (g_players (reset_votes g)) = length (g_players g)"
  by (simp_all add: reset_votes_def)

text \<open>An aborted game is closed and empty, whatever it was.\<close>

lemma game_ok_abort:
  assumes "\<forall>ds \<in> set (g_settleData g). settled_ok g ds" and "in_i32 (at_rounds (g_attr g))"
  shows "game_ok (fst (abortGame g st))"
  using assms by (simp add: abortGame_def destroyLater_def game_ok_defs settled_ok_def)

lemma game_okD:
  assumes "game_ok g"
  shows "\<forall>ds \<in> set (g_settleData g). settled_ok g ds" "in_i32 (at_rounds (g_attr g))"
    "\<forall>i \<in> set (g_players g). length (pi_cards i) = 13"
    "g_status g \<noteq> closed \<Longrightarrow> length (g_players g) = at_playerSize (g_attr g)"
  using assms by (simp_all add: game_ok_defs)

section \<open>Votes\<close>

lemma length_filter_all: "length (filter P xs) = length xs \<longleftrightarrow> (\<forall>x \<in> set xs. P x)"
proof (induction xs)
  case (Cons x xs)
  have "length (filter P xs) \<noteq> Suc (length xs)" using length_filter_le [of P xs] by linarith
  with Cons show ?case by auto
qed simp

lemma count_votes_ayes:
  "count_votes is n vs = (ayes, 0, us) \<Longrightarrow> \<forall>i \<in> set is. pi_cuid i \<noteq> 0 \<Longrightarrow>
    (\<forall>i \<in> set is. pi_vote i \<noteq> VT_NAY) \<and> ayes = n + length (filter (\<lambda>i. pi_vote i = VT_AYE) is)"
proof (induction "is" arbitrary: n vs)
  case (Cons i "is")
  then have "pi_vote i \<noteq> VT_NAY" by auto
  with Cons.prems show ?case
    using Cons.IH [of "n + 1"] Cons.IH [of n] by (cases "pi_vote i") auto
qed simp

lemma count_votes_nay:
  "count_votes is n vs = (ayes, c, us) \<Longrightarrow> c \<noteq> 0 \<Longrightarrow> \<exists>i \<in> set is. pi_vote i = VT_NAY \<and> pi_cuid i = c"
proof (induction "is" arbitrary: n vs)
  case (Cons i "is")
  then show ?case by (cases "pi_vote i") (auto split: if_splits)
qed simp

text \<open>What a vote leads to when every seat is taken.\<close>

lemma checkAllVotes_cases:
  assumes "g_status g = vote" and "\<forall>i \<in> set (g_players g). pi_cuid i \<noteq> 0"
  shows "if \<exists>i \<in> set (g_players g). pi_vote i = VT_NAY
     then fst (checkAllVotes g st) = (reset_votes g)\<lparr>g_startVoteTime := 0, g_voteSponsorCuid := 0, g_status := play\<rparr>
     else if \<forall>i \<in> set (g_players g). pi_vote i = VT_AYE
     then \<exists>st'. fst (checkAllVotes g st) =
       fst (abortGame ((reset_votes g)\<lparr>g_startVoteTime := 0, g_voteSponsorCuid := 0\<rparr>) st')
     else fst (checkAllVotes g st) = g"
proof -
  obtain ayes c us where cv: "count_votes (g_players g) 0 [] = (ayes, c, us)" by (metis prod_cases3)
  let ?u = "map pi_cuid (g_players g)"
  let ?a = "abortGame ((reset_votes g)\<lparr>g_startVoteTime := 0, g_voteSponsorCuid := 0\<rparr>)"
  have step: "fst (checkAllVotes g st) =
    (if c \<noteq> 0 then (reset_votes g)\<lparr>g_startVoteTime := 0, g_voteSponsorCuid := 0, g_status := play\<rparr>
     else if ayes = length (g_players g)
     then fst (?a (each_client (\<lambda>p. noticeMessageBox p VotePassed) ?u st)) else g)"
    using assms(1) by (simp add: checkAllVotes_def Let_def cv)
  show ?thesis
  proof (cases "c = 0")
    case True
    then have cv0: "count_votes (g_players g) 0 [] = (ayes, 0, us)" using cv by simp
    have ayes: "\<forall>i \<in> set (g_players g). pi_vote i \<noteq> VT_NAY"
        "ayes = length (filter (\<lambda>i. pi_vote i = VT_AYE) (g_players g))"
      using count_votes_ayes [OF cv0 assms(2)] by simp_all
    have all: "ayes = length (g_players g) \<longleftrightarrow> (\<forall>i \<in> set (g_players g). pi_vote i = VT_AYE)"
      unfolding ayes(2) by (rule length_filter_all)
    have nay: "(\<exists>i \<in> set (g_players g). pi_vote i = VT_NAY) = False" using ayes(1) by blast
    show ?thesis
    proof (cases "ayes = length (g_players g)")
      case eq: True
      then have "fst (checkAllVotes g st) = fst (?a (each_client (\<lambda>p. noticeMessageBox p VotePassed) ?u st))"
        by (simp only: step True if_False if_True simp_thms)
      then have "\<exists>st'. fst (checkAllVotes g st) = fst (?a st')" by (rule exI)
      then show ?thesis by (simp only: nay all [symmetric] eq if_True if_False simp_thms)
    next
      case ne: False
      then show ?thesis by (simp only: nay all [symmetric] if_False step True simp_thms)
    qed
  next
    case False
    then have nay: "(\<exists>i \<in> set (g_players g). pi_vote i = VT_NAY) = True"
      using count_votes_nay [OF cv False] by blast
    show ?thesis unfolding step nay using False by simp
  qed
qed

lemma ball_upd_seat:
  "(\<forall>i \<in> set (g_players g). P i) \<Longrightarrow> (k < length (g_players g) \<Longrightarrow> P (f (g_players g ! k))) \<Longrightarrow>
    \<forall>i \<in> set (g_players (upd_seat k f g)). P i"
  by (cases "k < length (g_players g)")
    (auto simp: upd_seat_def list_update_beyond dest!: set_update_subset_insert [THEN subsetD])

lemma status_upd_seat:
  assumes "\<And>i. pi_status (f i) = pi_status i" and "k < length (g_players g)"
  shows "(\<exists>i \<in> set (g_players (upd_seat k f g)). pi_status i = x) \<longleftrightarrow> (\<exists>i \<in> set (g_players g). pi_status i = x)"
proof -
  have "map pi_status (g_players (upd_seat k f g)) = map pi_status (g_players g)"
    using assms by (simp add: upd_seat_def map_update list_update_same_conv)
  then have "pi_status ` set (g_players (upd_seat k f g)) = pi_status ` set (g_players g)" by (metis set_map)
  then show ?thesis by (metis (mono_tags, lifting) image_iff)
qed

lemma players_upd_seat_Nil [simp]: "g_players (upd_seat k f g) = [] \<longleftrightarrow> g_players g = []"
  by (simp add: upd_seat_def)

lemma game_ok_checkAllVotes:
  assumes "g_status g = vote" and "seats_ok g" and "round_ok g"
    and "\<forall>ds \<in> set (g_settleData g). settled_ok g ds" and "count_ok g"
  shows "game_ok (fst (checkAllVotes g st))"
proof -
  have taken: "\<forall>i \<in> set (g_players g). pi_cuid i \<noteq> 0"
    using assms(1,3) by (simp add: round_ok_def playing_def)
  note cases = checkAllVotes_cases [OF assms(1) taken, of st]
  have ab: "game_ok (fst (abortGame ((reset_votes g)\<lparr>g_startVoteTime := 0, g_voteSponsorCuid := 0\<rparr>) st'))" for st'
    by (rule game_ok_abort) (use assms(4,5) in \<open>auto simp: settled_ok_def count_ok_def\<close>)
  have play: "game_ok ((reset_votes g)\<lparr>g_startVoteTime := 0, g_voteSponsorCuid := 0, g_status := play\<rparr>)"
    using assms by (auto simp: game_ok_defs reset_votes_def settled_ok_def)
  have same: "game_ok g" if "\<not> (\<exists>i \<in> set (g_players g). pi_vote i = VT_NAY)"
    using that assms by (auto simp: game_ok_defs)
  show ?thesis using cases ab play same by (auto split: if_splits)
qed

lemma game_ok_vote:
  assumes "game_ok g" and "g_status g = vote" and "seat < length (g_players g)" and "v \<noteq> VT_NONE"
  shows "game_ok (fst (checkAllVotes (upd_seat seat (\<lambda>i. i\<lparr>pi_vote := v\<rparr>) g) st))"
proof (rule game_ok_checkAllVotes)
  let ?f = "\<lambda>i. i\<lparr>pi_vote := v\<rparr>"
  let ?g = "upd_seat seat ?f g"
  show "g_status ?g = vote" using assms(2) by simp
  have in1: "g_players g ! seat \<in> set (g_players g)" using assms(3) by simp
  have "\<forall>i \<in> set (g_players ?g). length (pi_cards i) = 13"
    by (rule ball_upd_seat) (use game_okD(3) [OF assms(1)] in1 in auto)
  then show "seats_ok ?g" using assms(1,2) by (simp add: game_ok_defs)
  have "\<forall>i \<in> set (g_players ?g). pi_cuid i \<noteq> 0 \<and> (pi_status i = SORT \<or> pi_status i = COMPARE)"
    by (rule ball_upd_seat) (use assms(1,2) in1 in \<open>auto simp: game_ok_defs\<close>)
  then show "round_ok ?g"
    using assms(1,2) status_upd_seat [OF _ assms(3), of ?f SORT] by (simp add: game_ok_defs)
  show "\<forall>ds \<in> set (g_settleData ?g). settled_ok ?g ds" using assms(1) by (simp add: game_ok_def settled_ok_def)
  show "count_ok ?g" using assms(1) by (simp add: game_ok_def count_ok_def playing_def)
qed

section \<open>Entering, leaving, giving up\<close>

lemma game_ok_seat_idle:
  assumes "game_ok g" and "\<not> playing g"
    and "\<And>i. length (pi_cards (f i)) = length (pi_cards i)" and "\<And>i. pi_vote (f i) = pi_vote i"
  shows "game_ok (upd_seat k f g)"
proof -
  have "\<forall>i \<in> set (g_players (upd_seat k f g)). length (pi_cards i) = 13 \<and> pi_vote i = VT_NONE"
    by (rule ball_upd_seat) (use assms in \<open>auto simp: game_ok_defs\<close>)
  then show ?thesis using assms(1,2) by (simp add: game_ok_defs settled_ok_def)
qed

lemma game_ok_enterRoom: "game_ok g \<Longrightarrow> game_ok (fst (enterRoom g p st))"
proof -
  assume g: "game_ok g"
  have seat: "game_ok (upd_seat k (\<lambda>i. i\<lparr>pi_cuid := u, pi_name := n, pi_status := PREP, pi_money := m\<rparr>) g)"
    if "g_status g = prepare" for k u n m
    using that by (intro game_ok_seat_idle g) (simp_all add: playing_def)
  then show ?thesis
    using g by (auto simp: enterRoom_def Let_def split: option.split)
qed

lemma game_ok_removePlayer: "game_ok g \<Longrightarrow> \<not> playing g \<Longrightarrow> game_ok (fst (removePlayer g p st))"
  by (auto simp: removePlayer_def Let_def clear_def intro!: game_ok_seat_idle split: option.split)

lemma game_ok_start_vote:
  assumes "game_ok g" and "g_status g = play" and "seat < length (g_players g)"
  shows "game_ok (fst (checkAllVotes (upd_seat seat (\<lambda>i. i\<lparr>pi_vote := VT_AYE\<rparr>) (start_vote u st g)) st'))"
proof -
  have "game_ok (start_vote u st g)"
    using assms(1,2) by (auto simp: game_ok_defs start_vote_def settled_ok_def)
  then show ?thesis using assms(3) by (intro game_ok_vote) (simp_all add: start_vote_def)
qed

lemma game_ok_giveUp:
  assumes "game_ok g" and "seat < length (g_players g)"
  shows "game_ok (fst (giveUp seat p g st))"
proof (cases "g_status g")
  case prepare
  then show ?thesis
    using assms(1) game_okD(1,2) [OF assms(1)]
    by (simp add: giveUp_def game_ok_abort game_ok_removePlayer playing_def)
next
  case play
  then show ?thesis using game_ok_start_vote [OF assms(1) play assms(2)] by (simp add: giveUp_def)
next
  case vote
  then show ?thesis using game_ok_vote [OF assms(1) vote assms(2)] by (simp add: giveUp_def)
qed (use assms in \<open>simp_all add: giveUp_def game_ok_removePlayer playing_def\<close>)

section \<open>Starting a round\<close>

lemma map_sum_Inr_iff [simp]: "map_sum f g x = Inr y \<longleftrightarrow> (\<exists>z. x = Inr z \<and> y = g z)"
  by (cases x) auto

lemma omap_append:
  "omap f (xs @ ys) = obind (omap f xs) (\<lambda>as. obind (omap f ys) (\<lambda>bs. Inr (as @ bs)))"
proof (induction xs)
  case Nil
  then show ?case by (cases "omap f ys") simp_all
next
  case (Cons x xs)
  then show ?case by (cases "f x"; cases "omap f xs"; cases "omap f ys") simp_all
qed

lemma omap_vec_at:
  "omap (\<lambda>i. vec_at deck (k + i)) [0..<n] =
    (if n = 0 \<or> k + n \<le> length deck then Inr (take n (drop k deck)) else Inl OutOfBounds)"
proof (induction n)
  case (Suc n)
  then show ?case by (auto simp: omap_append vec_at_def take_Suc_conv_app_nth)
qed simp

text \<open>A hand is thirteen cards in a row, and a deck that is too short is read past its end.\<close>

lemma deal_hand_eq:
  "deal_hand deck k = (if k + 13 \<le> length deck then Inr (sort (take 13 (drop k deck))) else Inl OutOfBounds)"
  by (simp add: deal_hand_def omap_vec_at)

lemma deal_loop_seats:
  "deal_loop g deck index infos st = Inr (infos', st') \<Longrightarrow>
    map pi_cuid infos' = map pi_cuid infos \<and> map pi_vote infos' = map pi_vote infos
    \<and> (\<forall>i \<in> set infos'. pi_status i = SORT \<and> length (pi_cards i) = 13)"
proof (induction infos arbitrary: index st infos')
  case (Cons info infos)
  from Cons.prems obtain hand where hand: "deal_hand deck index = Inr hand" by auto
  let ?r = "deal_seat g hand info st"
  from Cons.prems hand obtain rest where
    rest: "deal_loop g deck (index + 13) infos (snd ?r) = Inr (rest, st')" and infos': "infos' = fst ?r # rest"
    by (cases ?r) auto
  have "length hand = 13"
    using hand by (auto simp: deal_hand_eq split: if_splits)
  then have "pi_cuid (fst ?r) = pi_cuid info \<and> pi_vote (fst ?r) = pi_vote info
      \<and> pi_status (fst ?r) = SORT \<and> length (pi_cards (fst ?r)) = 13"
    by (auto simp: deal_seat_def take_fee_def Let_def split: option.split prod.split)
  then show ?case using Cons.IH [OF rest] by (simp add: infos')
qed simp

text \<open>The seats of a started round: the same players, everybody sorting thirteen cards.\<close>

lemma tryStartRound_starts:
  assumes "tryStartRound shuffle g st = Inr (g', st')" and "all_ready g st"
  obtains ps where "g' = g\<lparr>g_rounds := to_i32 (g_rounds g + 1), g_players := ps, g_status := play\<rparr>"
    "map pi_cuid ps = map pi_cuid (g_players g)" "map pi_vote ps = map pi_vote (g_players g)"
    "\<forall>i \<in> set ps. pi_status i = SORT \<and> length (pi_cards i) = 13"
proof -
  obtain deck ps st1 where
    loop: "deal_loop (g\<lparr>g_rounds := to_i32 (g_rounds g + 1)\<rparr>) deck 0 (g_players g) (st\<lparr>lb_deck := deck\<rparr>) = Inr (ps, st1)"
    and g': "g' = g\<lparr>g_rounds := to_i32 (g_rounds g + 1), g_players := ps, g_status := play\<rparr>"
    using assms by (auto simp: tryStartRound_def Let_def)
  then show thesis using deal_loop_seats [OF loop] that by simp
qed

lemma tryStartRound_waits:
  "tryStartRound shuffle g st = Inr (g', st') \<Longrightarrow> \<not> all_ready g st \<Longrightarrow> g' = g \<and> st' = st"
  by (simp add: tryStartRound_def)

lemma map_ball: "map f xs = map f ys \<Longrightarrow> (\<forall>x \<in> set xs. P (f x)) \<longleftrightarrow> (\<forall>y \<in> set ys. P (f y))"
proof -
  assume "map f xs = map f ys"
  then have "f ` set xs = f ` set ys" by (metis set_map)
  then show ?thesis by (metis (no_types, lifting) image_iff)
qed

text \<open>A round starts from a game whose seats are all taken, and whose settled rounds are counted.\<close>

lemma game_ok_started:
  assumes "tryStartRound shuffle g st = Inr (g', st')" and "all_ready g st"
    and "\<forall>i \<in> set (g_players g). pi_cuid i \<noteq> 0 \<and> pi_vote i = VT_NONE"
    and "length (g_players g) = at_playerSize (g_attr g)" and "\<forall>ds \<in> set (g_settleData g). settled_ok g ds"
    and "in_i32 (at_rounds (g_attr g))" and "int (length (g_settleData g)) = g_rounds g"
    and "g_rounds g = 0 \<or> g_rounds g < at_rounds (g_attr g)"
  shows "game_ok g'"
proof -
  obtain ps where g': "g' = g\<lparr>g_rounds := to_i32 (g_rounds g + 1), g_players := ps, g_status := play\<rparr>"
    and ps: "map pi_cuid ps = map pi_cuid (g_players g)" "map pi_vote ps = map pi_vote (g_players g)"
      "\<forall>i \<in> set ps. pi_status i = SORT \<and> length (pi_cards i) = 13"
    using tryStartRound_starts [OF assms(1,2)] .
  have len: "length ps = at_playerSize (g_attr g)" using ps(1) assms(4) by (metis length_map)
  have all: "\<forall>i \<in> set ps. pi_cuid i \<noteq> 0" "\<forall>i \<in> set ps. pi_vote i = VT_NONE"
    using map_ball [OF ps(1), of "\<lambda>u. u \<noteq> 0"] map_ball [OF ps(2), of "\<lambda>v. v = VT_NONE"] assms(3) by auto
  have "in_i32 (g_rounds g + 1)" using assms(6-8) by (auto simp: in_i32_def)
  then have r: "to_i32 (g_rounds g + 1) = g_rounds g + 1" by simp
  have sort: "ps = [] \<or> (\<exists>i \<in> set ps. pi_status i = SORT)" using ps(3) by (cases ps) auto
  show ?thesis
    unfolding game_ok_def
  proof (intro conjI)
    show "g_status g' \<noteq> settle" by (simp add: g')
    show "seats_ok g'" using ps(3) len by (simp add: g' seats_ok_def)
    show "round_ok g'" using ps(3) all(1) sort by (simp add: g' round_ok_def)
    show "votes_ok g'" using all(2) by (simp add: g' votes_ok_def)
    show "\<forall>ds \<in> set (g_settleData g'). settled_ok g' ds" using assms(5) by (simp add: g' settled_ok_def)
    show "count_ok g'" using assms(6-8) r by (auto simp: g' count_ok_def playing_def)
  qed
qed

lemma game_ok_tryStartRound:
  assumes "game_ok g" and "g_status g = prepare" and "tryStartRound shuffle g st = Inr (g', st')"
  shows "game_ok g'"
proof (cases "all_ready g st")
  case True
  show ?thesis
  proof (rule game_ok_started [OF assms(3) True])
    show "\<forall>i \<in> set (g_players g). pi_cuid i \<noteq> 0 \<and> pi_vote i = VT_NONE"
      using True assms(1,2) by (auto simp: all_ready_def list_all_iff game_ok_defs)
  qed (use assms(1,2) in \<open>simp_all add: game_ok_defs\<close>)
next
  case False
  then show ?thesis using tryStartRound_waits [OF assms(3)] assms(1) by simp
qed

section \<open>Bringing out and settling\<close>

lemma own_cards_prizes:
  "length ds = length ps \<Longrightarrow> map pd_prize (own_cards ps ds) = map pd_prize ds \<and> length (own_cards ps ds) = length ps"
  by (simp add: own_cards_def) (induction ps ds rule: list_induct2', simp_all)

text \<open>What settling gives: nothing when somebody has not shown, else the last settlement, and
  a status that says whether a round is left.\<close>

lemma trySettleGame_cases:
  assumes "trySettleGame g st = Inr (g', st')" and "g_status g = play"
  shows "if list_all (\<lambda>i. pi_cuid i \<noteq> 0 \<and> pi_status i = COMPARE) (g_players g)
    then \<exists>ds. length ds = length (g_players g) \<and> sum_list (map pd_prize ds) = 0
      \<and> g' = g\<lparr>g_settleData := g_settleData g @ [ds],
               g_status := (if g_rounds g \<ge> at_rounds (g_attr g) then settleAll else settle),
               g_settleAllTime := (if g_rounds g \<ge> at_rounds (g_attr g) then lb_timerTime st else g_settleAllTime g)\<rparr>
    else g' = g \<and> st' = st"
proof (cases "list_all (\<lambda>i. pi_cuid i \<noteq> 0 \<and> pi_status i = COMPARE) (g_players g)")
  case True
  obtain ds where ds: "calcRound (g_attr g) (g_players g) = Inr ds"
    using assms True by (auto simp: trySettleGame_def)
  obtain ds0 where "omap seat_data (g_players g) = Inr ds0" using ds by (auto simp: calcRound_def)
  then have zero: "length ds = length (g_players g)" "sum_list (map pd_prize ds) = 0"
    using calcRound_phases [of "g_players g" ds0 "g_attr g"] ds by auto
  let ?ds = "own_cards (g_players g) ds"
  have own: "length ?ds = length (g_players g)" "sum_list (map pd_prize ?ds) = 0"
    using own_cards_prizes [OF zero(1)] zero(2) by simp_all
  have time: "lb_timerTime (sendToAll g1 m st) = lb_timerTime st" for g1 m
    by (rule calm_time [OF calm_sendToAll [OF calm_refl]])
  have g': "g' = g\<lparr>g_settleData := g_settleData g @ [?ds],
               g_status := (if g_rounds g \<ge> at_rounds (g_attr g) then settleAll else settle),
               g_settleAllTime := (if g_rounds g \<ge> at_rounds (g_attr g) then lb_timerTime st else g_settleAllTime g)\<rparr>"
    using assms True ds by (auto simp: trySettleGame_def Let_def time split: if_splits)
  then show ?thesis using own True by auto
next
  case False
  then show ?thesis using assms by (simp add: trySettleGame_def)
qed

text \<open>A player shows: the round goes on, or it is settled and the next one starts, or the game is over.\<close>

lemma game_ok_bringOut:
  assumes "game_ok g" and "g_status g = play" and "seat < length (g_players g)" and "length cards = 13"
    and "bringOut shuffle seat cards g st = Inr (g', st')"
  shows "game_ok g'"
proof -
  let ?f = "\<lambda>i. i\<lparr>pi_status := COMPARE, pi_cards := cards\<rparr>"
  let ?g = "upd_seat seat ?f g"
  obtain g2 st2 where settled: "trySettleGame ?g (syncAll ?g st) = Inr (g2, st2)"
    and rest: "(if g_status g2 = settle then tryStartRound shuffle g2 st2 else Inr (g2, st2)) = Inr (g', st')"
    using assms(5) by (auto simp: bringOut_def Let_def)
  have seats: "\<forall>i \<in> set (g_players ?g). length (pi_cards i) = 13 \<and> pi_cuid i \<noteq> 0 \<and> pi_vote i = VT_NONE
      \<and> (pi_status i = SORT \<or> pi_status i = COMPARE)"
    by (rule ball_upd_seat) (use assms(1-4) in \<open>auto simp: game_ok_defs\<close>)
  have len: "length (g_players g) = at_playerSize (g_attr g)" using assms(1,2) by (simp add: game_ok_defs)
  have pl: "g_status ?g = play" using assms(2) by simp
  note cases = trySettleGame_cases [OF settled pl]
  show ?thesis
  proof (cases "list_all (\<lambda>i. pi_cuid i \<noteq> 0 \<and> pi_status i = COMPARE) (g_players ?g)")
    case False
    then have g2: "g2 = ?g" using cases by simp
    then have g': "g' = ?g" using rest pl by (simp split: if_splits)
    have "\<exists>i \<in> set (g_players ?g). pi_status i = SORT" using False seats by (auto simp: list_all_iff)
    then show ?thesis
      using seats assms(1,2) len unfolding g' by (simp add: game_ok_defs settled_ok_def)
  next
    case True
    then obtain ds where ds: "length ds = length (g_players g)" "sum_list (map pd_prize ds) = 0"
      and g2: "g2 = ?g\<lparr>g_settleData := g_settleData g @ [ds],
               g_status := (if g_rounds g \<ge> at_rounds (g_attr g) then settleAll else settle),
               g_settleAllTime := (if g_rounds g \<ge> at_rounds (g_attr g) then lb_timerTime (syncAll ?g st) else g_settleAllTime ?g)\<rparr>"
      using cases by auto
    have data: "\<forall>d \<in> set (g_settleData g @ [ds]). settled_ok g d"
      using ds len game_okD(1) [OF assms(1)] by (simp add: settled_ok_def)
    have count: "int (length (g_settleData g)) = g_rounds g - 1" "g_rounds g \<le> max 1 (at_rounds (g_attr g))"
      "in_i32 (at_rounds (g_attr g))" using assms(1,2) by (simp_all add: game_ok_defs)
    show ?thesis
    proof (cases "g_rounds g \<ge> at_rounds (g_attr g)")
      case over: True
      then have g': "g' = g2" using rest g2 by simp
      have "g_rounds g = max 1 (at_rounds (g_attr g))" using over count by auto
      then show ?thesis
        using over seats len data count unfolding g' g2 by (auto simp: game_ok_defs settled_ok_def)
    next
      case more: False
      then have start: "tryStartRound shuffle g2 st2 = Inr (g', st')" using rest g2 by simp
      show ?thesis
      proof (rule game_ok_started [OF start])
        show "all_ready g2 st2" using more by (simp add: g2 all_ready_def)
      qed (use more seats len data count in \<open>auto simp: g2 settled_ok_def\<close>)
    qed
  qed
qed

section \<open>The timer\<close>

lemma game_ok_timerExec:
  assumes "game_ok g" and "timerExec shuffle g st = Inr (g', st')"
  shows "game_ok g'"
proof -
  have ab: "game_ok (fst (abortGame h t))"
    if "g_settleData h = g_settleData g" "g_attr h = g_attr g" for h t
    by (rule game_ok_abort) (use that game_okD(1,2) [OF assms(1)] in \<open>simp_all add: settled_ok_def\<close>)
  show ?thesis
  proof (cases "g_status g")
    case prepare
    then show ?thesis using assms game_ok_tryStartRound by (simp add: timerExec_def)
  next
    case vote
    then show ?thesis
      using assms ab [of "(reset_votes g)\<lparr>g_startVoteTime := 0\<rparr>"]
      by (auto simp: timerExec_def split: if_splits) (metis fst_conv)
  next
    case settleAll
    then show ?thesis
      using assms ab [of "g\<lparr>g_settleAllTime := 0\<rparr>"]
      by (auto simp: timerExec_def split: if_splits) (metis fst_conv)
  next
    case closed
    then have "g' = g\<lparr>g_id := 0\<rparr>" using assms(2) by (simp add: timerExec_def destroyLater_def)
    then show ?thesis using assms(1) closed by (simp add: game_ok_defs settled_ok_def)
  qed (use assms in \<open>simp_all add: timerExec_def\<close>)
qed

lemma game_ok_new:
  assumes "in_i32 (at_rounds attr)"
  shows "game_ok ((Game gid owner n attr)\<lparr>g_players := replicate (at_playerSize attr) PlayerInfo\<rparr>)"
  using assms by (simp add: game_ok_defs Game_def PlayerInfo_def)

end
