(* ===== verification/LobbyReach.thy ===== *)
theory LobbyReach
  imports GameInv
begin

text \<open>
  The lobby as a transition system: every message handler and the timer tick is an event,
  and the reachable states are those that events lead to from the empty process. The
  shuffles and the traversal order of the room map come with the events, and an event is
  possible only when they are what the standard library promises: a shuffle permutes, a
  traversal meets every room once.
\<close>

section \<open>Events\<close>

datatype event =
    EvCreate createMsg u64
  | EvJoin u32 u64
  | EvGiveUp u64
  | EvVote voteOfAbort u64
  | EvReady "card list \<Rightarrow> card list" bool u64
  | EvBringOut "card list \<Rightarrow> card list" "int list" u64
  | EvLogin u32 u64 string string
  | EvChat chatContent u64
  | EvTimer "u32 \<Rightarrow> card list \<Rightarrow> card list" "u32 list" int

fun exec :: "event \<Rightarrow> lobby \<Rightarrow> lobby outcome" where
  "exec (EvCreate m ccid) st = Inr (proto_CreateGame m ccid st)"
| "exec (EvJoin rid ccid) st = Inr (proto_JionGame rid ccid st)"
| "exec (EvGiveUp ccid) st = Inr (proto_GiveUp ccid st)"
| "exec (EvVote v ccid) st = Inr (proto_VoteFoAbortGame v ccid st)"
| "exec (EvReady shuffle ready ccid) st = proto_ReadyFlag shuffle ready ccid st"
| "exec (EvBringOut shuffle cards ccid) st = proto_BringOut shuffle cards ccid st"
| "exec (EvLogin pid ccid openid name) st = Inr (proto_LoginQuest pid ccid openid name st)"
| "exec (EvChat content ccid) st = Inr (proto_SendChat content ccid st)"
| "exec (EvTimer shuffle order now) st = timerExecAll shuffle order now st"

fun possible :: "event \<Rightarrow> lobby \<Rightarrow> bool" where
  "possible (EvCreate m ccid) st = in_i32 (cm_rounds m)"
| "possible (EvReady f ready ccid) st = shuffles f"
| "possible (EvBringOut f cards ccid) st = shuffles f"
| "possible (EvTimer f order now) st = ((\<forall>rid. shuffles (f rid)) \<and> distinct order \<and> set order = dom (lb_rooms st))"
| "possible ev st = True"

inductive step :: "lobby \<Rightarrow> event \<Rightarrow> lobby \<Rightarrow> bool" where
  "possible ev st \<Longrightarrow> exec ev st = Inr st' \<Longrightarrow> step st ev st'"

inductive reachable :: "lobby \<Rightarrow> bool" where
  start: "reachable lobby_init"
| after: "reachable st \<Longrightarrow> step st ev st' \<Longrightarrow> reachable st'"

inductive_cases stepE: "step st ev st'"

lemma step_iff: "step st ev st' \<longleftrightarrow> possible ev st \<and> exec ev st = Inr st'"
  by (auto intro: step.intros elim: stepE)

text \<open>A sequence of events, none of them a tick, leads from a reachable state to another.\<close>

fun run :: "event list \<Rightarrow> lobby \<Rightarrow> lobby outcome" where
  "run [] st = Inr st"
| "run (ev # evs) st = obind (exec ev st) (run evs)"

fun untimed :: "event \<Rightarrow> bool" where
  "untimed (EvTimer f order now) = False"
| "untimed ev = possible ev lobby_init"

lemma untimed_possible: "untimed ev \<Longrightarrow> possible ev st"
  by (cases ev) simp_all

lemma reachable_exec: "reachable st \<Longrightarrow> possible ev st \<Longrightarrow> exec ev st = Inr st' \<Longrightarrow> reachable st'"
  by (rule after) (simp_all add: step_iff)

lemma reachable_run: "run evs st = Inr st' \<Longrightarrow> reachable st \<Longrightarrow> \<forall>ev \<in> set evs. untimed ev \<Longrightarrow> reachable st'"
proof (induction evs arbitrary: st)
  case (Cons ev evs)
  from Cons.prems(1) obtain st1 where st1: "exec ev st = Inr st1" "run evs st1 = Inr st'" by auto
  have "possible ev st" using Cons.prems(3) untimed_possible by simp
  then have "reachable st1" using st1(1) by (rule reachable_exec [OF Cons.prems(2)])
  then show ?case using Cons.IH [OF st1(2)] Cons.prems(3) by simp
qed simp

section \<open>The rooms\<close>

definition rooms_ok :: "lobby \<Rightarrow> bool" where
  "rooms_ok st \<longleftrightarrow> deck_ok st
     \<and> (\<forall>rid g. lb_rooms st rid = Some g \<longrightarrow> game_ok g \<and> (g_id g = rid \<or> g_id g = 0))"

lemma rooms_okD: "rooms_ok st \<Longrightarrow> lb_rooms st rid = Some g \<Longrightarrow> game_ok g \<and> (g_id g = rid \<or> g_id g = 0)"
  by (simp add: rooms_ok_def)

lemma rooms_ok_deck: "rooms_ok st \<Longrightarrow> deck_ok st"
  by (simp add: rooms_ok_def)

lemma rooms_ok_calm: "calm st st' \<Longrightarrow> rooms_ok st \<Longrightarrow> rooms_ok st'"
  by (simp add: rooms_ok_def calm_def)

lemma rooms_ok_same: "lb_rooms st' = lb_rooms st \<Longrightarrow> lb_deck st' = lb_deck st \<Longrightarrow> rooms_ok st' = rooms_ok st"
  by (simp add: rooms_ok_def deck_ok_def)

lemma rooms_ok_put:
  "calm st (snd r) \<Longrightarrow> rooms_ok st \<Longrightarrow> game_ok (fst r) \<Longrightarrow> g_id (fst r) = rid \<or> g_id (fst r) = 0 \<Longrightarrow>
    rooms_ok (put_room rid r)"
  by (auto simp: rooms_ok_def put_room_def calm_def deck_ok_def)

lemma rooms_ok_erase: "rooms_ok st \<Longrightarrow> rooms_ok (st\<lparr>lb_rooms := (lb_rooms st)(rid := None)\<rparr>)"
  unfolding rooms_ok_def by (simp add: deck_ok_def split: if_splits)

lemma put_room_simps [simp]:
  "lb_rooms (put_room rid r) = (lb_rooms (snd r))(rid \<mapsto> fst r)"
  "lb_store (put_room rid r) = lb_store (snd r)" "lb_openid2Clients (put_room rid r) = lb_openid2Clients (snd r)"
  "lb_cuid2Clients (put_room rid r) = lb_cuid2Clients (snd r)"
  "lb_ccid2Clients (put_room rid r) = lb_ccid2Clients (snd r)"
  "lb_expiredIds (put_room rid r) = lb_expiredIds (snd r)" "lb_deck (put_room rid r) = lb_deck (snd r)"
  by (simp_all add: put_room_def)

text \<open>No method gives a game another number than its own or zero.\<close>

lemma id_abortGame [simp]: "g_id (fst (abortGame g st)) = 0"
  by (simp add: abortGame_def destroyLater_def)

lemma id_checkAllVotes: "g_id (fst (checkAllVotes g st)) \<in> {g_id g, 0}"
  by (auto simp: checkAllVotes_def Let_def split: prod.split)

lemma id_removePlayer [simp]: "g_id (fst (removePlayer g p st)) = g_id g"
  by (auto simp: removePlayer_def Let_def split: option.split)

lemma id_enterRoom [simp]: "g_id (fst (enterRoom g p st)) = g_id g"
  by (auto simp: enterRoom_def Let_def split: option.split)

lemma id_giveUp: "g_id (fst (giveUp seat p g st)) \<in> {g_id g, 0}"
proof (cases "g_status g")
  case play
  then show ?thesis
    using id_checkAllVotes [of "upd_seat seat (\<lambda>i. i\<lparr>pi_vote := VT_AYE\<rparr>) (start_vote (pi_cuid (g_players g ! seat)) st g)" st]
    by (simp add: giveUp_def) (simp add: start_vote_def)
next
  case vote
  then show ?thesis
    using id_checkAllVotes [of "upd_seat seat (\<lambda>i. i\<lparr>pi_vote := VT_AYE\<rparr>) g" st] by (simp add: giveUp_def)
qed (simp_all add: giveUp_def)

lemma id_tryStartRound: "tryStartRound shuffle g st = Inr (g', st') \<Longrightarrow> g_id g' = g_id g"
  by (cases "all_ready g st") (auto dest: tryStartRound_waits elim: tryStartRound_starts)

lemma id_trySettleGame: "trySettleGame g st = Inr (g', st') \<Longrightarrow> g_id g' = g_id g"
  by (auto simp: trySettleGame_def Let_def split: if_splits)

lemma id_bringOut: "bringOut shuffle seat cards g st = Inr (g', st') \<Longrightarrow> g_id g' = g_id g"
  by (auto simp: bringOut_def Let_def split: if_splits dest!: id_trySettleGame id_tryStartRound)

lemma id_timerExec: "timerExec shuffle g st = Inr (g', st') \<Longrightarrow> g_id g' \<in> {g_id g, 0}"
  by (cases "g_status g")
    (auto simp: timerExec_def destroyLater_def id_tryStartRound split: if_splits,
      (metis fst_conv id_abortGame)+)

section \<open>Every event keeps the rooms' invariant\<close>

lemma rooms_ok_create:
  assumes "rooms_ok st" and "in_i32 (cm_rounds m)"
  shows "rooms_ok (proto_CreateGame m ccid st)"
proof (cases "getByCcid st ccid")
  case None
  then show ?thesis using assms by (simp add: proto_CreateGame_def)
next
  case (Some p)
  show ?thesis
  proof (cases "cl_roomId (client_at st p) = 0")
    case False
    then show ?thesis
      using Some rooms_ok_calm [OF calm_notice [OF calm_refl] assms(1)] by (simp add: proto_CreateGame_def)
  next
    case True
    obtain st1 gid where id: "getRoomId st = (st1, gid)" by (cases "getRoomId st")
    define attr where "attr = \<lparr>at_roomId = gid,
                       at_playType = (if cm_play_type m > int GP_52 then GP_65 else GP_52),
                       at_rounds = cm_rounds m, at_payor = cm_payor m, at_daQiang = cm_da_qiang m,
                       at_quanLeiDa = cm_quan_lei_da m, at_yiTiaoLong = cm_yi_tiao_long m,
                       at_playerSize = cm_player_size m\<rparr>"
    define g where "g = Game gid (cl_cuid (client_at st1 p)) (cm_player_size m) attr"
    define g1 where "g1 = g\<lparr>g_players := replicate (at_playerSize attr) PlayerInfo\<rparr>"
    have "lb_rooms st1 = lb_rooms st \<and> lb_deck st1 = lb_deck st"
      using id by (auto simp: getRoomId_def Let_def split: list.splits)
    then have st1: "rooms_ok st1" using assms(1) rooms_ok_same by blast
    have g1: "game_ok g1" unfolding g1_def g_def
      by (rule game_ok_new) (simp add: attr_def assms(2))
    have gid: "g_id g = gid" "g_id g1 = gid" by (simp_all add: g_def g1_def Game_def)
    obtain st2 ok where add: "room_add g st1 = (st2, ok)" by (cases "room_add g st1")
    have eq: "proto_CreateGame m ccid st =
        (if \<not> ok then st2 else put_room gid (fst (enterRoom g1 p st2), fst (snd (enterRoom g1 p st2))))"
      using Some True id add
      by (simp add: proto_CreateGame_def Let_def attr_def [symmetric] g_def [symmetric])
        (simp add: g1_def [symmetric] split: prod.split)
    have rooms: "lb_rooms st2 = (if ok then (lb_rooms st1)(gid \<mapsto> g) else lb_rooms st1)"
      using add gid by (auto simp: room_add_def split: option.splits)
    have deck: "lb_deck st2 = lb_deck st1" using add by (auto simp: room_add_def split: option.splits)
    have calm2: "calm st2 (fst (snd (enterRoom g1 p st2)))" by (rule calm_enterRoom [OF calm_refl])
    show ?thesis
    proof (cases ok)
      case True
      have "rooms_ok (st2\<lparr>lb_rooms := (lb_rooms st1)(gid \<mapsto> g1)\<rparr>)"
        using st1 g1 gid deck by (auto simp: rooms_ok_def deck_ok_def)
      moreover have "lb_rooms (fst (snd (enterRoom g1 p st2))) = (lb_rooms st1)(gid \<mapsto> g)"
        using calm_rooms [OF calm2] rooms True by simp
      moreover have "deck_ok (fst (snd (enterRoom g1 p st2)))"
        using st1 deck by (intro calm_deck_ok [OF calm2]) (simp add: rooms_ok_def deck_ok_def)
      ultimately show ?thesis
        using game_ok_enterRoom [OF g1, of p st2] gid True unfolding eq
        by (auto simp: rooms_ok_def deck_ok_def split: if_splits)
    next
      case False
      then show ?thesis using st1 rooms deck rooms_ok_same [of st2 st1] unfolding eq by simp
    qed
  qed
qed

lemma rooms_ok_join: "rooms_ok st \<Longrightarrow> rooms_ok (proto_JionGame rid ccid st)"
proof -
  assume ok: "rooms_ok st"
  have enter: "rooms_ok (put_room rid (fst (enterRoom g p st), fst (snd (enterRoom g p st))))"
    if "lb_rooms st rid = Some g" for g p
    using rooms_okD [OF ok that]
    by (intro rooms_ok_put [OF _ ok]) (simp_all add: calm_enterRoom calm_refl game_ok_enterRoom)
  show ?thesis
    using ok enter
    by (auto simp: proto_JionGame_def room_get_def Let_def split: option.split prod.split
        intro!: rooms_ok_calm [OF calm_notice [OF calm_refl]]) (metis fst_conv snd_conv)
qed

lemma seat_less: "getPlayerInfoByCuid g u = Some k \<Longrightarrow> k < length (g_players g)"
  by (simp add: getPlayerInfoByCuid_def seat_index_Some)

lemma rooms_ok_giveUp: "rooms_ok st \<Longrightarrow> rooms_ok (proto_GiveUp ccid st)"
proof -
  assume ok: "rooms_ok st"
  have "rooms_ok (put_room rid (giveUp seat p g st))"
    if "lb_rooms st rid = Some g" "seat < length (g_players g)" for rid g p seat
    using rooms_okD [OF ok that(1)] that(2) id_giveUp [of seat p g st]
    by (intro rooms_ok_put [OF _ ok]) (auto simp: calm_giveUp calm_refl game_ok_giveUp)
  then show ?thesis
    using ok
    by (auto simp: proto_GiveUp_def room_get_def Let_def split: option.split dest!: seat_less
        intro!: rooms_ok_calm [OF calm_notice [OF calm_refl]] rooms_ok_calm [OF calm_afterLeaveRoom [OF calm_refl]])
qed

lemma game_ok_abstain:
  assumes "game_ok g" and "g_status g = vote" and "seat < length (g_players g)"
  shows "game_ok (upd_seat seat (\<lambda>i. i\<lparr>pi_vote := VT_NONE\<rparr>) g)"
proof -
  let ?f = "\<lambda>i. i\<lparr>pi_vote := VT_NONE\<rparr>"
  have "g_players g ! seat \<in> set (g_players g)" using assms(3) by simp
  then have "\<forall>i \<in> set (g_players (upd_seat seat ?f g)). length (pi_cards i) = 13 \<and> pi_cuid i \<noteq> 0
      \<and> (pi_status i = SORT \<or> pi_status i = COMPARE) \<and> pi_vote i \<noteq> VT_NAY"
    by (intro ball_upd_seat) (use assms(1,2) in \<open>auto simp: game_ok_defs\<close>)
  then show ?thesis
    using assms(1,2) status_upd_seat [OF _ assms(3), of ?f SORT] by (simp add: game_ok_defs settled_ok_def)
qed

lemma rooms_ok_vote: "rooms_ok st \<Longrightarrow> rooms_ok (proto_VoteFoAbortGame v ccid st)"
proof -
  assume ok: "rooms_ok st"
  have "rooms_ok (put_room rid (upd_seat seat (\<lambda>i. i\<lparr>pi_vote := VT_NONE\<rparr>) g, st))"
    "v \<noteq> VT_NONE \<Longrightarrow> rooms_ok (put_room rid (checkAllVotes (upd_seat seat (\<lambda>i. i\<lparr>pi_vote := v\<rparr>) g) st))"
    if "lb_rooms st rid = Some g" "g_status g = vote" "seat < length (g_players g)" for rid g seat
    using rooms_okD [OF ok that(1)] that(2,3) id_checkAllVotes [of "upd_seat seat (\<lambda>i. i\<lparr>pi_vote := v\<rparr>) g" st]
    by (auto intro!: rooms_ok_put [OF _ ok] game_ok_abstain game_ok_vote calm_checkAllVotes simp: calm_refl)
  then show ?thesis
    using ok
    by (auto simp: proto_VoteFoAbortGame_def room_get_def Let_def split: option.split dest!: seat_less
        intro!: rooms_ok_calm [OF calm_afterLeaveRoom [OF calm_refl]])
qed

lemma rooms_ok_ready:
  assumes ok: "rooms_ok st" and "proto_ReadyFlag shuffle ready ccid st = Inr st'" and sh: "shuffles shuffle"
  shows "rooms_ok st'"
proof -
  let ?new = "if ready then READY else PREP"
  let ?u = "\<lambda>g seat. upd_seat seat (\<lambda>i. i\<lparr>pi_status := ?new\<rparr>) g"
  have seat: "game_ok (?u g seat)" if "game_ok g" "g_status g = prepare" for g seat
    using that by (intro game_ok_seat_idle) (simp_all add: playing_def)
  have calm: "calm st (syncAll g st)" for g by (intro calm_intros)
  have put: "rooms_ok (put_room rid (?u g seat, syncAll (?u g seat) st))"
    if "lb_rooms st rid = Some g" "g_status g = prepare" for rid g seat
    using rooms_okD [OF ok that(1)] that(2) by (intro rooms_ok_put [OF _ ok]) (auto simp: seat calm)
  have start: "rooms_ok (put_room rid (g2, st2))"
    if "lb_rooms st rid = Some g" "g_status g = prepare"
      "tryStartRound shuffle (?u g seat) (syncAll (?u g seat) st) = Inr (g2, st2)" for rid g seat g2 st2
  proof (rule rooms_ok_put [OF _ ok])
    show "calm st (snd (g2, st2))" using calm_tryStartRound [OF that(3) calm sh rooms_ok_deck [OF ok]] by simp
    show "game_ok (fst (g2, st2))"
      using game_ok_tryStartRound [OF seat _ that(3)] rooms_okD [OF ok that(1)] that(2) by simp
    show "g_id (fst (g2, st2)) = rid \<or> g_id (fst (g2, st2)) = 0"
      using id_tryStartRound [OF that(3)] rooms_okD [OF ok that(1)] by simp
  qed
  show ?thesis
    using assms put start [of _ _ _]
    by (auto simp: proto_ReadyFlag_def room_get_def Let_def split: option.splits if_splits
        intro!: rooms_ok_calm [OF calm_afterLeaveRoom [OF calm_refl]] rooms_ok_calm [OF calm_notice [OF calm_refl]])
qed

lemma rooms_ok_bringOut:
  assumes ok: "rooms_ok st" and "proto_BringOut shuffle cards ccid st = Inr st'" and sh: "shuffles shuffle"
  shows "rooms_ok st'"
proof -
  have play: "rooms_ok (put_room rid (g2, st2))"
    if "lb_rooms st rid = Some g" "g_status g = play" "seat < length (g_players g)" "length cards = 13"
      "bringOut shuffle seat (map to_card cards) g st = Inr (g2, st2)" for rid g seat g2 st2
  proof (rule rooms_ok_put [OF _ ok])
    show "calm st (snd (g2, st2))" using calm_bringOut [OF that(5) calm_refl sh rooms_ok_deck [OF ok]] by simp
    show "game_ok (fst (g2, st2))"
      using game_ok_bringOut [OF _ that(2,3) _ that(5)] rooms_okD [OF ok that(1)] that(4) by simp
    show "g_id (fst (g2, st2)) = rid \<or> g_id (fst (g2, st2)) = 0"
      using id_bringOut [OF that(5)] rooms_okD [OF ok that(1)] by simp
  qed
  show ?thesis
    using assms play
    by (auto simp: proto_BringOut_def room_get_def Let_def split: option.splits if_splits dest!: seat_less
        intro!: rooms_ok_calm [OF calm_afterLeaveRoom [OF calm_refl]] rooms_ok_calm [OF calm_notice [OF calm_refl]])
qed

lemma rooms_insert_client:
  "lb_rooms (fst (insert_client p st)) = lb_rooms st \<and> lb_deck (fst (insert_client p st)) = lb_deck st"
  by (simp add: insert_client_def Let_def split: prod.split)

lemma rooms_ok_login_ok: "rooms_ok st \<Longrightarrow> rooms_ok (login_ok pid ccid p st)"
  unfolding login_ok_def Let_def by (rule rooms_ok_calm [OF calm_clientOnline [OF calm_gateway [OF calm_refl]]])

lemma rooms_ok_reg_failed: "rooms_ok st \<Longrightarrow> rooms_ok (reg_failed pid ccid p st)"
  unfolding reg_failed_def by (rule rooms_ok_calm [OF calm_gateway [OF calm_refl]])

lemma rooms_ok_login: "rooms_ok st \<Longrightarrow> rooms_ok (proto_LoginQuest pid ccid openid name st)"
proof -
  assume ok: "rooms_ok st"
  have ins: "rooms_ok (fst (insert_client p s))" if "rooms_ok s" for p s
    using that rooms_insert_client [of p s] rooms_ok_same by blast
  have er: "rooms_ok (erase_client p t)" if "rooms_ok t" for p t
    using that rooms_ok_same [of "erase_client p t" t] by (simp add: erase_client_def Let_def)
  have up: "rooms_ok (upd_client p f t)" if "rooms_ok t" for p t f
    using that rooms_ok_same [of "upd_client p f t" t] by (simp add: upd_client_def)
  have snd: "rooms_ok (sendToGateway pid m t)" if "rooms_ok t" for m t
    using that rooms_ok_same [of "sendToGateway pid m t" t] by (simp add: sendToGateway_def)
  note keep = rooms_ok_login_ok rooms_ok_reg_failed er up snd
  show ?thesis
  proof (cases "getByOpenid st openid")
    case None
    define s2 where "s2 = fst (new_client (Client\<lparr>cl_ccid := ccid, cl_cuid := snd (getClientUniqueId st),
      cl_openid := openid, cl_name := name\<rparr>) (fst (getClientUniqueId st)))"
    define p where "p = length (lb_store st)"
    have s2: "rooms_ok s2"
      using ok rooms_ok_same [of s2 st] by (simp add: s2_def new_client_def getClientUniqueId_def Let_def)
    have eq: "proto_LoginQuest pid ccid openid name st =
      (if snd (insert_client p s2) then login_ok pid ccid p (fst (insert_client p s2))
       else reg_failed pid ccid p (erase_client p (fst (insert_client p s2))))"
      by (simp add: proto_LoginQuest_def None loadClientFromDB_def saveClientToDB_def s2_def p_def
          new_client_def getClientUniqueId_def Let_def split: prod.split)
    show ?thesis unfolding eq using keep ins [OF s2] by simp
  next
    case (Some p)
    define s2 where "s2 = upd_client p (\<lambda>c. c\<lparr>cl_ccid := ccid\<rparr>) (erase_client p (sendToGateway pid
      (ClientBeReplaced (cl_cuid (client_at st p)) (cl_ccid (client_at st p)) (cl_openid (client_at st p))) st))"
    have s2: "rooms_ok s2" unfolding s2_def by (intro keep ok)
    have eq: "proto_LoginQuest pid ccid openid name st = login_ok pid ccid p
      (if snd (insert_client p s2) then fst (insert_client p s2) else reg_failed pid ccid p (fst (insert_client p s2)))"
      by (simp add: proto_LoginQuest_def Some s2_def Let_def split: prod.split)
    show ?thesis unfolding eq using keep ins [OF s2] by simp
  qed
qed

lemma rooms_ok_chat: "rooms_ok st \<Longrightarrow> rooms_ok (proto_SendChat content ccid st)"
  by (auto simp: proto_SendChat_def split: option.split intro!: rooms_ok_calm [OF calm_sendToOthers [OF calm_refl]])

lemma rooms_ok_timer:
  "timer_loop shuffle rids st = Inr st' \<Longrightarrow> rooms_ok st \<Longrightarrow> \<forall>rid. shuffles (shuffle rid) \<Longrightarrow> rooms_ok st'"
proof (induction rids arbitrary: st)
  case (Cons rid rids)
  show ?case
  proof (cases "lb_rooms st rid")
    case None
    then show ?thesis using Cons by simp
  next
    case (Some g)
    show ?thesis
    proof (cases "g_id g = 0")
      case True
      then have "st' = st\<lparr>lb_rooms := (lb_rooms st)(rid := None)\<rparr>" using Cons.prems(1) Some by simp
      then show ?thesis using rooms_ok_erase [OF Cons.prems(2)] by simp
    next
      case False
      then obtain g2 st2 where run: "timerExec (shuffle rid) g st = Inr (g2, st2)"
        and rest: "timer_loop shuffle rids (put_room rid (g2, st2)) = Inr st'"
        using Cons.prems(1) Some by auto
      show ?thesis
      proof (rule Cons.IH [OF rest _ Cons.prems(3)], rule rooms_ok_put [OF _ Cons.prems(2)])
        show "calm st (snd (g2, st2))"
          using calm_timerExec [OF run calm_refl _ rooms_ok_deck [OF Cons.prems(2)]] Cons.prems(3) by simp
        show "game_ok (fst (g2, st2))"
          using game_ok_timerExec [OF _ run] rooms_okD [OF Cons.prems(2) Some] by simp
        show "g_id (fst (g2, st2)) = rid \<or> g_id (fst (g2, st2)) = 0"
          using id_timerExec [OF run] rooms_okD [OF Cons.prems(2) Some] by auto
      qed
    qed
  qed
qed simp

lemma rooms_ok_step:
  assumes "step st ev st'" and "rooms_ok st"
  shows "rooms_ok st'"
proof -
  have run: "possible ev st" "exec ev st = Inr st'" using assms(1) by (simp_all add: step_iff)
  show ?thesis
  proof (cases ev)
    case (EvTimer shuffle order now)
    then have loop: "timer_loop shuffle order (st\<lparr>lb_timerTime := now\<rparr>) = Inr st'"
      using run(2) by (simp add: timerExecAll_def)
    have ok: "rooms_ok (st\<lparr>lb_timerTime := now\<rparr>)"
      using assms(2) rooms_ok_same [of "st\<lparr>lb_timerTime := now\<rparr>" st] by simp
    show ?thesis by (rule rooms_ok_timer [OF loop ok]) (use run(1) EvTimer in simp)
  next
    case (EvReady shuffle ready ccid)
    then show ?thesis using run assms(2) rooms_ok_ready [of st shuffle ready ccid st'] by simp
  next
    case (EvBringOut shuffle cards ccid)
    then show ?thesis using run assms(2) rooms_ok_bringOut [of st shuffle cards ccid st'] by simp
  qed (use run assms(2) rooms_ok_create rooms_ok_join rooms_ok_giveUp rooms_ok_vote rooms_ok_chat rooms_ok_login in auto)
qed

lemma reachable_rooms_ok: "reachable st \<Longrightarrow> rooms_ok st"
proof (induction rule: reachable.induct)
  case start
  then show ?case by (simp add: rooms_ok_def deck_ok_def lobby_init_def)
next
  case (after st ev st')
  then show ?case using rooms_ok_step by blast
qed

end
