(* ===== verification/Clients.thy ===== *)
theory Clients
  imports LobbyReach
begin

text \<open>
  \<open>ClientManager\<close>: what insertion, erasure and the login handler do to the three indices,
  and the invariant that every index entry leads to a client object with that key.
\<close>

section \<open>The indices\<close>

definition maps_ok :: "lobby \<Rightarrow> bool" where
  "maps_ok st \<longleftrightarrow> ftm_inv (lb_openid2Clients st) \<and> ftm_inv (lb_cuid2Clients st) \<and> ftm_inv (lb_ccid2Clients st)"

definition entries_ok :: "lobby \<Rightarrow> bool" where
  "entries_ok st \<longleftrightarrow> maps_ok st
     \<and> (\<forall>k p. getByOpenid st k = Some p \<longrightarrow> p < length (lb_store st) \<and> cl_openid (client_at st p) = k)
     \<and> (\<forall>k p. getByCuid st k = Some p \<longrightarrow> p < length (lb_store st) \<and> cl_cuid (client_at st p) = k)
     \<and> (\<forall>k p. getByCcid st k = Some p \<longrightarrow> p < length (lb_store st) \<and> cl_ccid (client_at st p) = k)"

lemma entries_okD:
  assumes "entries_ok st"
  shows "maps_ok st"
    "getByOpenid st k = Some p \<Longrightarrow> p < length (lb_store st) \<and> cl_openid (client_at st p) = k"
    "getByCuid st u = Some p \<Longrightarrow> p < length (lb_store st) \<and> cl_cuid (client_at st p) = u"
    "getByCcid st c = Some p \<Longrightarrow> p < length (lb_store st) \<and> cl_ccid (client_at st p) = c"
  using assms by (simp_all add: entries_ok_def)

definition no_key :: "client \<Rightarrow> lobby \<Rightarrow> bool" where
  "no_key c st \<longleftrightarrow> getByOpenid st (cl_openid c) = None \<and> getByCuid st (cl_cuid c) = None
     \<and> getByCcid st (cl_ccid c) = None"

text \<open>Insertion is all or nothing.\<close>

lemma insert_client_spec:
  assumes "maps_ok st" and "insert_client p st = (st', ok)"
  shows "ok \<longleftrightarrow> no_key (client_at st p) st" and "maps_ok st'" and "lb_store st' = lb_store st"
    and "getByOpenid st' = (if ok then (getByOpenid st)(cl_openid (client_at st p) \<mapsto> p) else getByOpenid st)"
    and "getByCuid st' = (if ok then (getByCuid st)(cl_cuid (client_at st p) \<mapsto> p) else getByCuid st)"
    and "getByCcid st' = (if ok then (getByCcid st)(cl_ccid (client_at st p) \<mapsto> p) else getByCcid st)"
proof -
  let ?c = "client_at st p"
  obtain om ok1 where 1: "ftm_insert (cl_openid ?c) p (lb_openid2Clients st) = (om, ok1)" by (meson surj_pair)
  obtain um ok2 where 2: "ftm_insert (cl_cuid ?c) p (lb_cuid2Clients st) = (um, ok2)" by (meson surj_pair)
  obtain cm ok3 where 3: "ftm_insert (cl_ccid ?c) p (lb_ccid2Clients st) = (cm, ok3)" by (meson surj_pair)
  note inv = assms(1) [unfolded maps_ok_def, THEN conjunct1] assms(1) [unfolded maps_ok_def, THEN conjunct2, THEN conjunct1]
    assms(1) [unfolded maps_ok_def, THEN conjunct2, THEN conjunct2]
  note get = getByOpenid_def getByCuid_def getByCcid_def
  note facts1 = ftm.inv_ins [OF inv(1), of "cl_openid ?c" p] ftm.ins_ok_iff [OF inv(1), of "cl_openid ?c" p]
    ftm.lookup_ins [OF inv(1), of "cl_openid ?c" p] ftm.del_ins [OF inv(1), of "cl_openid ?c" p] ftm_inv_erase [of om "cl_openid ?c"]
  note facts2 = ftm.inv_ins [OF inv(2), of "cl_cuid ?c" p] ftm.ins_ok_iff [OF inv(2), of "cl_cuid ?c" p]
    ftm.lookup_ins [OF inv(2), of "cl_cuid ?c" p] ftm.del_ins [OF inv(2), of "cl_cuid ?c" p] ftm_inv_erase [of um "cl_cuid ?c"]
  note facts3 = ftm.inv_ins [OF inv(3), of "cl_ccid ?c" p] ftm.ins_ok_iff [OF inv(3), of "cl_ccid ?c" p]
    ftm.lookup_ins [OF inv(3), of "cl_ccid ?c" p]
  have eq: "insert_client p st =
     (if \<not> ok1 then (st, False)
      else if \<not> ok2 then (st\<lparr>lb_openid2Clients := ftm_erase (cl_openid ?c) om\<rparr>, False)
      else if \<not> ok3 then
        (st\<lparr>lb_openid2Clients := ftm_erase (cl_openid ?c) om, lb_cuid2Clients := ftm_erase (cl_cuid ?c) um\<rparr>, False)
      else (st\<lparr>lb_openid2Clients := om, lb_cuid2Clients := um, lb_ccid2Clients := cm\<rparr>, True))"
    by (simp add: insert_client_def Let_def 1 2 3)
  note all = facts1 [unfolded 1 fst_conv snd_conv] facts2 [unfolded 2 fst_conv snd_conv]
    facts3 [unfolded 3 fst_conv snd_conv]
  show "ok \<longleftrightarrow> no_key (client_at st p) st"
    using assms(2) all unfolding eq by (auto simp: no_key_def get split: if_splits)
  show "maps_ok st'"
    using assms(2) all inv unfolding eq by (auto simp: maps_ok_def split: if_splits)
  show "lb_store st' = lb_store st"
    using assms(2) unfolding eq by (auto split: if_splits)
  show "getByOpenid st' = (if ok then (getByOpenid st)(cl_openid (client_at st p) \<mapsto> p) else getByOpenid st)"
    using assms(2) all unfolding eq by (auto simp: get fun_eq_iff split: if_splits)
  show "getByCuid st' = (if ok then (getByCuid st)(cl_cuid (client_at st p) \<mapsto> p) else getByCuid st)"
    using assms(2) all unfolding eq by (auto simp: get fun_eq_iff split: if_splits)
  show "getByCcid st' = (if ok then (getByCcid st)(cl_ccid (client_at st p) \<mapsto> p) else getByCcid st)"
    using assms(2) all unfolding eq by (auto simp: get fun_eq_iff split: if_splits)
qed

lemma erase_client_spec:
  assumes "maps_ok st"
  shows "maps_ok (erase_client p st)" and "lb_store (erase_client p st) = lb_store st"
    and "getByOpenid (erase_client p st) = (getByOpenid st)(cl_openid (client_at st p) := None)"
    and "getByCuid (erase_client p st) = (getByCuid st)(cl_cuid (client_at st p) := None)"
    and "getByCcid (erase_client p st) = (getByCcid st)(cl_ccid (client_at st p) := None)"
  using assms
  by (simp_all add: maps_ok_def erase_client_def Let_def getByOpenid_def getByCuid_def getByCcid_def
      ftm_inv_erase ftm.lookup_del fun_eq_iff)

section \<open>Operations that leave the clients alone\<close>

definition same_clients :: "lobby \<Rightarrow> lobby \<Rightarrow> bool" where
  "same_clients st st' \<longleftrightarrow> lb_openid2Clients st' = lb_openid2Clients st
     \<and> lb_cuid2Clients st' = lb_cuid2Clients st \<and> lb_ccid2Clients st' = lb_ccid2Clients st
     \<and> map client_key (lb_store st') = map client_key (lb_store st)"

lemma same_refl [simp]: "same_clients st st"
  by (simp add: same_clients_def)

lemma same_trans: "same_clients s t \<Longrightarrow> same_clients t u \<Longrightarrow> same_clients s u"
  by (simp add: same_clients_def)

lemma same_calm: "calm st st' \<Longrightarrow> same_clients st st'"
  by (simp add: calm_def same_clients_def)

lemma same_put: "same_clients st (snd r) \<Longrightarrow> same_clients st (put_room rid r)"
  by (simp add: same_clients_def)

lemma same_calm_put: "calm st (snd r) \<Longrightarrow> same_clients st (put_room rid r)"
  by (intro same_put same_calm)

lemma entries_ok_same:
  assumes "entries_ok st" and "same_clients st st'"
  shows "entries_ok st'"
proof -
  have get: "getByOpenid st' = getByOpenid st" "getByCuid st' = getByCuid st" "getByCcid st' = getByCcid st"
    "maps_ok st' = maps_ok st"
    using assms(2) by (simp_all add: same_clients_def getByOpenid_def getByCuid_def getByCcid_def maps_ok_def fun_eq_iff)
  have len: "length (lb_store st') = length (lb_store st)"
    using assms(2) unfolding same_clients_def by (metis length_map)
  have "client_key (client_at st' p) = client_key (client_at st p)" if "p < length (lb_store st)" for p
    using assms(2) len that unfolding same_clients_def client_at_def by (metis nth_map)
  then show ?thesis
    using assms(1) by (simp add: entries_ok_def get len client_key_def)
qed

lemma same_create: "same_clients st (proto_CreateGame m ccid st)"
proof -
  have ids: "same_clients st (fst (getRoomId st))" for st
    by (simp add: getRoomId_def Let_def same_clients_def split: list.split)
  have add: "same_clients st (fst (room_add g st))" for g st
    by (simp add: room_add_def same_clients_def split: option.split)
  have enter: "same_clients st (put_room rid (h, fst (snd (enterRoom g p st))))" for rid h g p st
    by (rule same_calm_put) (simp add: calm_enterRoom calm_refl)
  have two: "same_clients st (fst (room_add g (fst (getRoomId st))))" for g
    using same_trans [OF ids add] .
  note three = same_trans [OF two enter]
  show ?thesis
    using two three same_calm [OF calm_notice [OF calm_refl]]
    by (auto simp: proto_CreateGame_def Let_def split: option.split prod.split) (metis fst_conv snd_conv)+
qed

lemma same_join: "same_clients st (proto_JionGame rid ccid st)"
proof -
  have "same_clients st (put_room rid (fst (enterRoom g p st), fst (snd (enterRoom g p st))))" for g p
    by (rule same_calm_put) (simp add: calm_enterRoom calm_refl)
  then show ?thesis
    using same_calm [OF calm_notice [OF calm_refl]]
    by (auto simp: proto_JionGame_def split: option.split prod.split) (metis fst_conv snd_conv)
qed

lemma same_simple [simp]:
  "same_clients st (noticeMessageBox p n st)" "same_clients st (afterLeaveRoom p st)"
  "same_clients st (put_room rid (giveUp seat p g st))" "same_clients st (put_room rid (checkAllVotes g st))"
  "same_clients st (put_room rid (g, st))" "same_clients st (put_room rid (g, syncAll h st))"
  "same_clients st (sendToOthers g u m st)"
  by (auto intro!: same_calm same_calm_put calm_intros)

lemma same_giveUp: "same_clients st (proto_GiveUp ccid st)"
  by (simp add: proto_GiveUp_def Let_def split: option.split)

lemma same_vote: "same_clients st (proto_VoteFoAbortGame v ccid st)"
  by (simp add: proto_VoteFoAbortGame_def Let_def split: option.split)

lemma same_chat: "same_clients st (proto_SendChat content ccid st)"
  by (simp add: proto_SendChat_def split: option.split)

lemma same_ready:
  assumes "proto_ReadyFlag shuffle ready ccid st = Inr st'" and "shuffles shuffle" and "deck_ok st"
  shows "same_clients st st'"
proof -
  have "same_clients st (put_room rid (g2, st2))" if "tryStartRound shuffle g (syncAll h st) = Inr (g2, st2)" for rid g h g2 st2
    using calm_tryStartRound [OF that calm_syncAll [OF calm_refl] assms(2,3)] by (intro same_calm_put) simp
  then show ?thesis
    using assms(1) by (auto simp: proto_ReadyFlag_def Let_def split: option.splits if_splits)
qed

lemma same_bringOut:
  assumes "proto_BringOut shuffle cards ccid st = Inr st'" and "shuffles shuffle" and "deck_ok st"
  shows "same_clients st st'"
proof -
  have "same_clients st (put_room rid (g2, st2))" if "bringOut shuffle seat cs g st = Inr (g2, st2)" for rid g seat cs g2 st2
    using calm_bringOut [OF that calm_refl assms(2,3)] by (intro same_calm_put) simp
  then show ?thesis
    using assms(1) by (auto simp: proto_BringOut_def Let_def split: option.splits if_splits)
qed

lemma same_timer:
  "timer_loop shuffle rids st = Inr st' \<Longrightarrow> \<forall>rid. shuffles (shuffle rid) \<Longrightarrow> deck_ok st \<Longrightarrow> same_clients st st'"
proof (induction rids arbitrary: st)
  case (Cons rid rids)
  show ?case
  proof (cases "lb_rooms st rid")
    case None
    then show ?thesis using Cons by simp
  next
    case (Some g)
    show ?thesis
    proof (cases "g_id g = 0")
      case True
      then have "st' = st\<lparr>lb_rooms := (lb_rooms st)(rid := None)\<rparr>" using Cons.prems(1) Some by simp
      then show ?thesis by (simp add: same_clients_def)
    next
      case False
      then obtain g2 st2 where run: "timerExec (shuffle rid) g st = Inr (g2, st2)"
        and rest: "timer_loop shuffle rids (put_room rid (g2, st2)) = Inr st'"
        using Cons.prems(1) Some by auto
      have calm: "calm st st2" using calm_timerExec [OF run calm_refl] Cons.prems(2,3) by simp
      have "deck_ok (put_room rid (g2, st2))" using calm_deck_ok [OF calm Cons.prems(3)] by (simp add: deck_ok_def)
      then have "same_clients (put_room rid (g2, st2)) st'" by (rule Cons.IH [OF rest Cons.prems(2)])
      then show ?thesis using same_trans [OF same_calm_put [of st "(g2, st2)" rid]] calm by simp
    qed
  qed
qed simp

section \<open>Logging in\<close>

lemma entries_ok_insert:
  assumes "entries_ok st" and "p < length (lb_store st)"
  shows "entries_ok (fst (insert_client p st))"
proof -
  obtain st' ok where ins: "insert_client p st = (st', ok)" by (cases "insert_client p st")
  note spec = insert_client_spec [OF entries_okD(1) [OF assms(1)] ins]
  show ?thesis
    using assms spec unfolding ins by (auto simp: entries_ok_def client_at_def split: if_splits)
qed

lemma entries_ok_erase:
  assumes "entries_ok st"
  shows "entries_ok (erase_client p st)"
  using assms erase_client_spec [OF entries_okD(1) [OF assms], of p]
  by (auto simp: entries_ok_def client_at_def)

text \<open>After its own keys are erased no index leads to a client, so its connection may change.\<close>

lemma entries_ok_rekey:
  assumes "entries_ok st"
  shows "entries_ok (upd_client p (\<lambda>c. c\<lparr>cl_ccid := ccid\<rparr>) (erase_client p st))"
proof -
  let ?e = "erase_client p st"
  have e: "entries_ok ?e" by (rule entries_ok_erase [OF assms])
  note spec = erase_client_spec [OF entries_okD(1) [OF assms], of p]
  have none: "getByOpenid ?e k = Some q \<Longrightarrow> q \<noteq> p" "getByCuid ?e u = Some q \<Longrightarrow> q \<noteq> p"
    "getByCcid ?e c = Some q \<Longrightarrow> q \<noteq> p" for k u c q
    using entries_okD(2-4) [OF assms] unfolding spec by (auto split: if_splits)
  have get: "getByOpenid (upd_client p f t) = getByOpenid t" "maps_ok (upd_client p f t) = maps_ok t"
    "length (lb_store (upd_client p f t)) = length (lb_store t)"
    "q \<noteq> p \<Longrightarrow> client_at (upd_client p f t) q = client_at t q" for f t q
    by (simp_all add: upd_client_def getByOpenid_def maps_ok_def fun_eq_iff client_at_def)
  show ?thesis
    using e none unfolding entries_ok_def by (auto simp: get)
qed

lemma entries_ok_new:
  assumes "entries_ok st"
  shows "entries_ok (fst (new_client c (st\<lparr>lb_uniqueIdCounter := n\<rparr>)))"
proof -
  have get: "getByOpenid (st\<lparr>lb_uniqueIdCounter := n, lb_store := xs\<rparr>) = getByOpenid st"
    "getByCuid (st\<lparr>lb_uniqueIdCounter := n, lb_store := xs\<rparr>) = getByCuid st"
    "getByCcid (st\<lparr>lb_uniqueIdCounter := n, lb_store := xs\<rparr>) = getByCcid st"
    "maps_ok (st\<lparr>lb_uniqueIdCounter := n, lb_store := xs\<rparr>) = maps_ok st" for xs
    by (simp_all add: getByOpenid_def getByCuid_def getByCcid_def maps_ok_def fun_eq_iff)
  show ?thesis
    using assms by (auto simp: new_client_def entries_ok_def get client_at_def nth_append less_SucI)
qed

lemma entries_ok_login_ok: "entries_ok st \<Longrightarrow> entries_ok (login_ok pid ccid p st)"
  unfolding login_ok_def Let_def
  by (rule entries_ok_same [OF _ same_calm [OF calm_clientOnline [OF calm_gateway [OF calm_refl]]]])

lemma entries_ok_reg_failed: "entries_ok st \<Longrightarrow> entries_ok (reg_failed pid ccid p st)"
  unfolding reg_failed_def by (rule entries_ok_same [OF _ same_calm [OF calm_gateway [OF calm_refl]]])

text \<open>The two ways of \<open>proto_LoginQuest\<close>, with the states in between named.\<close>

definition login_new :: "u64 \<Rightarrow> string \<Rightarrow> string \<Rightarrow> lobby \<Rightarrow> lobby" where
  "login_new ccid openid name st =
     fst (new_client (Client\<lparr>cl_ccid := ccid, cl_cuid := snd (getClientUniqueId st),
       cl_openid := openid, cl_name := name\<rparr>) (fst (getClientUniqueId st)))"

definition login_again :: "u32 \<Rightarrow> u64 \<Rightarrow> cptr \<Rightarrow> lobby \<Rightarrow> lobby" where
  "login_again pid ccid p st =
     upd_client p (\<lambda>c. c\<lparr>cl_ccid := ccid\<rparr>) (erase_client p (sendToGateway pid
       (ClientBeReplaced (cl_cuid (client_at st p)) (cl_ccid (client_at st p)) (cl_openid (client_at st p))) st))"

lemma login_new_eq:
  assumes "getByOpenid st openid = None"
  shows "proto_LoginQuest pid ccid openid name st =
      (let p = length (lb_store st); r = insert_client p (login_new ccid openid name st)
       in if snd r then login_ok pid ccid p (fst r) else reg_failed pid ccid p (erase_client p (fst r)))"
  by (simp add: proto_LoginQuest_def assms loadClientFromDB_def saveClientToDB_def login_new_def
      new_client_def getClientUniqueId_def Let_def split: prod.split)

lemma login_again_eq:
  assumes "getByOpenid st openid = Some p"
  shows "proto_LoginQuest pid ccid openid name st =
      (let r = insert_client p (login_again pid ccid p st)
       in login_ok pid ccid p (if snd r then fst r else reg_failed pid ccid p (fst r)))"
  by (simp add: proto_LoginQuest_def assms login_again_def Let_def split: prod.split)

lemma entries_ok_login:
  assumes "entries_ok st"
  shows "entries_ok (proto_LoginQuest pid ccid openid name st)"
proof (cases "getByOpenid st openid")
  case None
  let ?p = "length (lb_store st)"
  have s: "entries_ok (login_new ccid openid name st)"
    using entries_ok_new [OF assms] by (simp add: login_new_def getClientUniqueId_def Let_def)
  have "?p < length (lb_store (login_new ccid openid name st))"
    by (simp add: login_new_def new_client_def getClientUniqueId_def Let_def)
  with s have "entries_ok (fst (insert_client ?p (login_new ccid openid name st)))" by (rule entries_ok_insert)
  then show ?thesis
    unfolding login_new_eq [OF None] Let_def
    by (simp add: entries_ok_login_ok entries_ok_reg_failed entries_ok_erase)
next
  case (Some p)
  have "entries_ok (sendToGateway pid m st)" for m
    by (rule entries_ok_same [OF assms same_calm [OF calm_gateway [OF calm_refl]]])
  then have s: "entries_ok (login_again pid ccid p st)" unfolding login_again_def by (rule entries_ok_rekey)
  have "p < length (lb_store st)" using entries_okD(2) [OF assms Some] by simp
  then have "p < length (lb_store (login_again pid ccid p st))"
    by (simp add: login_again_def upd_client_def erase_client_def sendToGateway_def Let_def)
  with s have "entries_ok (fst (insert_client p (login_again pid ccid p st)))" by (rule entries_ok_insert)
  then show ?thesis
    unfolding login_again_eq [OF Some] Let_def by (simp add: entries_ok_login_ok entries_ok_reg_failed)
qed

lemma entries_ok_step:
  assumes "step st ev st'" and "entries_ok st" and "deck_ok st"
  shows "entries_ok st'"
proof -
  have run: "possible ev st" "exec ev st = Inr st'" using assms(1) by (simp_all add: step_iff)
  have same: "same_clients st st' \<Longrightarrow> ?thesis" by (rule entries_ok_same [OF assms(2)])
  show ?thesis
  proof (cases ev)
    case (EvReady shuffle ready ccid)
    then show ?thesis using run assms(3) same same_ready [of shuffle ready ccid st st'] by simp
  next
    case (EvBringOut shuffle cards ccid)
    then show ?thesis using run assms(3) same same_bringOut [of shuffle cards ccid st st'] by simp
  next
    case (EvLogin pid ccid openid name)
    then show ?thesis using run entries_ok_login [OF assms(2)] by auto
  next
    case (EvTimer shuffle order now)
    then have loop: "timer_loop shuffle order (st\<lparr>lb_timerTime := now\<rparr>) = Inr st'"
      using run(2) by (simp add: timerExecAll_def)
    have "deck_ok (st\<lparr>lb_timerTime := now\<rparr>)" using assms(3) by (simp add: deck_ok_def)
    then have "same_clients (st\<lparr>lb_timerTime := now\<rparr>) st'"
      using same_timer [OF loop] run(1) EvTimer by simp
    then show ?thesis using same by (simp add: same_clients_def)
  qed (use run same same_create same_join same_giveUp same_vote same_chat in auto)
qed

lemma reachable_entries_ok: "reachable st \<Longrightarrow> entries_ok st"
proof (induction rule: reachable.induct)
  case start
  then show ?case
    by (simp add: entries_ok_def maps_ok_def lobby_init_def getByOpenid_def getByCuid_def getByCcid_def
        ftm_find_def ftm_pos_def ftm_empty_def) (simp add: ftm_inv_def)
next
  case (after st ev st')
  then show ?case using entries_ok_step rooms_ok_deck [OF reachable_rooms_ok] by blast
qed

end
