(* ===== verification/SettleTheorems.thy ===== *)
theory SettleTheorems
  imports Settle
begin

text \<open>
  The properties of a round's settlement. The comparison of two duns is an interface
  (\<open>comparator\<close>): the settlement only needs that the comparison answers 0, 1 or 2 and
  that swapping its arguments swaps 1 and 2; \<open>cmpBrandInfo\<close> provides it.
\<close>

section \<open>Comparators\<close>

locale comparator =
  fixes cmp :: "'a \<Rightarrow> 'a \<Rightarrow> int"
  assumes cmp_range: "cmp x y = 0 \<or> cmp x y = 1 \<or> cmp x y = 2"
    and cmp_swap: "cmp x y = 1 \<longleftrightarrow> cmp y x = 2"
    and cmp_trans: "cmp x y = 1 \<Longrightarrow> cmp y z = 1 \<Longrightarrow> cmp x z = 1"
begin

lemma cmp_self: "cmp x x = 0"
  using cmp_range [of x x] cmp_swap [of x x] by auto

lemma cmp_zero_sym: "cmp x y = 0 \<longleftrightarrow> cmp y x = 0"
  using cmp_range [of x y] cmp_range [of y x] cmp_swap [of x y] cmp_swap [of y x] by auto

lemma base_antisym: "base_prize (cmp x y) = - base_prize (cmp y x)"
  using cmp_range [of x y] cmp_swap [of x y] cmp_swap [of y x] cmp_zero_sym [of x y]
  by (auto simp: base_prize_def)

end

interpretation brands: comparator cmpBrandInfo
proof unfold_locales
  fix x y z :: brandInfoT
  show "cmpBrandInfo x y = 0 \<or> cmpBrandInfo x y = 1 \<or> cmpBrandInfo x y = 2"
    by (simp add: cmpBrandInfo_def)
  show "cmpBrandInfo x y = 1 \<longleftrightarrow> cmpBrandInfo y x = 2"
    by (auto simp: cmpBrandInfo_def)
  show "cmpBrandInfo x y = 1 \<Longrightarrow> cmpBrandInfo y z = 1 \<Longrightarrow> cmpBrandInfo x z = 1"
    by (auto simp: cmpBrandInfo_def split: if_splits)
qed

text \<open>\<open>cmpBrandInfo\<close> ranks duns consistently: no dun beats itself, of two duns at most one
  wins and which one does not depend on the order they are given in, duns tie exactly
  when hand type and points agree, and beating is transitive.\<close>

theorem cmpBrandInfo_ranks:
  "cmpBrandInfo x x = 0 \<and> (cmpBrandInfo x y = 1 \<longleftrightarrow> cmpBrandInfo y x = 2)
    \<and> (cmpBrandInfo x y = 0 \<longleftrightarrow> bi_b x = bi_b y \<and> bi_point x = bi_point y)
    \<and> (cmpBrandInfo x y = 1 \<and> cmpBrandInfo y z = 1 \<longrightarrow> cmpBrandInfo x z = 1)"
proof (intro conjI impI)
  show "cmpBrandInfo x x = 0" by (rule brands.cmp_self)
  show "cmpBrandInfo x y = 1 \<longleftrightarrow> cmpBrandInfo y x = 2" by (rule brands.cmp_swap)
  show "cmpBrandInfo x y = 0 \<longleftrightarrow> bi_b x = bi_b y \<and> bi_point x = bi_point y"
    by (simp add: cmpBrandInfo_def)
  show "cmpBrandInfo x z = 1" if "cmpBrandInfo x y = 1 \<and> cmpBrandInfo y z = 1"
    using that brands.cmp_trans by blast
qed

theorem cmpBrandInfo_ranks_witness:
  "cmpBrandInfo (BrandInfo flush 9) (BrandInfo straight 3) = 1"
  using cmpBrandInfo_ranks [of "BrandInfo flush 9" "BrandInfo straight 4" "BrandInfo straight 3"]
  by (simp add: cmpBrandInfo_def less_brandT_def)

section \<open>Every round\<close>

lemma brandInfo_cases:
  assumes "n = 3 \<or> n = 5" and "n \<le> length c"
  shows "(\<forall>x \<in> set (take n c). valid_card x) \<Longrightarrow>
      \<exists>i. brandInfo c n = Inr (sort_cards (take n c) @ drop n c, i)"
    and "\<not> (\<forall>x \<in> set (take n c). valid_card x) \<Longrightarrow> brandInfo c n = Inl AssertionFailed"
  using assms by (auto simp: brandInfo_def brandInfo3_def brandInfo5_def sort_first_def list_all_iff)

lemma g13SpecialBrand_total:
  assumes "length c = 13" and "\<forall>x \<in> set c. valid_card x"
  shows "\<exists>r. g13SpecialBrand c b2 b3 = Inr r"
proof -
  have "\<forall>x \<in> set (take 3 c). valid_card x" using assms(2) by (auto dest: in_set_takeD)
  then obtain dun where dun: "g13SpecialBrandByDun c b2 b3 = Inr (sort_cards (take 3 c) @ drop 3 c, dun)"
    using assms(1) by (simp add: g13SpecialBrandByDun_def sort_first_ok)
  have "\<forall>x \<in> set (sort_cards (take 3 c) @ drop 3 c). valid_card x"
    using assms(2) by (auto dest: in_set_takeD in_set_dropD)
  then show ?thesis
    using assms(1) dun by (simp add: g13SpecialBrand_def g13SpecialBrandByAll_def sort_first_ok)
qed

lemma three_duns:
  assumes "length c = 13"
  shows "c = take 3 c @ take 5 (drop 3 c) @ take 5 (drop 8 c)"
  using assms append_take_drop_id [of 5 "drop 3 c"] append_take_drop_id [of 3 c] by simp

lemma seat_data_total:
  assumes "length (pi_cards info) = 13"
  shows "(\<forall>x \<in> set (pi_cards info). valid_card x) \<Longrightarrow> \<exists>d. seat_data info = Inr d"
    and "\<not> (\<forall>x \<in> set (pi_cards info). valid_card x) \<Longrightarrow> seat_data info = Inl AssertionFailed"
proof -
  define c where "c = pi_cards info"
  define x where "x = take 3 c"
  define y where "y = take 5 (drop 3 c)"
  define z where "z = take 5 (drop 8 c)"
  have len: "length x = 3" "length y = 5" "length z = 5"
    using assms by (simp_all add: x_def y_def z_def c_def)
  have c: "pi_cards info = x @ y @ z"
    using three_duns [of c] assms by (simp add: c_def x_def y_def z_def)
  note cases = brandInfo_cases [of 3 "x @ y @ z"] brandInfo_cases [of 5 "y @ z"] brandInfo_cases [of 5 z]
  note dun = seat_data_def c len
  show "\<exists>d. seat_data info = Inr d" if "\<forall>x \<in> set (pi_cards info). valid_card x"
  proof -
    have v: "\<forall>c \<in> set x. valid_card c" "\<forall>c \<in> set y. valid_card c" "\<forall>c \<in> set z. valid_card c"
      using that c by auto
    obtain i j k where "brandInfo (x @ y @ z) 3 = Inr (sort_cards x @ y @ z, i)"
      "brandInfo (y @ z) 5 = Inr (sort_cards y @ z, j)" "brandInfo z 5 = Inr (sort_cards z, k)"
      using cases(1,3,5) v len by auto
    moreover obtain r where "g13SpecialBrand (sort_cards x @ sort_cards y @ sort_cards z) (bi_b j) (bi_b k) = Inr r"
      using g13SpecialBrand_total [of "sort_cards x @ sort_cards y @ sort_cards z" "bi_b j" "bi_b k"] v len
      by (simp add: ball_Un) blast
    ultimately show ?thesis by (cases r) (simp add: dun)
  qed
  show "seat_data info = Inl AssertionFailed" if "\<not> (\<forall>x \<in> set (pi_cards info). valid_card x)"
  proof (cases "\<forall>c \<in> set x. valid_card c")
    case False
    then show ?thesis using cases(2) by (simp add: dun)
  next
    case x: True
    obtain i where i: "brandInfo (x @ y @ z) 3 = Inr (sort_cards x @ y @ z, i)"
      using cases(1) x len by auto
    show ?thesis
    proof (cases "\<forall>c \<in> set y. valid_card c")
      case False
      then show ?thesis using cases(4) i by (simp add: dun)
    next
      case y: True
      obtain j where "brandInfo (y @ z) 5 = Inr (sort_cards y @ z, j)" using cases(3) y len by auto
      moreover have "\<not> (\<forall>c \<in> set z. valid_card c)" using that c x y by auto
      ultimately show ?thesis using cases(6) i by (simp add: dun)
    qed
  qed
qed

lemma round_total:
  assumes "\<forall>p \<in> set players. length (pi_cards p) = 13"
  shows "if \<forall>p \<in> set players. \<forall>x \<in> set (pi_cards p). valid_card x
    then \<exists>ds. calcRound attr players = Inr ds \<and> length ds = length players
    else calcRound attr players = Inl AssertionFailed"
proof (cases "\<forall>p \<in> set players. \<forall>x \<in> set (pi_cards p). valid_card x")
  case True
  then have "\<And>p. p \<in> set players \<Longrightarrow> \<exists>d. seat_data p = Inr d"
    using seat_data_total(1) assms by blast
  then obtain ds where "omap seat_data players = Inr ds" using omap_total by blast
  with True show ?thesis using calcRound_phases [of players ds attr] by auto
next
  case False
  then have "omap seat_data players = Inl AssertionFailed"
    using seat_data_total assms by (intro omap_Inl) blast+
  with False show ?thesis by (simp add: calcRound_def)
qed

definition sample_attr :: gameAttr where
  "sample_attr = \<lparr>at_roomId = 100001, at_playType = 52, at_rounds = 8, at_payor = 10, at_daQiang = 3,
     at_quanLeiDa = True, at_yiTiaoLong = 1, at_playerSize = 3\<rparr>"

definition sample_seat :: "u64 \<Rightarrow> card list \<Rightarrow> playerInfo" where
  "sample_seat cuid cards = PlayerInfo\<lparr>pi_cuid := cuid, pi_status := COMPARE, pi_cards := cards\<rparr>"

text \<open>C5: a settlement over hands of thirteen cards either completes or stops at the assertion
  on a card number, and it stops there exactly when some seat holds a number outside
  1..52; it never reads or pays a seat that is not there.\<close>

theorem calcRound_total:
  assumes "\<forall>p \<in> set players. length (pi_cards p) = 13"
  shows "if \<forall>p \<in> set players. \<forall>x \<in> set (pi_cards p). valid_card x
    then \<exists>ds. calcRound attr players = Inr ds \<and> length ds = length players
    else calcRound attr players = Inl AssertionFailed"
  by (rule round_total [OF assms])

theorem calcRound_total_witness:
  "calcRound sample_attr [sample_seat 1 [1, 2, 3, 4, 5, 6, 7, 8, 9, 10, 11, 12, 0]] = Inl AssertionFailed"
  using calcRound_total [of "[sample_seat 1 [1, 2, 3, 4, 5, 6, 7, 8, 9, 10, 11, 12, 0]]" sample_attr]
  by (simp add: sample_seat_def PlayerInfo_def valid_card_def)

text \<open>C3: the scores of a round add up to zero: whatever the hands, every point a seat
  gains another loses.\<close>

theorem calcRound_zero_sum:
  assumes "calcRound attr players = Inr ds"
  shows "sum_list (map pd_prize ds) = 0 \<and> length ds = length players"
proof -
  obtain ds0 where "omap seat_data players = Inr ds0" using assms by (auto simp: calcRound_def)
  then show ?thesis using calcRound_phases [of players ds0 attr] assms by auto
qed

text \<open>the grand slam (\<open>quanLeiDa\<close>) is never awarded: the flag starts false and the loop
  that should confirm it can only clear it.\<close>

theorem no_quanLeiDa:
  assumes "calcRound attr players = Inr ds"
  shows "\<forall>d \<in> set ds. \<not> pd_quanLeiDa d"
proof -
  obtain ds0 where "omap seat_data players = Inr ds0" using assms by (auto simp: calcRound_def)
  then show ?thesis using calcRound_phases [of players ds0 attr] assms by auto
qed

text \<open>Two hands for the witnesses: the first has three kings in front and a straight at the back;
  the second has scattered cards, a pair of eights and a straight.\<close>

definition hand_a :: "card list" where
  "hand_a = [12, 25, 38, 1, 15, 29, 43, 6, 20, 34, 48, 10, 24]"

definition hand_b :: "card list" where
  "hand_b = [2, 16, 31, 5, 32, 46, 7, 8, 14, 28, 42, 4, 18]"

section \<open>Rounds of two seats\<close>

text \<open>The points of one comparison stay far inside an \<open>int32_t\<close>.\<close>

lemma add_extra_bound:
  assumes "\<forall>d<3. \<bar>prizes ! d\<bar> \<le> B" and "length prizes = 3" and "0 \<le> e"
  shows "\<forall>d<3. \<bar>add_extra a b cmps (r, br, e) prizes ! d\<bar> \<le> B + e" "length (add_extra a b cmps (r, br, e) prizes) = 3"
proof -
  have "\<bar>(prizes[r := prizes ! r + s]) ! d\<bar> \<le> B + e" if "d < 3" "\<bar>s\<bar> \<le> e" for d and s :: int
    using assms(1,2) that by (cases "d = r") (auto simp: nth_list_update intro: order_trans [OF abs_triangle_ineq] add_mono)
  from this [of _ e] this [of _ "- e"] this [of _ 0] assms
  show "\<forall>d<3. \<bar>add_extra a b cmps (r, br, e) prizes ! d\<bar> \<le> B + e"
    by (auto simp: add_extra_def)
  show "length (add_extra a b cmps (r, br, e) prizes) = 3"
    using assms(2) by (simp add: add_extra_def)
qed

lemma fold_extra_bound:
  assumes "\<forall>d<3. \<bar>prizes ! d\<bar> \<le> B" and "length prizes = 3" and "\<forall>(r, br, e) \<in> set rules. 0 \<le> e"
  shows "(\<forall>d<3. \<bar>fold (add_extra a b cmps) rules prizes ! d\<bar> \<le> B + sum_list (map (snd \<circ> snd) rules))
    \<and> length (fold (add_extra a b cmps) rules prizes) = 3"
  using assms
proof (induction rules arbitrary: prizes B)
  case (Cons rule rules)
  obtain r br e where r: "rule = (r, br, e)" by (cases rule)
  have e: "0 \<le> e" using Cons.prems(3) r by simp
  note step = add_extra_bound [OF Cons.prems(1,2) e, of a b cmps r br]
  show ?case
    using Cons.IH [OF step] Cons.prems(3) by (simp add: r add.assoc)
qed simp

lemma dunPrize_bound: "\<forall>d<3. \<bar>dunPrize a b ! d\<bar> \<le> 55"
proof -
  have "\<forall>d<3. \<bar>map base_prize (dunCmps a b) ! d\<bar> \<le> 1"
    by (auto simp: dunCmps_def base_prize_def less_Suc_eq numeral_3_eq_3)
  moreover have "length (map base_prize (dunCmps a b)) = 3" by (simp add: dunCmps_def)
  moreover have "\<forall>(r, br, e) \<in> set extra_rules. 0 \<le> e" by (simp add: extra_rules_def)
  ultimately show ?thesis
    unfolding dunPrize_def
    using fold_extra_bound [of "map base_prize (dunCmps a b)" 1 extra_rules a b "dunCmps a b"]
    by (simp add: extra_rules_def)
qed

definition dun_total :: "playerData \<Rightarrow> playerData \<Rightarrow> int" where
  "dun_total a b = dunPrize a b ! 0 + dunPrize a b ! 1 + dunPrize a b ! 2"

lemma dun_total_i32: "in_i32 (dun_total a b)"
proof -
  have "\<bar>dunPrize a b ! 0\<bar> \<le> 55" "\<bar>dunPrize a b ! 1\<bar> \<le> 55" "\<bar>dunPrize a b ! 2\<bar> \<le> 55"
    using dunPrize_bound [of a b] by auto
  then show ?thesis unfolding in_i32_def dun_total_def by linarith
qed

text \<open>What a pair of seats is settled for, as the rules of the source give it.\<close>

definition pair_score :: "gameAttr \<Rightarrow> playerData \<Rightarrow> playerData \<Rightarrow> int" where
  "pair_score attr a b =
     (if pd_spec a \<noteq> pd_spec b \<or> at_daQiang attr = 0 then 0
      else if dunPrize a b ! 0 > 0 \<and> dunPrize a b ! 1 > 0 \<and> dunPrize a b ! 2 > 0
      then 2 * dun_total a b else dun_total a b)"

lemma settle_ordinary_eq:
  "settle_ordinary attr i j ds =
    (let dp = dunPrize (ds ! i) (ds ! j)
     in if at_daQiang attr \<noteq> 0 then
          (if dp ! 0 > 0 \<and> dp ! 1 > 0 \<and> dp ! 2 > 0
           then (put_loser i j (dun_total (ds ! i) (ds ! j)) 1 ds, False)
           else if dun_total (ds ! i) (ds ! j) = 0 then (ds, True)
           else (put_loser i j (dun_total (ds ! i) (ds ! j)) 0 ds, False))
        else (ds, False))"
  using dun_total_i32 [of "ds ! i" "ds ! j"] to_u32_pos_iff [OF dun_total_i32, of "ds ! i" "ds ! j"]
    to_u32_nonneg [of "dun_total (ds ! i) (ds ! j)"]
  unfolding settle_ordinary_def Let_def dun_total_def [symmetric]
  by (auto simp: less_le)

lemma calcRound_two:
  assumes "calcRound attr [p, q] = Inr ds"
  obtains a b where "seat_data p = Inr a" "seat_data q = Inr b"
    "pay_all attr [0, 1] (fst (settle_pair attr 0 1 [a, b])) = Inr ds"
proof -
  obtain a b where ab: "seat_data p = Inr a" "seat_data q = Inr b"
    using assms by (auto simp: calcRound_def)
  have len: "length (fst (settle_pair attr 0 1 [a, b])) = 2"
    using frame_length [OF settle_pair_frame, of attr 0 1 "[a, b]"] by simp
  have "settle_rows attr [0, 1] [a, b] = fst (settle_pair attr 0 1 [a, b])"
    using len by (auto split: prod.split)
  then show thesis
    using assms ab that by (simp add: calcRound_def numeral_2_eq_2)
qed

lemma two_seats:
  assumes "calcRound attr [p, q] = Inr ds" and "seat_data p = Inr a" and "seat_data q = Inr b"
  shows "map pd_prize ds = [pair_score attr a b, - pair_score attr a b]"
proof -
  have fresh: "pd_losers a = []" "pd_losers b = []" "pd_prize a = 0" "pd_prize b = 0"
    using seat_data_fresh assms(2,3) by blast+
  have pay: "pay_all attr [0, 1] (fst (settle_pair attr 0 1 [a, b])) = Inr ds"
    using calcRound_two [OF assms(1)] assms(2,3) by auto
  show ?thesis
  proof (cases "pd_spec a = pd_spec b")
    case True
    then show ?thesis
      using pay fresh
      by (auto simp: settle_pair_def settle_ordinary_eq Let_def put_loser_def pay_amount_def
          add_prize_def pair_score_def split: if_splits)
  next
    case False
    then show ?thesis
      using pay fresh
      by (auto simp: settle_pair_def settle_special_def Let_def put_loser_def pay_amount_def
          add_prize_def pair_score_def split: if_splits)
  qed
qed

text \<open>in a round of two seats the first seat's score is the sum of its three duns' points,
  doubled when it wins all three, and the second seat gets the negative of it; a round
  between different special hands moves no points, nor does one whose room has no value
  for the sweep rule. (So a special hand earns nothing, and the second seat's sweep is
  not doubled.)\<close>

theorem two_seat_scores:
  assumes "calcRound attr [p, q] = Inr ds" and "seat_data p = Inr a" and "seat_data q = Inr b"
  shows "map pd_prize ds = [pair_score attr a b, - pair_score attr a b]"
  by (rule two_seats [OF assms])

theorem two_seat_scores_witness:
  "\<exists>ds a b. calcRound sample_attr [sample_seat 1 hand_a, sample_seat 2 hand_b] = Inr ds
    \<and> map pd_prize ds = [pair_score sample_attr a b, - pair_score sample_attr a b]"
proof -
  obtain ds where ds: "calcRound sample_attr [sample_seat 1 hand_a, sample_seat 2 hand_b] = Inr ds"
    using round_total [of "[sample_seat 1 hand_a, sample_seat 2 hand_b]" sample_attr]
    by (auto simp: sample_seat_def PlayerInfo_def hand_a_def hand_b_def valid_card_def)
  obtain a b where "seat_data (sample_seat 1 hand_a) = Inr a" "seat_data (sample_seat 2 hand_b) = Inr b"
    using calcRound_two [OF ds] .
  with two_seat_scores [OF ds this] ds show ?thesis by (intro exI conjI)
qed

theorem calcRound_zero_sum_witness:
  "\<exists>ds. calcRound sample_attr [sample_seat 1 hand_a] = Inr ds \<and> sum_list (map pd_prize ds) = 0"
proof -
  obtain ds where ds: "calcRound sample_attr [sample_seat 1 hand_a] = Inr ds"
    using round_total [of "[sample_seat 1 hand_a]" sample_attr]
    by (auto simp: sample_seat_def PlayerInfo_def hand_a_def valid_card_def)
  with calcRound_zero_sum [OF ds] show ?thesis by blast
qed

theorem no_quanLeiDa_witness:
  "\<exists>ds. calcRound sample_attr [sample_seat 2 hand_b] = Inr ds \<and> (\<forall>d \<in> set ds. \<not> pd_quanLeiDa d)"
proof -
  obtain ds where ds: "calcRound sample_attr [sample_seat 2 hand_b] = Inr ds"
    using round_total [of "[sample_seat 2 hand_b]" sample_attr]
    by (auto simp: sample_seat_def PlayerInfo_def hand_b_def valid_card_def)
  with no_quanLeiDa [OF ds] show ?thesis by blast
qed

lemma add_extra_le:
  assumes "\<forall>k<3. cmps ! k \<noteq> 1" and "r < 3" and "0 \<le> e" and "length prizes = 3" and "d < 3"
  shows "add_extra a b cmps (r, br, e) prizes ! d \<le> prizes ! d"
proof -
  have "cmps ! r \<noteq> 1" using assms(1,2) by blast
  then show ?thesis using assms(2-5) by (cases "d = r") (auto simp: add_extra_def)
qed

lemma fold_extra_le:
  assumes "\<forall>k<3. cmps ! k \<noteq> 1" and "\<forall>(r, br, e) \<in> set rules. r < 3 \<and> 0 \<le> e" and "length prizes = 3" and "d < 3"
  shows "fold (add_extra a b cmps) rules prizes ! d \<le> prizes ! d"
  using assms(2,3)
proof (induction rules arbitrary: prizes)
  case (Cons rule rules)
  obtain r br e where r: "rule = (r, br, e)" by (cases rule)
  have "length (add_extra a b cmps rule prizes) = 3" using Cons.prems(2) by (simp add: r add_extra_def)
  then have "fold (add_extra a b cmps) rules (add_extra a b cmps rule prizes) ! d
      \<le> add_extra a b cmps rule prizes ! d"
    using Cons.prems(1) by (intro Cons.IH) auto
  also have "\<dots> \<le> prizes ! d"
    unfolding r using Cons.prems assms(1,4) by (intro add_extra_le) (auto simp: r)
  finally show ?case by simp
qed simp

lemma dunPrize_le:
  assumes "\<forall>k<3. dunCmps a b ! k \<noteq> 1" and "d < 3"
  shows "dunPrize a b ! d \<le> base_prize (dunCmps a b ! d)"
proof -
  have "dunPrize a b ! d \<le> map base_prize (dunCmps a b) ! d"
    unfolding dunPrize_def
    by (rule fold_extra_le [OF assms(1) _ _ assms(2)]) (simp_all add: extra_rules_def dunCmps_def)
  moreover have "length (dunCmps a b) = 3" by (simp add: dunCmps_def)
  ultimately show ?thesis using assms(2) by (simp del: One_nat_def)
qed

lemma seat_data_cards:
  assumes "pi_cards p = pi_cards q" and "seat_data p = Inr a" and "seat_data q = Inr b"
  shows "pd_dun b = pd_dun a \<and> pd_spec b = pd_spec a"
  using assms by (auto simp: seat_data_def split: prod.splits)

text \<open>Two seats that show the very same thirteen cards do not tie when the back dun is
  stronger than the middle one, as the game asks of every hand: the first seat loses,
  because its middle dun is compared with the other's back dun (twice).\<close>

theorem identical_hands_do_not_tie:
  assumes "calcRound attr [p, q] = Inr ds" and "pi_cards p = pi_cards q" and "seat_data p = Inr a"
    and "at_daQiang attr \<noteq> 0" and "cmpBrandInfo (pd_dun a ! 1) (pd_dun a ! 2) = 2"
  shows "pd_prize (ds ! 0) \<le> -2 \<and> 2 \<le> pd_prize (ds ! 1)"
proof -
  obtain b where b: "seat_data q = Inr b" using calcRound_two [OF assms(1)] by blast
  have same: "pd_dun b = pd_dun a" "pd_spec b = pd_spec a"
    using seat_data_cards [OF assms(2,3) b] by simp_all
  have cmps: "dunCmps a b = [0, 2, 2]"
    using assms(5) by (simp add: dunCmps_def same brands.cmp_self)
  have "dunPrize a b ! d \<le> base_prize (dunCmps a b ! d)" if "d < 3" for d
    using that by (intro dunPrize_le) (auto simp: cmps less_Suc_eq numeral_3_eq_3)
  from this [of 0] this [of 1] this [of 2]
  have "dunPrize a b ! 0 \<le> 0" "dunPrize a b ! 1 \<le> -1" "dunPrize a b ! 2 \<le> -1"
    by (simp_all add: cmps base_prize_def)
  then have "pair_score attr a b \<le> -2"
    using assms(4) same by (simp add: pair_score_def dun_total_def)
  moreover have "map pd_prize ds = [pair_score attr a b, - pair_score attr a b]"
    by (rule two_seats [OF assms(1,3) b])
  ultimately show ?thesis by (cases ds; cases "tl ds") auto
qed

theorem identical_hands_do_not_tie_witness:
  "\<exists>ds. calcRound sample_attr [sample_seat 1 hand_b, sample_seat 2 hand_b] = Inr ds
    \<and> pd_prize (ds ! 0) \<le> -2"
proof -
  obtain ds where ds: "calcRound sample_attr [sample_seat 1 hand_b, sample_seat 2 hand_b] = Inr ds"
    using round_total [of "[sample_seat 1 hand_b, sample_seat 2 hand_b]" sample_attr]
    by (auto simp: sample_seat_def PlayerInfo_def hand_b_def valid_card_def)
  obtain a where a: "seat_data (sample_seat 1 hand_b) = Inr a"
    using calcRound_two [OF ds] by blast
  have "map_sum id (\<lambda>a. cmpBrandInfo (pd_dun a ! 1) (pd_dun a ! 2)) (seat_data (sample_seat 1 hand_b)) = Inr 2"
    unfolding sample_seat_def PlayerInfo_def hand_b_def by code_simp
  with a have "cmpBrandInfo (pd_dun a ! 1) (pd_dun a ! 2) = 2" by simp
  moreover have "pi_cards (sample_seat 1 hand_b) = pi_cards (sample_seat 2 hand_b)"
    by (simp add: sample_seat_def)
  moreover have "at_daQiang sample_attr \<noteq> 0" by (simp add: sample_attr_def)
  ultimately show ?thesis using identical_hands_do_not_tie [OF ds _ a] ds by blast
qed

section \<open>Rounds of three seats\<close>

text \<open>In a round of three seats of the same special rank, a tie between the first two
  ends the first seat's comparisons: the first seat scores zero whatever the third
  seat holds.\<close>

theorem tie_skips_later_seats:
  assumes "calcRound attr [p, q, r] = Inr ds" and "seat_data p = Inr a" and "seat_data q = Inr b"
    and "pd_spec a = pd_spec b" and "dun_total a b = 0"
    and "\<not> (dunPrize a b ! 0 > 0 \<and> dunPrize a b ! 1 > 0 \<and> dunPrize a b ! 2 > 0)" and "at_daQiang attr \<noteq> 0"
  shows "pd_prize (ds ! 0) = 0"
proof -
  obtain c where c: "seat_data r = Inr c"
    using assms(1) by (auto simp: calcRound_def)
  have fresh: "pd_losers a = []" "pd_losers b = []" "pd_losers c = []" "pd_prize a = 0"
    using seat_data_fresh assms(2,3) c by blast+
  have brk: "settle_pair attr 0 (Suc 0) [a, b, c] = ([a, b, c], True)"
    using assms(4-7) by (auto simp: settle_pair_def settle_ordinary_eq Let_def numeral_2_eq_2)
  have len: "length (fst (settle_pair attr 1 2 [a, b, c])) = 3"
    using frame_length [OF settle_pair_frame, of attr 1 2 "[a, b, c]"] by simp
  have upt: "[0..<length [a, b, c]] = [0, 1, 2]" "[0 + 1..<length [a, b, c]] = [1, 2]"
    "[1 + 1..<length [a, b, c]] = [2]" "[2 + 1..<3] = []"
    by (simp_all add: upt_rec numeral_2_eq_2)
  have row0: "settle_row attr 0 [1, 2] [a, b, c] = [a, b, c]" using brk by simp
  have row1: "settle_row attr 1 [2] [a, b, c] = fst (settle_pair attr 1 2 [a, b, c])"
    by (simp split: prod.split)
  have rows: "settle_rows attr [0, 1, 2] [a, b, c] = fst (settle_pair attr 1 2 [a, b, c])"
    by (simp only: settle_rows.simps upt row0 row1 len settle_row.simps(1))
  have "omap seat_data [p, q, r] = Inr [a, b, c]" using assms(2,3) c by simp
  then have pay: "pay_all attr [0, 1, 2] (fst (settle_pair attr 1 2 [a, b, c])) = Inr ds"
    using assms(1) by (simp only: calcRound_def obind.simps upt rows)
  then show ?thesis
    using fresh
    by (cases "pd_spec b = pd_spec c")
      (auto simp: settle_pair_def settle_special_def settle_ordinary_eq Let_def put_loser_def
        pay_amount_def add_prize_def split: if_splits)
qed

text \<open>Two hands that tie: the fronts have the same ranks, and so have the middle dun of the
  first and the back dun of the second.\<close>

definition hand_p :: "card list" where
  "hand_p = [1, 16, 6, 2, 17, 44, 7, 21, 11, 24, 37, 9, 36]"

definition hand_q :: "card list" where
  "hand_q = [14, 3, 32, 4, 43, 45, 33, 10, 15, 30, 5, 46, 8]"

theorem tie_skips_later_seats_witness:
  "\<exists>ds. calcRound sample_attr [sample_seat 1 hand_p, sample_seat 2 hand_q, sample_seat 3 hand_a] = Inr ds
    \<and> pd_prize (ds ! 0) = 0"
proof -
  let ?ps = "[sample_seat 1 hand_p, sample_seat 2 hand_q, sample_seat 3 hand_a]"
  obtain ds where ds: "calcRound sample_attr ?ps = Inr ds"
    using round_total [of ?ps sample_attr]
    by (auto simp: sample_seat_def PlayerInfo_def hand_a_def hand_p_def hand_q_def valid_card_def)
  then obtain a b where ab: "seat_data (sample_seat 1 hand_p) = Inr a" "seat_data (sample_seat 2 hand_q) = Inr b"
    by (auto simp: calcRound_def)
  have "map_sum id (\<lambda>d. (pd_spec d, pd_dun d)) (seat_data (sample_seat 1 hand_p)) =
      Inr (g13_none, [BrandInfo hightCard 1430, BrandInfo hightCard 327574, BrandInfo threeOfKind 11])"
    unfolding sample_seat_def PlayerInfo_def hand_p_def by code_simp
  moreover have "map_sum id (\<lambda>d. (pd_spec d, pd_dun d)) (seat_data (sample_seat 2 hand_q)) =
      Inr (g13_none, [BrandInfo hightCard 1430, BrandInfo onePair 2153360, BrandInfo hightCard 327574])"
    unfolding sample_seat_def PlayerInfo_def hand_q_def by code_simp
  ultimately have "pd_spec a = pd_spec b" "dunPrize a b = [0, 0, 0]"
    using ab by (simp_all add: dunPrize_def dunCmps_def cmpBrandInfo_def extra_rules_def add_extra_def base_prize_def)
  moreover have "at_daQiang sample_attr \<noteq> 0" by (simp add: sample_attr_def)
  ultimately have "pd_prize (ds ! 0) = 0"
    by (intro tie_skips_later_seats [OF ds ab]) (simp_all add: dun_total_def)
  with ds show ?thesis by blast
qed

end
