(* ===== verification/Dealing.thy ===== *)
theory Dealing
  imports Clients SettleTheorems
begin

text \<open>
  What a round deals: which decks \<open>tryStartRound\<close> can start from, whose cards go where,
  and which money moves.
\<close>

section \<open>The deck\<close>

lemma fold_write:
  "n \<le> length d \<Longrightarrow> fold (\<lambda>(i, c) d. d[i := c]) (map (\<lambda>i. (i, f i)) [0..<n]) d = map f [0..<n] @ drop n d"
proof (induction n)
  case (Suc n)
  then have "fold (\<lambda>(i, c) d. d[i := c]) (map (\<lambda>i. (i, f i)) [0..<Suc n]) d = (map f [0..<n] @ drop n d)[n := f n]"
    by simp
  also have "\<dots> = map f [0..<Suc n] @ drop (Suc n) d"
    using Suc.prems by (simp add: list_update_append Cons_nth_drop_Suc [symmetric])
  finally show ?case .
qed simp

lemma write_all_upto:
  "0 < n \<Longrightarrow> write_all (map (\<lambda>i. (i, f i)) [0..<n]) d =
    (if n \<le> length d then Inr (map f [0..<n] @ drop n d) else Inl OutOfBounds)"
proof -
  assume "0 < n"
  then have "(\<forall>(i, c) \<in> set (map (\<lambda>i. (i, f i)) [0..<n]). i < length d) \<longleftrightarrow> n \<le> length d"
    by (auto dest: bspec [where x = "n - 1"])
  then show ?thesis using fold_write [of n d f] by (simp add: write_all_def del: set_map)
qed

definition deck52 :: "card list" where
  "deck52 = map (\<lambda>i. i + 1) [0..<52]"

text \<open>What the other variant makes of a deck of 52: the spades twice, the diamonds gone.\<close>

definition deck65 :: "card list" where
  "deck65 = map (\<lambda>i. i + 39 + 1) [0..<13] @ drop 13 deck52"

lemma init_deck_52: "init_deck GP_52 deck = Inr deck52"
  by (simp add: init_deck_def write_all_upto resize_def deck52_def)

lemma init_deck_65:
  "pt \<noteq> GP_52 \<Longrightarrow> length deck = 52 \<or> length deck = 0 \<Longrightarrow>
    init_deck pt deck = (if length deck = 52 then Inr deck65 else Inl OutOfBounds)"
  by (auto simp: init_deck_def write_all_upto deck65_def deck52_def)

lemma deck52_cards: "distinct deck52" "c \<in> set deck52 \<longleftrightarrow> valid_card c" "length deck52 = 52"
proof -
  show "distinct deck52" by (simp add: deck52_def distinct_map)
  have "set deck52 = Suc ` {0..<52}" by (simp add: deck52_def)
  also have "\<dots> = {1..52}" by (auto simp: image_Suc_atLeastLessThan)
  finally show "c \<in> set deck52 \<longleftrightarrow> valid_card c" by (auto simp: valid_card_def)
  show "length deck52 = 52" by (simp add: deck52_def)
qed

section \<open>The hands\<close>

lemma deal_loop_Inr:
  assumes "deal_loop g deck k infos st = Inr (ps, st')"
  shows "(infos = [] \<or> k + 13 * length infos \<le> length deck)
    \<and> mset (concat (map pi_cards ps)) = mset (take (13 * length infos) (drop k deck))
    \<and> (\<forall>i \<in> set ps. sorted (pi_cards i)) \<and> length ps = length infos"
  using assms
proof (induction infos arbitrary: k st ps)
  case (Cons info infos)
  from Cons.prems obtain hand where hand: "deal_hand deck k = Inr hand" by auto
  let ?r = "deal_seat g hand info st"
  from Cons.prems hand obtain rest where
    rest: "deal_loop g deck (k + 13) infos (snd ?r) = Inr (rest, st')" and ps: "ps = fst ?r # rest"
    by (cases ?r) auto
  have len: "k + 13 \<le> length deck" and h: "hand = sort (take 13 (drop k deck))"
    using hand by (auto simp: deal_hand_eq split: if_splits)
  have cards: "pi_cards (fst ?r) = hand"
    by (auto simp: deal_seat_def take_fee_def Let_def split: option.split prod.split)
  have "take (13 * length (info # infos)) (drop k deck) =
      take 13 (drop k deck) @ take (13 * length infos) (drop (k + 13) deck)"
    by (simp add: take_add add.commute)
  then show ?case using Cons.IH [OF rest] len by (auto simp: ps cards [unfolded h] h)
qed simp

lemma deal_loop_fault:
  "deal_loop g deck k infos st = Inl e \<longleftrightarrow> e = OutOfBounds \<and> infos \<noteq> [] \<and> length deck < k + 13 * length infos"
proof (induction infos arbitrary: k st)
  case (Cons info infos)
  show ?case
  proof (cases "k + 13 \<le> length deck")
    case True
    let ?r = "deal_seat g (sort (take 13 (drop k deck))) info st"
    have "deal_loop g deck k (info # infos) st = Inl e \<longleftrightarrow> deal_loop g deck (k + 13) infos (snd ?r) = Inl e"
      using True by (cases ?r; cases "deal_loop g deck (k + 13) infos (snd ?r)") (auto simp: deal_hand_eq)
    then show ?thesis using Cons.IH [of "k + 13" "snd ?r"] True by auto
  next
    case False
    then show ?thesis by (auto simp: deal_hand_eq)
  qed
qed simp

lemma tryStartRound_Inr:
  assumes "tryStartRound f g st = Inr (g', st')" and "all_ready g st"
  obtains deck ps st1 where "init_deck (at_playType (g_attr g)) (lb_deck st) = Inr deck"
    "deal_loop (g\<lparr>g_rounds := to_i32 (g_rounds g + 1)\<rparr>) (f deck) 0 (g_players g) (st\<lparr>lb_deck := f deck\<rparr>) = Inr (ps, st1)"
    "g' = g\<lparr>g_rounds := to_i32 (g_rounds g + 1), g_players := ps, g_status := play\<rparr>"
    "lb_store st' = lb_store st1" "lb_deck st' = lb_deck st1"
proof -
  have out: "lb_store (sendToAll h m t) = lb_store t \<and> lb_deck (sendToAll h m t) = lb_deck t" for h m t
  proof -
    have "lb_store (fold (\<lambda>cuid st. case getByCuid st cuid of None \<Rightarrow> st | Some p \<Rightarrow> sendToMe p m st) us t) = lb_store t
      \<and> lb_deck (fold (\<lambda>cuid st. case getByCuid st cuid of None \<Rightarrow> st | Some p \<Rightarrow> sendToMe p m st) us t) = lb_deck t" for us
      by (induction us arbitrary: t) (auto simp: sendToMe_def split: option.split)
    then show ?thesis by (simp add: sendToAll_def each_client_def)
  qed
  show thesis
    using assms that by (auto simp: tryStartRound_def Let_def out)
qed

text \<open>C14: a round of the ordinary game is dealt fairly: when it starts, no card is dealt
  twice, every card dealt is one of the 52, every seat gets thirteen of them in order, and
  the game is in play with everybody sorting, one round further.\<close>

theorem deal_is_fair:
  assumes "tryStartRound f g st = Inr (g', st')" and "all_ready g st" and "shuffles f"
    and "at_playType (g_attr g) = GP_52"
  shows "distinct (concat (map pi_cards (g_players g')))
    \<and> (\<forall>i \<in> set (g_players g'). length (pi_cards i) = 13 \<and> sorted (pi_cards i) \<and> pi_status i = SORT
         \<and> (\<forall>c \<in> set (pi_cards i). valid_card c))
    \<and> map pi_cuid (g_players g') = map pi_cuid (g_players g)
    \<and> g_status g' = play \<and> g_rounds g' = to_i32 (g_rounds g + 1)"
proof -
  obtain deck ps st1 where deck: "init_deck (at_playType (g_attr g)) (lb_deck st) = Inr deck"
    and loop: "deal_loop (g\<lparr>g_rounds := to_i32 (g_rounds g + 1)\<rparr>) (f deck) 0 (g_players g)
      (st\<lparr>lb_deck := f deck\<rparr>) = Inr (ps, st1)"
    and g': "g' = g\<lparr>g_rounds := to_i32 (g_rounds g + 1), g_players := ps, g_status := play\<rparr>"
    using tryStartRound_Inr [OF assms(1,2)] by blast
  have "deck = deck52" using deck assms(4) init_deck_52 by simp
  then have m: "mset (f deck) = mset deck52" using assms(3) by (simp add: shuffles_def)
  have sub: "mset (concat (map pi_cards ps)) = mset (take (13 * length (g_players g)) (f deck))"
    using deal_loop_Inr [OF loop] by simp
  have "distinct (f deck)" using m deck52_cards(1) by (metis mset_eq_imp_distinct_iff)
  then have d: "distinct (concat (map pi_cards ps))"
    using sub by (metis mset_eq_imp_distinct_iff distinct_take)
  have "set (concat (map pi_cards ps)) \<subseteq> set deck52"
    using sub m by (metis mset_eq_setD set_take_subset)
  then have v: "\<forall>i \<in> set ps. \<forall>c \<in> set (pi_cards i). valid_card c"
    using deck52_cards(2) by fastforce
  show ?thesis
    using deal_loop_seats [OF loop] deal_loop_Inr [OF loop] d v by (simp add: g')
qed

text \<open>When a round cannot start: the deck is too short for the seats, or has never been made.\<close>

lemma start_fault:
  assumes "all_ready g st" and "deck_ok st" and "shuffles f"
  shows "tryStartRound f g st = Inl e \<longleftrightarrow>
    e = OutOfBounds \<and> (at_playType (g_attr g) \<noteq> GP_52 \<and> lb_deck st = [] \<or> 4 < length (g_players g))"
proof -
  have len: "length (lb_deck st) = 0 \<or> length (lb_deck st) = 52" using assms(2) by (simp add: deck_ok_def)
  show ?thesis
  proof (cases "at_playType (g_attr g) \<noteq> GP_52 \<and> lb_deck st = []")
    case True
    then show ?thesis using init_deck_65 [of _ "lb_deck st"] assms(1) by (auto simp: tryStartRound_def Let_def)
  next
    case False
    then obtain deck where deck: "init_deck (at_playType (g_attr g)) (lb_deck st) = Inr deck" "length deck = 52"
      using len init_deck_65 [of "at_playType (g_attr g)" "lb_deck st"] init_deck_52 deck52_cards(3)
      by (cases "at_playType (g_attr g) = GP_52") (auto simp: deck65_def)
    let ?g = "g\<lparr>g_rounds := to_i32 (g_rounds g + 1)\<rparr>"
    have "tryStartRound f g st = Inl e \<longleftrightarrow>
        deal_loop ?g (f deck) 0 (g_players g) (st\<lparr>lb_deck := f deck\<rparr>) = Inl e"
      using assms(1) deck(1)
      by (cases "deal_loop ?g (f deck) 0 (g_players g) (st\<lparr>lb_deck := f deck\<rparr>)")
        (auto simp: tryStartRound_def Let_def)
    also have "\<dots> \<longleftrightarrow> e = OutOfBounds \<and> 4 < length (g_players g)"
      using shuffles_length [OF assms(3), of deck] deck(2) by (auto simp: deal_loop_fault)
    finally show ?thesis using False by blast
  qed
qed

text \<open>A game of two seats for the witnesses, with both players logged in.\<close>

definition two_clients :: lobby where
  "two_clients = lobby_init\<lparr>lb_store := [Client\<lparr>cl_cuid := 1, cl_ccid := 11\<rparr>, Client\<lparr>cl_cuid := 2, cl_ccid := 12\<rparr>],
     lb_cuid2Clients := fst (ftm_insert 2 1 (fst (ftm_insert 1 0 ftm_empty)))\<rparr>"

definition two_seats_game :: "nat \<Rightarrow> game13" where
  "two_seats_game pt = (Game 100001 1 2 (sample_attr\<lparr>at_playType := pt, at_payor := PAY_SHARE_EQU, at_playerSize := 2\<rparr>))
     \<lparr>g_players := [PlayerInfo\<lparr>pi_cuid := 1, pi_status := READY\<rparr>, PlayerInfo\<lparr>pi_cuid := 2, pi_status := READY\<rparr>]\<rparr>"

lemma all_ready_cong: "getByCuid st = getByCuid st' \<Longrightarrow> all_ready g st = all_ready g st'"
  by (simp add: all_ready_def)

lemma two_seats_ready: "all_ready (two_seats_game pt) two_clients"
  by (simp add: all_ready_def two_seats_game_def Game_def two_clients_def getByCuid_def ftm_find_def ftm_pos_def
      ftm_insert_def ftm_empty_def)

lemma two_seats_start: "\<exists>g' st'. tryStartRound rev (two_seats_game 52) two_clients = Inr (g', st')"
proof -
  have "shuffles rev" by (simp add: shuffles_def)
  moreover have "deck_ok two_clients" by (simp add: deck_ok_def two_clients_def lobby_init_def)
  ultimately have "\<nexists>e. tryStartRound rev (two_seats_game 52) two_clients = Inl e"
    using start_fault [OF two_seats_ready] by (simp add: two_seats_game_def Game_def GP_52_def)
  then show ?thesis by (cases "tryStartRound rev (two_seats_game 52) two_clients") auto
qed

theorem deal_is_fair_witness:
  "\<exists>g' st'. tryStartRound rev (two_seats_game 52) two_clients = Inr (g', st')
    \<and> distinct (concat (map pi_cards (g_players g')))"
proof -
  obtain g' st' where r: "tryStartRound rev (two_seats_game 52) two_clients = Inr (g', st')"
    using two_seats_start by blast
  have "shuffles rev" by (simp add: shuffles_def)
  then have "distinct (concat (map pi_cards (g_players g')))"
    using deal_is_fair [OF r two_seats_ready] by (simp add: two_seats_game_def Game_def GP_52_def)
  with r show ?thesis by blast
qed

text \<open>the start of a round in a reachable state, when everybody is ready: it goes through
  unless the room has more than four seats (five times thirteen cards are more than the
  deck holds) or is of the 65-card variant before any 52-card round was played (the
  deck's memory is only reserved); then a vector is accessed past its end.\<close>

theorem start_of_round_total:
  assumes "reachable st" and "all_ready g st" and "shuffles f"
  shows "if at_playType (g_attr g) \<noteq> GP_52 \<and> lb_deck st = [] \<or> 4 < length (g_players g)
    then tryStartRound f g st = Inl OutOfBounds
    else \<exists>g' st'. tryStartRound f g st = Inr (g', st') \<and> g_status g' = play"
proof -
  have ok: "deck_ok st" using reachable_rooms_ok [OF assms(1)] by (rule rooms_ok_deck)
  note fault = start_fault [OF assms(2) ok assms(3)]
  show ?thesis
  proof (cases "tryStartRound f g st")
    case (Inl e)
    then show ?thesis using fault [of e] by simp
  next
    case (Inr r)
    then have "\<not> (at_playType (g_attr g) \<noteq> GP_52 \<and> lb_deck st = [] \<or> 4 < length (g_players g))"
      using fault [of OutOfBounds] by auto
    moreover have "\<exists>g' st'. tryStartRound f g st = Inr (g', st') \<and> g_status g' = play"
    proof -
      obtain g' st' where r: "tryStartRound f g st = Inr (g', st')" using Inr by (cases r) simp
      then have "g_status g' = play" by (rule tryStartRound_starts [OF _ assms(2)]) simp
      with r show ?thesis by blast
    qed
    ultimately show ?thesis by (simp only: if_False)
  qed
qed

theorem start_of_round_total_witness:
  "tryStartRound rev ((two_seats_game 65)\<lparr>g_status := settle\<rparr>) lobby_init = Inl OutOfBounds"
proof -
  have "all_ready ((two_seats_game 65)\<lparr>g_status := settle\<rparr>) lobby_init" by (simp add: all_ready_def)
  from start_of_round_total [OF start this, of rev] show ?thesis
    by (simp add: shuffles_def two_seats_game_def Game_def GP_52_def lobby_init_def)
qed

lemma deal_loop_deck: "deal_loop g deck k infos st = Inr (ps, st') \<Longrightarrow> lb_deck st' = lb_deck st"
proof (induction infos arbitrary: k st ps)
  case (Cons info infos)
  from Cons.prems obtain hand where hand: "deal_hand deck k = Inr hand" by auto
  let ?r = "deal_seat g hand info st"
  from Cons.prems hand obtain rest where
    rest: "deal_loop g deck (k + 13) infos (snd ?r) = Inr (rest, st')" by (cases ?r) auto
  have "lb_deck (snd ?r) = lb_deck st"
    by (auto simp: deal_seat_def take_fee_def Let_def sendToMe_def addMoney_def upd_client_def
        split: option.split prod.split if_splits)
  then show ?case using Cons.IH [OF rest] by simp
qed simp

text \<open>the 65-card variant never deals from 65 cards: the round it starts deals from the
  spades twice, the clubs and the hearts, so no diamond is ever dealt, and at most 52 cards.\<close>

theorem variant_65_has_no_diamonds:
  assumes "tryStartRound f g st = Inr (g', st')" and "all_ready g st" and "shuffles f"
    and "deck_ok st" and "at_playType (g_attr g) = GP_65"
  shows "mset (concat (map pi_cards (g_players g'))) \<subseteq># mset ([40..<53] @ [14..<53])
    \<and> length (lb_deck st') = 52 \<and> (\<forall>i \<in> set (g_players g'). \<forall>c \<in> set (pi_cards i). suit c \<noteq> diamond)"
proof -
  obtain deck ps st1 where deck: "init_deck (at_playType (g_attr g)) (lb_deck st) = Inr deck"
    and loop: "deal_loop (g\<lparr>g_rounds := to_i32 (g_rounds g + 1)\<rparr>) (f deck) 0 (g_players g)
      (st\<lparr>lb_deck := f deck\<rparr>) = Inr (ps, st1)"
    and g': "g' = g\<lparr>g_rounds := to_i32 (g_rounds g + 1), g_players := ps, g_status := play\<rparr>"
    and st': "lb_deck st' = lb_deck st1"
    using tryStartRound_Inr [OF assms(1,2)] by blast
  have "deck = deck65"
    using deck assms(4,5) init_deck_65 [of "at_playType (g_attr g)" "lb_deck st"]
    by (auto simp: deck_ok_def GP_65_def GP_52_def split: if_splits)
  moreover have d65: "deck65 = [40..<53] @ [14..<53]"
    by (simp add: deck65_def deck52_def drop_map upt_rec)
  ultimately have m: "mset (f deck) = mset ([40..<53] @ [14..<53])" using assms(3) by (simp add: shuffles_def)
  have "mset (concat (map pi_cards ps)) = mset (take (13 * length (g_players g)) (f deck))"
    using deal_loop_Inr [OF loop] by simp
  also have "\<dots> \<subseteq># mset (f deck)" by (metis append_take_drop_id mset_append mset_subset_eq_add_left)
  finally have sub: "mset (concat (map pi_cards ps)) \<subseteq># mset ([40..<53] @ [14..<53])" unfolding m .
  have len: "length (lb_deck st') = 52"
    using deal_loop_deck [OF loop] st' arg_cong [OF m, of size] by simp
  have "set (concat (map pi_cards ps)) \<subseteq> set ([40..<53] @ [14..<53])"
    using set_mset_mono [OF sub] by (simp only: set_mset_mset)
  then have c: "\<forall>i \<in> set ps. \<forall>c \<in> set (pi_cards i). 14 \<le> c \<and> c < 53" by fastforce
  have nd: "suit c \<noteq> diamond" if "14 \<le> c" "c < 53" for c
  proof -
    have "suit_val (suit c) = (c - 1) div 13" using that by (simp add: suit_def)
    moreover have "1 \<le> (c - 1) div 13" using that by simp
    ultimately show ?thesis by (metis One_nat_def not_less_eq_eq suit_val.simps zero_le)
  qed
  show ?thesis using sub len c nd by (simp add: g')
qed

theorem variant_65_has_no_diamonds_witness:
  "\<exists>g' st'. tryStartRound rev (two_seats_game 65) (two_clients\<lparr>lb_deck := deck52\<rparr>) = Inr (g', st')
    \<and> (\<forall>i \<in> set (g_players g'). \<forall>c \<in> set (pi_cards i). suit c \<noteq> diamond)"
proof -
  let ?st = "two_clients\<lparr>lb_deck := deck52\<rparr>"
  have rev: "shuffles rev" by (simp add: shuffles_def)
  have ok: "deck_ok ?st" by (simp add: deck_ok_def deck52_cards(3))
  have ready: "all_ready (two_seats_game 65) ?st"
    using two_seats_ready [of 65] all_ready_cong [of ?st two_clients "two_seats_game 65"]
    by (simp add: getByCuid_def fun_eq_iff)
  have "\<nexists>e. tryStartRound rev (two_seats_game 65) ?st = Inl e"
  proof -
    have "lb_deck ?st \<noteq> []" using deck52_cards(3) by fastforce
    moreover have "length (g_players (two_seats_game 65)) = 2" by (simp add: two_seats_game_def)
    ultimately show ?thesis by (simp only: start_fault [OF ready ok rev]) simp
  qed
  then obtain g' st' where r: "tryStartRound rev (two_seats_game 65) ?st = Inr (g', st')"
    by (cases "tryStartRound rev (two_seats_game 65) ?st") auto
  have "at_playType (g_attr (two_seats_game 65)) = GP_65" by (simp add: two_seats_game_def Game_def GP_65_def)
  with variant_65_has_no_diamonds [OF r ready rev ok] r show ?thesis by blast
qed

end
