(* ===== verification/LobbyTheorems.thy ===== *)
theory LobbyTheorems
  imports Dealing
begin

text \<open>
  The properties of the lobby: the invariant of the rooms, fees, votes, entering a room,
  coming back to one, the timers, logging in, the final count.
\<close>

section \<open>The rooms of a reachable lobby\<close>

text \<open>C1: in every reachable state every room is in order: it has its own number or is about to
  be destroyed, it is never left between two rounds, an open room has its seats and every
  seat thirteen cards, while a round is played every seat is taken and somebody still
  sorts, votes exist only during a vote and no vote against is left standing, and the
  settled rounds are as many as the rounds played, each with scores that add up to zero.\<close>

theorem rooms_in_order:
  assumes "reachable st" and "lb_rooms st rid = Some g"
  shows "g_id g \<in> {rid, 0} \<and> g_status g \<noteq> settle
    \<and> (g_status g \<noteq> closed \<longrightarrow> length (g_players g) = at_playerSize (g_attr g))
    \<and> (\<forall>i \<in> set (g_players g). length (pi_cards i) = 13)
    \<and> (g_status g \<in> {play, vote} \<longrightarrow>
        (\<forall>i \<in> set (g_players g). pi_cuid i \<noteq> 0 \<and> pi_status i \<in> {SORT, COMPARE})
        \<and> (g_players g = [] \<or> (\<exists>i \<in> set (g_players g). pi_status i = SORT))
        \<and> g_rounds g = int (length (g_settleData g)) + 1)
    \<and> (g_status g \<noteq> vote \<longrightarrow> (\<forall>i \<in> set (g_players g). pi_vote i = VT_NONE))
    \<and> (\<forall>i \<in> set (g_players g). pi_vote i \<noteq> VT_NAY)
    \<and> (\<forall>ds \<in> set (g_settleData g). length ds = at_playerSize (g_attr g) \<and> sum_list (map pd_prize ds) = 0)"
proof -
  have ok: "game_ok g" and gid: "g_id g = rid \<or> g_id g = 0"
    using rooms_okD [OF reachable_rooms_ok [OF assms(1)] assms(2)] by auto
  have votes: "\<forall>i \<in> set (g_players g). pi_vote i \<noteq> VT_NAY"
    using ok by (cases "g_status g = vote") (simp_all add: game_ok_def votes_ok_def)
  show ?thesis
    using ok gid votes
    by (simp add: game_ok_def seats_ok_def round_ok_def votes_ok_def count_ok_def playing_def settled_ok_def)
qed

definition one_room :: lobby where
  "one_room = proto_CreateGame \<lparr>cm_player_size = 2, cm_play_type = 52, cm_rounds = 8, cm_payor = PAY_SHARE_EQU,
     cm_da_qiang = 3, cm_quan_lei_da = True, cm_yi_tiao_long = 1\<rparr> 11
     (proto_LoginQuest 257 11 ''abc'' ''Ann'' lobby_init)"

lemma one_room_reachable: "reachable one_room"
  unfolding one_room_def
  by (rule reachable_exec [of _ "EvCreate _ _"], rule reachable_exec [OF start, of "EvLogin _ _ _ _"])
    (simp_all add: in_i32_def)

lemma one_room_game: "map_option (\<lambda>g. (g_status g, map pi_cuid (g_players g))) (lb_rooms one_room 100001) = Some (prepare, [1, 0])"
  by code_simp

theorem rooms_in_order_witness:
  "\<exists>g. lb_rooms one_room 100001 = Some g \<and> length (g_players g) = at_playerSize (g_attr g)"
proof -
  obtain g where g: "lb_rooms one_room 100001 = Some g" "g_status g = prepare"
    using one_room_game by (auto simp: map_option_eq_Some)
  then show ?thesis using rooms_in_order [OF one_room_reachable g(1)] by auto
qed

section \<open>Fees\<close>

lemma in_i32_to_i32 [simp]: "in_i32 (to_i32 x)"
  by (simp add: in_i32_def to_i32_def)

lemma to_i32_diff: "to_i32 (to_i32 x - y) = to_i32 (x - y)"
proof -
  have "((x + 2147483648) mod 4294967296 - 2147483648 - y + 2147483648) mod 4294967296
      = (x - y + 2147483648) mod 4294967296"
    by (simp add: mod_simps algebra_simps)
  then show ?thesis by (simp add: to_i32_def)
qed

text \<open>What a seat's player pays when the round's number is \<open>r\<close>.\<close>

definition fee :: "game13 \<Rightarrow> int \<Rightarrow> u64 \<Rightarrow> int" where
  "fee g r cuid =
     (if r \<noteq> 1 then 0
      else if at_payor (g_attr g) = PAY_BANKER then (if cuid = g_ownerCuid g then 10 else 0)
      else if at_payor (g_attr g) = PAY_SHARE_EQU then 5 else 0)"

definition seats_of :: "game13 \<Rightarrow> lobby \<Rightarrow> cptr \<Rightarrow> nat" where
  "seats_of g st p = length (filter (\<lambda>i. getByCuid st (pi_cuid i) = Some p) (g_players g))"

lemma money_take_fee:
  assumes "p < length (lb_store st)" and "in_i32 (cl_money (client_at st p))"
  shows "cl_money (client_at (snd (take_fee g q info st)) p) =
    (if q = p then to_i32 (cl_money (client_at st p) - fee g (g_rounds g) (cl_cuid (client_at st p)))
     else cl_money (client_at st p))"
  using assms
  by (auto simp: take_fee_def fee_def addMoney_def upd_client_def client_at_def PAY_BANKER_def PAY_SHARE_EQU_def)

lemma money_deal_seat:
  assumes "p < length (lb_store st)" and "in_i32 (cl_money (client_at st p))"
  shows "cl_money (client_at (snd (deal_seat g hand info st)) p) =
    (if getByCuid st (pi_cuid info) = Some p
     then to_i32 (cl_money (client_at st p) - fee g (g_rounds g) (cl_cuid (client_at st p)))
     else cl_money (client_at st p))"
proof (cases "getByCuid st (pi_cuid info)")
  case (Some q)
  then show ?thesis
    using money_take_fee [OF assms, of g q "info\<lparr>pi_cards := hand\<rparr>"]
    by (auto simp: deal_seat_def Let_def sendToMe_def client_at_def split: prod.split)
qed (simp add: deal_seat_def Let_def)

lemma money_deal_loop:
  assumes "deal_loop g deck k infos st = Inr (ps, st')" and "p < length (lb_store st)"
    and "in_i32 (cl_money (client_at st p))"
  shows "cl_money (client_at st' p) = to_i32 (cl_money (client_at st p)
    - fee g (g_rounds g) (cl_cuid (client_at st p)) * int (length (filter (\<lambda>i. getByCuid st (pi_cuid i) = Some p) infos)))"
  using assms
proof (induction infos arbitrary: k st ps)
  case (Cons info infos)
  from Cons.prems(1) obtain hand where hand: "deal_hand deck k = Inr hand" by auto
  let ?r = "deal_seat g hand info st"
  from Cons.prems(1) hand obtain rest where
    rest: "deal_loop g deck (k + 13) infos (snd ?r) = Inr (rest, st')" by (cases ?r) auto
  have calm: "calm st (snd ?r)" by (rule calm_deal_seat [OF calm_refl])
  have p: "p < length (lb_store (snd ?r))" using Cons.prems(2) calm_length [OF calm] by simp
  have cuid: "cl_cuid (client_at (snd ?r) p) = cl_cuid (client_at st p)"
    using calm_key [OF calm Cons.prems(2)] by (simp add: client_key_def)
  note money = money_deal_seat [OF Cons.prems(2,3), of g hand info]
  have "in_i32 (cl_money (client_at (snd ?r) p))" unfolding money using Cons.prems(3) by simp
  from Cons.IH [OF rest p this] show ?case
    using calm_get [OF calm] by (simp add: money cuid to_i32_diff algebra_simps)
qed simp

text \<open>money moves when a game's first round starts and at no later round: each seat's
  player pays the fee of the paying scheme (ten from the owner, or five from everyone),
  and no other client's money changes.\<close>

theorem fee_of_round:
  assumes "tryStartRound f g st = Inr (g', st')" and "all_ready g st"
    and "p < length (lb_store st)" and "in_i32 (cl_money (client_at st p))"
  shows "cl_money (client_at st' p) =
    to_i32 (cl_money (client_at st p)
      - fee g (to_i32 (g_rounds g + 1)) (cl_cuid (client_at st p)) * int (seats_of g st p))"
proof -
  obtain deck ps st1 where
    loop: "deal_loop (g\<lparr>g_rounds := to_i32 (g_rounds g + 1)\<rparr>) (f deck) 0 (g_players g)
      (st\<lparr>lb_deck := f deck\<rparr>) = Inr (ps, st1)"
    and st': "lb_store st' = lb_store st1"
    by (rule tryStartRound_Inr [OF assms(1,2)])
  have at: "client_at (st\<lparr>lb_deck := d\<rparr>) p = client_at st p" "getByCuid (st\<lparr>lb_deck := d\<rparr>) = getByCuid st" for d
    by (simp_all add: client_at_def getByCuid_def fun_eq_iff)
  have "client_at st' p = client_at st1 p" using st' by (simp add: client_at_def)
  then show ?thesis
    using money_deal_loop [OF loop, of p] assms(3,4)
    by (simp add: at fee_def seats_of_def)
qed

theorem fee_of_round_witness:
  "\<exists>g' st'. tryStartRound rev (two_seats_game 52) two_clients = Inr (g', st')
    \<and> cl_money (client_at st' 0) = 9995"
proof -
  obtain g' st' where r: "tryStartRound rev (two_seats_game 52) two_clients = Inr (g', st')"
    using two_seats_start by blast
  have m: "0 < length (lb_store two_clients)" "cl_money (client_at two_clients 0) = 10000"
    by (simp_all add: two_clients_def client_at_def Client_def)
  have s: "seats_of (two_seats_game 52) two_clients 0 = 1"
    by (simp add: seats_of_def two_seats_game_def two_clients_def getByCuid_def ftm_find_def ftm_pos_def
        ftm_insert_def ftm_empty_def)
  have e: "fee (two_seats_game 52) (to_i32 (g_rounds (two_seats_game 52) + 1)) u = 5" for u
    by (simp add: fee_def two_seats_game_def Game_def in_i32_def PAY_SHARE_EQU_def PAY_BANKER_def)
  show ?thesis
    using fee_of_round [OF r two_seats_ready m(1)] r unfolding m(2) s e by (auto simp: in_i32_def)
qed

section \<open>Votes\<close>

text \<open>C25: a vote during a dissolution vote settles it as soon as it can: a vote against lets the
  game go on, with all votes forgotten; the last vote in favour closes the room, which
  is emptied and will be destroyed; any other vote in favour is only noted.\<close>

theorem vote_decides:
  assumes "game_ok g" and "g_status g = vote" and "seat < length (g_players g)" and "v \<noteq> VT_NONE"
  shows "let g1 = upd_seat seat (\<lambda>i. i\<lparr>pi_vote := v\<rparr>) g; g' = fst (checkAllVotes g1 st)
    in if v = VT_NAY
       then g_status g' = play \<and> (\<forall>i \<in> set (g_players g'). pi_vote i = VT_NONE)
         \<and> map pi_cards (g_players g') = map pi_cards (g_players g)
       else if \<forall>i \<in> set (g_players g1). pi_vote i = VT_AYE
       then g_status g' = closed \<and> g_players g' = [] \<and> g_id g' = 0
       else g' = g1"
proof -
  let ?g = "upd_seat seat (\<lambda>i. i\<lparr>pi_vote := v\<rparr>) g"
  have seat: "g_players g ! seat \<in> set (g_players g)" using assms(3) by simp
  have cuids: "\<forall>i \<in> set (g_players ?g). pi_cuid i \<noteq> 0"
    by (rule ball_upd_seat) (use assms(1,2) seat in \<open>auto simp: game_ok_defs\<close>)
  have new: "g_players ?g ! seat \<in> set (g_players ?g)" "pi_vote (g_players ?g ! seat) = v"
    using assms(3) by (simp_all add: upd_seat_def set_update_memI)
  have no: "\<forall>i \<in> set (g_players ?g). pi_vote i \<noteq> VT_NAY" if "v \<noteq> VT_NAY"
    by (rule ball_upd_seat) (use assms(1,2) that in \<open>auto simp: game_ok_defs\<close>)
  have cards: "map pi_cards (g_players ?g) = map pi_cards (g_players g)"
    using assms(3) by (simp add: upd_seat_def map_update list_update_same_conv)
  have vote: "g_status ?g = vote" using assms(2) by simp
  note cases = checkAllVotes_cases [OF vote cuids, of st]
  show ?thesis
  proof (cases "v = VT_NAY")
    case True
    then have "\<exists>i \<in> set (g_players ?g). pi_vote i = VT_NAY" using new by blast
    then have "fst (checkAllVotes ?g st) =
        (reset_votes ?g)\<lparr>g_startVoteTime := 0, g_voteSponsorCuid := 0, g_status := play\<rparr>"
      using cases by (simp only: if_True)
    then show ?thesis using True cards by (simp add: Let_def reset_votes_def comp_def)
  next
    case False
    then have "(\<exists>i \<in> set (g_players ?g). pi_vote i = VT_NAY) = False" using no by blast
    with cases False show ?thesis by (auto simp: Let_def abortGame_def destroyLater_def)
  qed
qed

definition voting_game :: game13 where
  "voting_game = (two_seats_game 52)\<lparr>g_status := vote, g_rounds := 1,
     g_players := [PlayerInfo\<lparr>pi_cuid := 1, pi_status := SORT, pi_vote := VT_AYE\<rparr>,
                   PlayerInfo\<lparr>pi_cuid := 2, pi_status := COMPARE\<rparr>]\<rparr>"

lemma voting_game_ok: "game_ok voting_game"
  by (simp add: game_ok_defs voting_game_def two_seats_game_def Game_def PlayerInfo_def sample_attr_def in_i32_def)

theorem vote_decides_witness:
  "g_status (fst (checkAllVotes (upd_seat 1 (\<lambda>i. i\<lparr>pi_vote := VT_AYE\<rparr>) voting_game) two_clients)) = closed"
proof -
  have "g_status voting_game = vote" "1 < length (g_players voting_game)"
    by (simp_all add: voting_game_def)
  note t = vote_decides [OF voting_game_ok this, of VT_AYE two_clients]
  have "\<forall>i \<in> set (g_players (upd_seat 1 (\<lambda>i. i\<lparr>pi_vote := VT_AYE\<rparr>) voting_game)). pi_vote i = VT_AYE"
    by (simp add: voting_game_def upd_seat_def)
  with t show ?thesis by (simp add: Let_def)
qed

section \<open>Entering a room\<close>

definition empty_seats :: "game13 \<Rightarrow> nat" where
  "empty_seats g = length (filter (\<lambda>i. pi_cuid i = 0) (g_players g))"

lemma filter_update_one:
  "k < length xs \<Longrightarrow> P (xs ! k) \<Longrightarrow> \<not> P y \<Longrightarrow> Suc (length (filter P (xs[k := y]))) = length (filter P xs)"
proof (induction xs arbitrary: k)
  case (Cons x xs)
  then show ?case by (cases k) auto
qed simp

text \<open>a player turned away from a waiting room for want of money keeps the seat: the player
  is in no room, but the seat carries the player's number and counts as taken, so enough
  refused attempts fill a room with nobody in it.\<close>

theorem refused_player_keeps_seat:
  assumes "enterRoom g p st = (g', st', False)" and "g_status g = prepare"
    and "cl_roomId (client_at st p) = 0" and "cl_cuid (client_at st p) \<noteq> 0" and "empty_seats g \<noteq> 0"
  shows "Suc (empty_seats g') = empty_seats g \<and> lb_store st' = lb_store st
    \<and> (\<exists>i \<in> set (g_players g'). pi_cuid i = cl_cuid (client_at st p))"
proof -
  have "\<exists>i \<in> set (g_players g). pi_cuid i = 0" using assms(5) by (auto simp: empty_seats_def filter_empty_conv)
  then obtain k where k: "getEmptySeatIndex g = Some k"
    using seat_index_None [of "\<lambda>i. pi_cuid i = 0" "g_players g"] by (auto simp: getEmptySeatIndex_def)
  then have k': "k < length (g_players g)" "pi_cuid (g_players g ! k) = 0"
    using seat_index_Some [of "\<lambda>i. pi_cuid i = 0" "g_players g" k] by (simp_all add: getEmptySeatIndex_def)
  let ?c = "client_at st p"
  let ?f = "\<lambda>i. i\<lparr>pi_cuid := cl_cuid ?c, pi_name := cl_name ?c, pi_status := PREP, pi_money := cl_money ?c\<rparr>"
  have g': "g' = upd_seat k ?f g" and st': "lb_store st' = lb_store st"
    using assms(1-3) k by (auto simp: enterRoom_def Let_def noticeMessageBox_def sendToMe_def split: if_splits)
  have "Suc (empty_seats g') = empty_seats g"
    unfolding g' empty_seats_def upd_seat_def using k' assms(4) by (simp add: filter_update_one)
  moreover have "?f (g_players g ! k) \<in> set (g_players g')"
    unfolding g' upd_seat_def using k'(1) by (simp add: set_update_memI)
  ultimately show ?thesis using st' by force
qed

definition waiting_game :: game13 where
  "waiting_game = (two_seats_game 52)\<lparr>g_players := [PlayerInfo, PlayerInfo]\<rparr>"

definition poor_client :: lobby where
  "poor_client = lobby_init\<lparr>lb_store := [Client\<lparr>cl_cuid := 7, cl_money := 5\<rparr>]\<rparr>"

theorem refused_player_keeps_seat_witness:
  "Suc (empty_seats (fst (enterRoom waiting_game 0 poor_client))) = empty_seats waiting_game"
proof -
  have no: "snd (snd (enterRoom waiting_game 0 poor_client)) = False"
    by (simp add: enterRoom_def waiting_game_def two_seats_game_def Game_def poor_client_def client_at_def
        Client_def Let_def getEmptySeatIndex_def PlayerInfo_def PAY_SHARE_EQU_def PAY_BANKER_def enoughMoney_def)
  have "enterRoom waiting_game 0 poor_client =
      (fst (enterRoom waiting_game 0 poor_client), fst (snd (enterRoom waiting_game 0 poor_client)), False)"
    unfolding no [symmetric] by simp
  from refused_player_keeps_seat [OF this] show ?thesis
    by (simp add: waiting_game_def two_seats_game_def Game_def poor_client_def client_at_def Client_def
        empty_seats_def PlayerInfo_def)
qed

section \<open>Coming back\<close>

lemma out_each_client: "set (lb_out st) \<subseteq> set (lb_out (each_client (\<lambda>p. sendToMe p m) us st))"
proof -
  have "set (lb_out st) \<subseteq> set (lb_out (fold (\<lambda>u st. case getByCuid st u of None \<Rightarrow> st | Some p \<Rightarrow> sendToMe p m st) us st))"
    by (induction us arbitrary: st) (force simp: sendToMe_def split: option.split)+
  then show ?thesis by (simp add: each_client_def)
qed

lemma fold_send_out:
  "set (lb_out (fold (\<lambda>i. sendToMe p (f i)) xs st)) = set (lb_out st) \<union> (\<lambda>i. ToClient (cl_ccid (client_at st p)) (f i)) ` set xs"
  by (induction xs arbitrary: st) (auto simp: sendToMe_def client_at_def)

text \<open>a player who comes back during a round is sent the hand of every seat, the other
  players' cards included.\<close>

theorem rejoin_reveals_all_hands:
  assumes "g_status g = play \<or> g_status g = vote" and "cl_roomId (client_at st p) = g_id g"
    and "getPlayerInfoByCuid g (cl_cuid (client_at st p)) \<noteq> None" and "p < length (lb_store st)"
  shows "\<forall>i \<in> set (g_players g).
    ToClient (cl_ccid (client_at st p)) (S_G13_HandOfMine (pi_cards i)) \<in> set (lb_out (clientOnlineExec g p st))"
proof
  fix i
  assume i: "i \<in> set (g_players g)"
  let ?s1 = "syncAll g (sendToMe p (S_G13_RoomAttr (g_ownerCuid g) (g_attr g)) st)"
  let ?s2 = "fold (\<lambda>i. sendToMe p (S_G13_HandOfMine (pi_cards i))) (g_players g) ?s1"
  have calm: "calm st ?s1" by (intro calm_intros)
  have ccid: "cl_ccid (client_at ?s1 p) = cl_ccid (client_at st p)"
    using calm_key [OF calm assms(4)] by (simp add: client_key_def)
  have "ToClient (cl_ccid (client_at st p)) (S_G13_HandOfMine (pi_cards i)) \<in> set (lb_out ?s2)"
    using i ccid by (simp add: fold_send_out)
  then show "ToClient (cl_ccid (client_at st p)) (S_G13_HandOfMine (pi_cards i)) \<in> set (lb_out (clientOnlineExec g p st))"
    using assms(1-3) by (auto simp: clientOnlineExec_def Let_def afterEnterRoom_def) (simp add: sendToMe_def)
qed

theorem rejoin_reveals_all_hands_witness:
  "ToClient 12 (S_G13_HandOfMine (replicate 13 0)) \<in> set (lb_out (clientOnlineExec voting_game 1
     (upd_client 1 (\<lambda>c. c\<lparr>cl_roomId := 100001\<rparr>) two_clients)))"
proof -
  let ?st = "upd_client 1 (\<lambda>c. c\<lparr>cl_roomId := 100001\<rparr>) two_clients"
  have c: "client_at ?st 1 = Client\<lparr>cl_cuid := 2, cl_ccid := 12, cl_roomId := 100001\<rparr>" "1 < length (lb_store ?st)"
    by (simp_all add: two_clients_def upd_client_def client_at_def)
  have "\<forall>i \<in> set (g_players voting_game). ToClient (cl_ccid (client_at ?st 1)) (S_G13_HandOfMine (pi_cards i))
      \<in> set (lb_out (clientOnlineExec voting_game 1 ?st))"
    by (rule rejoin_reveals_all_hands)
      (simp_all add: c voting_game_def two_seats_game_def Game_def getPlayerInfoByCuid_def Client_def PlayerInfo_def
        del: One_nat_def)
  then show ?thesis by (simp add: c voting_game_def PlayerInfo_def del: One_nat_def)
qed

end
