(* ===== verification/LobbyLife.thy ===== *)
theory LobbyLife
  imports LobbyTheorems
begin

text \<open>
  More properties of the lobby: the timer tick over all rooms, the final count of a game,
  and the login handler.
\<close>

section \<open>The timer tick\<close>

lemma timer_loop_other:
  "timer_loop f rids st = Inr st' \<Longrightarrow> \<forall>rid. shuffles (f rid) \<Longrightarrow> deck_ok st \<Longrightarrow> x \<notin> set rids \<Longrightarrow>
    lb_rooms st' x = lb_rooms st x"
proof (induction rids arbitrary: st)
  case (Cons rid rids)
  show ?case
  proof (cases "lb_rooms st rid")
    case None
    then show ?thesis using Cons by simp
  next
    case (Some g)
    show ?thesis
    proof (cases "g_id g = 0")
      case True
      then have "st' = st\<lparr>lb_rooms := (lb_rooms st)(rid := None)\<rparr>" using Cons.prems(1) Some by simp
      then show ?thesis using Cons.prems(4) by simp
    next
      case False
      then obtain g2 st2 where run: "timerExec (f rid) g st = Inr (g2, st2)"
        and rest: "timer_loop f rids (put_room rid (g2, st2)) = Inr st'"
        using Cons.prems(1) Some by auto
      have calm: "calm st st2" using calm_timerExec [OF run calm_refl] Cons.prems(2,3) by simp
      have "deck_ok (put_room rid (g2, st2))" using calm_deck_ok [OF calm Cons.prems(3)] by (simp add: deck_ok_def)
      then have "lb_rooms st' x = lb_rooms (put_room rid (g2, st2)) x"
        using Cons.IH [OF rest Cons.prems(2)] Cons.prems(4) by simp
      then show ?thesis using Cons.prems(4) calm_rooms [OF calm] by simp
    qed
  qed
qed simp

text \<open>The rooms before the first destroyed one are served, and the loop goes on after them.\<close>

lemma timer_loop_append:
  "timer_loop f (pre @ rids) st = Inr st' \<Longrightarrow> \<forall>rid. shuffles (f rid) \<Longrightarrow> deck_ok st \<Longrightarrow> distinct pre \<Longrightarrow>
    \<forall>x \<in> set pre. \<forall>g. lb_rooms st x = Some g \<longrightarrow> g_id g \<noteq> 0 \<Longrightarrow>
    \<exists>st1. timer_loop f rids st1 = Inr st' \<and> (\<forall>x. x \<notin> set pre \<longrightarrow> lb_rooms st1 x = lb_rooms st x)
      \<and> lb_timerTime st1 = lb_timerTime st \<and> deck_ok st1"
proof (induction pre arbitrary: st)
  case Nil
  then show ?case by auto
next
  case (Cons rid pre)
  show ?case
  proof (cases "lb_rooms st rid")
    case None
    then obtain st1 where "timer_loop f rids st1 = Inr st'" "\<forall>x. x \<notin> set pre \<longrightarrow> lb_rooms st1 x = lb_rooms st x"
      "lb_timerTime st1 = lb_timerTime st" "deck_ok st1"
      using Cons.IH [of st] Cons.prems by auto
    then show ?thesis by (intro exI [of _ st1]) simp
  next
    case (Some g)
    then have "g_id g \<noteq> 0" using Cons.prems(5) by simp
    then obtain g2 st2 where run: "timerExec (f rid) g st = Inr (g2, st2)"
      and rest: "timer_loop f (pre @ rids) (put_room rid (g2, st2)) = Inr st'"
      using Cons.prems(1) Some by auto
    have calm: "calm st st2" using calm_timerExec [OF run calm_refl] Cons.prems(2,3) by simp
    have deck: "deck_ok (put_room rid (g2, st2))" using calm_deck_ok [OF calm Cons.prems(3)] by (simp add: deck_ok_def)
    have pre: "\<forall>x \<in> set pre. \<forall>g. lb_rooms (put_room rid (g2, st2)) x = Some g \<longrightarrow> g_id g \<noteq> 0"
      using Cons.prems(4,5) calm_rooms [OF calm] by auto
    have time: "lb_timerTime (put_room rid (g2, st2)) = lb_timerTime st"
      using calm_time [OF calm] by (simp add: put_room_def)
    have rooms: "x \<noteq> rid \<Longrightarrow> lb_rooms (put_room rid (g2, st2)) x = lb_rooms st x" for x
      using calm_rooms [OF calm] by simp
    obtain st1 where "timer_loop f rids st1 = Inr st'"
      "\<forall>x. x \<notin> set pre \<longrightarrow> lb_rooms st1 x = lb_rooms (put_room rid (g2, st2)) x"
      "lb_timerTime st1 = lb_timerTime st" "deck_ok st1"
      using Cons.IH [OF rest Cons.prems(2) deck _ pre] Cons.prems(4) time by auto
    then show ?thesis using rooms by (intro exI [of _ st1]) auto
  qed
qed

text \<open>a tick erases at most the first destroyed room it meets and stops there: the rooms that
  come after it in the traversal are not served, so their votes and waits do not expire
  and their games do not start in that tick.\<close>

theorem tick_stops_at_destroyed_room:
  assumes "reachable st" and "\<forall>rid. shuffles (f rid)" and "distinct (pre @ rid # post)"
    and "timerExecAll f (pre @ rid # post) now st = Inr st'"
    and "lb_rooms st rid = Some g" and "g_id g = 0"
    and "\<forall>x \<in> set pre. \<forall>h. lb_rooms st x = Some h \<longrightarrow> g_id h \<noteq> 0"
  shows "lb_rooms st' rid = None \<and> (\<forall>x \<in> set post. lb_rooms st' x = lb_rooms st x)"
proof -
  let ?st = "st\<lparr>lb_timerTime := now\<rparr>"
  note sh = assms(2) and d = assms(3)
  have deck: "deck_ok ?st" using rooms_ok_deck [OF reachable_rooms_ok [OF assms(1)]] by (simp add: deck_ok_def)
  obtain st1 where st1: "timer_loop f (rid # post) st1 = Inr st'"
    "\<forall>x. x \<notin> set pre \<longrightarrow> lb_rooms st1 x = lb_rooms ?st x"
    using timer_loop_append [of f pre "rid # post" ?st st'] assms(4,7) sh deck d
    by (auto simp: timerExecAll_def)
  then have "lb_rooms st1 rid = Some g" using d assms(5) by simp
  then have "st' = st1\<lparr>lb_rooms := (lb_rooms st1)(rid := None)\<rparr>" using st1(1) assms(6) by simp
  then show ?thesis using st1(2) d by auto
qed

definition dying_room :: lobby where
  "dying_room = proto_GiveUp 11 one_room"

theorem tick_stops_at_destroyed_room_witness:
  "\<exists>st'. timerExecAll (\<lambda>_. id) [100001] 5 dying_room = Inr st' \<and> lb_rooms st' 100001 = None"
proof -
  have r: "reachable dying_room"
    unfolding dying_room_def by (rule reachable_exec [OF one_room_reachable, of "EvGiveUp 11"]) simp_all
  have "map_option g_id (lb_rooms dying_room 100001) = Some 0" by code_simp
  then obtain g where g: "lb_rooms dying_room 100001 = Some g" "g_id g = 0" by auto
  then obtain st' where t: "timerExecAll (\<lambda>_. id) [100001] 5 dying_room = Inr st'"
    by (simp add: timerExecAll_def)
  have "lb_rooms st' 100001 = None"
    using tick_stops_at_destroyed_room [OF r, of "\<lambda>_. id" "[]" 100001 "[]" 5 st' g] t g
    by (simp add: shuffles_def)
  with t show ?thesis by blast
qed

text \<open>C28: a dissolution vote that nobody settles ends by itself: at the first tick three hundred
  seconds or more after it began (in which no destroyed room comes first) the room is
  closed and empty; so is a finished game's room after two minutes.\<close>

theorem timeouts_close_rooms:
  assumes "reachable st" and "\<forall>rid. shuffles (f rid)" and "distinct (pre @ rid # post)"
    and "timerExecAll f (pre @ rid # post) now st = Inr st'"
    and "lb_rooms st rid = Some g" and "g_id g \<noteq> 0"
    and "\<forall>x \<in> set pre. \<forall>h. lb_rooms st x = Some h \<longrightarrow> g_id h \<noteq> 0"
    and "g_status g = vote \<and> now - g_startVoteTime g \<ge> 300 \<or> g_status g = settleAll \<and> now - g_settleAllTime g \<ge> 120"
  shows "\<exists>g'. lb_rooms st' rid = Some g' \<and> g_status g' = closed \<and> g_players g' = [] \<and> g_id g' = 0"
proof -
  let ?st = "st\<lparr>lb_timerTime := now\<rparr>"
  note sh = assms(2) and d = assms(3)
  have deck: "deck_ok ?st" using rooms_ok_deck [OF reachable_rooms_ok [OF assms(1)]] by (simp add: deck_ok_def)
  obtain st1 where st1: "timer_loop f (rid # post) st1 = Inr st'"
    "\<forall>x. x \<notin> set pre \<longrightarrow> lb_rooms st1 x = lb_rooms ?st x" "lb_timerTime st1 = now" "deck_ok st1"
    using timer_loop_append [of f pre "rid # post" ?st st'] assms(4,7) sh deck d
    by (auto simp: timerExecAll_def)
  have g: "lb_rooms st1 rid = Some g" using st1(2) d assms(5) by simp
  obtain g2 st2 where run: "timerExec (f rid) g st1 = Inr (g2, st2)"
    and rest: "timer_loop f post (put_room rid (g2, st2)) = Inr st'"
    using st1(1) g assms(6) by auto
  have g2: "g_status g2 = closed" "g_players g2 = []" "g_id g2 = 0"
    using run assms(8) st1(3)
    by (auto simp: timerExec_def MAX_VOTE_DURATION_def abortGame_def destroyLater_def)
  have calm: "calm st1 st2" using calm_timerExec [OF run calm_refl] sh st1(4) by simp
  have "deck_ok (put_room rid (g2, st2))" using calm_deck_ok [OF calm st1(4)] by (simp add: deck_ok_def)
  then have "lb_rooms st' rid = lb_rooms (put_room rid (g2, st2)) rid"
    using timer_loop_other [OF rest sh] d by simp
  then show ?thesis using g2 by simp
qed

definition vote_events :: "event list" where
  "vote_events = [EvLogin 257 11 ''abc'' ''Ann'', EvLogin 257 12 ''xyz'' ''Bob'',
     EvCreate \<lparr>cm_player_size = 2, cm_play_type = 52, cm_rounds = 8, cm_payor = PAY_SHARE_EQU,
       cm_da_qiang = 3, cm_quan_lei_da = True, cm_yi_tiao_long = 1\<rparr> 11, EvJoin 100001 12,
     EvReady id True 11, EvReady id True 12, EvGiveUp 11]"

theorem timeouts_close_rooms_witness:
  "\<exists>st st' g'. run vote_events lobby_init = Inr st \<and> timerExecAll (\<lambda>_. id) [100001] 301 st = Inr st'
    \<and> lb_rooms st' 100001 = Some g' \<and> g_status g' = closed"
proof -
  have v: "map_sum id (\<lambda>st. map_option (\<lambda>g. (g_status g, g_startVoteTime g, g_id g)) (lb_rooms st 100001))
      (run vote_events lobby_init) = Inr (Some (vote, 0, 100001))"
    unfolding vote_events_def by code_simp
  then obtain st where st: "run vote_events lobby_init = Inr st"
    and m: "Some (vote, 0, 100001) = map_option (\<lambda>g. (g_status g, g_startVoteTime g, g_id g)) (lb_rooms st 100001)"
    by (auto simp del: map_option_eq_Some)
  obtain g where g: "lb_rooms st 100001 = Some g" "g_status g = vote" "g_startVoteTime g = 0" "g_id g \<noteq> 0"
    using m [symmetric] by auto
  have r: "reachable st"
    by (rule reachable_run [OF st start]) (simp add: vote_events_def shuffles_def in_i32_def)
  obtain st' where t: "timerExecAll (\<lambda>_. id) [100001] 301 st = Inr st'"
    using g by (simp add: timerExecAll_def timerExec_def MAX_VOTE_DURATION_def)
  obtain g' where "lb_rooms st' 100001 = Some g'" "g_status g' = closed"
    using timeouts_close_rooms [OF r, of "\<lambda>_. id" "[]" 100001 "[]" 301 st' g] t g
    by (auto simp: shuffles_def)
  with st t show ?thesis by blast
qed

section \<open>The final count\<close>

lemma count_round_spec:
  "k + length pds \<le> length counts \<Longrightarrow>
    \<exists>counts'. count_round pds k counts = Inr counts' \<and> length counts' = length counts
      \<and> (\<forall>i < length counts. counts' ! i =
          (if k \<le> i \<and> i < k + length pds then add_count (pds ! (i - k)) (counts ! i) else counts ! i))"
proof (induction pds arbitrary: k counts)
  case (Cons pd pds)
  let ?c = "counts[k := add_count pd (counts ! k)]"
  have k: "k < length counts" using Cons.prems by simp
  obtain counts' where c: "count_round pds (k + 1) ?c = Inr counts'" "length counts' = length ?c"
    "\<forall>i < length ?c. counts' ! i =
      (if k + 1 \<le> i \<and> i < k + 1 + length pds then add_count (pds ! (i - (k + 1))) (?c ! i) else ?c ! i)"
    using Cons.IH [of "k + 1" ?c] Cons.prems by auto
  have "counts' ! i = (if k \<le> i \<and> i < k + length (pd # pds)
      then add_count ((pd # pds) ! (i - k)) (counts ! i) else counts ! i)" if "i < length counts" for i
  proof (cases "k < i")
    case True
    then have "i - k = Suc (i - (k + 1))" by simp
    then show ?thesis using c(3) that True by simp
  next
    case False
    then show ?thesis using c(3) that k by (cases "i = k") auto
  qed
  then show ?case using c k by (auto simp: vec_at_def)
qed auto

definition swept :: "playerData \<Rightarrow> bool" where
  "swept pd \<longleftrightarrow> (\<exists>(k, price, gun) \<in> set (pd_losers pd). gun \<noteq> 0)"

lemma to_i32_sum: "to_i32 (to_i32 x + y) = to_i32 (x + y)"
  using to_i32_diff [of x "- y"] by simp

text \<open>The count of one seat over some rounds, from a running count.\<close>

lemma count_rounds_spec:
  "\<forall>r \<in> set rounds. length r = length counts \<Longrightarrow> \<forall>c \<in> set counts. in_i32 (fc_rank c) \<Longrightarrow>
    \<exists>counts'. count_rounds rounds counts = Inr counts' \<and> length counts' = length counts
      \<and> (\<forall>i < length counts.
          fc_rank (counts' ! i) = to_i32 (fc_rank (counts ! i) + sum_list (map (\<lambda>r. pd_prize (r ! i)) rounds))
        \<and> fc_win (counts' ! i) = fc_win (counts ! i) + sum_list (map (\<lambda>r. length (pd_losers (r ! i))) rounds)
        \<and> fc_daqiang (counts' ! i) = fc_daqiang (counts ! i) + length (filter (\<lambda>r. swept (r ! i)) rounds))"
proof (induction rounds arbitrary: counts)
  case Nil
  then show ?case by simp
next
  case (Cons r rounds)
  obtain c1 where c1: "count_round r 0 counts = Inr c1" "length c1 = length counts"
    "\<forall>i < length counts. c1 ! i = add_count (r ! i) (counts ! i)"
    using count_round_spec [of 0 r counts] Cons.prems(1) by auto
  have "\<forall>c \<in> set c1. in_i32 (fc_rank c)"
    using c1 by (auto simp: in_set_conv_nth add_count_def)
  then obtain c2 where c2: "count_rounds rounds c1 = Inr c2" "length c2 = length c1"
    "\<forall>i < length c1.
          fc_rank (c2 ! i) = to_i32 (fc_rank (c1 ! i) + sum_list (map (\<lambda>r. pd_prize (r ! i)) rounds))
        \<and> fc_win (c2 ! i) = fc_win (c1 ! i) + sum_list (map (\<lambda>r. length (pd_losers (r ! i))) rounds)
        \<and> fc_daqiang (c2 ! i) = fc_daqiang (c1 ! i) + length (filter (\<lambda>r. swept (r ! i)) rounds)"
    using Cons.IH [of c1] Cons.prems(1) c1(2) by auto
  have "to_i32 (y + to_i32 x) = to_i32 (y + x)" for x y using to_i32_sum [of x y] by (simp add: add.commute)
  with c1 c2 show ?case by (simp add: add_count_def swept_def to_i32_sum ac_simps)
qed

text \<open>the final count of a game: with one score per seat in every round it never fails, a
  seat's total is the sum of its rounds' scores, its wins are its entries in the rounds'
  maps of losers, and its sweeps are the rounds in which it swept somebody (a round in which it
  swept two seats counts once, because the round's sum is held in a \<open>bool\<close>).\<close>

theorem final_count:
  assumes "\<forall>r \<in> set rounds. length r = n"
  shows "\<exists>counts. count_rounds rounds (replicate n FinalCount) = Inr counts \<and> length counts = n
    \<and> (\<forall>i < n. fc_rank (counts ! i) = to_i32 (sum_list (map (\<lambda>r. pd_prize (r ! i)) rounds))
        \<and> fc_win (counts ! i) = sum_list (map (\<lambda>r. length (pd_losers (r ! i))) rounds)
        \<and> fc_daqiang (counts ! i) = length (filter (\<lambda>r. swept (r ! i)) rounds))"
  using count_rounds_spec [of rounds "replicate n FinalCount"] assms
  by (auto simp: FinalCount_def in_i32_def)

definition sample_score :: "int \<Rightarrow> (nat \<times> int \<times> int) list \<Rightarrow> playerData" where
  "sample_score prize losers = \<lparr>pd_cuid = 1, pd_name = [], pd_cards = [], pd_dun = [], pd_spec = g13_none,
     pd_prize = prize, pd_losers = losers, pd_quanLeiDa = False\<rparr>"

theorem final_count_witness:
  "\<exists>counts. count_rounds [[sample_score 12 [(1, 3, 1), (2, 3, 1)], sample_score (-6) [], sample_score (-6) []]]
      (replicate 3 FinalCount) = Inr counts \<and> fc_daqiang (counts ! 0) = 1 \<and> fc_rank (counts ! 0) = 12"
proof -
  let ?r = "[sample_score 12 [(1, 3, 1), (2, 3, 1)], sample_score (-6) [], sample_score (-6) []]"
  obtain counts where c: "count_rounds [?r] (replicate 3 FinalCount) = Inr counts"
    "\<forall>i < 3. fc_rank (counts ! i) = to_i32 (sum_list (map (\<lambda>r. pd_prize (r ! i)) [?r]))
        \<and> fc_win (counts ! i) = sum_list (map (\<lambda>r. length (pd_losers (r ! i))) [?r])
        \<and> fc_daqiang (counts ! i) = length (filter (\<lambda>r. swept (r ! i)) [?r])"
    using final_count [of "[?r]" 3] by auto
  have "fc_daqiang (counts ! 0) = 1" "fc_rank (counts ! 0) = 12"
    using c(2) by (simp_all add: swept_def sample_score_def in_i32_def)
  with c(1) show ?thesis by blast
qed

section \<open>Logging in\<close>

text \<open>C26: in every reachable state every entry of the three indices leads to a client object
  that carries the key it was found under.\<close>

theorem indices_sound:
  assumes "reachable st"
  shows "(getByOpenid st k = Some p \<longrightarrow> p < length (lb_store st) \<and> cl_openid (client_at st p) = k)
    \<and> (getByCuid st u = Some p \<longrightarrow> p < length (lb_store st) \<and> cl_cuid (client_at st p) = u)
    \<and> (getByCcid st c = Some p \<longrightarrow> p < length (lb_store st) \<and> cl_ccid (client_at st p) = c)"
  using entries_okD(2-4) [OF reachable_entries_ok [OF assms]] by blast

theorem indices_sound_witness: "getByCuid one_room 1 = Some 0 \<and> cl_cuid (client_at one_room 0) = 1"
proof -
  have "getByCuid one_room 1 = Some 0" by code_simp
  with indices_sound [OF one_room_reachable] show ?thesis by blast
qed

lemma login_new_simps:
  "getByOpenid (login_new ccid openid name st) = getByOpenid st"
  "getByCuid (login_new ccid openid name st) = getByCuid st"
  "getByCcid (login_new ccid openid name st) = getByCcid st"
  "lb_out (login_new ccid openid name st) = lb_out st"
  "client_at (login_new ccid openid name st) (length (lb_store st)) =
     Client\<lparr>cl_ccid := ccid, cl_cuid := ucast (lb_uniqueIdCounter st + 1), cl_openid := openid, cl_name := name\<rparr>"
  by (simp_all add: login_new_def new_client_def getClientUniqueId_def Let_def client_at_def
      getByOpenid_def getByCuid_def getByCcid_def fun_eq_iff)

lemma login_ok_home:
  assumes "cl_roomId (client_at st p) = 0"
  shows "login_ok pid ccid p st = sendToGateway pid
    (RetLoginQuest ccid RLQ_SUCCES (cl_cuid (client_at st p)) (Some (cl_openid (client_at st p)))) st"
  using assms by (simp add: login_ok_def clientOnline_def Let_def sendToGateway_def client_at_def)

lemma gateway_gets [simp]:
  "getByOpenid (sendToGateway pid m st) = getByOpenid st" "getByCuid (sendToGateway pid m st) = getByCuid st"
  "getByCcid (sendToGateway pid m st) = getByCcid st" "client_at (sendToGateway pid m st) = client_at st"
  "lb_out (sendToGateway pid m st) = lb_out st @ [ToGateway pid m]"
  by (simp_all add: sendToGateway_def getByOpenid_def getByCuid_def getByCcid_def client_at_def fun_eq_iff)

lemma out_insert: "lb_out (fst (insert_client p st)) = lb_out st"
  by (simp add: insert_client_def Let_def split: prod.split)

lemma maps_ok_login_new: "entries_ok st \<Longrightarrow> maps_ok (login_new ccid openid name st)"
  by (simp add: entries_ok_def maps_ok_def login_new_def new_client_def getClientUniqueId_def Let_def)

text \<open>the first login of a user: with a connection and a number nobody has, a new client is
  found under its three keys and no other key changes, and the gateway is told of success
  with the new number. With a connection that another client still holds, the login is refused, and the
  other client's connection is struck from the index with it, though that client keeps its
  other two keys: it can no longer be heard.\<close>

theorem first_login:
  assumes "reachable st" and "getByOpenid st openid = None"
    and "cuid = ucast (lb_uniqueIdCounter st + 1)" and "getByCuid st cuid = None"
  shows "let st' = proto_LoginQuest pid ccid openid name st; p = length (lb_store st)
    in if getByCcid st ccid = None
       then getByOpenid st' = (getByOpenid st)(openid \<mapsto> p) \<and> getByCuid st' = (getByCuid st)(cuid \<mapsto> p)
         \<and> getByCcid st' = (getByCcid st)(ccid \<mapsto> p)
         \<and> lb_out st' = lb_out st @ [ToGateway pid (RetLoginQuest ccid RLQ_SUCCES cuid (Some openid))]
       else getByOpenid st' = getByOpenid st \<and> getByCuid st' = getByCuid st
         \<and> getByCcid st' = (getByCcid st)(ccid := None)
         \<and> lb_out st' = lb_out st @ [ToGateway pid (RetLoginQuest ccid RLQ_REG_FAILED cuid None)]"
proof -
  let ?p = "length (lb_store st)"
  let ?s = "login_new ccid openid name st"
  have ok: "maps_ok ?s" by (rule maps_ok_login_new [OF reachable_entries_ok [OF assms(1)]])
  obtain s' b where ins: "insert_client ?p ?s = (s', b)" by (meson surj_pair)
  note spec = insert_client_spec [OF ok ins, unfolded login_new_simps]
  have out: "lb_out s' = lb_out st" using out_insert [of ?p ?s] ins by (simp add: login_new_simps)
  have at: "client_at s' ?p = Client\<lparr>cl_ccid := ccid, cl_cuid := cuid, cl_openid := openid, cl_name := name\<rparr>"
    using spec(3) login_new_simps(5) [of ccid openid name st] by (simp add: client_at_def assms(3))
  have b: "b \<longleftrightarrow> getByCcid st ccid = None"
    using spec(1) assms(2-4) by (simp add: no_key_def login_new_simps)
  show ?thesis
  proof (cases b)
    case True
    then have "proto_LoginQuest pid ccid openid name st =
        sendToGateway pid (RetLoginQuest ccid RLQ_SUCCES cuid (Some openid)) s'"
      using login_ok_home [of s' ?p pid ccid] at by (simp add: login_new_eq [OF assms(2)] Let_def ins Client_def)
    then show ?thesis using True b spec(4-6) out assms(3) by (simp add: Let_def)
  next
    case False
    have e: "lb_out (erase_client ?p s') = lb_out st" "client_at (erase_client ?p s') ?p = client_at s' ?p"
      using out by (simp_all add: erase_client_def Let_def client_at_def)
    have "proto_LoginQuest pid ccid openid name st = reg_failed pid ccid ?p (erase_client ?p s')"
      using False by (simp add: login_new_eq [OF assms(2)] Let_def ins)
    moreover have "getByOpenid s' = getByOpenid st" "getByCuid s' = getByCuid st" "getByCcid s' = getByCcid st"
      using spec(4-6) False by simp_all
    moreover have "getByCcid st ccid \<noteq> None" using False b by simp
    ultimately show ?thesis
      using erase_client_spec [OF spec(2), of ?p] at e assms(2,4)
      by (simp add: Let_def reg_failed_def fun_upd_idem)
  qed
qed

theorem first_login_witness:
  "getByCcid (proto_LoginQuest 257 11 ''xyz'' ''Bob'' one_room) 11 = None"
proof -
  have k: "getByOpenid one_room ''xyz'' = None" "getByCuid one_room (ucast (lb_uniqueIdCounter one_room + 1)) = None"
    "getByCcid one_room 11 = Some 0" by code_simp+
  from first_login [OF one_room_reachable k(1) refl k(2), of 257 11 "''Bob''"] k(3)
  show ?thesis by (simp add: Let_def)
qed

end
