(* ===== verification/Wire.thy ===== *)
theory Wire
  imports Prelude
begin

text \<open>
  What goes over the private network: process identities (\<^verbatim>\<open>base/process_id.h\<close>,
  \<^verbatim>\<open>base/process_id.cpp\<close>), message codes and message headers
  (\<^verbatim>\<open>base/tcp_message.h\<close>). A header is written with placement \<open>new\<close> and read with
  \<open>reinterpret_cast\<close> under \<open>#pragma pack(1)\<close>: its fields lie in the buffer without gaps,
  each in the byte order of the machine, which is little endian here.
\<close>

unbundle bit_operations_syntax

section \<open>Integers in memory\<close>

type_synonym bytes = "u8 list"

definition le32 :: "u32 \<Rightarrow> bytes" where
  "le32 w = [ucast w, ucast (drop_bit 8 w), ucast (drop_bit 16 w), ucast (drop_bit 24 w)]"

definition le64 :: "u64 \<Rightarrow> bytes" where
  "le64 w = le32 (ucast w) @ le32 (ucast (drop_bit 32 w))"

text \<open>A read past the end of the buffer is undefined in C++ and a fault here.\<close>

fun read32 :: "bytes \<Rightarrow> u32 outcome" where
  "read32 (a # b # c # d # r) =
     Inr (ucast a OR push_bit 8 (ucast b) OR push_bit 16 (ucast c) OR push_bit 24 (ucast d))"
| "read32 _ = Inl OutOfBounds"

definition read64 :: "bytes \<Rightarrow> u64 outcome" where
  "read64 b = obind (read32 b) (\<lambda>lo. obind (read32 (drop 4 b)) (\<lambda>hi.
     Inr (ucast lo OR push_bit 32 (ucast hi))))"

lemma no_bit8 [simp]: "8 \<le> n \<Longrightarrow> \<not> bit (b :: u8) n"
  using bit_imp_le_length [of b n] by auto

lemma length_le32 [simp]: "length (le32 w) = 4"
  by (simp add: le32_def)

lemma length_le64 [simp]: "length (le64 w) = 8"
  by (simp add: le64_def)

lemma read32_le32 [simp]: "read32 (le32 w @ r) = Inr w"
proof -
  have "(ucast (ucast w :: u8) :: u32) OR push_bit 8 (ucast (ucast (drop_bit 8 w) :: u8))
    OR push_bit 16 (ucast (ucast (drop_bit 16 w) :: u8)) OR push_bit 24 (ucast (ucast (drop_bit 24 w) :: u8)) = w"
    proof (rule bit_word_eqI)
    fix n
    show "bit ((ucast (ucast w :: u8) :: u32) OR push_bit 8 (ucast (ucast (drop_bit 8 w) :: u8))
      OR push_bit 16 (ucast (ucast (drop_bit 16 w) :: u8)) OR push_bit 24 (ucast (ucast (drop_bit 24 w) :: u8))) n
      \<longleftrightarrow> bit w n" if "n < LENGTH(32)"
      using that by (cases "n < 8"; cases "n < 16"; cases "n < 24") (auto simp: bit_simps)
  qed
  then show ?thesis by (simp add: le32_def)
qed

lemma drop_le32 [simp]: "drop 4 (le32 w @ r) = r"
  by (simp add: le32_def)

lemma read64_le64 [simp]: "read64 (le64 w @ r) = Inr w"
proof -
  have "ucast (ucast w :: u32) OR push_bit 32 (ucast (ucast (drop_bit 32 w) :: u32)) = w"
    by (rule bit_word_eqI) (auto simp: bit_simps)
  then show ?thesis by (simp add: read64_def le64_def)
qed

lemma read32_Inr_iff: "(\<exists>w. read32 b = Inr w) \<longleftrightarrow> 4 \<le> length b"
  by (cases b rule: read32.cases) auto

lemma read32_short: "length b < 4 \<Longrightarrow> read32 b = Inl OutOfBounds"
  by (cases b rule: read32.cases) auto

lemma le32_read32: "read32 b = Inr w \<Longrightarrow> b = le32 w @ drop 4 b"
proof (cases b rule: read32.cases)
  case (1 b0 b1 b2 b3 r)
  moreover assume "read32 b = Inr w"
  ultimately have "w = ucast b0 OR push_bit 8 (ucast b1) OR push_bit 16 (ucast b2) OR push_bit 24 (ucast b3)"
    by simp
  then have "le32 w = [b0, b1, b2, b3]"
    by (auto simp: le32_def intro!: bit_word_eqI simp: bit_simps dest: bit_imp_le_length)
  with 1 show ?thesis by simp
qed simp_all

section \<open>Process identities\<close>

record processId =
  pid_type :: u32
  pid_num :: u32

text \<open>
  The registry of process types is filled from the configuration: the name of type \<open>t\<close> is
  the \<open>t\<close>-th, the first one is ``none''. A later entry of the same name wins in the
  other direction.
\<close>

type_synonym typeNames = "string list"

fun addTypes :: "string list \<Rightarrow> typeNames \<times> (string \<rightharpoonup> u32) \<Rightarrow> typeNames \<times> (string \<rightharpoonup> u32)" where
  "addTypes [] reg = reg"
| "addTypes (n # ns) (t2n, n2t) =
     addTypes ns (t2n @ [n], n2t(n \<mapsto> of_nat (length (t2n @ [n]) - 1)))"

definition noTypes :: "typeNames \<times> (string \<rightharpoonup> u32)" where
  "noTypes = ([''none''], Map.empty)"

definition typeToString :: "typeNames \<Rightarrow> u32 \<Rightarrow> string" where
  "typeToString names t = (if length names \<le> unat t then ''none'' else names ! unat t)"

definition stringToType :: "(string \<rightharpoonup> u32) \<Rightarrow> string \<Rightarrow> u32" where
  "stringToType n2t s = (case n2t s of None \<Rightarrow> 0 | Some t \<Rightarrow> t)"

text \<open>The constructor takes the number as an \<open>int8_t\<close>, widened with its sign.\<close>

definition ProcessId_name :: "(string \<rightharpoonup> u32) \<Rightarrow> string \<Rightarrow> u8 \<Rightarrow> processId" where
  "ProcessId_name n2t s n =
     (let t = stringToType n2t s
      in if t = 0 then \<lparr>pid_type = 0, pid_num = 0\<rparr> else \<lparr>pid_type = t, pid_num = scast n\<rparr>)"

definition pid_setValue :: "u32 \<Rightarrow> processId" where
  "pid_setValue v = \<lparr>pid_type = drop_bit 8 (v AND 0xff00), pid_num = v AND 0xff\<rparr>"

definition pid_value :: "processId \<Rightarrow> u32" where
  "pid_value p = push_bit 16 0 OR push_bit 8 (pid_type p) OR pid_num p"

definition pid_clear :: "processId \<Rightarrow> processId" where
  "pid_clear p = p\<lparr>pid_type := 0, pid_num := 0\<rparr>"

definition pid_isValid :: "typeNames \<Rightarrow> processId \<Rightarrow> bool" where
  "pid_isValid names p \<longleftrightarrow> typeToString names (pid_type p) \<noteq> ''none'' \<and> pid_num p \<noteq> 0"

definition pid_eq :: "processId \<Rightarrow> processId \<Rightarrow> bool" where
  "pid_eq p q \<longleftrightarrow> pid_value p = pid_value q"

definition pid_less :: "processId \<Rightarrow> processId \<Rightarrow> bool" where
  "pid_less p q \<longleftrightarrow> pid_value p < pid_value q"

lemma value_setValue_bits: "pid_value (pid_setValue v) = v AND 0xffff"
proof -
  have m: "(0xff :: u32) = mask 8" "(0xffff :: u32) = mask 16" "(0xff00 :: u32) = push_bit 8 (mask 8)"
    by (simp_all add: mask_eq_exp_minus_1)
  show ?thesis
    unfolding pid_value_def pid_setValue_def m by (rule bit_word_eqI) (auto simp: bit_simps)
qed

text \<open>Both fields of an identity fit into a byte: what the header says is all that is used.\<close>

definition pid_small :: "processId \<Rightarrow> bool" where
  "pid_small p \<longleftrightarrow> pid_type p < 256 \<and> pid_num p < 256"

lemma less256_bit: "(w :: u32) < 256 \<Longrightarrow> bit w n \<Longrightarrow> n < 8"
proof -
  assume "w < 256" and b: "bit w n"
  then have "w AND mask 8 = w" by (intro less_mask_eq) simp
  with b have "bit (w AND mask 8) n" by simp
  then show ?thesis by (simp add: bit_simps)
qed

lemma setValue_value_bits:
  assumes "pid_small p"
  shows "pid_setValue (pid_value p) = p"
proof -
  have m: "(0xff :: u32) = mask 8" "(0xff00 :: u32) = push_bit 8 (mask 8)"
    by (simp_all add: mask_eq_exp_minus_1)
  have t: "bit (pid_type p) n \<Longrightarrow> n < 8" and u: "bit (pid_num p) n \<Longrightarrow> n < 8" for n
    using assms by (auto simp: pid_small_def dest: less256_bit)
  have t': "bit (pid_type p) n \<Longrightarrow> n < 24" for n
    using t [of n] by simp
  have "pid_type (pid_setValue (pid_value p)) = pid_type p"
    unfolding pid_value_def pid_setValue_def m using t t' u
    by (intro bit_word_eqI) (auto simp: bit_simps)
  moreover have "pid_num (pid_setValue (pid_value p)) = pid_num p"
    unfolding pid_value_def pid_setValue_def m using t u
    by (intro bit_word_eqI) (auto simp: bit_simps)
  ultimately show ?thesis by simp
qed

text \<open>
  The number given to the constructor survives only when it is not negative as an
  \<open>int8_t\<close>: the sign bits run into the type.
\<close>

lemma sign_bit8: "(n :: u8) < 128 \<longleftrightarrow> \<not> bit n 7"
proof
  assume "n < 128"
  then have "n AND mask 7 = n" by (intro less_mask_eq) simp
  then have "bit n 7 = bit (n AND mask 7) 7" by simp
  then show "\<not> bit n 7" by (simp add: bit_simps)
next
  assume "\<not> bit n 7"
  then have "n AND mask 7 = n"
    by (intro bit_word_eqI) (auto simp: bit_simps less_Suc_eq numeral_eq_Suc)
  then show "n < 128" using and_mask_less' [of 7 n] by simp
qed

lemma scast_lt128: "(n :: u8) < 128 \<Longrightarrow> (scast n :: u32) < 256"
proof -
  assume "n < 128"
  then have "(scast n :: u32) AND mask 8 = scast n"
    by (intro bit_word_eqI) (auto simp: sign_bit8 bit_simps min_def split: if_splits)
  then show ?thesis using and_mask_less' [of 8 "scast n :: u32"] by simp
qed

lemma name_roundtrip:
  assumes "stringToType n2t s \<noteq> 0" and "stringToType n2t s < 256"
  shows "pid_setValue (pid_value (ProcessId_name n2t s n)) = ProcessId_name n2t s n \<longleftrightarrow> n < 128"
proof
  assume "n < 128"
  then have "(scast n :: u32) < 256" by (rule scast_lt128)
  then show "pid_setValue (pid_value (ProcessId_name n2t s n)) = ProcessId_name n2t s n"
    using assms by (intro setValue_value_bits) (simp add: ProcessId_name_def Let_def pid_small_def)
next
  assume eq: "pid_setValue (pid_value (ProcessId_name n2t s n)) = ProcessId_name n2t s n"
  show "n < 128"
  proof (rule ccontr)
    assume "\<not> n < 128"
    then have "bit (scast n :: u32) 8" by (simp add: sign_bit8 bit_simps)
    moreover have "pid_num (pid_setValue v) < 256" for v
      using and_mask_less' [of 8 v] by (simp add: pid_setValue_def mask_eq_exp_minus_1)
    moreover have "pid_num (ProcessId_name n2t s n) = scast n"
      using assms(1) by (simp add: ProcessId_name_def)
    ultimately have "bit (pid_num (ProcessId_name n2t s n)) 8" "pid_num (ProcessId_name n2t s n) < 256"
      using eq by metis+
    then show False using less256_bit by blast
  qed
qed

section \<open>Message codes\<close>

definition accessType :: u32 where "accessType = 0xc0000000"
definition msgPublic :: u32 where "msgPublic = 0"
definition msgPrivate :: u32 where "msgPrivate = 0x40000000"
definition msgEnvelope :: u32 where "msgEnvelope = 0xc0000000"
definition protocolType :: u32 where "protocolType = 0x30000000"
definition protocolRaw :: u32 where "protocolRaw = 0x10000000"
definition protocolProtobuf :: u32 where "protocolProtobuf = 0"

lemmas code_masks = accessType_def msgPublic_def msgPrivate_def msgEnvelope_def
  protocolType_def protocolRaw_def protocolProtobuf_def

definition minPublicRawMsgCode :: u32 where "minPublicRawMsgCode = protocolRaw OR msgPublic"
definition minPrivateRawMsgCode :: u32 where "minPrivateRawMsgCode = protocolRaw OR msgPrivate"
definition minPublicProtoMsgCode :: u32 where "minPublicProtoMsgCode = protocolProtobuf OR msgPublic"
definition mminPrivateProtoMsgCode :: u32 where "mminPrivateProtoMsgCode = protocolProtobuf OR msgPrivate"

definition isEnvelopeMsgCode :: "u32 \<Rightarrow> bool" where
  "isEnvelopeMsgCode c \<longleftrightarrow> c AND accessType = msgEnvelope"

definition isPrivateMsgCode :: "u32 \<Rightarrow> bool" where
  "isPrivateMsgCode c \<longleftrightarrow> c AND accessType = msgPrivate"

definition isPublicMsgCode :: "u32 \<Rightarrow> bool" where
  "isPublicMsgCode c \<longleftrightarrow> c AND accessType = msgPublic"

definition isRawMsgCode :: "u32 \<Rightarrow> bool" where
  "isRawMsgCode c \<longleftrightarrow> c AND protocolType = protocolRaw"

definition isProtobufMsgCode :: "u32 \<Rightarrow> bool" where
  "isProtobufMsgCode c \<longleftrightarrow> c AND protocolType = protocolProtobuf"

section \<open>Envelopes\<close>

text \<open>
  The header of a message that is relayed. The constructor leaves \<open>sourceId\<close> as the memory
  was, which is an argument here; every caller sets it.
\<close>

record envelope =
  env_code :: u32
  env_targetPid :: u32
  env_sourceId :: u64
  env_msgCode :: u32

definition Envelope :: "u64 \<Rightarrow> u32 \<Rightarrow> envelope" where
  "Envelope junk c = \<lparr>env_code = msgEnvelope OR (c AND protocolType), env_targetPid = 0,
     env_sourceId = junk, env_msgCode = c\<rparr>"

definition envelope_size :: nat where "envelope_size = 20"
definition tcpMsg_size :: nat where "tcpMsg_size = 4"

definition envelope_bytes :: "envelope \<Rightarrow> bytes" where
  "envelope_bytes e = le32 (env_code e) @ le32 (env_targetPid e) @ le64 (env_sourceId e) @ le32 (env_msgCode e)"

definition read_envelope :: "bytes \<Rightarrow> envelope outcome" where
  "read_envelope b =
     obind (read32 b) (\<lambda>c. obind (read32 (drop 4 b)) (\<lambda>t.
     obind (read64 (drop 8 b)) (\<lambda>s. obind (read32 (drop 16 b)) (\<lambda>m.
       Inr \<lparr>env_code = c, env_targetPid = t, env_sourceId = s, env_msgCode = m\<rparr>))))"

text \<open>\<open>Envelope::fill\<close> copies to \<open>TcpMsg::data\<close> of the envelope itself, behind its code.\<close>

definition env_fill :: "bytes \<Rightarrow> bytes \<Rightarrow> bytes outcome" where
  "env_fill mem buf =
     (if buf = [] then Inr mem
      else if length mem < 4 + length buf then Inl OutOfBounds
      else Inr (take 4 mem @ buf @ drop (4 + length buf) mem))"

lemma length_envelope_bytes [simp]: "length (envelope_bytes e) = envelope_size"
  by (simp add: envelope_bytes_def envelope_size_def)

lemma drop_le64 [simp]: "drop 8 (le64 w @ r) = r"
  by (simp add: le64_def le32_def)

lemma read_envelope_bytes [simp]: "read_envelope (envelope_bytes e @ r) = Inr e"
proof -
  let ?b = "envelope_bytes e @ r"
  have d: "?b = le32 (env_code e) @ le32 (env_targetPid e) @ le64 (env_sourceId e) @ le32 (env_msgCode e) @ r"
    by (simp add: envelope_bytes_def)
  have "drop 4 ?b = le32 (env_targetPid e) @ le64 (env_sourceId e) @ le32 (env_msgCode e) @ r"
    unfolding d by simp
  moreover have "drop 8 ?b = le64 (env_sourceId e) @ le32 (env_msgCode e) @ r"
    unfolding d by (simp add: le32_def)
  moreover have "drop 16 ?b = le32 (env_msgCode e) @ r"
    unfolding d by (simp add: le32_def le64_def)
  moreover have "read32 ?b = Inr (env_code e)" unfolding d by simp
  ultimately show ?thesis by (simp add: read_envelope_def)
qed

text \<open>An envelope is known by its code, and keeps the protocol of the message inside.\<close>

lemma Envelope_classes:
  "isEnvelopeMsgCode (env_code (Envelope j c))"
  "isRawMsgCode (env_code (Envelope j c)) \<longleftrightarrow> isRawMsgCode c"
  "isProtobufMsgCode (env_code (Envelope j c)) \<longleftrightarrow> isProtobufMsgCode c"
proof -
  have a: "(0xc0000000 OR (c AND 0x30000000)) AND 0x30000000 = c AND (0x30000000 :: u32)"
    by (simp add: word_ao_dist word_bw_assocs)
  have b: "(0xc0000000 OR (c AND 0x30000000)) AND 0xc0000000 = (0xc0000000 :: u32)"
    by (simp add: word_ao_dist word_bw_assocs)
  show "isEnvelopeMsgCode (env_code (Envelope j c))"
    using b by (simp add: isEnvelopeMsgCode_def Envelope_def code_masks)
  show "isRawMsgCode (env_code (Envelope j c)) \<longleftrightarrow> isRawMsgCode c"
    "isProtobufMsgCode (env_code (Envelope j c)) \<longleftrightarrow> isProtobufMsgCode c"
    using a by (simp_all add: isRawMsgCode_def isProtobufMsgCode_def Envelope_def code_masks)
qed

lemma code_classes_disjoint:
  "\<not> (isEnvelopeMsgCode c \<and> isPrivateMsgCode c)" "\<not> (isEnvelopeMsgCode c \<and> isPublicMsgCode c)"
  "\<not> (isPrivateMsgCode c \<and> isPublicMsgCode c)" "\<not> (isRawMsgCode c \<and> isProtobufMsgCode c)"
  by (auto simp: isEnvelopeMsgCode_def isPrivateMsgCode_def isPublicMsgCode_def isRawMsgCode_def
      isProtobufMsgCode_def code_masks)

end
