(* ===== verification/Packets.thy ===== *)
theory Packets
  imports Wire
begin

text \<open>
  Packets (\<^verbatim>\<open>water/net/packet.cpp\<close>) and the framing of the TCP stream
  (\<^verbatim>\<open>water/net/tcp_packet.cpp\<close>): four bytes of length, then the content. A packet is the
  bytes of its vector. Sizes are \<open>uint32_t\<close>; a sum that is stored in one wraps.
\<close>

section \<open>Packets\<close>

type_synonym packet = bytes

definition packet_new :: "nat \<Rightarrow> packet" where
  "packet_new n = replicate n 0"

definition packet_append :: "packet \<Rightarrow> bytes \<Rightarrow> packet" where
  "packet_append m d = m @ d"

definition packet_pop :: "nat \<Rightarrow> packet \<Rightarrow> packet" where
  "packet_pop n m = (if length m \<le> n then [] else drop n m)"

text \<open>\<open>copy\<close> answers with the bytes it put into the buffer; their number is its result.\<close>

definition packet_copy :: "packet \<Rightarrow> nat \<Rightarrow> bytes" where
  "packet_copy m maxSize = take (if maxSize < length m then maxSize else length m) m"

lemma packet_pop_drop [simp]: "packet_pop n m = drop n m"
  by (simp add: packet_pop_def)

lemma packet_copy_take [simp]: "packet_copy m n = take n m"
  by (simp add: packet_copy_def)

section \<open>Framing\<close>

definition u32_mod :: nat where "u32_mod = 4294967296"

definition header :: "bytes \<Rightarrow> nat" where
  "header b = (case read32 b of Inl _ \<Rightarrow> 0 | Inr w \<Rightarrow> unat w)"

definition tcp_new :: "u32 \<Rightarrow> packet outcome" where
  "tcp_new n =
     (let size = (4 + unat n) mod u32_mod
      in if size < 4 then Inl OutOfBounds else Inr (le32 n @ drop 4 (packet_new size)))"

definition tcp_setContent :: "bytes \<Rightarrow> packet outcome" where
  "tcp_setContent c =
     (let size = (4 + length c) mod u32_mod
      in if size < 4 + length c then Inl OutOfBounds else Inr (le32 (of_nat (length c)) @ c))"

definition tcp_content :: "packet \<Rightarrow> bytes option" where
  "tcp_content m = (if length m < 4 then None else Some (drop 4 m))"

definition tcp_contentSize :: "packet \<Rightarrow> nat" where
  "tcp_contentSize m = (if length m < 4 then 0 else header m)"

definition tcp_complete :: "packet \<Rightarrow> bool" where
  "tcp_complete m \<longleftrightarrow> 4 \<le> length m \<and> tcp_contentSize m + 4 \<le> length m"

definition tcp_parse :: "packet \<Rightarrow> bytes \<Rightarrow> packet \<times> nat" where
  "tcp_parse m buf =
     (if tcp_complete m then (m, 0)
      else if m = [] then
        if length buf < 4 then (m, 0)
        else let readLen = (header buf + 4) mod u32_mod;
                 readLen = (if length buf < readLen then length buf else readLen)
             in (take readLen buf, readLen)
      else if length m < 4 \<and> length buf < 4 - length m then (m, 0)
      else let headerAppendLen = (if length m < 4 then 4 - length m else 0);
               m = packet_append m (take headerAppendLen buf);
               len = length buf - headerAppendLen;
               buf = drop headerAppendLen buf;
               completeSize = (header m + 4) mod u32_mod;
               deficiencySize = nat ((int completeSize - int (length m)) mod int u32_mod);
               appendLen = (if deficiencySize < len then deficiencySize else len)
           in (packet_append m (take appendLen buf), headerAppendLen + appendLen))"

definition tryParse :: "bytes \<Rightarrow> packet option" where
  "tryParse buf = (let m = fst (tcp_parse [] buf) in if tcp_complete m then Some m else None)"

section \<open>What parsing does\<close>

definition frame :: "bytes \<Rightarrow> packet" where
  "frame c = le32 (of_nat (length c)) @ c"

definition framable :: "bytes \<Rightarrow> bool" where
  "framable c \<longleftrightarrow> 4 + length c < u32_mod"

lemma length_frame [simp]: "length (frame c) = 4 + length c"
  by (simp add: frame_def)

lemma frame_not_Nil [simp]: "frame c \<noteq> []"
  by (simp add: frame_def le32_def)

lemma header_le32 [simp]: "header (le32 w @ r) = unat w"
  by (simp add: header_def)

lemma unat_of_nat_framable: "framable c \<Longrightarrow> unat (of_nat (length c) :: u32) = length c"
  by (simp add: framable_def u32_mod_def unat_of_nat take_bit_nat_eq_self)

lemma header_frame [simp]: "framable c \<Longrightarrow> header (frame c @ r) = length c"
  by (simp add: frame_def unat_of_nat_framable)

lemma take_header: "4 \<le> k \<Longrightarrow> header (take k b) = header b"
  by (cases b rule: read32.cases) (auto simp: header_def take_Cons' split: if_splits)

lemma header_take_frame:
  assumes "framable c" and "4 \<le> k"
  shows "header (take k (frame c) @ r) = length c"
proof -
  have "take 4 (take k (frame c) @ r) = take 4 (frame c)" using assms(2) by simp
  then have "header (take k (frame c) @ r) = header (take 4 (frame c))"
    using take_header [of 4 "take k (frame c) @ r"] by simp
  then show ?thesis
    using assms(1) take_header [of 4 "frame c"] header_frame [OF assms(1), of "[]"] by simp
qed

lemma complete_take_frame:
  assumes "framable c"
  shows "tcp_complete (take k (frame c)) \<longleftrightarrow> 4 + length c \<le> k"
proof (cases "4 \<le> k")
  case True
  then show ?thesis
    using header_take_frame [OF assms True, of "[]"] by (auto simp: tcp_complete_def tcp_contentSize_def)
next
  case False
  then show ?thesis by (auto simp: tcp_complete_def)
qed

lemma deficiency:
  "framable c \<Longrightarrow> l \<le> 4 + length c \<Longrightarrow>
    nat ((int ((length c + 4) mod u32_mod) - int l) mod int u32_mod) = length c + 4 - l"
  by (simp add: framable_def u32_mod_def nat_minus_as_int)

lemma take_take_frame:
  assumes "buf @ later = drop k f @ rest" and "j \<le> length buf" and "k + j \<le> length f"
  shows "take k f @ take j buf = take (k + j) f"
proof -
  have "take j buf = take j (buf @ later)" using assms(2) by simp
  also have "\<dots> = take j (drop k f)" using assms(1,3) by simp
  finally show ?thesis by (simp add: take_add)
qed

lemma drop_take_frame:
  assumes "buf @ later = drop k f @ rest" and "j \<le> length buf" and "k + j \<le> length f"
  shows "drop j buf @ later = drop (k + j) f @ rest"
proof -
  have "drop j buf @ later = drop j (buf @ later)" using assms(2) by simp
  also have "\<dots> = drop j (drop k f) @ rest" using assms(1,3) by simp
  finally show ?thesis by (simp add: add.commute)
qed

text \<open>
  A step of the parser on a packet of which \<open>k\<close> bytes have come, with the next bytes of
  the stream in the buffer: it takes all that belongs to the packet, except that it leaves
  an incomplete header where it is.
\<close>

lemma parse_first:
  assumes "framable c" and "buf @ later = frame c @ rest" and "4 \<le> length buf"
  shows "tcp_parse [] buf = (let n = min (length buf) (4 + length c) in (take n (frame c), n))"
proof -
  have "header buf = header (buf @ later)"
    using assms(3) take_header [of "length buf" "buf @ later"] by simp
  then have h: "header buf = length c" using assms(1,2) by simp
  define n where "n = min (length buf) (4 + length c)"
  have "take n buf = take n (frame c)"
    using take_take_frame [of buf later 0 "frame c" rest n] assms(2) by (simp add: n_def)
  moreover have "(if length buf < (length c + 4) mod u32_mod then length buf else (length c + 4) mod u32_mod) = n"
    using assms(1) by (simp add: framable_def n_def)
  ultimately show ?thesis
    using assms(3) by (auto simp add: tcp_parse_def tcp_complete_def h Let_def n_def [symmetric])
qed

lemma parse_more:
  assumes "\<not> tcp_complete m" and "m \<noteq> []"
    and "a = (if length m < 4 then 4 - length m else 0)" and "a \<le> length buf"
    and "m @ take a buf = m'"
    and "nat ((int ((header m' + 4) mod u32_mod) - int (length m')) mod int u32_mod) = d"
    and "l = min d (length buf - a)"
  shows "tcp_parse m buf = (m' @ take l (drop a buf), a + l)"
proof -
  have "\<not> (length m < 4 \<and> length buf < 4 - length m)" using assms(3,4) by auto
  moreover have "(if d < length buf - a then d else length buf - a) = l" using assms(7) by simp
  ultimately show ?thesis
    using assms(1,2)
    unfolding tcp_parse_def Let_def packet_append_def assms(3) [symmetric] assms(5,6) length_drop by auto
qed

lemma parse_step:
  assumes c: "framable c" and k: "k < 4 + length c" and b: "buf @ later = drop k (frame c) @ rest"
  shows "tcp_parse (take k (frame c)) buf =
    (if k + length buf < 4 then (take k (frame c), 0)
     else let n = min (length buf) (4 + length c - k) in (take (k + n) (frame c), n))"
proof -
  have nc: "\<not> tcp_complete (take k (frame c))" using complete_take_frame [OF c] k by simp
  consider "k = 0" | "0 < k" "k + length buf < 4" | "0 < k" "4 \<le> k + length buf" by linarith
  then show ?thesis
  proof cases
    case 1
    then show ?thesis
      using parse_first [OF c, of buf later rest] b by (auto simp: tcp_parse_def tcp_complete_def)
  next
    case 2
    then show ?thesis using nc k by (auto simp: tcp_parse_def min_def)
  next
    case 3
    define a where "a = (if k < 4 then 4 - k else 0)"
    have a: "a \<le> length buf" "k + a \<le> 4 + length c" "4 \<le> k + a" using 3 k by (auto simp: a_def)
    let ?m = "take (k + a) (frame c)" and ?buf = "drop a buf"
    have m: "take k (frame c) @ take a buf = ?m" using take_take_frame [OF b a(1)] a(2) by simp
    have buf: "?buf @ later = drop (k + a) (frame c) @ rest"
      using drop_take_frame [OF b a(1)] a(2) by simp
    define l where "l = min (length ?buf) (4 + length c - (k + a))"
    have l: "?m @ take l ?buf = take (k + (a + l)) (frame c)"
      using take_take_frame [OF buf, of l] a by (simp add: l_def add.assoc)
    have d: "nat ((int ((length c + 4) mod u32_mod) - int (length ?m)) mod int u32_mod) = length c + 4 - (k + a)"
      using deficiency [OF c, of "k + a"] a(2) by simp
    have "length ?m = k + a" using a(2) by simp
    moreover have "header ?m = length c" using header_take_frame [OF c a(3), of "[]"] by simp
    ultimately have "tcp_parse (take k (frame c)) buf = (?m @ take l ?buf, a + l)"
      using 3 k d m a by (intro parse_more nc) (auto simp: a_def l_def)
    moreover have "a + l = min (length buf) (4 + length c - k)" using a by (auto simp: l_def)
    ultimately show ?thesis using 3 l by (simp add: Let_def)
  qed
qed

lemma setContent_Inr_iff: "tcp_setContent c = Inr p \<longleftrightarrow> framable c \<and> p = frame c"
  by (auto simp: tcp_setContent_def framable_def frame_def u32_mod_def Let_def)

lemma parse_whole: "framable c \<Longrightarrow> tcp_parse [] (frame c @ r) = (frame c, length (frame c))"
  using parse_first [of c "frame c @ r" "[]" r] by simp

lemma parse_prefix:
  assumes "framable c" and "k < 4 + length c"
  shows "\<not> tcp_complete (fst (tcp_parse [] (take k (frame c))))"
proof -
  have "take k (frame c) @ drop k (frame c) = drop 0 (frame c) @ []" by simp
  then have "tcp_parse (take 0 (frame c)) (take k (frame c)) =
    (if k < 4 then ([], 0) else (take k (frame c), k))"
    using parse_step [OF assms(1), of 0 "take k (frame c)" "drop k (frame c)" "[]"] assms(2)
    by (simp add: Let_def min_def)
  then show ?thesis
    using complete_take_frame [OF assms(1), of k] assms(2) by (auto simp: tcp_complete_def)
qed

text \<open>
  A header that asks for more than has come makes the packet take all that comes, whatever
  its size: \<open>MAX_SIZE\<close> is not looked at. A header so large that the sum with its own size
  wraps is no exception.
\<close>

lemma parse_takes_all:
  assumes "4 \<le> length m" and "length m + length buf < header m + 4"
  shows "tcp_parse m buf = (m @ buf, length buf) \<and> \<not> tcp_complete (m @ buf)"
proof -
  have h: "header (m @ buf) = header m"
    using take_header [of "length m" "m @ buf"] assms(1) by simp
  have nc: "\<not> tcp_complete m" "\<not> tcp_complete (m @ buf)"
    using assms h by (auto simp: tcp_complete_def tcp_contentSize_def)
  define d where "d = nat ((int ((header m + 4) mod u32_mod) - int (length m)) mod int u32_mod)"
  have "unat (w :: u32) < 4294967296" for w using unsigned_less [of w, where 'a = nat] by simp
  then have hm: "header m < u32_mod" by (auto simp: header_def u32_mod_def split: sum.split)
  have "(int ((header m + 4) mod u32_mod) - int (length m)) mod int u32_mod
    = (int (header m + 4) - int (length m)) mod int u32_mod"
    by (simp add: zmod_int mod_simps)
  also have "\<dots> = int (header m + 4) - int (length m)"
    using assms hm by (intro mod_pos_pos_trivial) (auto simp: u32_mod_def)
  finally have "length buf \<le> d" using assms(2) by (simp add: d_def)
  then have "tcp_parse m buf = (m @ take (length buf) (drop 0 buf), 0 + length buf)"
    using assms(1) d_def by (intro parse_more nc) auto
  with nc(2) show ?thesis by simp
qed

section \<open>Framing is faithful\<close>

text \<open>C10: A packet made by \<open>setContent\<close> is parsed back from any stream that begins with
  it: the parser takes exactly the bytes of the packet, whose content is the one set; from a
  proper prefix it makes no packet. \<open>setContent\<close> succeeds up to the size at which the
  length of the packet leaves 32 bits.\<close>

theorem framing_roundtrip:
  assumes "tcp_setContent c = Inr p"
  shows "(tcp_parse [] (p @ r) = (p, length p))
    \<and> (tryParse (p @ r) = Some p)
    \<and> (tcp_content p = Some c)
    \<and> (tcp_contentSize p = length c)
    \<and> (k < length p \<longrightarrow> tryParse (take k p) = None)
    \<and> ((\<exists>q. tcp_setContent d = Inr q) \<longleftrightarrow> length d + 4 < 2 ^ 32)"
proof (intro conjI)
  have c: "framable c" and p: "p = frame c" using assms by (simp_all add: setContent_Inr_iff)
  show "tcp_parse [] (p @ r) = (p, length p)" using parse_whole [OF c] p by simp
  then show "tryParse (p @ r) = Some p"
    using complete_take_frame [OF c, of "length p"] p by (simp add: tryParse_def)
  show "tcp_content p = Some c" by (simp add: tcp_content_def p frame_def)
  show "tcp_contentSize p = length c"
    using header_frame [OF c, of "[]"] by (simp add: tcp_contentSize_def p)
  show "k < length p \<longrightarrow> tryParse (take k p) = None"
    using parse_prefix [OF c, of k] p by (simp add: tryParse_def)
  show "(\<exists>q. tcp_setContent d = Inr q) \<longleftrightarrow> length d + 4 < 2 ^ 32"
    by (simp add: setContent_Inr_iff framable_def u32_mod_def add.commute)
qed

theorem framing_roundtrip_witness:
  "tryParse [2, 0, 0, 0, 65, 66, 1, 0] = Some [2, 0, 0, 0, 65, 66]"
proof -
  have "tcp_setContent [65, 66] = Inr [2, 0, 0, 0, 65, 66]"
    by (simp add: tcp_setContent_def le32_def u32_mod_def Let_def)
  from framing_roundtrip [OF this, of "[1, 0]", THEN conjunct2, THEN conjunct1] show ?thesis by simp
qed

text \<open>The size of a packet is bounded by nothing but the header its sender chose: as
  long as a started packet lacks bytes, the parser takes the whole receive buffer and asks
  for more, up to four gigabytes and far beyond the \<open>MAX_SIZE\<close> of the class. This holds for
  the headers whose sum with the header size wraps as well, and such a packet is never
  complete.\<close>

theorem no_size_limit:
  assumes "4 \<le> length m" and "length m + length buf < header m + 4"
  shows "tcp_parse m buf = (m @ buf, length buf) \<and> \<not> tcp_complete (m @ buf)"
  using assms by (rule parse_takes_all)

theorem no_size_limit_witness:
  "tcp_parse [255, 255, 255, 255, 1] (replicate 100000 0) = ([255, 255, 255, 255, 1] @ replicate 100000 0, 100000)"
proof -
  have "header [255, 255, 255, 255, 1] = 4294967295" by (simp add: header_def)
  with no_size_limit [of "[255, 255, 255, 255, 1]" "replicate 100000 0"] show ?thesis by simp
qed

end
