(* ===== verification/ConnBuffer.thy ===== *)
theory ConnBuffer
  imports Packets
begin

text \<open>
  \<open>ConnectionBuffer\<close> and \<open>BufferedConnection\<close> of \<^verbatim>\<open>water/net/buffered_connection.cpp\<close>:
  a fixed buffer with a window of data in it, and the two calls that move bytes between the
  buffers and the socket. The answers of the system calls \<open>send\<close> and \<open>recv\<close> are arguments,
  in the order in which they are given; a socket that is asked more often is busy.
\<close>

section \<open>The buffer\<close>

record cbuf =
  m_buf :: bytes
  dataBegin :: nat
  dataEnd :: nat

definition ConnectionBuffer :: "nat \<Rightarrow> cbuf" where
  "ConnectionBuffer n = \<lparr>m_buf = replicate n 0, dataBegin = 0, dataEnd = 0\<rparr>"

definition readable :: "cbuf \<Rightarrow> bytes" where
  "readable b = take (dataEnd b - dataBegin b) (drop (dataBegin b) (m_buf b))"

definition commitRead :: "nat \<Rightarrow> cbuf \<Rightarrow> cbuf \<times> bool" where
  "commitRead n b =
     (if dataEnd b - dataBegin b < n then (b, False)
      else let b = b\<lparr>dataBegin := dataBegin b + n\<rparr>
           in if dataBegin b = dataEnd b then (b\<lparr>dataBegin := 0, dataEnd := 0\<rparr>, True) else (b, True))"

definition cbuf_full :: "cbuf \<Rightarrow> bool" where
  "cbuf_full b \<longleftrightarrow> length (m_buf b) = dataEnd b \<and> dataBegin b = 0"

definition cbuf_empty :: "cbuf \<Rightarrow> bool" where
  "cbuf_empty b \<longleftrightarrow> dataEnd b = 0"

definition mem_write :: "nat \<Rightarrow> bytes \<Rightarrow> bytes \<Rightarrow> bytes" where
  "mem_write off d m = take off m @ d @ drop (off + length d) m"

text \<open>The answer is the position and the size of the free space, which the caller fills.\<close>

definition writeable :: "nat \<Rightarrow> cbuf \<Rightarrow> cbuf \<times> nat \<times> nat" where
  "writeable n b =
     (if length (m_buf b) - dataEnd b < n \<or> length (m_buf b) = dataEnd b
      then if cbuf_full b then (b, dataEnd b, 0)
           else let dataSize = dataEnd b - dataBegin b;
                    b = b\<lparr>m_buf := mem_write 0 (readable b) (m_buf b), dataBegin := 0, dataEnd := dataSize\<rparr>
                in (b, dataEnd b, length (m_buf b) - dataEnd b)
      else (b, dataEnd b, length (m_buf b) - dataEnd b))"

definition fill :: "nat \<Rightarrow> bytes \<Rightarrow> cbuf \<Rightarrow> cbuf" where
  "fill off d b = b\<lparr>m_buf := mem_write off d (m_buf b)\<rparr>"

definition commitWrite :: "nat \<Rightarrow> cbuf \<Rightarrow> cbuf \<times> bool" where
  "commitWrite n b =
     (if length (m_buf b) - dataEnd b < n then (b, False) else (b\<lparr>dataEnd := dataEnd b + n\<rparr>, True))"

definition cbuf_ok :: "cbuf \<Rightarrow> bool" where
  "cbuf_ok b \<longleftrightarrow> dataBegin b \<le> dataEnd b \<and> dataEnd b \<le> length (m_buf b)
     \<and> (dataBegin b = dataEnd b \<longrightarrow> dataEnd b = 0)"

definition capacity :: "cbuf \<Rightarrow> nat" where
  "capacity b = length (m_buf b)"

lemma length_mem_write [simp]:
  "off + length d \<le> length m \<Longrightarrow> length (mem_write off d m) = length m"
  by (simp add: mem_write_def)

lemma cbuf_ok_new [simp]: "cbuf_ok (ConnectionBuffer n)"
  by (simp add: cbuf_ok_def ConnectionBuffer_def)

lemma readable_new [simp]: "readable (ConnectionBuffer n) = []"
  by (simp add: readable_def ConnectionBuffer_def)

lemma capacity_new [simp]: "capacity (ConnectionBuffer n) = n"
  by (simp add: capacity_def ConnectionBuffer_def)

lemma length_readable: "cbuf_ok b \<Longrightarrow> length (readable b) = dataEnd b - dataBegin b"
  by (auto simp: readable_def cbuf_ok_def)

lemma length_readable_le: "cbuf_ok b \<Longrightarrow> length (readable b) \<le> capacity b"
  by (auto simp: length_readable cbuf_ok_def capacity_def)

lemma empty_iff: "cbuf_ok b \<Longrightarrow> cbuf_empty b \<longleftrightarrow> readable b = []"
  using length_readable [of b] by (cases "readable b") (auto simp: cbuf_empty_def cbuf_ok_def)

lemma full_iff: "cbuf_ok b \<Longrightarrow> cbuf_full b \<longleftrightarrow> length (readable b) = capacity b"
  by (auto simp: length_readable cbuf_full_def cbuf_ok_def capacity_def)

lemma commitRead_cases:
  assumes "cbuf_ok b"
  shows "commitRead n b = (b, False) \<and> length (readable b) < n
    \<or> (\<exists>b'. commitRead n b = (b', True) \<and> n \<le> length (readable b) \<and> cbuf_ok b'
        \<and> readable b' = drop n (readable b) \<and> capacity b' = capacity b)"
proof (cases "dataEnd b - dataBegin b < n")
  case True
  then show ?thesis using assms by (simp add: commitRead_def length_readable)
next
  case False
  then show ?thesis
    using assms
    by (auto simp: commitRead_def Let_def length_readable capacity_def readable_def cbuf_ok_def
        drop_take add.commute)
qed

lemma commitRead_ok:
  assumes "cbuf_ok b" and "n \<le> length (readable b)"
  shows "\<exists>b'. commitRead n b = (b', True) \<and> cbuf_ok b' \<and> readable b' = drop n (readable b)
    \<and> capacity b' = capacity b"
  using commitRead_cases [OF assms(1), of n] assms(2) by auto

text \<open>
  \<open>writeable\<close> moves the data but does not change it. It offers space whenever the buffer is
  not full, and all there is when the space asked for exceeds the gap at the end.
\<close>

lemma readable_shift:
  assumes "cbuf_ok b"
  shows "readable (b\<lparr>m_buf := mem_write 0 (readable b) (m_buf b), dataBegin := 0,
    dataEnd := dataEnd b - dataBegin b\<rparr>) = readable b"
  using length_readable [OF assms] by (simp add: readable_def mem_write_def)

lemma writeable_cases:
  assumes "cbuf_ok b"
  obtains (stay) "writeable n b = (b, dataEnd b, capacity b - dataEnd b)"
      "n \<le> capacity b - dataEnd b" "dataEnd b \<noteq> capacity b"
  | (full) "writeable n b = (b, dataEnd b, 0)" "length (readable b) = capacity b" "dataEnd b = capacity b"
  | (shift) b' where "writeable n b = (b', dataEnd b', capacity b - dataEnd b')" "cbuf_ok b'"
      "readable b' = readable b" "capacity b' = capacity b" "dataEnd b' = length (readable b)"
      "length (readable b) \<noteq> capacity b"
proof (cases "length (m_buf b) - dataEnd b < n \<or> length (m_buf b) = dataEnd b")
  case False
  then show thesis by (intro stay) (auto simp: writeable_def capacity_def)
next
  case True
  show thesis
  proof (cases "cbuf_full b")
    case full: True
    with True assms show thesis
      using full_iff [OF assms] by (intro that(2)) (auto simp: writeable_def capacity_def cbuf_full_def)
  next
    case nf: False
    let ?b = "b\<lparr>m_buf := mem_write 0 (readable b) (m_buf b), dataBegin := 0, dataEnd := dataEnd b - dataBegin b\<rparr>"
    have l: "length (readable b) \<le> length (m_buf b)" using length_readable_le [OF assms] by (simp add: capacity_def)
    have "writeable n b = (?b, dataEnd ?b, capacity b - dataEnd ?b)"
      using True nf l by (simp add: writeable_def capacity_def Let_def)
    moreover have "cbuf_ok ?b" using assms l by (auto simp: cbuf_ok_def)
    ultimately show thesis
      using l nf full_iff [OF assms] readable_shift [OF assms]
      by (intro that(3) [of ?b]) (auto simp: length_readable [OF assms] capacity_def)
  qed
qed

lemma writeable_ok:
  assumes "cbuf_ok b" and "writeable n b = (b', off, room)"
  shows "cbuf_ok b'" "readable b' = readable b" "capacity b' = capacity b" "off = dataEnd b'"
    "off + room \<le> capacity b" "room = 0 \<longleftrightarrow> length (readable b) = capacity b"
    "n \<le> room \<longleftrightarrow> n \<le> capacity b - length (readable b)"
    "room < n \<Longrightarrow> room = capacity b - length (readable b)"
    "room \<noteq> 0 \<Longrightarrow> room = capacity b - dataEnd b'"
    "length (readable b) + room \<le> capacity b"
proof -
  have l: "length (readable b) \<le> dataEnd b" "dataEnd b \<le> capacity b"
    using assms(1) by (auto simp: length_readable cbuf_ok_def capacity_def)
  have "cbuf_ok b' \<and> readable b' = readable b \<and> capacity b' = capacity b \<and> off = dataEnd b'
    \<and> off + room \<le> capacity b \<and> (room = 0 \<longleftrightarrow> length (readable b) = capacity b)
    \<and> (n \<le> room \<longleftrightarrow> n \<le> capacity b - length (readable b))
    \<and> (room < n \<longrightarrow> room = capacity b - length (readable b))
    \<and> (room \<noteq> 0 \<longrightarrow> room = capacity b - dataEnd b') \<and> length (readable b) + room \<le> capacity b"
    using assms(1)
  proof (cases rule: writeable_cases [where n = n])
    case stay
    then show ?thesis using assms l by auto
  next
    case full
    then show ?thesis using assms l by auto
  next
    case (shift b'')
    then show ?thesis using assms l by auto
  qed
  then show "cbuf_ok b'" "readable b' = readable b" "capacity b' = capacity b" "off = dataEnd b'"
    "off + room \<le> capacity b" "room = 0 \<longleftrightarrow> length (readable b) = capacity b"
    "n \<le> room \<longleftrightarrow> n \<le> capacity b - length (readable b)"
    "room < n \<Longrightarrow> room = capacity b - length (readable b)"
    "room \<noteq> 0 \<Longrightarrow> room = capacity b - dataEnd b'"
    "length (readable b) + room \<le> capacity b" by auto
qed

lemma fill_commit:
  assumes "cbuf_ok b" and "off = dataEnd b" and "off + length d \<le> capacity b"
  shows "\<exists>b'. commitWrite (length d) (fill off d b) = (b', True) \<and> cbuf_ok b'
    \<and> readable b' = readable b @ d \<and> capacity b' = capacity b"
proof -
  let ?b = "(fill off d b)\<lparr>dataEnd := dataEnd b + length d\<rparr>"
  have b: "dataBegin b \<le> dataEnd b" "dataEnd b \<le> length (m_buf b)" using assms(1) by (auto simp: cbuf_ok_def)
  have "commitWrite (length d) (fill off d b) = (?b, True)"
    using assms by (simp add: commitWrite_def fill_def capacity_def)
  moreover have "cbuf_ok ?b" using assms by (auto simp: cbuf_ok_def fill_def capacity_def)
  moreover have "drop (dataBegin b) (mem_write off d (m_buf b))
    = drop (dataBegin b) (take off (m_buf b)) @ d @ drop (off + length d) (m_buf b)"
    using assms(2) b by (simp add: mem_write_def)
  then have "readable ?b = readable b @ d"
    using assms(2) b by (simp add: readable_def fill_def drop_take)
  ultimately show ?thesis using assms by (auto simp: fill_def capacity_def)
qed

section \<open>The connection\<close>

datatype recvAns = RBytes bytes | RAgain | RError
datatype sendAns = SAccept nat | SAgain | SError
datatype netFault = ReadClosed | NetError

record bufConn =
  sndBuf :: cbuf
  rcvBuf :: cbuf
  wire :: bytes

definition bufConn_new :: bufConn where
  "bufConn_new = \<lparr>sndBuf = ConnectionBuffer 2048, rcvBuf = ConnectionBuffer 2048, wire = []\<rparr>"

text \<open>
  \<open>send\<close> is called only with data to send. It accepts some of the bytes, which go to \<open>wire\<close>,
  or the socket is busy, or it fails, which is an exception.
\<close>

fun trySend :: "sendAns list \<Rightarrow> bufConn \<Rightarrow> (netFault + bool) \<times> sendAns list \<times> bufConn" where
  "trySend as c =
     (if readable (sndBuf c) = [] then (Inr True, as, c)
      else case as of
        [] \<Rightarrow> (Inr False, [], c)
      | SAgain # as \<Rightarrow> (Inr False, as, c)
      | SError # as \<Rightarrow> (Inl NetError, as, c)
      | SAccept k # as \<Rightarrow>
          let sendSize = min k (length (readable (sndBuf c)));
              sent = take sendSize (readable (sndBuf c));
              b = fst (commitRead sendSize (sndBuf c))
          in (Inr (cbuf_empty b), as, c\<lparr>sndBuf := b, wire := wire c @ sent\<rparr>))"

text \<open>
  \<open>recv\<close> delivers at most the bytes there is room for; what remains of a delivery is there
  for the next call. No bytes at all is the end of the stream.
\<close>

fun tryRecv :: "recvAns list \<Rightarrow> bufConn \<Rightarrow> (netFault + bool) \<times> recvAns list \<times> bufConn" where
  "tryRecv as c =
     (let (b, off, room) = writeable 0 (rcvBuf c);
          c = c\<lparr>rcvBuf := b\<rparr>
      in if room = 0 then (Inr (\<not> cbuf_empty b), as, c)
         else case as of
           [] \<Rightarrow> (Inr (\<not> cbuf_empty b), [], c)
         | RAgain # as \<Rightarrow> (Inr (\<not> cbuf_empty b), as, c)
         | RError # as \<Rightarrow> (Inl NetError, as, c)
         | RBytes bs # as \<Rightarrow>
             if bs = [] then (Inl ReadClosed, as, c)
             else let got = take room bs;
                      rest = (if length bs \<le> room then as else RBytes (drop room bs) # as);
                      b = fst (commitWrite (length got) (fill off got b))
                  in (Inr True, rest, c\<lparr>rcvBuf := b\<rparr>))"

declare trySend.simps [simp del] tryRecv.simps [simp del]

definition conn_ok :: "bufConn \<Rightarrow> bool" where
  "conn_ok c \<longleftrightarrow> cbuf_ok (sndBuf c) \<and> cbuf_ok (rcvBuf c) \<and> 0 < capacity (sndBuf c) \<and> 0 < capacity (rcvBuf c)"

text \<open>What a connection has been given to send: what the socket took and what waits in the buffer.\<close>

definition outgoing :: "bufConn \<Rightarrow> bytes" where
  "outgoing c = wire c @ readable (sndBuf c)"

text \<open>The bytes the socket will still deliver before it reports the end or an error.\<close>

fun incoming :: "recvAns list \<Rightarrow> bytes" where
  "incoming (RBytes bs # as) = (if bs = [] then [] else bs @ incoming as)"
| "incoming (RAgain # as) = incoming as"
| "incoming (RError # as) = []"
| "incoming [] = []"

lemma trySend_ok:
  assumes "conn_ok c" and "trySend as c = (r, as', c')"
  shows "conn_ok c'" "outgoing c' = outgoing c" "rcvBuf c' = rcvBuf c"
    "capacity (sndBuf c') = capacity (sndBuf c)" "length as' \<le> length as"
    "r = Inr b \<Longrightarrow> b \<longleftrightarrow> readable (sndBuf c') = []"
proof -
  let ?b = "sndBuf c"
  have ok: "cbuf_ok ?b" using assms(1) by (simp add: conn_ok_def)
  have "conn_ok c' \<and> outgoing c' = outgoing c \<and> rcvBuf c' = rcvBuf c
    \<and> capacity (sndBuf c') = capacity ?b \<and> length as' \<le> length as
    \<and> (\<forall>b. r = Inr b \<longrightarrow> (b \<longleftrightarrow> readable (sndBuf c') = []))"
  proof (cases "\<exists>k as1. as = SAccept k # as1 \<and> readable ?b \<noteq> []")
    case True
    then obtain k as1 where as: "as = SAccept k # as1" "readable ?b \<noteq> []" by blast
    define n where "n = min k (length (readable ?b))"
    obtain b' where b': "commitRead n ?b = (b', True)" "cbuf_ok b'" "readable b' = drop n (readable ?b)"
      "capacity b' = capacity ?b"
      using commitRead_ok [OF ok, of n] by (auto simp: n_def)
    have "r = Inr (cbuf_empty b')" "as' = as1" "c' = c\<lparr>sndBuf := b', wire := wire c @ take n (readable ?b)\<rparr>"
      using assms(2) as b' by (auto simp: trySend.simps Let_def n_def [symmetric])
    then show ?thesis using as b' assms(1) by (auto simp: conn_ok_def outgoing_def empty_iff)
  next
    case False
    then have "c' = c \<and> length as' \<le> length as \<and> (\<forall>b. r = Inr b \<longrightarrow> (b \<longleftrightarrow> readable ?b = []))"
      using assms(2) by (auto simp: trySend.simps split: if_splits list.splits sendAns.splits)
    then show ?thesis using assms(1) by auto
  qed
  then show "conn_ok c'" "outgoing c' = outgoing c" "rcvBuf c' = rcvBuf c"
    "capacity (sndBuf c') = capacity (sndBuf c)" "length as' \<le> length as"
    "r = Inr b \<Longrightarrow> b \<longleftrightarrow> readable (sndBuf c') = []" by auto
qed

lemma tryRecv_ok:
  assumes "conn_ok c" and "tryRecv as c = (r, as', c')"
  shows "conn_ok c'" "r = Inr x \<Longrightarrow> readable (rcvBuf c') @ incoming as' = readable (rcvBuf c) @ incoming as"
    "r = Inl e \<Longrightarrow> incoming as = [] \<and> readable (rcvBuf c') = readable (rcvBuf c)"
    "sndBuf c' = sndBuf c" "wire c' = wire c" "r = Inr x \<Longrightarrow> x \<longleftrightarrow> readable (rcvBuf c') \<noteq> []"
proof -
  have ok: "cbuf_ok (rcvBuf c)" using assms(1) by (simp add: conn_ok_def)
  obtain b off room where w: "writeable 0 (rcvBuf c) = (b, off, room)" by (metis prod_cases3)
  note wo = writeable_ok [OF ok w]
  let ?c = "c\<lparr>rcvBuf := b\<rparr>"
  have c1: "conn_ok ?c" using assms(1) wo by (simp add: conn_ok_def)
  have "conn_ok c' \<and> (\<forall>b. r = Inr b \<longrightarrow> readable (rcvBuf c') @ incoming as' = readable (rcvBuf c) @ incoming as)
    \<and> (\<forall>e. r = Inl e \<longrightarrow> incoming as = [] \<and> readable (rcvBuf c') = readable (rcvBuf c)) \<and> sndBuf c' = sndBuf c \<and> wire c' = wire c
    \<and> (\<forall>b. r = Inr b \<longrightarrow> (b \<longleftrightarrow> readable (rcvBuf c') \<noteq> []))"
  proof (cases "\<exists>bs as1. as = RBytes bs # as1 \<and> bs \<noteq> [] \<and> room \<noteq> 0")
    case True
    then obtain bs as1 where as: "as = RBytes bs # as1" "bs \<noteq> []" "room \<noteq> 0" by blast
    have "off + length (take room bs) \<le> capacity b" using wo(3,5) by simp
    then obtain b' where b': "commitWrite (length (take room bs)) (fill off (take room bs) b) = (b', True)"
      "cbuf_ok b'" "readable b' = readable b @ take room bs" "capacity b' = capacity b"
      using fill_commit [OF wo(1,4)] by blast
    have "r = Inr True" "as' = (if length bs \<le> room then as1 else RBytes (drop room bs) # as1)"
      "c' = ?c\<lparr>rcvBuf := b'\<rparr>"
      using assms(2) as w b' by (auto simp: tryRecv.simps Let_def)
    then show ?thesis using as b' wo c1 by (auto simp: conn_ok_def)
  next
    case False
    then have "c' = ?c \<and> (\<forall>b. r = Inr b \<longrightarrow> incoming as' = incoming as) \<and> (\<forall>e. r = Inl e \<longrightarrow> incoming as = []) \<and> (\<forall>b'. r = Inr b' \<longrightarrow> (b' \<longleftrightarrow> \<not> cbuf_empty b))"
      using assms(2) w
      by (auto simp: tryRecv.simps Let_def split: if_splits list.splits recvAns.splits)
    then show ?thesis using c1 wo by (auto simp: empty_iff)
  qed
  then show "conn_ok c'" "r = Inr x \<Longrightarrow> readable (rcvBuf c') @ incoming as' = readable (rcvBuf c) @ incoming as"
    "r = Inl e \<Longrightarrow> incoming as = [] \<and> readable (rcvBuf c') = readable (rcvBuf c)"
    "sndBuf c' = sndBuf c" "wire c' = wire c" "r = Inr x \<Longrightarrow> x \<longleftrightarrow> readable (rcvBuf c') \<noteq> []" by auto
qed

end
