(* ===== verification/TcpConns.thy ===== *)
theory TcpConns
  imports ConnBuffer "HOL-Library.AList"
begin

text \<open>
  \<open>TcpConnectionManager\<close> of \<^verbatim>\<open>base/tcp_connection_manager.cpp\<close>. Connection holders and
  packets are shared by pointer in the code: a holder is reached over two indices, a packet
  that is broadcast lies in several send queues. Both are cells of a store here, named by
  their position. A hash map is an association list, whose order stands for the order of
  iteration. The answers of the kernel are arguments.
\<close>

section \<open>State\<close>

record holder =
  h_private :: bool
  h_id :: u64
  h_fd :: int
  h_recvPacket :: packet
  h_conn :: bufConn
  h_sendQueue :: "nat list"
  h_closed :: bool

datatype interest = WatchRead | WatchReadWrite

datatype connEvent = AfterAddPrivate processId | AfterErasePrivate processId | AfterErasePublic u64

record connMgr =
  packets :: "packet list"
  holders :: "holder list"
  allConns :: "(int \<times> nat) list"
  privateConns :: "(u32 \<times> (u32 \<times> nat) list) list"
  publicConns :: "(u64 \<times> nat) list"
  recvQueue :: "(nat \<times> packet) list"
  epoll :: "(int \<times> interest) list"
  raised :: "connEvent list"

definition connMgr_init :: connMgr where
  "connMgr_init = \<lparr>packets = [], holders = [], allConns = [], privateConns = [], publicConns = [],
     recvQueue = [], epoll = [], raised = []\<rparr>"

text \<open>\<open>unordered_map::insert\<close> does not replace an element.\<close>

definition map_insert :: "'k \<Rightarrow> 'v \<Rightarrow> ('k \<times> 'v) list \<Rightarrow> ('k \<times> 'v) list \<times> bool" where
  "map_insert k v m = (if map_of m k = None then (m @ [(k, v)], True) else (m, False))"

definition newHolder :: "bool \<Rightarrow> u64 \<Rightarrow> int \<Rightarrow> bufConn \<Rightarrow> holder" where
  "newHolder priv i fd c = \<lparr>h_private = priv, h_id = i, h_fd = fd, h_recvPacket = [], h_conn = c,
     h_sendQueue = [], h_closed = False\<rparr>"

definition setHolder :: "nat \<Rightarrow> holder \<Rightarrow> connMgr \<Rightarrow> connMgr" where
  "setHolder r h m = m\<lparr>holders := (holders m)[r := h]\<rparr>"

section \<open>Adding connections\<close>

definition privateOfType :: "connMgr \<Rightarrow> u32 \<Rightarrow> (u32 \<times> nat) list" where
  "privateOfType m t = (case map_of (privateConns m) t of None \<Rightarrow> [] | Some ps \<Rightarrow> ps)"

definition addPrivateConnection :: "bool \<Rightarrow> int \<Rightarrow> bufConn \<Rightarrow> processId \<Rightarrow> connMgr \<Rightarrow> connMgr" where
  "addPrivateConnection epollOk fd c pid m =
     (let r = length (holders m);
          (all, new) = map_insert fd r (allConns m)
      in if \<not> new then m
         else let byType = privateOfType m (pid_type pid);
                  (byType', new) = map_insert (pid_num pid) r byType
              in if \<not> new then m\<lparr>privateConns := AList.update (pid_type pid) byType (privateConns m)\<rparr>
                 else let m = m\<lparr>holders := holders m @ [newHolder True (ucast (pid_value pid)) fd c]\<rparr>;
                          m = (if epollOk
                               then m\<lparr>allConns := all,
                                      privateConns := AList.update (pid_type pid) byType' (privateConns m),
                                      epoll := AList.update fd WatchRead (epoll m)\<rparr>
                               else m\<lparr>privateConns := AList.update (pid_type pid) byType (privateConns m)\<rparr>)
                      in m\<lparr>raised := raised m @ [AfterAddPrivate pid]\<rparr>)"

definition addPublicConnection :: "bool \<Rightarrow> int \<Rightarrow> bufConn \<Rightarrow> u64 \<Rightarrow> connMgr \<Rightarrow> connMgr \<times> bool" where
  "addPublicConnection epollOk fd c clientId m =
     (let r = length (holders m);
          (all, new) = map_insert fd r (allConns m)
      in if \<not> new then (m, False)
         else let (pub, new) = map_insert clientId r (publicConns m)
              in if \<not> new then (m, False)
                 else if \<not> epollOk then (m, False)
                 else (m\<lparr>holders := holders m @ [newHolder False clientId fd c],
                         allConns := all, publicConns := pub,
                         epoll := AList.update fd WatchRead (epoll m)\<rparr>, True))"

section \<open>Removing connections\<close>

definition eraseConnection :: "int \<Rightarrow> connMgr \<Rightarrow> connMgr" where
  "eraseConnection fd m =
     (case map_of (allConns m) fd of
        None \<Rightarrow> m
      | Some r \<Rightarrow>
          let i = h_id (holders m ! r);
              m = (if map_of (publicConns m) i \<noteq> None
                   then m\<lparr>publicConns := AList.delete i (publicConns m), raised := raised m @ [AfterErasePublic i]\<rparr>
                   else let pid = pid_setValue (ucast i);
                            byType = privateOfType m (pid_type pid)
                        in if map_of byType (pid_num pid) \<noteq> None
                           then m\<lparr>privateConns :=
                                    AList.update (pid_type pid) (AList.delete (pid_num pid) byType) (privateConns m),
                                  raised := raised m @ [AfterErasePrivate pid]\<rparr>
                           else m)
          in m\<lparr>epoll := AList.delete fd (epoll m), allConns := AList.delete fd (allConns m)\<rparr>)"

definition erasePublicConnection :: "u64 \<Rightarrow> connMgr \<Rightarrow> connMgr \<times> nat option" where
  "erasePublicConnection clientId m =
     (case map_of (publicConns m) clientId of
        None \<Rightarrow> (m, None)
      | Some r \<Rightarrow> (eraseConnection (h_fd (holders m ! r)) m, Some r))"

definition closeConn :: "nat \<Rightarrow> connMgr \<Rightarrow> connMgr" where
  "closeConn r m = setHolder r ((holders m ! r)\<lparr>h_closed := True\<rparr>) m"

definition totalPrivateConnNum :: "connMgr \<Rightarrow> u32" where
  "totalPrivateConnNum m = fold (\<lambda>item ret. ret + of_nat (length (snd item))) (privateConns m) 0"

section \<open>Sending\<close>

text \<open>A socket can be watched for something else as long as it is watched; otherwise \<open>epoll_ctl\<close> fails.\<close>

definition modifyWatch :: "int \<Rightarrow> interest \<Rightarrow> connMgr \<Rightarrow> netFault option \<times> connMgr" where
  "modifyWatch fd i m =
     (if map_of (epoll m) fd = None then (Some NetError, m)
      else (None, m\<lparr>epoll := AList.update fd i (epoll m)\<rparr>))"

text \<open>
  The part of the packet that the buffer takes is copied and removed from the packet, and
  the packet waits for the socket at the front of the queue.
\<close>

definition queueRest :: "nat \<Rightarrow> nat \<Rightarrow> nat \<Rightarrow> nat \<Rightarrow> bufConn \<Rightarrow> connMgr \<Rightarrow> (netFault + bool) \<times> connMgr" where
  "queueRest off room r p c m =
     (let h = holders m ! r;
          copied = packet_copy (packets m ! p) room;
          b = fst (commitWrite (length copied) (fill off copied (sndBuf c)));
          m = m\<lparr>packets := (packets m)[p := packet_pop (length copied) (packets m ! p)]\<rparr>;
          m = setHolder r (h\<lparr>h_conn := c\<lparr>sndBuf := b\<rparr>, h_sendQueue := h_sendQueue h @ [p]\<rparr>) m;
          (err, m) = modifyWatch (h_fd h) WatchReadWrite m
      in (case err of None \<Rightarrow> Inr True | Some e \<Rightarrow> Inl e, m))"

definition sendPacket :: "sendAns list \<Rightarrow> nat \<Rightarrow> nat \<Rightarrow> connMgr \<Rightarrow> (netFault + bool) \<times> connMgr" where
  "sendPacket as r p m =
     (let h = holders m ! r; size = length (packets m ! p)
      in if h_sendQueue h \<noteq> [] then
           if 512 < length (h_sendQueue h) then (Inr False, m)
           else (Inr True, setHolder r (h\<lparr>h_sendQueue := h_sendQueue h @ [p]\<rparr>) m)
         else
           let (b, off, room) = writeable size (sndBuf (h_conn h));
               c = (h_conn h)\<lparr>sndBuf := b\<rparr>
           in if size \<le> room then
                let b = fst (commitWrite size (fill off (packet_copy (packets m ! p) room) b));
                    (res, as, c) = trySend as (c\<lparr>sndBuf := b\<rparr>)
                in case res of
                     Inl e \<Rightarrow> (Inl e, setHolder r (h\<lparr>h_conn := c\<rparr>) m)
                   | Inr sent \<Rightarrow>
                       if sent then (Inr True, setHolder r (h\<lparr>h_conn := c\<rparr>) m)
                       else queueRest off room r p c m
              else queueRest off room r p c m)"

definition no_throw :: "(netFault + bool) \<times> connMgr \<Rightarrow> connMgr \<times> bool" where
  "no_throw res = (snd res, (case fst res of Inl e \<Rightarrow> False | Inr b \<Rightarrow> True))"

definition sendPacketToPrivate :: "(nat \<Rightarrow> sendAns list) \<Rightarrow> processId \<Rightarrow> nat \<Rightarrow> connMgr \<Rightarrow> connMgr \<times> bool" where
  "sendPacketToPrivate as pid p m =
     (case map_of (privateConns m) (pid_type pid) of
        None \<Rightarrow> (m, False)
      | Some byType \<Rightarrow>
          case map_of byType (pid_num pid) of
            None \<Rightarrow> (m, False)
          | Some r \<Rightarrow> no_throw (sendPacket (as r) r p m))"

definition sendPacketToPublic :: "(nat \<Rightarrow> sendAns list) \<Rightarrow> u64 \<Rightarrow> nat \<Rightarrow> connMgr \<Rightarrow> connMgr \<times> bool" where
  "sendPacketToPublic as clientId p m =
     (case map_of (publicConns m) clientId of
        None \<Rightarrow> (m, False)
      | Some r \<Rightarrow> no_throw (sendPacket (as r) r p m))"

fun sendAll :: "(nat \<Rightarrow> sendAns list) \<Rightarrow> nat list \<Rightarrow> nat \<Rightarrow> connMgr \<Rightarrow> connMgr" where
  "sendAll as [] p m = m"
| "sendAll as (r # rs) p m = sendAll as rs p (snd (sendPacket (as r) r p m))"

definition broadcastPacketToPrivate :: "(nat \<Rightarrow> sendAns list) \<Rightarrow> u32 \<Rightarrow> nat \<Rightarrow> connMgr \<Rightarrow> connMgr" where
  "broadcastPacketToPrivate as t p m =
     (case map_of (privateConns m) t of
        None \<Rightarrow> m
      | Some byType \<Rightarrow> sendAll as (map snd byType) p m)"

definition broadcastPacketToPublic :: "(nat \<Rightarrow> sendAns list) \<Rightarrow> nat \<Rightarrow> connMgr \<Rightarrow> connMgr" where
  "broadcastPacketToPublic as p m = sendAll as (map snd (publicConns m)) p m"

section \<open>Events of the sockets\<close>

text \<open>The receive queue holds at most \<open>2 ^ 10\<close> packets; the result of \<open>push\<close> is not looked at.\<close>

definition recvQueue_max :: nat where "recvQueue_max = 1024"

definition recvQueue_push :: "nat \<times> packet \<Rightarrow> (nat \<times> packet) list \<Rightarrow> (nat \<times> packet) list" where
  "recvQueue_push x q = (if length q < recvQueue_max then q @ [x] else q)"

partial_function (option) readLoop ::
  "recvAns list \<Rightarrow> nat \<Rightarrow> packet \<Rightarrow> bufConn \<Rightarrow> (nat \<times> packet) list
    \<Rightarrow> (netFault option \<times> recvAns list \<times> packet \<times> bufConn \<times> (nat \<times> packet) list) option" where
  "readLoop as r pk c q =
     (case tryRecv as c of
        (Inl e, as, c) \<Rightarrow> Some (Some e, as, pk, c, q)
      | (Inr got, as, c) \<Rightarrow>
          if \<not> got then Some (None, as, pk, c, q)
          else let (pk, readSize) = tcp_parse pk (readable (rcvBuf c));
                   c = c\<lparr>rcvBuf := fst (commitRead readSize (rcvBuf c))\<rparr>
               in if \<not> tcp_complete pk then Some (None, as, pk, c, q)
                  else readLoop as r [] c (recvQueue_push (r, pk) q))"

fun refill :: "packet list \<Rightarrow> nat list \<Rightarrow> bufConn \<Rightarrow> packet list \<times> nat list \<times> bufConn" where
  "refill ps [] c = (ps, [], c)"
| "refill ps (p # q) c =
     (let (b, off, room) = writeable (length (ps ! p)) (sndBuf c)
      in if room = 0 then (ps, p # q, c\<lparr>sndBuf := b\<rparr>)
         else let copied = packet_copy (ps ! p) room;
                  b = fst (commitWrite (length copied) (fill off copied b))
              in if length copied < length (ps ! p)
                 then (ps[p := packet_pop (length copied) (ps ! p)], p # q, c\<lparr>sndBuf := b\<rparr>)
                 else refill ps q (c\<lparr>sndBuf := b\<rparr>))"

text \<open>The second part of the result says whether all has been sent.\<close>

partial_function (option) writeLoop ::
  "sendAns list \<Rightarrow> packet list \<Rightarrow> nat list \<Rightarrow> bufConn
    \<Rightarrow> ((netFault + bool) \<times> packet list \<times> nat list \<times> bufConn) option" where
  "writeLoop as ps q c =
     (case trySend as c of
        (Inl e, as, c) \<Rightarrow> Some (Inl e, ps, q, c)
      | (Inr sent, as, c) \<Rightarrow>
          if \<not> sent then Some (Inr False, ps, q, c)
          else if q = [] then Some (Inr True, ps, q, c)
          else let (ps, q, c) = refill ps q c in writeLoop as ps q c)"

datatype sockEvent = EvRead "recvAns list" | EvWrite "sendAns list" | EvError

definition epollerEventHandler :: "int \<Rightarrow> sockEvent \<Rightarrow> connMgr \<Rightarrow> connMgr option" where
  "epollerEventHandler fd ev m =
     (case map_of (allConns m) fd of
        None \<Rightarrow> Some (m\<lparr>epoll := AList.delete fd (epoll m)\<rparr>)
      | Some r \<Rightarrow>
          let h = holders m ! r
          in case ev of
               EvRead as \<Rightarrow>
                 if length (recvQueue m) = recvQueue_max then Some m
                 else (case readLoop as r (h_recvPacket h) (h_conn h) (recvQueue m) of
                         None \<Rightarrow> None
                       | Some (res, _, pk, c, q) \<Rightarrow>
                           let m = (setHolder r (h\<lparr>h_recvPacket := pk, h_conn := c\<rparr>) m)\<lparr>recvQueue := q\<rparr>
                           in Some (if res = None then m else closeConn r (eraseConnection fd m)))
             | EvWrite as \<Rightarrow>
                 (case writeLoop as (packets m) (h_sendQueue h) (h_conn h) of
                    None \<Rightarrow> None
                  | Some (res, ps, q, c) \<Rightarrow>
                      let m = (setHolder r (h\<lparr>h_sendQueue := q, h_conn := c\<rparr>) m)\<lparr>packets := ps\<rparr>
                      in Some (case res of
                           Inl e \<Rightarrow> closeConn r (eraseConnection fd m)
                         | Inr sent \<Rightarrow> if \<not> sent then m
                           else let (err, m) = modifyWatch fd WatchRead m
                                in if err = None then m else closeConn r (eraseConnection fd m)))
             | EvError \<Rightarrow> Some (closeConn r (eraseConnection fd m)))"

definition getPacket :: "connMgr \<Rightarrow> connMgr \<times> (nat \<times> packet) option" where
  "getPacket m =
     (case recvQueue m of
        [] \<Rightarrow> (m, None)
      | x # q \<Rightarrow> (m\<lparr>recvQueue := q\<rparr>, Some x))"

end
