(* ===== verification/ConnReceive.thy ===== *)
theory ConnReceive
  imports TcpConns
begin

text \<open>
  The receiving side of the connection manager: the loop of the read event ends whatever
  the peer sends, and the packets it queues are the packets of the stream.
\<close>

section \<open>One call of the parser\<close>

lemma parse_bound: "tcp_parse pk buf = (pk', n) \<Longrightarrow> n \<le> length buf"
  unfolding tcp_parse_def Let_def by (auto split: if_splits)

lemma parse_zero: "tcp_parse pk buf = (pk', 0) \<Longrightarrow> pk' = pk"
  unfolding tcp_parse_def Let_def packet_append_def by (auto split: if_splits)

lemma tcp_complete_Nil [simp]: "\<not> tcp_complete []"
  by (simp add: tcp_complete_def)

section \<open>The loop ends\<close>

lemma readLoop_step:
  assumes "tryRecv as c = (Inr True, as1, c1)" and "tcp_parse pk (readable (rcvBuf c1)) = (pk1, n)"
  shows "readLoop as r pk c q =
    (if tcp_complete pk1
     then readLoop as1 r [] (c1\<lparr>rcvBuf := fst (commitRead n (rcvBuf c1))\<rparr>) (recvQueue_push (r, pk1) q)
     else Some (None, as1, pk1, c1\<lparr>rcvBuf := fst (commitRead n (rcvBuf c1))\<rparr>, q))"
  using assms by (subst readLoop.simps) simp

lemma commit_parsed:
  assumes "conn_ok c" and "n \<le> length (readable (rcvBuf c))"
  shows "conn_ok (c\<lparr>rcvBuf := fst (commitRead n (rcvBuf c))\<rparr>)"
    and "readable (fst (commitRead n (rcvBuf c))) = drop n (readable (rcvBuf c))"
proof -
  obtain b' where "commitRead n (rcvBuf c) = (b', True)" "cbuf_ok b'"
    "readable b' = drop n (readable (rcvBuf c))" "capacity b' = capacity (rcvBuf c)"
    using commitRead_ok [of "rcvBuf c" n] assms by (auto simp: conn_ok_def)
  then show "conn_ok (c\<lparr>rcvBuf := fst (commitRead n (rcvBuf c))\<rparr>)"
    "readable (fst (commitRead n (rcvBuf c))) = drop n (readable (rcvBuf c))"
    using assms(1) by (auto simp: conn_ok_def)
qed

definition todo :: "recvAns list \<Rightarrow> packet \<Rightarrow> bufConn \<Rightarrow> nat" where
  "todo as pk c = 2 * length (readable (rcvBuf c) @ incoming as) + (if tcp_complete pk then 1 else 0)"

lemma readLoop_returns:
  "conn_ok c \<Longrightarrow> \<exists>res as' pk' c' q'. readLoop as r pk c q = Some (res, as', pk', c', q') \<and> conn_ok c'"
proof (induction "todo as pk c" arbitrary: as pk c q rule: less_induct)
  case less
  obtain res as1 c1 where tr: "tryRecv as c = (res, as1, c1)" by (metis prod_cases3)
  note ok = tryRecv_ok [OF less.prems tr]
  show ?case
  proof (cases "res = Inr True")
    case False
    then show ?thesis using tr ok(1) by (subst readLoop.simps) (auto split: sum.split)
  next
    case True
    obtain pk1 n where p: "tcp_parse pk (readable (rcvBuf c1)) = (pk1, n)" by force
    let ?c = "c1\<lparr>rcvBuf := fst (commitRead n (rcvBuf c1))\<rparr>"
    note n = parse_bound [OF p]
    note c = commit_parsed [OF ok(1) n]
    show ?thesis
    proof (cases "tcp_complete pk1")
      case False
      then show ?thesis using readLoop_step [OF tr [unfolded True] p] c(1) by auto
    next
      case complete: True
      have "length (readable (rcvBuf c1) @ incoming as1) = length (readable (rcvBuf c) @ incoming as)"
        using ok(2) True by simp
      then have "todo as1 [] ?c < todo as pk c"
        using n c(2) complete parse_zero [of pk "readable (rcvBuf c1)" pk1] p
        by (cases "n = 0") (auto simp: todo_def)
      from less.hyps [OF this c(1)] show ?thesis
        using readLoop_step [OF tr [unfolded True] p] complete by simp
    qed
  qed
qed

section \<open>A socket that stays open\<close>

text \<open>As long as the socket reports neither an error nor the end of the stream, no call throws.\<close>

definition open_stream :: "recvAns list \<Rightarrow> bool" where
  "open_stream as \<longleftrightarrow> (\<forall>a \<in> set as. a \<noteq> RError \<and> a \<noteq> RBytes [])"

lemma tryRecv_quiet:
  assumes "open_stream as" and "tryRecv as c = (r, as', c')"
  shows "open_stream as'" "\<not> (\<exists>e. r = Inl e)"
  using assms by (auto simp: tryRecv.simps open_stream_def Let_def split: list.splits recvAns.splits if_splits prod.splits
      dest: in_set_dropD)

lemma tryRecv_open:
  assumes "conn_ok c" and "open_stream as" and "readable (rcvBuf c) \<noteq> [] \<or> (\<exists>b bs as'. as = RBytes (b # bs) # as')"
  shows "\<exists>as' c'. tryRecv as c = (Inr True, as', c') \<and> open_stream as' \<and> conn_ok c' \<and> readable (rcvBuf c') \<noteq> []"
proof -
  obtain b off room where w: "writeable 0 (rcvBuf c) = (b, off, room)" by (metis prod_cases3)
  have cb: "cbuf_ok (rcvBuf c)" "0 < capacity (rcvBuf c)" using assms(1) by (auto simp: conn_ok_def)
  note wo = writeable_ok [OF cb(1) w]
  obtain r as' c' where t: "tryRecv as c = (r, as', c')" by (metis prod_cases3)
  have os: "open_stream as'" and no: "\<not> (\<exists>e. r = Inl e)"
    using tryRecv_quiet [OF assms(2) t] by simp_all
  then obtain x where r: "r = Inr x" by (cases r) auto
  note ok = tryRecv_ok [OF assms(1) t]
  have x
    using assms(3) t w wo(2,6) empty_iff [OF wo(1)] cb(2) r
    by (auto simp: tryRecv.simps Let_def split: list.splits recvAns.splits if_splits)
  then show ?thesis using t r ok(1,6) os by auto
qed

section \<open>What the loop queues\<close>

definition stream :: "bytes list \<Rightarrow> bytes" where
  "stream cs = concat (map frame cs)"

lemma stream_Cons [simp]: "stream (c # cs) = frame c @ stream cs"
  by (simp add: stream_def)

lemma stream_Nil [simp]: "stream [] = []"
  by (simp add: stream_def)

lemma complete_frame_append: "framable c \<Longrightarrow> tcp_complete (frame c @ s)"
  by (simp add: tcp_complete_def tcp_contentSize_def)

lemma stream_head:
  assumes "\<not> tcp_complete pk" and "\<forall>c \<in> set cs. framable c" and "pk @ x = stream cs" and "pk @ x \<noteq> []"
  obtains c cs' where "cs = c # cs'" "length pk < 4 + length c" "pk = take (length pk) (frame c)"
    "x = drop (length pk) (frame c) @ stream cs'"
proof (cases cs)
  case Nil
  with assms show thesis by simp
next
  case (Cons c cs')
  have "length pk < length (frame c)"
  proof (rule ccontr)
    assume "\<not> length pk < length (frame c)"
    then have "pk = frame c @ drop (length (frame c)) pk"
      using assms(3) Cons by (metis append_eq_append_conv_if append_take_drop_id not_less_iff_gr_or_eq
          order_less_imp_le stream_Cons take_all_iff take_append linorder_not_le append_eq_conv_conj)
    then show False
      using assms(1,2) Cons complete_frame_append [of c "drop (length (frame c)) pk"] by simp
  qed
  then show thesis
    using assms(3) Cons
    by (intro that [of c cs']) (auto simp: append_eq_append_conv_if append_eq_conv_conj)
qed

definition delivered :: "nat \<Rightarrow> bytes list \<Rightarrow> (nat \<times> packet) list" where
  "delivered r cs = map (\<lambda>c. (r, frame c)) cs"

lemma delivered_simps [simp]:
  "delivered r [] = []" "delivered r (c # cs) = (r, frame c) # delivered r cs"
  "length (delivered r cs) = length cs"
  by (simp_all add: delivered_def)

text \<open>
  The rest of the stream after the loop: the packet that is being received, the buffer,
  and, when the connection lives on, what the socket still has.
\<close>

definition undelivered :: "netFault option \<Rightarrow> recvAns list \<Rightarrow> packet \<Rightarrow> bufConn \<Rightarrow> bytes" where
  "undelivered res as pk c = pk @ readable (rcvBuf c) @ (if res = None then incoming as else [])"

lemma readLoop_stream:
  "conn_ok c \<Longrightarrow> \<not> tcp_complete pk \<Longrightarrow> \<forall>c \<in> set cs. framable c
    \<Longrightarrow> pk @ readable (rcvBuf c) @ incoming as @ future = stream cs
    \<Longrightarrow> length q + length cs \<le> recvQueue_max
    \<Longrightarrow> \<exists>res as' pk' c' cs1 cs2. readLoop as r pk c q = Some (res, as', pk', c', q @ delivered r cs1)
      \<and> cs = cs1 @ cs2 \<and> \<not> tcp_complete pk' \<and> undelivered res as' pk' c' @ future = stream cs2
      \<and> (res = None \<longrightarrow> readable (rcvBuf c') = [] \<or> length pk' + length (readable (rcvBuf c')) < 4)"
proof (induction "todo as pk c" arbitrary: as pk c q cs rule: less_induct)
  case less
  obtain res as1 c1 where tr: "tryRecv as c = (res, as1, c1)" by (metis prod_cases3)
  note ok = tryRecv_ok [OF less.prems(1) tr]
  consider (stop) e where "res = Inl e" | (idle) "res = Inr False" | (data) "res = Inr True"
    by (cases res) auto
  then show ?case
  proof cases
    case stop
    then have "readLoop as r pk c q = Some (Some e, as1, pk, c1, q)" using tr by (subst readLoop.simps) simp
    then show ?thesis
      using ok(3) [OF stop] less.prems
      by (intro exI [of _ "Some e"] exI [of _ as1] exI [of _ pk] exI [of _ c1] exI [of _ "[]"] exI [of _ cs])
        (auto simp: undelivered_def)
  next
    case idle
    then have "readLoop as r pk c q = Some (None, as1, pk, c1, q)" using tr by (subst readLoop.simps) simp
    then show ?thesis
      using ok(2) [OF idle] ok(6) [OF idle] less.prems
      by (intro exI [of _ None] exI [of _ as1] exI [of _ pk] exI [of _ c1] exI [of _ "[]"] exI [of _ cs])
        (auto simp: undelivered_def)
  next
    case data
    let ?buf = "readable (rcvBuf c1)" and ?later = "incoming as1 @ future"
    have st: "pk @ (?buf @ ?later) = stream cs" using ok(2) [OF data] less.prems(4) by (metis append_assoc)
    have ne: "?buf \<noteq> []" using ok(6) [OF data] by simp
    obtain c0 cs' where hd: "cs = c0 # cs'" "length pk < 4 + length c0" "pk = take (length pk) (frame c0)"
      "?buf @ ?later = drop (length pk) (frame c0) @ stream cs'"
      using stream_head [OF less.prems(2,3) st] ne by auto
    have fc: "framable c0" using less.prems(3) hd(1) by simp
    obtain pk1 n where p: "tcp_parse pk ?buf = (pk1, n)" by force
    let ?c = "c1\<lparr>rcvBuf := fst (commitRead n (rcvBuf c1))\<rparr>"
    note c = commit_parsed [OF ok(1) parse_bound [OF p]]
    note step = parse_step [OF fc hd(2,4), folded hd(3), unfolded p]
    have "pk1 = pk @ take n ?buf"
    proof (cases "length pk + length ?buf < 4")
      case True
      then show ?thesis using step by simp
    next
      case False
      then have n: "n = min (length ?buf) (4 + length c0 - length pk)" "pk1 = take (length pk + n) (frame c0)"
        using step by (auto simp: Let_def)
      then show ?thesis
        using take_take_frame [OF hd(4), of n] hd(2) hd(3) [symmetric] by simp
    qed
    then have rest: "pk1 @ drop n ?buf @ ?later = stream cs"
      using st by (metis append.assoc append_take_drop_id)
    show ?thesis
    proof (cases "tcp_complete pk1")
      case False
      then have "readLoop as r pk c q = Some (None, as1, pk1, ?c, q)"
        using readLoop_step [OF tr [unfolded data] p] by simp
      moreover have "drop n ?buf = [] \<or> length pk1 + length (drop n ?buf) < 4"
        using step False complete_take_frame [OF fc] hd(2) by (auto simp: Let_def split: if_splits)
      ultimately show ?thesis
        using rest False c(2)
        by (intro exI [of _ None] exI [of _ as1] exI [of _ pk1] exI [of _ ?c] exI [of _ "[]"] exI [of _ cs])
          (auto simp: undelivered_def)
    next
      case True
      have pk1: "pk1 = frame c0"
        using step True complete_take_frame [OF fc] hd(2,3) less.prems(2) by (auto simp: Let_def split: if_splits)
      have "length (?buf @ incoming as1) = length (readable (rcvBuf c) @ incoming as)"
        using ok(2) [OF data] by simp
      then have "todo as1 [] ?c < todo as pk c"
        using parse_bound [OF p] c(2) True parse_zero [of pk ?buf pk1] p less.prems(2)
        by (cases "n = 0") (auto simp: todo_def)
      moreover have "[] @ readable (rcvBuf ?c) @ incoming as1 @ future = stream cs'"
        using rest hd(1) pk1 c(2) by simp
      moreover have "recvQueue_push (r, pk1) q = q @ delivered r [c0]"
        using less.prems(5) hd(1) pk1 by (simp add: recvQueue_push_def)
      ultimately obtain res' as' pk' c' cs1 cs2 where
        "readLoop as1 r [] ?c (recvQueue_push (r, pk1) q) = Some (res', as', pk', c', (q @ delivered r [c0]) @ delivered r cs1)
         \<and> cs' = cs1 @ cs2 \<and> \<not> tcp_complete pk' \<and> undelivered res' as' pk' c' @ future = stream cs2
         \<and> (res' = None \<longrightarrow> readable (rcvBuf c') = [] \<or> length pk' + length (readable (rcvBuf c')) < 4)"
        using less.hyps [of as1 "[]" ?c cs' "q @ delivered r [c0]"] c(1) less.prems(3,5) hd(1) by auto
      then show ?thesis
        using readLoop_step [OF tr [unfolded data] p] True hd(1)
        by (intro exI [of _ res'] exI [of _ as'] exI [of _ pk'] exI [of _ c'] exI [of _ "c0 # cs1"] exI [of _ cs2])
          simp
    qed
  qed
qed

section \<open>The receive event\<close>

text \<open>C4: The read event reassembles the stream. Whatever the pieces in which the socket
  delivers it, and however far the packet in progress and the buffer had come, the packets
  queued are the next frames of the stream, whole and in order, and what is left in the
  packet, the buffer and the socket continues it; as long as the queue has room, no byte
  is lost, added or read twice.\<close>

theorem receive_reassembles:
  assumes "conn_ok c" and "\<not> tcp_complete pk" and "\<forall>c \<in> set cs. framable c"
    and "pk @ readable (rcvBuf c) @ incoming as @ future = stream cs"
    and "length q + length cs \<le> recvQueue_max"
  shows "\<exists>res as' pk' c' cs1 cs2. readLoop as r pk c q = Some (res, as', pk', c', q @ delivered r cs1)
    \<and> cs = cs1 @ cs2 \<and> \<not> tcp_complete pk' \<and> undelivered res as' pk' c' @ future = stream cs2
    \<and> (res = None \<longrightarrow> readable (rcvBuf c') = [] \<or> length pk' + length (readable (rcvBuf c')) < 4)"
  using assms by (rule readLoop_stream)

theorem receive_reassembles_witness:
  "\<exists>res as' pk' c' cs1 cs2. readLoop [RBytes [1, 0, 0], RBytes [0, 65, 0, 0, 0]] 7 [] bufConn_new []
      = Some (res, as', pk', c', delivered 7 cs1)
    \<and> [[65], []] = cs1 @ cs2 \<and> \<not> tcp_complete pk' \<and> undelivered res as' pk' c' @ [0] = stream cs2
    \<and> (res = None \<longrightarrow> readable (rcvBuf c') = [] \<or> length pk' + length (readable (rcvBuf c')) < 4)"
proof -
  have "conn_ok bufConn_new" by (simp add: conn_ok_def bufConn_new_def)
  moreover have "\<forall>c \<in> set [[65], []]. framable c" by (simp add: framable_def u32_mod_def)
  moreover have "[] @ readable (rcvBuf bufConn_new) @ incoming [RBytes [1, 0, 0], RBytes [0, 65, 0, 0, 0]] @ [0]
    = stream [[65], []]"
    by (simp add: bufConn_new_def frame_def le32_def)
  ultimately show ?thesis
    using receive_reassembles [of bufConn_new "[]" "[[65], []]" _ "[0]" "[]" 7]
    by (fastforce simp: recvQueue_max_def)
qed

end
