(* ===== verification/ConnSend.thy ===== *)
theory ConnSend
  imports ConnReceive
begin

text \<open>
  The sending side of the connection manager: the loop of the write event ends and sends
  the queue in order; what one call of \<open>sendPacket\<close> adds to the byte stream of a connection.
\<close>

section \<open>Writing into the send buffer\<close>

lemma put_ok:
  assumes "conn_ok c" and "writeable n (sndBuf c) = (b, off, room)" and "length d \<le> room"
  obtains b' where "commitWrite (length d) (fill off d b) = (b', True)"
    "conn_ok (c\<lparr>sndBuf := b'\<rparr>)" "readable b' = readable (sndBuf c) @ d"
    "capacity b' = capacity (sndBuf c)"
    "outgoing (c\<lparr>sndBuf := b'\<rparr>) = outgoing c @ d"
proof -
  have ok: "cbuf_ok (sndBuf c)" using assms(1) by (simp add: conn_ok_def)
  note wo = writeable_ok [OF ok assms(2)]
  obtain b' where b': "commitWrite (length d) (fill off d b) = (b', True)" "cbuf_ok b'"
    "readable b' = readable b @ d" "capacity b' = capacity b"
    using fill_commit [OF wo(1,4), of d] wo(3,5) assms(3) by auto
  then show thesis
    using assms(1) wo by (intro that [of b']) (auto simp: conn_ok_def outgoing_def)
qed

lemma moved_ok:
  assumes "conn_ok c" and "writeable n (sndBuf c) = (b, off, room)"
  shows "conn_ok (c\<lparr>sndBuf := b\<rparr>)" "outgoing (c\<lparr>sndBuf := b\<rparr>) = outgoing c"
  using assms writeable_ok [OF _ assms(2)] by (auto simp: conn_ok_def outgoing_def)

section \<open>The loop of the write event\<close>

definition weight :: "packet list \<Rightarrow> nat list \<Rightarrow> nat" where
  "weight ps q = sum_list (map (\<lambda>p. length (ps ! p) + 1) q)"

definition queued :: "packet list \<Rightarrow> nat list \<Rightarrow> bytes" where
  "queued ps q = concat (map ((!) ps) q)"

lemma weight_simps [simp]: "weight ps [] = 0" "weight ps (p # q) = length (ps ! p) + 1 + weight ps q"
  by (simp_all add: weight_def)

lemma queued_simps [simp]: "queued ps [] = []" "queued ps (p # q) = ps ! p @ queued ps q"
  by (simp_all add: queued_def)

lemma weight_update_le: "p < length ps \<Longrightarrow> weight (ps[p := drop n (ps ! p)]) q \<le> weight ps q"
proof (induction q)
  case (Cons x q)
  then show ?case by (cases "x = p") auto
qed simp

lemma queued_update: "p \<notin> set q \<Longrightarrow> queued (ps[p := x]) q = queued ps q"
  by (induction q) auto

lemma refill_ok:
  "conn_ok c \<Longrightarrow> \<forall>p \<in> set q. p < length ps \<Longrightarrow> refill ps q c = (ps', q', c') \<Longrightarrow>
    conn_ok c' \<and> weight ps' q' \<le> weight ps q \<and> length ps' = length ps \<and> set q' \<subseteq> set q
    \<and> (q \<noteq> [] \<and> readable (sndBuf c) = [] \<longrightarrow> weight ps' q' < weight ps q)
    \<and> (distinct q \<longrightarrow> distinct q' \<and> outgoing c' @ queued ps' q' = outgoing c @ queued ps q)"
proof (induction ps q c arbitrary: ps' q' c' rule: refill.induct)
  case (1 ps c)
  then show ?case by auto
next
  case (2 ps p q c)
  obtain b off room where w: "writeable (length (ps ! p)) (sndBuf c) = (b, off, room)" by (metis prod_cases3)
  have ok: "cbuf_ok (sndBuf c)" "0 < capacity (sndBuf c)" using "2.prems"(1) by (auto simp: conn_ok_def)
  show ?case
  proof (cases "room = 0")
    case True
    then show ?thesis
      using "2.prems" w moved_ok [OF "2.prems"(1) w] writeable_ok(6) [OF ok(1) w] ok(2) by auto
  next
    case False
    let ?d = "take room (ps ! p)"
    obtain b' where b': "commitWrite (length ?d) (fill off ?d b) = (b', True)" "conn_ok (c\<lparr>sndBuf := b'\<rparr>)"
      "outgoing (c\<lparr>sndBuf := b'\<rparr>) = outgoing c @ ?d"
      using put_ok [OF "2.prems"(1) w, of ?d] by auto
    show ?thesis
    proof (cases "length ?d < length (ps ! p)")
      case True
      then have r: "ps' = ps[p := drop room (ps ! p)]" "q' = p # q" "c' = c\<lparr>sndBuf := b'\<rparr>"
        using "2.prems"(3) w b' False by (auto simp: Let_def min_def split: if_splits)
      have p: "p < length ps" using "2.prems"(2) by simp
      have "weight ps' q' < weight ps (p # q)"
        using r p True False weight_update_le [OF p, of room q] by auto
      then show ?thesis
        using r b' p queued_update [of p q ps] by auto
    next
      case whole: False
      then have "refill ps q (c\<lparr>sndBuf := b'\<rparr>) = (ps', q', c')" and d: "?d = ps ! p"
        using "2.prems"(3) w b' False by (auto simp: Let_def)
      then have "conn_ok c' \<and> weight ps' q' \<le> weight ps q \<and> length ps' = length ps \<and> set q' \<subseteq> set q
        \<and> (distinct q \<longrightarrow> distinct q' \<and> outgoing c' @ queued ps' q' = outgoing (c\<lparr>sndBuf := b'\<rparr>) @ queued ps q)"
        using "2.IH" [of "(b, off, room)" b "(off, room)" off room ?d b' ps' q' c'] w False whole b'(1,2) "2.prems"(2)
        by simp
      then show ?thesis using b'(3) d by auto
    qed
  qed
qed

lemma writeLoop_ok:
  "conn_ok c \<Longrightarrow> \<forall>p \<in> set q. p < length ps \<Longrightarrow>
    \<exists>res ps' q' c'. writeLoop as ps q c = Some (res, ps', q', c') \<and> conn_ok c' \<and> length ps' = length ps
      \<and> set q' \<subseteq> set q \<and> (distinct q \<longrightarrow> distinct q' \<and> outgoing c' @ queued ps' q' = outgoing c @ queued ps q)
      \<and> (res = Inr True \<longrightarrow> q' = [] \<and> readable (sndBuf c') = [])"
proof (induction "weight ps q" arbitrary: as ps q c rule: less_induct)
  case less
  obtain res as1 c1 where ts: "trySend as c = (res, as1, c1)" by (metis prod_cases3)
  note ok = trySend_ok [OF less.prems(1) ts]
  show ?case
  proof (cases "res = Inr True \<and> q \<noteq> []")
    case False
    then show ?thesis
      using ts ok less.prems(2) by (subst writeLoop.simps) (auto split: sum.split)
  next
    case True
    obtain ps1 q1 c2 where rf: "refill ps q c1 = (ps1, q1, c2)" by (metis prod_cases3)
    have "readable (sndBuf c1) = []" using ok(6) [of True] True by simp
    with refill_ok [OF ok(1) less.prems(2) rf] True
    have rok: "conn_ok c2" "weight ps1 q1 < weight ps q" "length ps1 = length ps" "set q1 \<subseteq> set q"
      "distinct q \<longrightarrow> distinct q1 \<and> outgoing c2 @ queued ps1 q1 = outgoing c @ queued ps q"
      using ok(2) by auto
    have "writeLoop as ps q c = writeLoop as1 ps1 q1 c2"
      using ts True rf by (subst writeLoop.simps) simp
    moreover have "\<forall>p \<in> set q1. p < length ps1" using rok(3,4) less.prems(2) by auto
    from less.hyps [OF rok(2,1) this, of as1]
    obtain r' ps' q' c' where "writeLoop as1 ps1 q1 c2 = Some (r', ps', q', c') \<and> conn_ok c' \<and> length ps' = length ps1
      \<and> set q' \<subseteq> set q1 \<and> (distinct q1 \<longrightarrow> distinct q' \<and> outgoing c' @ queued ps' q' = outgoing c2 @ queued ps1 q1)
      \<and> (r' = Inr True \<longrightarrow> q' = [] \<and> readable (sndBuf c') = [])" by blast
    ultimately show ?thesis using rok(3-5) by auto
  qed
qed

section \<open>The handler returns\<close>

definition mgr_ok :: "connMgr \<Rightarrow> bool" where
  "mgr_ok m \<longleftrightarrow>
     (\<forall>h \<in> set (holders m). conn_ok (h_conn h) \<and> (\<forall>p \<in> set (h_sendQueue h). p < length (packets m)))
     \<and> (\<forall>(fd, r) \<in> set (allConns m). r < length (holders m))"

lemma mgr_ok_holder:
  assumes "mgr_ok m" and "r < length (holders m)"
  shows "conn_ok (h_conn (holders m ! r))" "\<forall>p \<in> set (h_sendQueue (holders m ! r)). p < length (packets m)"
  using assms by (auto simp: mgr_ok_def)

lemma mgr_ok_update:
  assumes "mgr_ok m" and "conn_ok (h_conn h)" and "\<forall>p \<in> set (h_sendQueue h). p < length ps"
    and "length ps = length (packets m)"
  shows "mgr_ok ((setHolder r h m)\<lparr>packets := ps\<rparr>)"
proof -
  have "x = h \<or> x \<in> set (holders m)" if "x \<in> set ((holders m)[r := h])" for x
    using that set_update_subset_insert by fastforce
  then show ?thesis using assms by (fastforce simp: mgr_ok_def setHolder_def)
qed

lemma mgr_ok_setHolder:
  assumes "mgr_ok m" and "conn_ok (h_conn h)" and "\<forall>p \<in> set (h_sendQueue h). p < length (packets m)"
  shows "mgr_ok (setHolder r h m)"
  using mgr_ok_update [OF assms refl] by (simp add: setHolder_def)

lemma mgr_ok_frame [simp]:
  "mgr_ok (m\<lparr>epoll := e\<rparr>) = mgr_ok m" "mgr_ok (m\<lparr>recvQueue := q\<rparr>) = mgr_ok m"
  "mgr_ok (m\<lparr>raised := l\<rparr>) = mgr_ok m" "mgr_ok (m\<lparr>publicConns := pu\<rparr>) = mgr_ok m"
  "mgr_ok (m\<lparr>privateConns := pr\<rparr>) = mgr_ok m"
  by (simp_all add: mgr_ok_def)

lemma erase_frame [simp]:
  "holders (eraseConnection fd m) = holders m" "packets (eraseConnection fd m) = packets m"
  by (simp_all add: eraseConnection_def Let_def split: option.split)

lemma set_allConns_erase: "set (allConns (eraseConnection fd m)) \<subseteq> set (allConns m)"
  by (auto simp: eraseConnection_def Let_def AList.delete_eq split: option.split)

lemma mgr_ok_erase:
  assumes "mgr_ok m"
  shows "mgr_ok (eraseConnection fd m)"
  using assms set_allConns_erase [of fd m] by (fastforce simp: mgr_ok_def)

lemma mgr_ok_close:
  assumes "mgr_ok m" and "r < length (holders m)"
  shows "mgr_ok (closeConn r (eraseConnection fd m))"
  using mgr_ok_setHolder [OF mgr_ok_erase [OF assms(1)], of "(holders m ! r)\<lparr>h_closed := True\<rparr>" fd r]
    mgr_ok_holder [OF assms] by (simp add: closeConn_def)

lemma handler_ok:
  assumes "mgr_ok m"
  shows "\<exists>m'. epollerEventHandler fd ev m = Some m' \<and> mgr_ok m'"
proof (cases "map_of (allConns m) fd")
  case None
  then show ?thesis using assms by (simp add: epollerEventHandler_def)
next
  case (Some r)
  then have r: "r < length (holders m)" using assms map_of_SomeD by (fastforce simp: mgr_ok_def)
  let ?h = "holders m ! r"
  note h = mgr_ok_holder [OF assms r]
  show ?thesis
  proof (cases ev)
    case (EvRead as)
    obtain res as' pk c q where
      rl: "readLoop as r (h_recvPacket ?h) (h_conn ?h) (recvQueue m) = Some (res, as', pk, c, q)" "conn_ok c"
      using readLoop_returns [OF h(1)] by blast
    let ?m = "(setHolder r (?h\<lparr>h_recvPacket := pk, h_conn := c\<rparr>) m)\<lparr>recvQueue := q\<rparr>"
    have "mgr_ok ?m" using mgr_ok_setHolder [OF assms, of "?h\<lparr>h_recvPacket := pk, h_conn := c\<rparr>"] rl(2) h(2) by simp
    moreover have "r < length (holders ?m)" using r by (simp add: setHolder_def)
    ultimately show ?thesis
      using Some EvRead rl mgr_ok_close [of ?m r fd] assms by (simp add: epollerEventHandler_def Let_def)
  next
    case (EvWrite as)
    obtain res ps q c where
      wl: "writeLoop as (packets m) (h_sendQueue ?h) (h_conn ?h) = Some (res, ps, q, c)" "conn_ok c"
        "length ps = length (packets m)" "set q \<subseteq> set (h_sendQueue ?h)"
      using writeLoop_ok [OF h] by blast
    let ?m = "(setHolder r (?h\<lparr>h_sendQueue := q, h_conn := c\<rparr>) m)\<lparr>packets := ps\<rparr>"
    have "mgr_ok ?m" using wl h(2) by (intro mgr_ok_update assms) auto
    moreover have "r < length (holders ?m)" using r by (simp add: setHolder_def)
    ultimately show ?thesis
      using Some EvWrite wl mgr_ok_close [of ?m r fd]
      by (simp add: epollerEventHandler_def Let_def modifyWatch_def split: sum.split)
  next
    case EvError
    then show ?thesis using Some mgr_ok_close [OF assms r] by (simp add: epollerEventHandler_def)
  qed
qed

text \<open>C29: Every socket event is handled in finitely many steps: the loop of the read event
  and the two nested loops of the write event end whatever the peer sends and however
  little the socket takes, and leave the buffers and queues of every connection sound.\<close>

theorem event_handler_returns:
  assumes "mgr_ok m"
  shows "\<exists>m'. epollerEventHandler fd ev m = Some m' \<and> mgr_ok m'"
  using assms by (rule handler_ok)

theorem event_handler_returns_witness:
  "\<exists>m'. epollerEventHandler 5 (EvRead [RBytes [0, 0, 0, 0], RBytes []])
      (fst (addPublicConnection True 5 bufConn_new 65536 connMgr_init)) = Some m' \<and> mgr_ok m'"
proof (rule event_handler_returns)
  have "conn_ok bufConn_new" by (simp add: conn_ok_def bufConn_new_def)
  then show "mgr_ok (fst (addPublicConnection True 5 bufConn_new 65536 connMgr_init))"
    by (simp add: addPublicConnection_def connMgr_init_def map_insert_def mgr_ok_def newHolder_def)
qed

section \<open>One packet\<close>

text \<open>What a connection has been given to send, the queue included.\<close>

definition pending :: "connMgr \<Rightarrow> nat \<Rightarrow> bytes" where
  "pending m r = outgoing (h_conn (holders m ! r)) @ queued (packets m) (h_sendQueue (holders m ! r))"

text \<open>The connection after the packet has been copied into its send buffer.\<close>

definition loaded :: "bufConn \<Rightarrow> bytes \<Rightarrow> bufConn" where
  "loaded c d =
     (let (b, off, room) = writeable (length d) (sndBuf c)
      in c\<lparr>sndBuf := fst (commitWrite (length d) (fill off d b))\<rparr>)"

text \<open>The bytes behind the data in the buffer, as many as the packet has, if there is room for them.\<close>

definition stale :: "cbuf \<Rightarrow> nat \<Rightarrow> bytes" where
  "stale b n = (if dataEnd b + n \<le> capacity b then take n (drop (dataEnd b) (m_buf b)) else [])"

lemma trySend_busy:
  assumes "conn_ok c" and "trySend as c = (Inr False, as', c')"
  shows "m_buf (sndBuf c') = m_buf (sndBuf c)" "dataEnd (sndBuf c') = dataEnd (sndBuf c)"
proof -
  let ?b = "sndBuf c"
  have "m_buf (sndBuf c') = m_buf ?b \<and> dataEnd (sndBuf c') = dataEnd ?b"
  proof (cases "\<exists>k as1. as = SAccept k # as1 \<and> readable ?b \<noteq> []")
    case True
    then obtain k as1 where as: "as = SAccept k # as1" "readable ?b \<noteq> []" by blast
    let ?b' = "fst (commitRead (min k (length (readable ?b))) ?b)"
    have "sndBuf c' = ?b'" and ne: "\<not> cbuf_empty ?b'"
      using assms(2) as by (auto simp: trySend.simps Let_def)
    then show ?thesis
      using ne by (auto simp: commitRead_def cbuf_empty_def Let_def split: if_splits)
  next
    case False
    then show ?thesis
      using assms(2) by (auto simp: trySend.simps split: if_splits list.splits sendAns.splits)
  qed
  then show "m_buf (sndBuf c') = m_buf ?b" "dataEnd (sndBuf c') = dataEnd ?b" by auto
qed

lemma mem_write_same:
  assumes "take (length d) (drop off m) = d"
  shows "mem_write off d m = m"
proof -
  have "drop off m = d @ drop (off + length d) m"
    using assms by (metis append_take_drop_id drop_drop add.commute)
  then show ?thesis by (metis append_take_drop_id mem_write_def)
qed

lemma mem_write_at:
  assumes "off + length d \<le> length m"
  shows "take (length d) (drop off (mem_write off d m)) = d"
  using assms by (simp add: mem_write_def)

text \<open>Writing a packet a second time to where it has been written before.\<close>

lemma write_again:
  assumes "cbuf_ok b" and "take (length d) (drop off (m_buf b)) = d"
  shows "readable (fst (commitWrite (length d) (fill off d b))) = readable b @ stale b (length d)"
proof -
  have f: "fill off d b = b" using mem_write_same [OF assms(2)] by (simp add: fill_def)
  show ?thesis
  proof (cases "dataEnd b + length d \<le> capacity b")
    case True
    then have "take (dataEnd b + length d - dataBegin b) (drop (dataBegin b) (m_buf b))
      = readable b @ take (length d) (drop (dataEnd b) (m_buf b))"
      using assms(1) take_add [of "dataEnd b - dataBegin b" "length d" "drop (dataBegin b) (m_buf b)"]
      by (simp add: cbuf_ok_def readable_def)
    then show ?thesis
      using True f by (simp add: commitWrite_def capacity_def readable_def stale_def)
  next
    case False
    then show ?thesis using f assms(1) by (auto simp: commitWrite_def capacity_def stale_def cbuf_ok_def)
  qed
qed

lemma queueRest_pending:
  assumes "r < length (holders m)" and "p < length (packets m)" and "h_sendQueue (holders m ! r) = []"
  shows "pending (snd (queueRest off room r p c m)) r =
    wire c @ readable (fst (commitWrite (length (take room (packets m ! p))) (fill off (take room (packets m ! p)) (sndBuf c))))
      @ drop room (packets m ! p)"
  using assms by (simp add: queueRest_def pending_def setHolder_def Let_def outgoing_def min_def modifyWatch_def)

lemma loaded_ok:
  assumes "conn_ok c" and "writeable (length d) (sndBuf c) = (b, off, room)" and "length d \<le> room"
  shows "conn_ok (loaded c d)" "outgoing (loaded c d) = outgoing c @ d"
    "take (length d) (drop off (m_buf (sndBuf (loaded c d)))) = d"
proof -
  have ok: "cbuf_ok (sndBuf c)" using assms(1) by (simp add: conn_ok_def)
  note wo = writeable_ok [OF ok assms(2)]
  obtain b' where b': "commitWrite (length d) (fill off d b) = (b', True)"
    "conn_ok (c\<lparr>sndBuf := b'\<rparr>)" "outgoing (c\<lparr>sndBuf := b'\<rparr>) = outgoing c @ d"
    using put_ok [OF assms] by blast
  then have l: "loaded c d = c\<lparr>sndBuf := b'\<rparr>" by (simp add: loaded_def assms(2))
  show "conn_ok (loaded c d)" "outgoing (loaded c d) = outgoing c @ d" using l b' by simp_all
  have "m_buf b' = mem_write off d (m_buf b)"
    using b'(1) by (auto simp: commitWrite_def fill_def split: if_splits)
  moreover have "off + length d \<le> length (m_buf b)" using wo(3,5) assms(3) by (simp add: capacity_def)
  ultimately show "take (length d) (drop off (m_buf (sndBuf (loaded c d)))) = d"
    using l mem_write_at by simp
qed

lemma sendPacket_fits:
  assumes "conn_ok (h_conn h)" and "h = holders m ! r" and "h_sendQueue h = []" and "d = packets m ! p"
    and "r < length (holders m)" and "p < length (packets m)"
    and "length d \<le> capacity (sndBuf (h_conn h)) - length (readable (sndBuf (h_conn h)))"
    and "trySend as (loaded (h_conn h) d) = (res, as', c')"
  shows "pending (snd (sendPacket as r p m)) r = pending m r @ d
    @ (if res = Inr False then stale (sndBuf (loaded (h_conn h) d)) (length d) else [])"
proof -
  let ?c = "h_conn h"
  obtain b off room where w: "writeable (length d) (sndBuf ?c) = (b, off, room)" by (metis prod_cases3)
  have ok: "cbuf_ok (sndBuf ?c)" using assms(1) by (simp add: conn_ok_def)
  note wo = writeable_ok [OF ok w]
  have fits: "length d \<le> room" using wo(7) assms(7) by simp
  note lo = loaded_ok [OF assms(1) w fits]
  note ts = trySend_ok [OF lo(1) assms(8)]
  have ld: "loaded ?c d = ?c\<lparr>sndBuf := fst (commitWrite (length d) (fill off (take room d) b))\<rparr>"
    using fits by (simp add: loaded_def w)
  have old: "pending m r = outgoing ?c" using assms(2,3) by (simp add: pending_def)
  show ?thesis
  proof (cases "res = Inr False")
    case False
    then have "snd (sendPacket as r p m) = setHolder r (h\<lparr>h_conn := c'\<rparr>) m"
      using assms(2-4,8) w fits ld by (auto simp: sendPacket_def Let_def split: sum.split)
    then show ?thesis
      using False old ts(2) lo(2) assms(3,5) by (simp add: pending_def setHolder_def)
  next
    case True
    then have "snd (sendPacket as r p m) = snd (queueRest off room r p c' m)"
      using assms(2-4,8) w fits ld by (simp add: sendPacket_def Let_def)
    moreover have "take room d = d" "drop room d = []" using fits by simp_all
    ultimately have "pending (snd (sendPacket as r p m)) r
      = wire c' @ readable (fst (commitWrite (length d) (fill off d (sndBuf c'))))"
      using queueRest_pending [OF assms(5,6)] assms(2-4) by simp
    also have "readable (fst (commitWrite (length d) (fill off d (sndBuf c'))))
      = readable (sndBuf c') @ stale (sndBuf c') (length d)"
      using trySend_busy [OF lo(1) assms(8) [unfolded True]] lo(3) ts(1)
      by (intro write_again) (auto simp: conn_ok_def)
    also have "stale (sndBuf c') (length d) = stale (sndBuf (loaded ?c d)) (length d)"
      using trySend_busy [OF lo(1) assms(8) [unfolded True]] by (simp add: stale_def capacity_def)
    finally show ?thesis using True old ts(2) lo(2) by (simp add: outgoing_def)
  qed
qed

lemma sendPacket_overflow:
  assumes "conn_ok (h_conn h)" and "h = holders m ! r" and "h_sendQueue h = []" and "d = packets m ! p"
    and "r < length (holders m)" and "p < length (packets m)"
    and "capacity (sndBuf (h_conn h)) - length (readable (sndBuf (h_conn h))) < length d"
  shows "pending (snd (sendPacket as r p m)) r = pending m r @ d"
proof -
  let ?c = "h_conn h"
  obtain b off room where w: "writeable (length d) (sndBuf ?c) = (b, off, room)" by (metis prod_cases3)
  have ok: "cbuf_ok (sndBuf ?c)" using assms(1) by (simp add: conn_ok_def)
  have nofit: "\<not> length d \<le> room" using writeable_ok(7) [OF ok w] assms(7) by simp
  then have "snd (sendPacket as r p m) = snd (queueRest off room r p (?c\<lparr>sndBuf := b\<rparr>) m)"
    using assms(2-4) w by (simp add: sendPacket_def Let_def)
  moreover have "length (take room d) \<le> room" by simp
  from put_ok [OF assms(1) w this] obtain b' where
    "commitWrite (length (take room d)) (fill off (take room d) b) = (b', True)"
    "outgoing (?c\<lparr>sndBuf := b'\<rparr>) = outgoing ?c @ take room d" by blast
  ultimately show ?thesis
    using queueRest_pending [OF assms(5,6)] assms(2-4)
    by (simp add: pending_def outgoing_def)
qed

lemma sendPacket_queued:
  assumes "h = holders m ! r" and "h_sendQueue h \<noteq> []" and "r < length (holders m)"
  shows "pending (snd (sendPacket as r p m)) r
    = pending m r @ (if 512 < length (h_sendQueue h) then [] else packets m ! p)"
proof -
  have "queued (packets m) (h_sendQueue h @ [p]) = queued (packets m) (h_sendQueue h) @ packets m ! p"
    by (simp add: queued_def)
  then show ?thesis using assms by (auto simp: sendPacket_def pending_def setHolder_def Let_def)
qed

text \<open>C27: What \<open>sendPacket\<close> adds to the stream of a connection. A packet that has to queue
  behind others, or that the buffer cannot take whole, is added as it is; a queue of more
  than 512 packets refuses it. A packet that fits into the buffer is followed by stale bytes
  of the buffer, as many as it has itself, when the socket does not at once take all there
  is: it is copied and committed a second time. Only when the buffer has no room for them
  is the stream right.\<close>

theorem sendPacket_stream:
  assumes "mgr_ok m" and "r < length (holders m)" and "p < length (packets m)"
    and "h = holders m ! r" and "d = packets m ! p"
    and "trySend as (loaded (h_conn h) d) = (res, as', c')"
  shows "pending (snd (sendPacket as r p m)) r = pending m r
    @ (if h_sendQueue h \<noteq> [] then (if 512 < length (h_sendQueue h) then [] else d)
       else if length d \<le> capacity (sndBuf (h_conn h)) - length (readable (sndBuf (h_conn h))) \<and> res = Inr False
       then d @ stale (sndBuf (loaded (h_conn h) d)) (length d) else d)"
proof -
  have ok: "conn_ok (h_conn h)" using mgr_ok_holder(1) [OF assms(1,2)] assms(4) by simp
  consider "h_sendQueue h \<noteq> []"
    | "h_sendQueue h = []" "length d \<le> capacity (sndBuf (h_conn h)) - length (readable (sndBuf (h_conn h)))"
    | "h_sendQueue h = []" "capacity (sndBuf (h_conn h)) - length (readable (sndBuf (h_conn h))) < length d"
    by linarith
  then show ?thesis
  proof cases
    case 1
    then show ?thesis using sendPacket_queued [OF assms(4) 1 assms(2)] assms(5) by simp
  next
    case 2
    then show ?thesis using sendPacket_fits [OF ok assms(4) 2(1) assms(5,2,3) 2(2) assms(6)] by simp
  next
    case 3
    then show ?thesis using sendPacket_overflow [OF ok assms(4) 3(1) assms(5,2,3) 3(2)] by simp
  qed
qed

lemma stale_of_fresh:
  assumes "2 * length d \<le> 2048" and "d \<noteq> []"
  shows "trySend [] (loaded bufConn_new d) = (Inr False, [], loaded bufConn_new d)"
    and "stale (sndBuf (loaded bufConn_new d)) (length d) = replicate (length d) 0"
proof -
  have "sndBuf (loaded bufConn_new d) =
    \<lparr>m_buf = d @ replicate (2048 - length d) 0, dataBegin = 0, dataEnd = length d\<rparr>"
    using assms by (simp add: loaded_def bufConn_new_def writeable_def ConnectionBuffer_def commitWrite_def
        fill_def mem_write_def)
  then show "stale (sndBuf (loaded bufConn_new d)) (length d) = replicate (length d) 0"
    "trySend [] (loaded bufConn_new d) = (Inr False, [], loaded bufConn_new d)"
    using assms by (simp_all add: stale_def capacity_def trySend.simps readable_def min_def)
qed

theorem sendPacket_stream_witness:
  "pending (snd (sendPacket [] 0 0 ((fst (addPublicConnection True 5 bufConn_new 65536 connMgr_init))
     \<lparr>packets := [[1, 2, 3]]\<rparr>))) 0 = [1, 2, 3, 0, 0, 0]"
proof -
  let ?m = "(fst (addPublicConnection True 5 bufConn_new 65536 connMgr_init))\<lparr>packets := [[1, 2, 3]]\<rparr>"
  let ?h = "newHolder False 65536 5 bufConn_new"
  have h: "holders ?m = [?h]" "allConns ?m = [(5, 0)]"
    by (simp_all add: addPublicConnection_def connMgr_init_def map_insert_def)
  have "conn_ok bufConn_new" by (simp add: conn_ok_def bufConn_new_def)
  then have "mgr_ok ?m" using h by (simp add: mgr_ok_def newHolder_def)
  moreover have "0 < length (holders ?m)" "0 < length (packets ?m)" "?h = holders ?m ! 0" "[1, 2, 3] = packets ?m ! 0"
    using h by simp_all
  moreover have "trySend [] (loaded (h_conn ?h) [1, 2, 3]) = (Inr False, [], loaded bufConn_new [1, 2, 3])"
    using stale_of_fresh(1) [of "[1, 2, 3]"] by (simp add: newHolder_def)
  ultimately have "pending (snd (sendPacket [] 0 0 ?m)) 0 = pending ?m 0
    @ (if h_sendQueue ?h \<noteq> [] then (if 512 < length (h_sendQueue ?h) then [] else [1, 2, 3])
       else if length [1, 2, 3 :: u8] \<le> capacity (sndBuf (h_conn ?h)) - length (readable (sndBuf (h_conn ?h)))
         \<and> (Inr False :: netFault + bool) = Inr False
       then [1, 2, 3] @ stale (sndBuf (loaded (h_conn ?h) [1, 2, 3])) (length [1, 2, 3 :: u8]) else [1, 2, 3])"
    by (rule sendPacket_stream)
  moreover have "pending ?m 0 = []"
    using h by (simp add: pending_def newHolder_def outgoing_def bufConn_new_def)
  moreover have "stale (sndBuf (loaded bufConn_new [1, 2, 3])) (length [1, 2, 3 :: u8]) = replicate (length [1, 2, 3 :: u8]) 0"
    by (rule stale_of_fresh(2)) simp_all
  ultimately show ?thesis by (simp add: newHolder_def bufConn_new_def)
qed

text \<open>A packet that is sent to many is one object: what the first connection takes of it is
  gone for the others.\<close>

lemma broadcast_shares_packet:
  assumes "r < length (holders m)" and "p < length (packets m)" and "h_sendQueue (holders m ! r) = []"
    and "writeable (length (packets m ! p)) (sndBuf (h_conn (holders m ! r))) = (b, off, room)"
    and "room < length (packets m ! p)"
  shows "packets (snd (sendPacket as r p m)) ! p = drop room (packets m ! p)"
  using assms by (simp add: sendPacket_def queueRest_def setHolder_def Let_def min_def modifyWatch_def)

end
