(* ===== verification/ConnIndex.thy ===== *)
theory ConnIndex
  imports ConnSend
begin

text \<open>
  The three indices of the connection manager agree: a holder is reached by its socket
  exactly when it is reached by its process or by its client.
\<close>

section \<open>Identities of the two kinds\<close>

lemma pid_value_small:
  assumes "pid_small p"
  shows "(ucast (pid_value p) :: u64) < 65536"
proof -
  have t: "8 \<le> n \<Longrightarrow> \<not> bit (pid_type p) n" and u: "8 \<le> n \<Longrightarrow> \<not> bit (pid_num p) n" for n
    using assms by (auto simp: pid_small_def dest: less256_bit)
  have "(ucast (pid_value p) :: u64) AND mask 16 = ucast (pid_value p)"
  proof (rule bit_word_eqI)
    fix n
    show "bit ((ucast (pid_value p) :: u64) AND mask 16) n \<longleftrightarrow> bit (ucast (pid_value p) :: u64) n"
      by (cases "n < 16") (auto simp: pid_value_def bit_simps t u)
  qed
  then show ?thesis using and_mask_less' [of 16 "ucast (pid_value p) :: u64"] by simp
qed

lemma ucast_back [simp]: "(ucast (ucast (v :: u32) :: u64) :: u32) = v"
  by (rule bit_word_eqI) (auto simp: bit_simps)

lemma pid_of_id: "pid_small p \<Longrightarrow> pid_setValue (ucast (ucast (pid_value p) :: u64)) = p"
  by (simp add: setValue_value_bits)

section \<open>The indices\<close>

definition private_at :: "connMgr \<Rightarrow> processId \<Rightarrow> nat option" where
  "private_at m p = map_of (privateOfType m (pid_type p)) (pid_num p)"

text \<open>What the indices say of a holder: whether it is a process's, the identity, the socket.\<close>

definition hview :: "connMgr \<Rightarrow> nat \<Rightarrow> (bool \<times> u64 \<times> int) option" where
  "hview m r = (if r < length (holders m)
     then Some (h_private (holders m ! r), h_id (holders m ! r), h_fd (holders m ! r)) else None)"

definition links ::
  "(int \<rightharpoonup> nat) \<Rightarrow> (u64 \<rightharpoonup> nat) \<Rightarrow> (processId \<rightharpoonup> nat) \<Rightarrow> (nat \<rightharpoonup> bool \<times> u64 \<times> int) \<Rightarrow> bool" where
  "links A P Q V \<longleftrightarrow>
     (\<forall>fd r. A fd = Some r \<longrightarrow>
        (\<exists>i. V r = Some (False, i, fd) \<and> 65536 \<le> i \<and> P i = Some r) \<or>
        (\<exists>p. V r = Some (True, ucast (pid_value p), fd) \<and> pid_small p \<and> Q p = Some r))
     \<and> (\<forall>i r. P i = Some r \<longrightarrow> 65536 \<le> i \<and> (\<exists>fd. V r = Some (False, i, fd) \<and> A fd = Some r))
     \<and> (\<forall>p r. Q p = Some r \<longrightarrow> pid_small p \<and>
        (\<exists>fd. V r = Some (True, ucast (pid_value p), fd) \<and> A fd = Some r))"

definition index_ok :: "connMgr \<Rightarrow> bool" where
  "index_ok m \<longleftrightarrow> links (map_of (allConns m)) (map_of (publicConns m)) (private_at m) (hview m)"

lemma index_ok_init: "index_ok connMgr_init"
  by (simp add: index_ok_def links_def connMgr_init_def private_at_def privateOfType_def)

lemma links_all:
  "links A P Q V \<Longrightarrow> A fd = Some r \<Longrightarrow>
    (\<exists>i. V r = Some (False, i, fd) \<and> 65536 \<le> i \<and> P i = Some r) \<or>
    (\<exists>p. V r = Some (True, ucast (pid_value p), fd) \<and> pid_small p \<and> Q p = Some r)"
  unfolding links_def by blast

lemma links_pub:
  "links A P Q V \<Longrightarrow> P i = Some r \<Longrightarrow> 65536 \<le> i \<and> (\<exists>fd. V r = Some (False, i, fd) \<and> A fd = Some r)"
  unfolding links_def by blast

lemma links_priv:
  "links A P Q V \<Longrightarrow> Q p = Some r \<Longrightarrow>
    pid_small p \<and> (\<exists>fd. V r = Some (True, ucast (pid_value p), fd) \<and> A fd = Some r)"
  unfolding links_def by blast

lemma linksI:
  assumes "\<And>fd r. A fd = Some r \<Longrightarrow>
      (\<exists>i. V r = Some (False, i, fd) \<and> 65536 \<le> i \<and> P i = Some r) \<or>
      (\<exists>p. V r = Some (True, ucast (pid_value p), fd) \<and> pid_small p \<and> Q p = Some r)"
    and "\<And>i r. P i = Some r \<Longrightarrow> 65536 \<le> i \<and> (\<exists>fd. V r = Some (False, i, fd) \<and> A fd = Some r)"
    and "\<And>p r. Q p = Some r \<Longrightarrow>
      pid_small p \<and> (\<exists>fd. V r = Some (True, ucast (pid_value p), fd) \<and> A fd = Some r)"
  shows "links A P Q V"
  using assms unfolding links_def by blast

lemma links_view:
  assumes "links A P Q V" and "V \<subseteq>\<^sub>m V'"
  shows "links A P Q V'"
proof -
  have v: "V r = Some x \<Longrightarrow> V' r = Some x" for r x using assms(2) by (metis domI map_le_def)
  show ?thesis
    using links_all [OF assms(1)] links_pub [OF assms(1)] links_priv [OF assms(1)] v
    by (intro linksI) blast+
qed

lemma links_addP:
  assumes "links A P Q V" and "A fd = None" and "P i = None" and "V r = Some (False, i, fd)" and "65536 \<le> i"
  shows "links (A(fd \<mapsto> r)) (P(i \<mapsto> r)) Q V"
proof (rule linksI)
  fix fd' r' assume "(A(fd \<mapsto> r)) fd' = Some r'"
  then show "(\<exists>i'. V r' = Some (False, i', fd') \<and> 65536 \<le> i' \<and> (P(i \<mapsto> r)) i' = Some r') \<or>
      (\<exists>p. V r' = Some (True, ucast (pid_value p), fd') \<and> pid_small p \<and> Q p = Some r')"
    using assms(3-5) links_all [OF assms(1), of fd' r'] by (cases "fd' = fd") fastforce+
next
  fix i' r' assume "(P(i \<mapsto> r)) i' = Some r'"
  then show "65536 \<le> i' \<and> (\<exists>fd'. V r' = Some (False, i', fd') \<and> (A(fd \<mapsto> r)) fd' = Some r')"
    using assms(2,4,5) links_pub [OF assms(1), of i' r'] by (cases "i' = i") fastforce+
next
  fix p r' assume "Q p = Some r'"
  then show "pid_small p \<and> (\<exists>fd'. V r' = Some (True, ucast (pid_value p), fd') \<and> (A(fd \<mapsto> r)) fd' = Some r')"
    using assms(2) links_priv [OF assms(1), of p r'] by fastforce
qed

lemma links_addQ:
  assumes "links A P Q V" and "A fd = None" and "Q p = None" and "V r = Some (True, ucast (pid_value p), fd)"
    and "pid_small p"
  shows "links (A(fd \<mapsto> r)) P (Q(p \<mapsto> r)) V"
proof (rule linksI)
  fix fd' r' assume "(A(fd \<mapsto> r)) fd' = Some r'"
  then show "(\<exists>i'. V r' = Some (False, i', fd') \<and> 65536 \<le> i' \<and> P i' = Some r') \<or>
      (\<exists>p'. V r' = Some (True, ucast (pid_value p'), fd') \<and> pid_small p' \<and> (Q(p \<mapsto> r)) p' = Some r')"
    using assms(3-5) links_all [OF assms(1), of fd' r'] by (cases "fd' = fd") fastforce+
next
  fix i' r' assume "P i' = Some r'"
  then show "65536 \<le> i' \<and> (\<exists>fd'. V r' = Some (False, i', fd') \<and> (A(fd \<mapsto> r)) fd' = Some r')"
    using assms(2) links_pub [OF assms(1), of i' r'] by fastforce
next
  fix p' r' assume "(Q(p \<mapsto> r)) p' = Some r'"
  then show "pid_small p' \<and> (\<exists>fd'. V r' = Some (True, ucast (pid_value p'), fd') \<and> (A(fd \<mapsto> r)) fd' = Some r')"
    using assms(2,4,5) links_priv [OF assms(1), of p' r'] by (cases "p' = p") fastforce+
qed

lemma links_delP:
  assumes "links A P Q V" and "A fd = Some r" and "V r = Some (False, i, fd)"
  shows "links (A(fd := None)) (P(i := None)) Q V"
proof (rule linksI)
  fix fd' r' assume "(A(fd := None)) fd' = Some r'"
  show "(\<exists>i'. V r' = Some (False, i', fd') \<and> 65536 \<le> i' \<and> (P(i := None)) i' = Some r') \<or>
      (\<exists>p. V r' = Some (True, ucast (pid_value p), fd') \<and> pid_small p \<and> Q p = Some r')"
  proof -
    have fd: "fd' \<noteq> fd" "A fd' = Some r'" using \<open>(A(fd := None)) fd' = Some r'\<close> by (auto split: if_splits)
    have "P i = Some r" using links_all [OF assms(1,2)] assms(3) by auto
    then have "\<not> (V r' = Some (False, i, fd') \<and> P i = Some r')" using fd(1) assms(3) by auto
    then show ?thesis using links_all [OF assms(1) fd(2)] by (metis fun_upd_other)
  qed
next
  fix i' r' assume "(P(i := None)) i' = Some r'"
  then show "65536 \<le> i' \<and> (\<exists>fd'. V r' = Some (False, i', fd') \<and> (A(fd := None)) fd' = Some r')"
    using assms(2,3) links_pub [OF assms(1), of i' r'] by (fastforce split: if_splits)
next
  fix p r' assume "Q p = Some r'"
  then show "pid_small p \<and> (\<exists>fd'. V r' = Some (True, ucast (pid_value p), fd') \<and> (A(fd := None)) fd' = Some r')"
    using assms(2,3) links_priv [OF assms(1), of p r'] by fastforce
qed

lemma links_delQ:
  assumes "links A P Q V" and "A fd = Some r" and "V r = Some (True, ucast (pid_value p), fd)" and "pid_small p"
  shows "links (A(fd := None)) P (Q(p := None)) V"
proof (rule linksI)
  have inj: "pid_small p' \<Longrightarrow> (ucast (pid_value p') :: u64) = ucast (pid_value p) \<Longrightarrow> p' = p" for p'
    using assms(4) pid_of_id by metis
  show "(\<exists>i'. V r' = Some (False, i', fd') \<and> 65536 \<le> i' \<and> P i' = Some r') \<or>
      (\<exists>p'. V r' = Some (True, ucast (pid_value p'), fd') \<and> pid_small p' \<and> (Q(p := None)) p' = Some r')"
    if "(A(fd := None)) fd' = Some r'" for fd' r'
  proof -
    have fd: "fd' \<noteq> fd" "A fd' = Some r'" using that by (auto split: if_splits)
    have "Q p = Some r" using links_all [OF assms(1,2)] assms(3) inj by auto
    then have "\<not> (V r' = Some (True, ucast (pid_value p), fd') \<and> Q p = Some r')" using fd(1) assms(3) by auto
    then show ?thesis using links_all [OF assms(1) fd(2)] by (metis fun_upd_other)
  qed
  show "65536 \<le> i' \<and> (\<exists>fd'. V r' = Some (False, i', fd') \<and> (A(fd := None)) fd' = Some r')"
    if "P i' = Some r'" for i' r'
    using that assms(2,3) links_pub [OF assms(1), of i' r'] by fastforce
  show "pid_small p' \<and> (\<exists>fd'. V r' = Some (True, ucast (pid_value p'), fd') \<and> (A(fd := None)) fd' = Some r')"
    if "(Q(p := None)) p' = Some r'" for p' r'
    using that assms(2,3) links_priv [OF assms(1), of p' r'] inj by (fastforce split: if_splits)
qed

lemma map_insert_new: "map_insert k v m = (m', True) \<Longrightarrow> map_of m k = None \<and> map_of m' = (map_of m)(k \<mapsto> v)"
  by (auto simp: map_insert_def fun_eq_iff map_add_def split: if_splits option.split)

lemma privateOfType_update [simp]:
  "privateOfType (m\<lparr>privateConns := AList.update t x (privateConns m)\<rparr>) t' =
    (if t' = t then x else privateOfType m t')"
  by (simp add: privateOfType_def update_conv')

lemma private_at_update:
  "map_of x = (map_of (privateOfType m (pid_type q)))(pid_num q := v) \<Longrightarrow>
    private_at (m\<lparr>privateConns := AList.update (pid_type q) x (privateConns m)\<rparr>) p =
    (if pid_type p = pid_type q \<and> pid_num p = pid_num q then v else private_at m p)"
  by (simp add: private_at_def)

lemma private_at_frame [simp]:
  "private_at (m\<lparr>epoll := e\<rparr>) p = private_at m p" "private_at (m\<lparr>allConns := a\<rparr>) p = private_at m p"
  "private_at (m\<lparr>raised := l\<rparr>) p = private_at m p" "private_at (m\<lparr>holders := hs\<rparr>) p = private_at m p"
  "private_at (m\<lparr>publicConns := pu\<rparr>) p = private_at m p" "private_at (m\<lparr>recvQueue := q\<rparr>) p = private_at m p"
  "private_at (m\<lparr>packets := ps\<rparr>) p = private_at m p"
  by (simp_all add: private_at_def privateOfType_def)

lemma pid_eqI: "pid_type p = pid_type q \<Longrightarrow> pid_num p = pid_num q \<Longrightarrow> (p :: processId) = q"
  by simp

section \<open>Every operation keeps them in agreement\<close>

lemma hview_frame [simp]:
  "hview (m\<lparr>epoll := e\<rparr>) = hview m" "hview (m\<lparr>allConns := a\<rparr>) = hview m"
  "hview (m\<lparr>raised := l\<rparr>) = hview m" "hview (m\<lparr>privateConns := pr\<rparr>) = hview m"
  "hview (m\<lparr>publicConns := pu\<rparr>) = hview m" "hview (m\<lparr>recvQueue := q\<rparr>) = hview m"
  "hview (m\<lparr>packets := ps\<rparr>) = hview m"
  by (simp_all add: hview_def fun_eq_iff)

lemma hview_add: "hview m \<subseteq>\<^sub>m hview (m\<lparr>holders := holders m @ [h]\<rparr>)"
  by (auto simp: map_le_def hview_def nth_append split: if_splits)

lemma hview_new: "hview (m\<lparr>holders := holders m @ [h]\<rparr>) (length (holders m)) = Some (h_private h, h_id h, h_fd h)"
  by (simp add: hview_def)

lemma private_at_fun_frame [simp]:
  "private_at (m\<lparr>epoll := e\<rparr>) = private_at m" "private_at (m\<lparr>allConns := a\<rparr>) = private_at m"
  "private_at (m\<lparr>raised := l\<rparr>) = private_at m" "private_at (m\<lparr>holders := hs\<rparr>) = private_at m"
  "private_at (m\<lparr>publicConns := pu\<rparr>) = private_at m" "private_at (m\<lparr>recvQueue := q\<rparr>) = private_at m"
  "private_at (m\<lparr>packets := ps\<rparr>) = private_at m"
  by (simp_all add: fun_eq_iff)

lemma index_ok_frame [simp]:
  "index_ok (m\<lparr>epoll := e\<rparr>) = index_ok m" "index_ok (m\<lparr>raised := l\<rparr>) = index_ok m"
  "index_ok (m\<lparr>recvQueue := q\<rparr>) = index_ok m" "index_ok (m\<lparr>packets := ps\<rparr>) = index_ok m"
  by (simp_all add: index_ok_def)

lemma index_ok_setHolder:
  assumes "index_ok m" and "h_private h = h_private (holders m ! r)" "h_id h = h_id (holders m ! r)"
    "h_fd h = h_fd (holders m ! r)"
  shows "index_ok (setHolder r h m)"
proof -
  have "hview (setHolder r h m) x = hview m x" for x
    using assms(2-4) by (cases "x = r") (auto simp: hview_def setHolder_def)
  then have "hview (setHolder r h m) = hview m" by blast
  then show ?thesis using assms(1) by (simp add: index_ok_def setHolder_def)
qed

lemma private_at_put:
  assumes "map_of x = (map_of (privateOfType m (pid_type q)))(pid_num q := v)"
  shows "private_at (m\<lparr>privateConns := AList.update (pid_type q) x (privateConns m)\<rparr>) = (private_at m)(q := v)"
  using private_at_update [OF assms] by (auto simp: fun_eq_iff)

lemma index_ok_erase:
  assumes "index_ok m"
  shows "index_ok (eraseConnection fd m)"
proof (cases "map_of (allConns m) fd")
  case None
  then show ?thesis using assms by (simp add: eraseConnection_def)
next
  case (Some r)
  have l: "links (map_of (allConns m)) (map_of (publicConns m)) (private_at m) (hview m)"
    using assms by (simp add: index_ok_def)
  from links_all [OF l Some] show ?thesis
  proof
    assume "\<exists>i. hview m r = Some (False, i, fd) \<and> 65536 \<le> i \<and> map_of (publicConns m) i = Some r"
    then obtain i where i: "hview m r = Some (False, i, fd)" "map_of (publicConns m) i = Some r" by blast
    then have "h_id (holders m ! r) = i" by (simp add: hview_def split: if_splits)
    then show ?thesis
      using Some i(2) links_delP [OF l Some i(1)]
      by (simp add: eraseConnection_def index_ok_def delete_conv')
  next
    assume "\<exists>p. hview m r = Some (True, ucast (pid_value p), fd) \<and> pid_small p \<and> private_at m p = Some r"
    then obtain p where p: "hview m r = Some (True, ucast (pid_value p), fd)" "pid_small p" "private_at m p = Some r"
      by blast
    then have i: "h_id (holders m ! r) = ucast (pid_value p)" by (simp add: hview_def split: if_splits)
    have "map_of (publicConns m) (ucast (pid_value p)) = None"
      using links_pub [OF l, of "ucast (pid_value p)"] pid_value_small [OF p(2)]
      by (metis not_less option.exhaust)
    then show ?thesis
      using Some i p(3) pid_of_id [OF p(2)] links_delQ [OF l Some p(1,2)]
      by (simp add: eraseConnection_def index_ok_def delete_conv' private_at_put private_at_def Let_def)
  qed
qed

lemma index_ok_addPrivate:
  assumes "index_ok m" and "pid_small pid"
  shows "index_ok (addPrivateConnection ok fd c pid m)"
proof -
  let ?r = "length (holders m)" and ?h = "newHolder True (ucast (pid_value pid)) fd c"
  let ?V = "hview (m\<lparr>holders := holders m @ [?h]\<rparr>)"
  have l: "links (map_of (allConns m)) (map_of (publicConns m)) (private_at m) (hview m)"
    using assms by (simp add: index_ok_def)
  note lv = links_view [OF l hview_add [of m ?h]]
  have same: "private_at (m\<lparr>privateConns := AList.update (pid_type pid) (privateOfType m (pid_type pid)) (privateConns m)\<rparr>)
    = private_at m"
    using private_at_put [of "privateOfType m (pid_type pid)" m pid "private_at m pid"]
    by (simp add: private_at_def fun_eq_iff)
  obtain all n1 where a: "map_insert fd ?r (allConns m) = (all, n1)" by force
  obtain bt n2 where b: "map_insert (pid_num pid) ?r (privateOfType m (pid_type pid)) = (bt, n2)" by force
  show ?thesis
  proof (cases "n1 \<and> n2")
    case False
    then show ?thesis
      using a b assms(1) same by (auto simp: addPrivateConnection_def index_ok_def)
  next
    case True
    then have a1: "map_of (allConns m) fd = None" "map_of all = (map_of (allConns m))(fd \<mapsto> ?r)"
      using a map_insert_new by fastforce+
    from True have b1: "private_at m pid = None" "map_of bt = (map_of (privateOfType m (pid_type pid)))(pid_num pid \<mapsto> ?r)"
      using b map_insert_new by (fastforce simp: private_at_def)+
    have v: "?V ?r = Some (True, ucast (pid_value pid), fd)" by (simp add: hview_new newHolder_def)
    note links_addQ [OF lv a1(1) b1(1) v assms(2)]
    moreover have "private_at (m\<lparr>holders := hs, allConns := al, privateConns := AList.update (pid_type pid) bt (privateConns m)\<rparr>)
      = (private_at m)(pid \<mapsto> ?r)" for hs al
      using private_at_put [OF b1(2)] by (simp add: private_at_def privateOfType_def fun_eq_iff)
    moreover have "private_at (m\<lparr>holders := hs, privateConns :=
        AList.update (pid_type pid) (privateOfType m (pid_type pid)) (privateConns m)\<rparr>) = private_at m" for hs
      using same by (simp add: private_at_def privateOfType_def fun_eq_iff)
    ultimately show ?thesis
      using a b True a1(2) lv
      by (cases ok) (simp_all add: addPrivateConnection_def index_ok_def Let_def privateOfType_def)
  qed
qed

lemma index_ok_addPublic:
  assumes "index_ok m" and "65536 \<le> clientId"
  shows "index_ok (fst (addPublicConnection ok fd c clientId m))"
proof -
  let ?r = "length (holders m)" and ?h = "newHolder False clientId fd c"
  have l: "links (map_of (allConns m)) (map_of (publicConns m)) (private_at m) (hview m)"
    using assms by (simp add: index_ok_def)
  note lv = links_view [OF l hview_add [of m ?h]]
  obtain all n1 where a: "map_insert fd ?r (allConns m) = (all, n1)" by force
  obtain pub n2 where b: "map_insert clientId ?r (publicConns m) = (pub, n2)" by force
  show ?thesis
  proof (cases "n1 \<and> n2 \<and> ok")
    case False
    then show ?thesis using a b assms(1) by (auto simp: addPublicConnection_def)
  next
    case True
    then have a1: "map_of (allConns m) fd = None" "map_of all = (map_of (allConns m))(fd \<mapsto> ?r)"
      and b1: "map_of (publicConns m) clientId = None" "map_of pub = (map_of (publicConns m))(clientId \<mapsto> ?r)"
      using a b map_insert_new by fastforce+
    have "hview (m\<lparr>holders := holders m @ [?h]\<rparr>) ?r = Some (False, clientId, fd)"
      by (simp add: hview_new newHolder_def)
    from links_addP [OF lv a1(1) b1(1) this assms(2)] show ?thesis
      using a b True a1(2) b1(2) by (simp add: addPublicConnection_def index_ok_def)
  qed
qed

lemma index_ok_handler:
  assumes "index_ok m" and "epollerEventHandler fd ev m = Some m'"
  shows "index_ok m'"
proof -
  have close: "index_ok (closeConn r (eraseConnection fd x))" if "index_ok x" for x r
    unfolding closeConn_def using index_ok_erase [OF that] by (intro index_ok_setHolder) simp_all
  have upd: "index_ok (setHolder r ((holders m ! r)\<lparr>h_recvPacket := a, h_conn := b\<rparr>) m)"
    "index_ok (setHolder r ((holders m ! r)\<lparr>h_sendQueue := q, h_conn := b\<rparr>) m)" for r a b q
    using assms(1) by (simp_all add: index_ok_setHolder)
  show ?thesis
    using assms close upd
    by (auto simp: epollerEventHandler_def modifyWatch_def Let_def split: option.splits sockEvent.splits if_splits sum.splits)
qed

lemma index_ok_sendPacket:
  assumes "index_ok m"
  shows "index_ok (snd (sendPacket as r p m))"
proof -
  have upd: "index_ok (setHolder r ((holders m ! r)\<lparr>h_conn := b, h_sendQueue := q\<rparr>) x)"
    "index_ok (setHolder r ((holders m ! r)\<lparr>h_sendQueue := q\<rparr>) x)"
    "index_ok (setHolder r ((holders m ! r)\<lparr>h_conn := b\<rparr>) x)"
    if "index_ok x" "holders x = holders m" for b q x
    using that by (simp_all add: index_ok_setHolder)
  show ?thesis
    using assms
    by (simp add: sendPacket_def queueRest_def modifyWatch_def Let_def upd split: prod.split sum.split)
qed

text \<open>What the agreement means: a connection that has been erased is reached by no index,
  and all the others are reached as before.\<close>

lemma erased_unreachable:
  assumes "index_ok m" and "map_of (allConns m) fd = Some r"
  shows "map_of (publicConns (eraseConnection fd m)) i \<noteq> Some r \<and> private_at (eraseConnection fd m) p \<noteq> Some r"
proof -
  have l: "links (map_of (allConns m)) (map_of (publicConns m)) (private_at m) (hview m)"
    using assms by (simp add: index_ok_def)
  have fd: "\<exists>b i. hview m r = Some (b, i, fd)" using links_all [OF l assms(2)] by blast
  have l': "links (map_of (allConns (eraseConnection fd m))) (map_of (publicConns (eraseConnection fd m)))
    (private_at (eraseConnection fd m)) (hview (eraseConnection fd m))"
    using index_ok_erase [OF assms(1)] by (simp add: index_ok_def)
  have v: "hview (eraseConnection fd m) = hview m" by (simp add: hview_def fun_eq_iff)
  have "map_of (allConns (eraseConnection fd m)) fd = None"
    using assms(2) by (simp add: eraseConnection_def Let_def delete_conv')
  then show ?thesis
    using links_pub [OF l', of i r] links_priv [OF l', of p r] fd v by auto
qed

text \<open>C11: The indices of the connection manager agree at all times: a connection is
  registered under its socket exactly when it is registered under its process or its
  client, and a process and a client are never confused. Adding and erasing a connection,
  every socket event and every packet sent keep this, and an erased connection is reached
  by no index. Two things are needed of the identities: the type and the number of a
  process fit into a byte, and no client identity is as small as a process identity.\<close>

theorem connection_indices_agree:
  assumes "index_ok m"
  shows "(pid_small pid \<longrightarrow> index_ok (addPrivateConnection ok fd c pid m))
    \<and> (65536 \<le> clientId \<longrightarrow> index_ok (fst (addPublicConnection ok fd c clientId m)))
    \<and> (index_ok (eraseConnection fd m))
    \<and> (map_of (allConns m) fd = Some r \<longrightarrow> map_of (publicConns (eraseConnection fd m)) i \<noteq> Some r
      \<and> private_at (eraseConnection fd m) p \<noteq> Some r)
    \<and> (epollerEventHandler fd ev m = Some m' \<longrightarrow> index_ok m')
    \<and> (index_ok (snd (sendPacket as r q m)))"
  by (simp add: assms index_ok_addPrivate index_ok_addPublic index_ok_erase erased_unreachable
      index_ok_handler [OF assms] index_ok_sendPacket)

theorem connection_indices_agree_witness:
  "index_ok (addPrivateConnection True 9 bufConn_new \<lparr>pid_type = 2, pid_num = 1\<rparr> connMgr_init)"
  using connection_indices_agree [OF index_ok_init, of "\<lparr>pid_type = 2, pid_num = 1\<rparr>", THEN conjunct1]
  by (simp add: pid_small_def)

text \<open>
  The first need is not met by what the connection checker lets in: a process number of 257
  is valid, is registered as such and is erased as the number 1 of the same type.
\<close>

lemma oversized_process_number:
  fixes m :: connMgr
  defines "m \<equiv> addPrivateConnection True 7 bufConn_new \<lparr>pid_type = 1, pid_num = 257\<rparr>
    (addPrivateConnection True 6 bufConn_new \<lparr>pid_type = 1, pid_num = 1\<rparr> connMgr_init)"
  shows "private_at m \<lparr>pid_type = 1, pid_num = 1\<rparr> = Some 0"
    and "private_at (eraseConnection 7 m) \<lparr>pid_type = 1, pid_num = 1\<rparr> = None"
    and "map_of (allConns (eraseConnection 7 m)) 6 = Some 0"
  by (simp_all add: m_def addPrivateConnection_def eraseConnection_def connMgr_init_def map_insert_def
      privateOfType_def private_at_def newHolder_def pid_value_def pid_setValue_def Let_def)

end
