(* ===== verification/PrivateChecker.thy ===== *)
theory PrivateChecker
  imports ConnIndex
begin

text \<open>
  \<open>PrivateConnectionChecker\<close> of \<^verbatim>\<open>base/private_connection_checker.cpp\<close>: the handshake of two
  processes. The side that connects sends its identity; the side that accepts checks it,
  answers with its own identity and the verdict, and both hand a connection that passed to
  the connection manager. One pass over the waiting connections is a step of each of them;
  the answers of the socket are threaded through the passes.
\<close>

section \<open>State\<close>

datatype connState = RecvId | SendRet | SendId | RecvRet

record connInfo =
  ci_state :: connState
  ci_conn :: bufConn
  ci_remoteId :: processId
  ci_checkResult :: bool

datatype connType = ConnIn | ConnOut

text \<open>
  The messages are copies of the memory of \<open>ProcessId\<close> and of \<open>ConnCheckRetMsg\<close>, whose
  three last bytes are padding.
\<close>

definition pid_bytes :: "processId \<Rightarrow> bytes" where
  "pid_bytes p = le32 (pid_type p) @ le32 (pid_num p)"

definition read_pid :: "bytes \<Rightarrow> processId" where
  "read_pid b = \<lparr>pid_type = (case read32 b of Inl _ \<Rightarrow> 0 | Inr w \<Rightarrow> w),
     pid_num = (case read32 (drop 4 b) of Inl _ \<Rightarrow> 0 | Inr w \<Rightarrow> w)\<rparr>"

definition ret_bytes :: "u8 \<times> u8 \<times> u8 \<Rightarrow> processId \<Rightarrow> bool \<Rightarrow> bytes" where
  "ret_bytes pad p res = pid_bytes p @ [if res then 1 else 0, fst pad, fst (snd pad), snd (snd pad)]"

definition newConnInfo :: "connState \<Rightarrow> bufConn \<Rightarrow> processId \<Rightarrow> bool \<Rightarrow> connInfo" where
  "newConnInfo s c junkId junk = \<lparr>ci_state = s, ci_conn = c, ci_remoteId = junkId, ci_checkResult = junk\<rparr>"

text \<open>
  A connection that cannot be made non-blocking, or that is refused for want of room in the send
  buffer, is closed and not added.
  The identity of the remote and the verdict are uninitialised memory at first.
\<close>

definition addUncheckedConnection ::
  "bool \<Rightarrow> processId \<Rightarrow> processId \<times> bool \<Rightarrow> bufConn \<Rightarrow> connType \<Rightarrow> connInfo list \<Rightarrow> connInfo list" where
  "addUncheckedConnection nonBlocking me junk c t conns =
     (if \<not> nonBlocking then conns else case t of
        ConnIn \<Rightarrow> conns @ [newConnInfo RecvId c (fst junk) (snd junk)]
      | ConnOut \<Rightarrow>
          let (b, off, room) = writeable 8 (sndBuf c)
          in if room < 8 then conns
             else let b = fst (commitWrite 8 (fill off (pid_bytes me) b))
                  in conns @ [newConnInfo SendId (c\<lparr>sndBuf := b\<rparr>) (fst junk) (snd junk)])"

section \<open>One step of one connection\<close>

datatype checkRes = Waiting connInfo | Dropped | Confirmed bufConn processId

type_synonym answers = "recvAns list \<times> sendAns list"

definition sendRet_step :: "answers \<Rightarrow> connInfo \<Rightarrow> checkRes \<times> answers" where
  "sendRet_step a ci =
     (let (res, sa, c) = trySend (snd a) (ci_conn ci); a = (fst a, sa); ci = ci\<lparr>ci_conn := c\<rparr>
      in case res of
           Inl e \<Rightarrow> (Dropped, a)
         | Inr sent \<Rightarrow>
             if \<not> sent then (Waiting ci, a)
             else if ci_checkResult ci then (Confirmed c (ci_remoteId ci), a)
             else (Dropped, a))"

definition recvRet_step :: "answers \<Rightarrow> connInfo \<Rightarrow> checkRes \<times> answers" where
  "recvRet_step a ci =
     (let (res, ra, c) = tryRecv (fst a) (ci_conn ci); a = (ra, snd a); ci = ci\<lparr>ci_conn := c\<rparr>
      in case res of
           Inl e \<Rightarrow> (Dropped, a)
         | Inr got \<Rightarrow>
             if \<not> got then (Waiting ci, a)
             else let buf = readable (rcvBuf c)
                  in if length buf < 12 then (Waiting ci, a)
                     else let c = c\<lparr>rcvBuf := fst (commitRead 12 (rcvBuf c))\<rparr>;
                              ci = ci\<lparr>ci_conn := c, ci_remoteId := read_pid buf, ci_checkResult := buf ! 8 \<noteq> 0\<rparr>
                          in if ci_checkResult ci then (Confirmed c (ci_remoteId ci), a) else (Dropped, a))"

definition recvId_step :: "typeNames \<Rightarrow> processId \<Rightarrow> u8 \<times> u8 \<times> u8 \<Rightarrow> answers \<Rightarrow> connInfo \<Rightarrow> checkRes \<times> answers" where
  "recvId_step names me pad a ci =
     (let (res, ra, c) = tryRecv (fst a) (ci_conn ci); a = (ra, snd a); ci = ci\<lparr>ci_conn := c\<rparr>
      in case res of
           Inl e \<Rightarrow> (Dropped, a)
         | Inr got \<Rightarrow>
             if \<not> got then (Waiting ci, a)
             else let buf = readable (rcvBuf c)
                  in if length buf < 8 then (Waiting ci, a)
                     else let c = c\<lparr>rcvBuf := fst (commitRead 8 (rcvBuf c))\<rparr>;
                              remote = read_pid buf;
                              ok = pid_isValid names remote;
                              (b, off, room) = writeable 12 (sndBuf c)
                          in if room < 12 then (Dropped, a)
                             else let c = c\<lparr>sndBuf := fst (commitWrite 12 (fill off (ret_bytes pad me ok) b))\<rparr>
                                  in sendRet_step a (ci\<lparr>ci_state := SendRet, ci_conn := c,
                                       ci_remoteId := remote, ci_checkResult := ok\<rparr>))"

definition sendId_step :: "answers \<Rightarrow> connInfo \<Rightarrow> checkRes \<times> answers" where
  "sendId_step a ci =
     (let (res, sa, c) = trySend (snd a) (ci_conn ci); a = (fst a, sa); ci = ci\<lparr>ci_conn := c\<rparr>
      in case res of
           Inl e \<Rightarrow> (Dropped, a)
         | Inr sent \<Rightarrow>
             if \<not> sent then (Waiting ci, a) else recvRet_step a (ci\<lparr>ci_state := RecvRet\<rparr>))"

definition check_step :: "typeNames \<Rightarrow> processId \<Rightarrow> u8 \<times> u8 \<times> u8 \<Rightarrow> answers \<Rightarrow> connInfo \<Rightarrow> checkRes \<times> answers" where
  "check_step names me pad a ci =
     (case ci_state ci of
        RecvId \<Rightarrow> recvId_step names me pad a ci
      | SendRet \<Rightarrow> sendRet_step a ci
      | SendId \<Rightarrow> sendId_step a ci
      | RecvRet \<Rightarrow> recvRet_step a ci)"

text \<open>One pass over all connections; the confirmed ones are reported in the order of the list.\<close>

fun checkConn ::
  "typeNames \<Rightarrow> processId \<Rightarrow> u8 \<times> u8 \<times> u8 \<Rightarrow> answers list \<Rightarrow> connInfo list
    \<Rightarrow> connInfo list \<times> (bufConn \<times> processId) list" where
  "checkConn names me pad (a # as) (ci # cis) =
     (let (rest, conf) = checkConn names me pad as cis
      in case fst (check_step names me pad a ci) of
           Waiting ci \<Rightarrow> (ci # rest, conf)
         | Dropped \<Rightarrow> (rest, conf)
         | Confirmed c p \<Rightarrow> (rest, (c, p) # conf))"
| "checkConn names me pad as cis = (cis, [])"

text \<open>One connection through a number of passes.\<close>

fun passes :: "nat \<Rightarrow> typeNames \<Rightarrow> processId \<Rightarrow> u8 \<times> u8 \<times> u8 \<Rightarrow> answers \<Rightarrow> connInfo \<Rightarrow> checkRes \<times> answers" where
  "passes 0 names me pad a ci = (Waiting ci, a)"
| "passes (Suc k) names me pad a ci =
     (case check_step names me pad a ci of
        (Waiting ci, a) \<Rightarrow> passes k names me pad a ci
      | r \<Rightarrow> r)"

section \<open>What a connection has been through\<close>

lemma length_pid_bytes [simp]: "length (pid_bytes p) = 8"
  by (simp add: pid_bytes_def)

lemma length_ret_bytes [simp]: "length (ret_bytes pad p r) = 12"
  by (simp add: ret_bytes_def)

lemma read_pid_bytes [simp]: "read_pid (pid_bytes p @ r) = p"
  by (simp add: read_pid_def pid_bytes_def)

lemma pid_bytes_read:
  assumes "8 \<le> length b"
  shows "b = pid_bytes (read_pid b) @ drop 8 b"
proof -
  obtain w v where "read32 b = Inr w" "read32 (drop 4 b) = Inr v"
    using assms read32_Inr_iff [of b] read32_Inr_iff [of "drop 4 b"] by auto
  moreover from this have "b = le32 w @ drop 4 b" "drop 4 b = le32 v @ drop 4 (drop 4 b)"
    using le32_read32 by blast+
  ultimately show ?thesis by (simp add: pid_bytes_def read_pid_def)
qed

lemma pid_bytes_inj:
  assumes "pid_bytes p @ r = pid_bytes q @ s"
  shows "p = q \<and> r = s"
proof -
  have "read_pid (pid_bytes p @ r) = read_pid (pid_bytes q @ s)" using assms by (rule arg_cong)
  then have "p = q" by simp
  with assms show ?thesis by simp
qed

text \<open>
  \<open>s\<close> is all that the peer sends, \<open>w\<close> what the connection had sent before the handshake.
\<close>

definition hs_ok :: "typeNames \<Rightarrow> processId \<Rightarrow> u8 \<times> u8 \<times> u8 \<Rightarrow> bytes \<Rightarrow> bytes \<Rightarrow> connInfo \<Rightarrow> recvAns list \<Rightarrow> bool" where
  "hs_ok names me pad s w ci ra \<longleftrightarrow> conn_ok (ci_conn ci) \<and>
     (let c = ci_conn ci; rest = readable (rcvBuf c) @ incoming ra
      in case ci_state ci of
           RecvId \<Rightarrow> s = rest \<and> outgoing c = w
         | SendRet \<Rightarrow> s = pid_bytes (ci_remoteId ci) @ rest
             \<and> ci_checkResult ci = pid_isValid names (ci_remoteId ci)
             \<and> outgoing c = w @ ret_bytes pad me (ci_checkResult ci)
         | SendId \<Rightarrow> s = rest \<and> outgoing c = w @ pid_bytes me
         | RecvRet \<Rightarrow> s = rest \<and> outgoing c = w @ pid_bytes me \<and> readable (sndBuf c) = [])"

definition is_in :: "connInfo \<Rightarrow> bool" where
  "is_in ci \<longleftrightarrow> ci_state ci = RecvId \<or> ci_state ci = SendRet"

text \<open>What a confirmation means on either side.\<close>

definition confirmed_in where
  "confirmed_in names me pad s w c p ra \<longleftrightarrow> pid_isValid names p
     \<and> s = pid_bytes p @ readable (rcvBuf c) @ incoming ra
     \<and> wire c = w @ ret_bytes pad me True \<and> readable (sndBuf c) = [] \<and> conn_ok c"

definition confirmed_out where
  "confirmed_out me s w c p ra \<longleftrightarrow>
     (\<exists>x pad'. x \<noteq> 0 \<and> length pad' = 3 \<and> s = pid_bytes p @ [x] @ pad' @ readable (rcvBuf c) @ incoming ra)
     \<and> wire c = w @ pid_bytes me \<and> readable (sndBuf c) = [] \<and> conn_ok c"

definition step_ok where
  "step_ok names me pad s w inside r ra' \<longleftrightarrow>
     (case r of
        Waiting ci' \<Rightarrow> hs_ok names me pad s w ci' ra' \<and> is_in ci' = inside
      | Dropped \<Rightarrow> True
      | Confirmed c p \<Rightarrow> if inside then confirmed_in names me pad s w c p ra' else confirmed_out me s w c p ra')"

lemma sendRet_step_ok:
  assumes "hs_ok names me pad s w ci (fst a)" and "ci_state ci = SendRet" and "sendRet_step a ci = (r, a')"
  shows "step_ok names me pad s w True r (fst a')"
proof -
  obtain res sa c where ts: "trySend (snd a) (ci_conn ci) = (res, sa, c)" by (metis prod_cases3)
  have ok: "conn_ok (ci_conn ci)" using assms(1) by (simp add: hs_ok_def)
  note t = trySend_ok [OF ok ts]
  show ?thesis
    using assms ts t(1-3) t(6)
    by (cases res)
      (auto simp: sendRet_step_def hs_ok_def step_ok_def confirmed_in_def is_in_def Let_def outgoing_def split: if_splits)
qed

lemma recvRet_step_ok:
  assumes "hs_ok names me pad s w ci (fst a)" and "ci_state ci = RecvRet" and "recvRet_step a ci = (r, a')"
  shows "step_ok names me pad s w False r (fst a')"
proof -
  obtain res ra c where tr: "tryRecv (fst a) (ci_conn ci) = (res, ra, c)" by (metis prod_cases3)
  have ok: "conn_ok (ci_conn ci)" using assms(1) by (simp add: hs_ok_def)
  note t = tryRecv_ok [OF ok tr]
  show ?thesis
  proof (cases "res = Inr True \<and> 12 \<le> length (readable (rcvBuf c))")
    case False
    then show ?thesis
      using assms tr t(1,2,4,5)
      by (cases res) (auto simp: recvRet_step_def hs_ok_def step_ok_def is_in_def Let_def outgoing_def split: if_splits)
  next
    case True
    let ?buf = "readable (rcvBuf c)"
    let ?c = "c\<lparr>rcvBuf := fst (commitRead 12 (rcvBuf c))\<rparr>"
    note cp = commit_parsed [OF t(1) True [THEN conjunct2]]
    have "?buf = pid_bytes (read_pid ?buf) @ drop 8 ?buf" using pid_bytes_read True by simp
    moreover have "drop 8 ?buf = [?buf ! 8] @ drop 9 ?buf" using Cons_nth_drop_Suc [of 8 ?buf] True by simp
    moreover have "drop 9 ?buf = take 3 (drop 9 ?buf) @ drop 12 ?buf"
      using append_take_drop_id [of 3 "drop 9 ?buf"] by simp
    ultimately have buf: "?buf = pid_bytes (read_pid ?buf) @ [?buf ! 8] @ take 3 (drop 9 ?buf) @ drop 12 ?buf" by simp
    have "confirmed_out me s w ?c (read_pid ?buf) ra" if "?buf ! 8 \<noteq> 0"
    proof -
      have "s = ?buf @ incoming ra" using assms(1,2) t(2) True by (simp add: hs_ok_def Let_def)
      also have "\<dots> = pid_bytes (read_pid ?buf) @ [?buf ! 8] @ take 3 (drop 9 ?buf) @ drop 12 ?buf @ incoming ra"
        using buf by (metis append.assoc)
      finally have "s = pid_bytes (read_pid ?buf) @ [?buf ! 8] @ take 3 (drop 9 ?buf) @ readable (rcvBuf ?c) @ incoming ra"
        using cp(2) by simp
      moreover have "length (take 3 (drop 9 ?buf)) = 3" using True by (auto simp: min_def)
      ultimately have "\<exists>x pad'. x \<noteq> 0 \<and> length pad' = 3
        \<and> s = pid_bytes (read_pid ?buf) @ [x] @ pad' @ readable (rcvBuf ?c) @ incoming ra"
        using that by blast
      moreover have "wire (ci_conn ci) = w @ pid_bytes me" "readable (sndBuf (ci_conn ci)) = []"
        using assms(1,2) by (auto simp: hs_ok_def Let_def outgoing_def)
      ultimately show ?thesis using t(4,5) cp(1) by (simp add: confirmed_out_def)
    qed
    then show ?thesis
      using assms(2,3) tr True
      by (auto simp: recvRet_step_def step_ok_def Let_def split: if_splits)
  qed
qed

lemma sendId_step_ok:
  assumes "hs_ok names me pad s w ci (fst a)" and "ci_state ci = SendId" and "sendId_step a ci = (r, a')"
  shows "step_ok names me pad s w False r (fst a')"
proof -
  obtain res sa c where ts: "trySend (snd a) (ci_conn ci) = (res, sa, c)" by (metis prod_cases3)
  have ok: "conn_ok (ci_conn ci)" using assms(1) by (simp add: hs_ok_def)
  note t = trySend_ok [OF ok ts]
  show ?thesis
  proof (cases "res = Inr True")
    case False
    then show ?thesis
      using assms ts t(1-3)
      by (cases res) (auto simp: sendId_step_def hs_ok_def step_ok_def is_in_def Let_def split: if_splits)
  next
    case True
    let ?ci = "ci\<lparr>ci_conn := c, ci_state := RecvRet\<rparr>"
    have "hs_ok names me pad s w ?ci (fst a)"
      using assms(1,2) t(1-3) t(6) [OF True] by (simp add: hs_ok_def Let_def)
    moreover have "recvRet_step (fst a, sa) ?ci = (r, a')"
      using assms(3) ts True by (simp add: sendId_step_def Let_def)
    ultimately show ?thesis using recvRet_step_ok [of names me pad s w ?ci "(fst a, sa)" r a'] by simp
  qed
qed

lemma recvId_step_ok:
  assumes "hs_ok names me pad s w ci (fst a)" and "ci_state ci = RecvId" and "recvId_step names me pad a ci = (r, a')"
  shows "step_ok names me pad s w True r (fst a')"
proof -
  obtain res ra c where tr: "tryRecv (fst a) (ci_conn ci) = (res, ra, c)" by (metis prod_cases3)
  have ok: "conn_ok (ci_conn ci)" using assms(1) by (simp add: hs_ok_def)
  note t = tryRecv_ok [OF ok tr]
  show ?thesis
  proof (cases "res = Inr True \<and> 8 \<le> length (readable (rcvBuf c))")
    case False
    then show ?thesis
      using assms tr t(1,2,4,5)
      by (cases res) (auto simp: recvId_step_def hs_ok_def step_ok_def is_in_def Let_def outgoing_def split: if_splits)
  next
    case True
    let ?buf = "readable (rcvBuf c)"
    let ?c = "c\<lparr>rcvBuf := fst (commitRead 8 (rcvBuf c))\<rparr>" and ?p = "read_pid ?buf"
    note cp = commit_parsed [OF t(1) True [THEN conjunct2]]
    have "s = ?buf @ incoming ra" using assms(1,2) t(2) True by (simp add: hs_ok_def Let_def)
    then have s: "s = pid_bytes ?p @ readable (rcvBuf ?c) @ incoming ra"
      using pid_bytes_read [of ?buf] True cp(2) by (metis append.assoc bufConn.select_convs(2) bufConn.surjective
          bufConn.update_convs(2))
    obtain b off room where wr: "writeable 12 (sndBuf ?c) = (b, off, room)" by (metis prod_cases3)
    show ?thesis
    proof (cases "room < 12")
      case small: True
      then have "r = Dropped" using assms(3) tr True wr by (simp add: recvId_step_def Let_def)
      then show ?thesis by (simp add: step_ok_def)
    next
      case False
      let ?m = "ret_bytes pad me (pid_isValid names ?p)"
      obtain b' where b': "commitWrite 12 (fill off ?m b) = (b', True)" "conn_ok (?c\<lparr>sndBuf := b'\<rparr>)"
        "outgoing (?c\<lparr>sndBuf := b'\<rparr>) = outgoing ?c @ ?m"
        using put_ok [OF cp(1) wr, of ?m] False by auto
      let ?ci = "ci\<lparr>ci_state := SendRet, ci_conn := ?c\<lparr>sndBuf := b'\<rparr>, ci_remoteId := ?p,
        ci_checkResult := pid_isValid names ?p\<rparr>"
      have "outgoing ?c = w" using assms(1,2) t(4,5) by (simp add: hs_ok_def Let_def outgoing_def)
      then have "hs_ok names me pad s w ?ci ra"
        using b' s by (simp add: hs_ok_def Let_def)
      moreover have "sendRet_step (ra, snd a) ?ci = (r, a')"
        using assms(3) tr True wr b'(1) False by (simp add: recvId_step_def Let_def)
      ultimately show ?thesis using sendRet_step_ok [of names me pad s w ?ci "(ra, snd a)" r a'] by simp
    qed
  qed
qed

lemma check_step_ok:
  assumes "hs_ok names me pad s w ci (fst a)" and "check_step names me pad a ci = (r, a')"
  shows "step_ok names me pad s w (is_in ci) r (fst a')"
  using assms recvId_step_ok [OF assms(1)] sendRet_step_ok [OF assms(1)] sendId_step_ok [OF assms(1)]
    recvRet_step_ok [OF assms(1)]
  by (cases "ci_state ci") (auto simp: check_step_def is_in_def)

lemma passes_ok:
  "hs_ok names me pad s w ci (fst a) \<Longrightarrow> passes k names me pad a ci = (r, a')
    \<Longrightarrow> step_ok names me pad s w (is_in ci) r (fst a')"
proof (induction k arbitrary: a ci)
  case 0
  then show ?case by (auto simp: step_ok_def)
next
  case (Suc k)
  obtain r1 a1 where st: "check_step names me pad a ci = (r1, a1)" by (metis surj_pair)
  note ok = check_step_ok [OF Suc.prems(1) st]
  show ?case
  proof (cases r1)
    case (Waiting ci1)
    then have "hs_ok names me pad s w ci1 (fst a1)" "is_in ci1 = is_in ci" using ok by (auto simp: step_ok_def)
    then show ?thesis using Suc.IH [of ci1 a1] Suc.prems(2) st Waiting by simp
  qed (use ok Suc.prems(2) st in auto)
qed

section \<open>The two sides\<close>

lemma new_in_ok:
  assumes "conn_ok c" and "addUncheckedConnection nb me junk c ConnIn [] = [ci]"
  shows "hs_ok names me pad (readable (rcvBuf c) @ incoming ra) (outgoing c) ci ra \<and> is_in ci"
  using assms by (auto simp: addUncheckedConnection_def newConnInfo_def hs_ok_def is_in_def Let_def split: if_splits)

lemma new_out_ok:
  assumes "conn_ok c" and "addUncheckedConnection nb me junk c ConnOut [] = [ci]"
  shows "hs_ok names me pad (readable (rcvBuf c) @ incoming ra) (outgoing c) ci ra \<and> \<not> is_in ci"
proof -
  obtain b off room where w: "writeable 8 (sndBuf c) = (b, off, room)" by (metis prod_cases3)
  have "\<not> room < 8" using assms(2) w by (auto simp: addUncheckedConnection_def split: if_splits)
  then obtain b' where b': "commitWrite 8 (fill off (pid_bytes me) b) = (b', True)" "conn_ok (c\<lparr>sndBuf := b'\<rparr>)"
    "outgoing (c\<lparr>sndBuf := b'\<rparr>) = outgoing c @ pid_bytes me"
    using put_ok [OF assms(1) w, of "pid_bytes me"] by auto
  then have "ci = newConnInfo SendId (c\<lparr>sndBuf := b'\<rparr>) (fst junk) (snd junk)"
    using assms(2) w by (auto simp: addUncheckedConnection_def split: if_splits)
  then show ?thesis using b' by (simp add: newConnInfo_def hs_ok_def is_in_def Let_def)
qed

text \<open>C8: The private network handshake. However many passes it takes and in whatever
  pieces the sockets deliver, an incoming connection is confirmed only under the identity
  its first eight bytes give, only when that is a valid identity, and only after the
  accepting side's identity and consent have left completely; an outgoing connection is
  confirmed only under the identity and with the consent its peer sent, after its own
  identity has left. Nothing the peer sends after the handshake is lost or read twice.\<close>

theorem handshake_sound:
  assumes "conn_ok c" and "readable (rcvBuf c) = []" and "outgoing c = []"
    and "addUncheckedConnection nb me junk c t [] = [ci]"
    and "passes k names me pad (ra, sa) ci = (Confirmed c' p, a')"
  shows "(case t of
      ConnIn \<Rightarrow> pid_isValid names p \<and> wire c' = ret_bytes pad me True
        \<and> incoming ra = pid_bytes p @ readable (rcvBuf c') @ incoming (fst a')
    | ConnOut \<Rightarrow> wire c' = pid_bytes me
        \<and> (\<exists>x pad'. x \<noteq> 0 \<and> length pad' = 3
             \<and> incoming ra = pid_bytes p @ [x] @ pad' @ readable (rcvBuf c') @ incoming (fst a')))
    \<and> readable (sndBuf c') = []"
proof (cases t)
  case ConnIn
  then have "hs_ok names me pad (incoming ra) [] ci ra \<and> is_in ci"
    using new_in_ok [OF assms(1) assms(4) [unfolded ConnIn], of names pad ra] assms(2,3) by simp
  then have "confirmed_in names me pad (incoming ra) [] c' p (fst a')"
    using passes_ok [of names me pad "incoming ra" "[]" ci "(ra, sa)", OF _ assms(5)] by (simp add: step_ok_def)
  then show ?thesis using ConnIn by (simp add: confirmed_in_def)
next
  case ConnOut
  then have "hs_ok names me pad (incoming ra) [] ci ra \<and> \<not> is_in ci"
    using new_out_ok [OF assms(1) assms(4) [unfolded ConnOut], of names pad ra] assms(2,3) by simp
  then have "confirmed_out me (incoming ra) [] c' p (fst a')"
    using passes_ok [of names me pad "incoming ra" "[]" ci "(ra, sa)", OF _ assms(5)] by (simp add: step_ok_def)
  then show ?thesis using ConnOut by (simp add: confirmed_out_def)
qed

definition small_conn :: bufConn where
  "small_conn = \<lparr>sndBuf = ConnectionBuffer 12, rcvBuf = ConnectionBuffer 9, wire = []\<rparr>"

lemma small_conn_accepts:
  "passes 1 [''none'', ''gateway'', ''lobby''] \<lparr>pid_type = 2, pid_num = 1\<rparr> (0, 0, 0)
     ([RBytes [1, 0, 0, 0, 3, 0, 0, 0, 77]], [SAccept 12])
     (newConnInfo RecvId small_conn \<lparr>pid_type = 0, pid_num = 0\<rparr> False)
   = (Confirmed \<lparr>sndBuf = \<lparr>m_buf = [2, 0, 0, 0, 1, 0, 0, 0, 1, 0, 0, 0], dataBegin = 0, dataEnd = 0\<rparr>,
        rcvBuf = \<lparr>m_buf = [1, 0, 0, 0, 3, 0, 0, 0, 77], dataBegin = 8, dataEnd = 9\<rparr>,
        wire = [2, 0, 0, 0, 1, 0, 0, 0, 1, 0, 0, 0]\<rparr> \<lparr>pid_type = 1, pid_num = 3\<rparr>, ([], []))"
  by code_simp

theorem handshake_sound_witness:
  "pid_isValid [''none'', ''gateway'', ''lobby''] \<lparr>pid_type = 1, pid_num = 3\<rparr>
   \<and> incoming [RBytes [1, 0, 0, 0, 3, 0, 0, 0, 77]] = pid_bytes \<lparr>pid_type = 1, pid_num = 3\<rparr> @ [77]"
proof -
  have "conn_ok small_conn" "readable (rcvBuf small_conn) = []" "outgoing small_conn = []"
    by (simp_all add: small_conn_def conn_ok_def outgoing_def)
  moreover have "addUncheckedConnection True \<lparr>pid_type = 2, pid_num = 1\<rparr> (\<lparr>pid_type = 0, pid_num = 0\<rparr>, False)
      small_conn ConnIn [] = [newConnInfo RecvId small_conn \<lparr>pid_type = 0, pid_num = 0\<rparr> False]"
    by (simp add: addUncheckedConnection_def)
  ultimately show ?thesis
    using handshake_sound [OF _ _ _ _ small_conn_accepts] by (fastforce simp: readable_def)
qed

end
