(* ===== verification/Tokens.thy ===== *)
theory Tokens
  imports FastTravel
begin

text \<open>
  The access tokens of \<^verbatim>\<open>processes/gateway/anysdk_login_manager.cpp\<close>: a map from the
  client's name to its token, swept by a timer while it is traversed. The part that would
  issue tokens is empty in the source.
\<close>

record tokenInfo =
  ti_openid :: string
  ti_token :: string
  ti_expiryTime :: int

record anySdk =
  as_tokens :: "(string, tokenInfo) ftm"
  as_lastHcid :: u64

definition anySdk_init :: anySdk where
  "anySdk_init = \<lparr>as_tokens = ftm_empty, as_lastHcid = 0\<rparr>"

definition checkAccessToken :: "string \<Rightarrow> string \<Rightarrow> anySdk \<Rightarrow> bool" where
  "checkAccessToken openid token s =
     (case ftm_find (as_tokens s) openid of None \<Rightarrow> False | Some t \<Rightarrow> ti_token t = token)"

definition genHttpConnectionId :: "anySdk \<Rightarrow> anySdk \<times> u64" where
  "genHttpConnectionId s = (let n = as_lastHcid s + 1 in (s\<lparr>as_lastHcid := n\<rparr>, n))"

lemma erase_at_shorter:
  "ftm_erase_at j m = Inr (m', j') \<Longrightarrow> length (ft_vec m') < length (ft_vec m)"
  using length_erase by (fastforce simp: ftm_erase_at_def split: option.splits)

text \<open>
  The loop of the timer. \<open>erase\<close> answers with the position it has filled from the end, so
  the position is looked at again.
\<close>

function sweep :: "int \<Rightarrow> nat \<Rightarrow> (string, tokenInfo) ftm \<Rightarrow> (string, tokenInfo) ftm outcome" where
  "sweep now j m =
     (if j < length (ft_vec m) then
        if ti_expiryTime (snd (ft_vec m ! j)) \<le> now
        then (case ftm_erase_at j m of Inl e \<Rightarrow> Inl e | Inr (m', j') \<Rightarrow> sweep now j' m')
        else sweep now (Suc j) m
      else Inr m)"
  by pat_completeness auto

termination
  by (relation "measures [\<lambda>(now, j, m). length (ft_vec m), \<lambda>(now, j, m). length (ft_vec m) - j]")
    (auto simp: erase_at_shorter)

declare sweep.simps [simp del]

definition anySdk_timerExec :: "int \<Rightarrow> anySdk \<Rightarrow> anySdk outcome" where
  "anySdk_timerExec now s = obind (sweep now 0 (as_tokens s)) (\<lambda>m. Inr (s\<lparr>as_tokens := m\<rparr>))"

section \<open>What the sweep leaves\<close>

definition live :: "int \<Rightarrow> tokenInfo option \<Rightarrow> tokenInfo option" where
  "live now t = (case t of None \<Rightarrow> None | Some t \<Rightarrow> if now < ti_expiryTime t then Some t else None)"

lemma erase_at_inv:
  assumes "ftm_inv m" and "j < length (ft_vec m)"
  shows "ftm_erase_at j m = Inr (ftm_erase (fst (ft_vec m ! j)) m, j)"
  using assms by (simp add: ftm_erase_at_def ftm_inv_key)

lemma sweep_live:
  "ftm_inv m \<Longrightarrow> \<forall>i < j. i < length (ft_vec m) \<longrightarrow> now < ti_expiryTime (snd (ft_vec m ! i)) \<Longrightarrow>
    \<exists>m'. sweep now j m = Inr m' \<and> ftm_inv m' \<and> (\<forall>k. ftm_find m' k = live now (ftm_find m k))"
proof (induction now j m rule: sweep.induct)
  case (1 now j m)
  consider (finished) "length (ft_vec m) \<le> j"
    | (old) "j < length (ft_vec m)" "ti_expiryTime (snd (ft_vec m ! j)) \<le> now"
    | (keep) "j < length (ft_vec m)" "now < ti_expiryTime (snd (ft_vec m ! j))"
    by linarith
  then show ?case
  proof cases
    case finished
    have "live now (ftm_find m k) = ftm_find m k" for k
    proof (cases "ftm_find m k")
      case (Some t)
      then have "(k, t) \<in> set (ft_vec m)" using map_of_SomeD by (simp add: ftm_find_map_of [OF "1.prems"(1)])
      then obtain i where i: "i < length (ft_vec m)" "ft_vec m ! i = (k, t)" by (auto simp: in_set_conv_nth)
      then have "i < j" using finished by simp
      then have "now < ti_expiryTime (snd (ft_vec m ! i))" using "1.prems"(2) i(1) by blast
      then have "now < ti_expiryTime t" using i(2) by simp
      then show ?thesis using Some by (simp add: live_def)
    qed (simp add: live_def)
    then show ?thesis using finished "1.prems"(1) by (subst sweep.simps) simp
  next
    case old
    let ?k = "fst (ft_vec m ! j)"
    let ?m = "ftm_erase ?k m"
    have e: "ftm_erase_at j m = Inr (?m, j)" using erase_at_inv [OF "1.prems"(1) old(1)] .
    have vec: "ft_vec ?m = butlast ((ft_vec m)[j := last (ft_vec m)])"
      using ftm_erase_vec [OF "1.prems"(1) ftm_inv_key [OF "1.prems"(1) old(1)]] .
    have "\<forall>i < j. i < length (ft_vec ?m) \<longrightarrow> now < ti_expiryTime (snd (ft_vec ?m ! i))"
      using "1.prems"(2) old(1) by (auto simp: vec nth_butlast)
    then obtain m' where m': "sweep now j ?m = Inr m'" "ftm_inv m'" "\<forall>k. ftm_find m' k = live now (ftm_find ?m k)"
      using "1.IH"(1) [OF old e refl] ftm.inv_del [OF "1.prems"(1)] by auto
    have "ftm_find m ?k = Some (snd (ft_vec m ! j))" using ftm_find_nth [OF "1.prems"(1) old(1)] .
    then have "live now (ftm_find ?m k) = live now (ftm_find m k)" for k
      using old(2) by (auto simp: ftm.lookup_del [OF "1.prems"(1)] live_def)
    then show ?thesis using m' old e by (subst sweep.simps) simp
  next
    case keep
    then have "\<forall>i < Suc j. i < length (ft_vec m) \<longrightarrow> now < ti_expiryTime (snd (ft_vec m ! i))"
      using "1.prems"(2) by (simp add: less_Suc_eq)
    moreover have "\<not> ti_expiryTime (snd (ft_vec m ! j)) \<le> now" using keep(2) by simp
    moreover from this have "sweep now j m = sweep now (Suc j) m" using keep(1) by (subst sweep.simps) simp
    ultimately show ?thesis using "1.IH"(2) [OF keep(1)] "1.prems"(1) by simp
  qed
qed

text \<open>The sweep over the tokens, which erases entries of the container it is
  traversing, ends without an exception and leaves exactly the tokens that have not expired,
  whatever was moved into the holes: no expired token is accepted after it, and no other is
  forgotten.\<close>

theorem token_sweep:
  assumes "ftm_inv (as_tokens s)"
  shows "\<exists>s'. anySdk_timerExec now s = Inr s' \<and> ftm_inv (as_tokens s') \<and> as_lastHcid s' = as_lastHcid s
    \<and> checkAccessToken openid token s' =
        (checkAccessToken openid token s \<and> (case ftm_find (as_tokens s) openid of
           None \<Rightarrow> False | Some t \<Rightarrow> now < ti_expiryTime t))"
proof -
  obtain m' where m': "sweep now 0 (as_tokens s) = Inr m'" "ftm_inv m'"
    "\<forall>k. ftm_find m' k = live now (ftm_find (as_tokens s) k)"
    using sweep_live [OF assms, of 0 now] by auto
  then show ?thesis
    by (simp add: anySdk_timerExec_def checkAccessToken_def live_def split: option.split)
qed

theorem token_sweep_witness:
  "\<exists>s'. anySdk_timerExec 100 (anySdk_init\<lparr>as_tokens := fst (ftm_insert ''a'' \<lparr>ti_openid = ''a'', ti_token = ''t'',
     ti_expiryTime = 100\<rparr> ftm_empty)\<rparr>) = Inr s' \<and> \<not> checkAccessToken ''a'' ''t'' s'"
proof -
  let ?s = "anySdk_init\<lparr>as_tokens := fst (ftm_insert ''a'' \<lparr>ti_openid = ''a'', ti_token = ''t'', ti_expiryTime = 100\<rparr> ftm_empty)\<rparr>"
  have "ftm_inv (as_tokens ?s)" using ftm.inv_ins [OF ftm_inv_empty] by simp
  then show ?thesis
    using token_sweep [of ?s 100 "''a''" "''t''"]
    by (auto simp: ftm_insert_def ftm_empty_def ftm_find_def ftm_pos_def)
qed

end
