(* ===== verification/SpscQueue.thy ===== *)
theory SpscQueue
  imports TcpConns
begin

text \<open>
  The lock-free queue between the thread of the sockets and the main timer
  (\<open>water/componet/lock_free_circular_queue_ss.h\<close>): a ring of cells, each with a status, one
  producer that owns \<open>m_end\<close> and one consumer that owns \<open>m_begin\<close>. Both operations are cut
  into the steps at which another thread can observe them, and a system state holds the
  queue and the place at which each thread is. The statuses are read and written with
  acquire and release, and a thread touches the content of a cell only between seeing and
  writing its status, so that the steps interleave as if memory were sequentially
  consistent. The contract of a bounded queue is the locale \<open>bounded_queue\<close>; the connection
  manager is modelled over it.
\<close>

section \<open>The queue\<close>

datatype cellStatus = CellEmpty | CellFull

record 'a spsc =
  m_begin :: u64
  m_end :: u64
  m_data :: "(cellStatus \<times> 'a) list"

text \<open>\<open>d\<close> is the default value of the element type.\<close>

definition SPSC :: "'a \<Rightarrow> nat \<Rightarrow> 'a spsc" where
  "SPSC d powArg =
     \<lparr>m_begin = 0, m_end = 0, m_data = replicate (2 ^ (if powArg < 24 then powArg else 24)) (CellEmpty, d)\<rparr>"

definition realPos :: "'a spsc \<Rightarrow> u64 \<Rightarrow> nat" where
  "realPos q pos = unat (pos AND (of_nat (length (m_data q)) - 1))"

definition cell_status :: "nat \<Rightarrow> 'a spsc \<Rightarrow> cellStatus" where
  "cell_status pos q = fst (m_data q ! pos)"

definition cell_value :: "nat \<Rightarrow> 'a spsc \<Rightarrow> 'a" where
  "cell_value pos q = snd (m_data q ! pos)"

definition set_status :: "nat \<Rightarrow> cellStatus \<Rightarrow> 'a spsc \<Rightarrow> 'a spsc" where
  "set_status pos s q = q\<lparr>m_data := (m_data q)[pos := (s, cell_value pos q)]\<rparr>"

definition set_value :: "nat \<Rightarrow> 'a \<Rightarrow> 'a spsc \<Rightarrow> 'a spsc" where
  "set_value pos x q = q\<lparr>m_data := (m_data q)[pos := (cell_status pos q, x)]\<rparr>"

definition spsc_empty :: "'a spsc \<Rightarrow> bool" where
  "spsc_empty q \<longleftrightarrow> cell_status (realPos q (m_begin q)) q = CellEmpty"

definition spsc_full :: "'a spsc \<Rightarrow> bool" where
  "spsc_full q \<longleftrightarrow> cell_status (realPos q (m_end q)) q = CellFull"

section \<open>The steps of the two operations\<close>

text \<open>Where the producer is in \<open>push\<close>, with the item, the position and the attempts made.\<close>

datatype 'a producer =
  PReturned bool
| PTry 'a nat nat
| PAdvance 'a nat
| PWrite 'a nat
| PCommit 'a nat

definition push_call :: "'a \<Rightarrow> 'a spsc \<Rightarrow> 'a producer" where
  "push_call item q = PTry item (realPos q (m_end q)) 0"

fun push_step :: "'a producer \<Rightarrow> 'a spsc \<Rightarrow> 'a producer \<times> 'a spsc" where
  "push_step (PReturned b) q = (PReturned b, q)"
| "push_step (PTry item pos i) q =
     (if i + 1 = 3 then PReturned False
      else if cell_status pos q = CellEmpty then PAdvance item pos else PTry item pos (i + 1), q)"
| "push_step (PAdvance item pos) q = (PWrite item pos, q\<lparr>m_end := m_end q + 1\<rparr>)"
| "push_step (PWrite item pos) q = (PCommit item pos, set_value pos item q)"
| "push_step (PCommit item pos) q = (PReturned True, set_status pos CellFull q)"

text \<open>Where the consumer is in \<open>pop\<close>.\<close>

datatype 'a consumer =
  CReturned "'a option"
| CTry nat nat
| CAdvance nat
| CRead nat
| CReset nat 'a
| CRelease nat 'a

definition pop_call :: "'a spsc \<Rightarrow> 'a consumer" where
  "pop_call q = CTry (realPos q (m_begin q)) 0"

fun pop_step :: "'a \<Rightarrow> 'a consumer \<Rightarrow> 'a spsc \<Rightarrow> 'a consumer \<times> 'a spsc" where
  "pop_step d (CReturned r) q = (CReturned r, q)"
| "pop_step d (CTry pos i) q =
     (if i = 3 then CReturned None
      else if cell_status pos q = CellFull then CAdvance pos else CTry pos (i + 1), q)"
| "pop_step d (CAdvance pos) q = (CRead pos, q\<lparr>m_begin := m_begin q + 1\<rparr>)"
| "pop_step d (CRead pos) q = (CReset pos (cell_value pos q), q)"
| "pop_step d (CReset pos t) q = (CRelease pos t, set_value pos d q)"
| "pop_step d (CRelease pos t) q = (CReturned (Some t), set_status pos CellEmpty q)"

text \<open>An operation that runs alone: its steps up to the return, at most seven.\<close>

fun push_run :: "nat \<Rightarrow> 'a producer \<Rightarrow> 'a spsc \<Rightarrow> 'a producer \<times> 'a spsc" where
  "push_run 0 p q = (p, q)"
| "push_run (Suc n) p q = (let (p, q) = push_step p q in push_run n p q)"

fun pop_run :: "nat \<Rightarrow> 'a \<Rightarrow> 'a consumer \<Rightarrow> 'a spsc \<Rightarrow> 'a consumer \<times> 'a spsc" where
  "pop_run 0 d c q = (c, q)"
| "pop_run (Suc n) d c q = (let (c, q) = pop_step d c q in pop_run n d c q)"

definition spsc_push :: "'a \<Rightarrow> 'a spsc \<Rightarrow> 'a spsc \<times> bool" where
  "spsc_push item q = (case push_run 7 (push_call item q) q of (p, q) \<Rightarrow> (q, p = PReturned True))"

definition spsc_pop :: "'a \<Rightarrow> 'a spsc \<Rightarrow> 'a spsc \<times> 'a option" where
  "spsc_pop d q = (case pop_run 8 d (pop_call q) q of
     (c, q) \<Rightarrow> (q, case c of CReturned r \<Rightarrow> r | _ \<Rightarrow> None))"

section \<open>The two threads together\<close>

text \<open>
  \<open>accepted\<close> are the items whose \<open>push\<close> has committed, \<open>taken\<close> the items \<open>pop\<close> has handed
  out, both in order.
\<close>

record 'a sys =
  queue :: "'a spsc"
  prod :: "'a producer"
  cons :: "'a consumer"
  accepted :: "'a list"
  taken :: "'a list"

definition sys_start :: "'a \<Rightarrow> nat \<Rightarrow> 'a sys" where
  "sys_start d k = \<lparr>queue = SPSC d k, prod = PReturned False, cons = CReturned None, accepted = [], taken = []\<rparr>"

definition prod_step :: "'a sys \<Rightarrow> 'a sys" where
  "prod_step s = (case push_step (prod s) (queue s) of (p, q) \<Rightarrow>
     s\<lparr>prod := p, queue := q,
       accepted := accepted s @ (case prod s of PCommit item pos \<Rightarrow> [item] | _ \<Rightarrow> [])\<rparr>)"

definition cons_step :: "'a \<Rightarrow> 'a sys \<Rightarrow> 'a sys" where
  "cons_step d s = (case pop_step d (cons s) (queue s) of (c, q) \<Rightarrow>
     s\<lparr>cons := c, queue := q, taken := taken s @ (case cons s of CRelease pos t \<Rightarrow> [t] | _ \<Rightarrow> [])\<rparr>)"

inductive sys_step :: "'a \<Rightarrow> 'a sys \<Rightarrow> 'a sys \<Rightarrow> bool" for d where
  push: "prod s = PReturned b \<Longrightarrow> sys_step d s (s\<lparr>prod := push_call x (queue s)\<rparr>)"
| pop: "cons s = CReturned r \<Longrightarrow> sys_step d s (s\<lparr>cons := pop_call (queue s)\<rparr>)"
| producer: "sys_step d s (prod_step s)"
| consumer: "sys_step d s (cons_step d s)"

inductive sys_reach :: "'a \<Rightarrow> nat \<Rightarrow> 'a sys \<Rightarrow> bool" for d k where
  start: "sys_reach d k (sys_start d k)"
| step: "sys_reach d k s \<Longrightarrow> sys_step d s s' \<Longrightarrow> sys_reach d k s'"

section \<open>Positions\<close>

lemma mod_window:
  fixes a b n r :: nat
  assumes "a mod n = b mod n" and "r \<le> a" "a < r + n" "r \<le> b" "b < r + n"
  shows "a = b"
proof -
  have *: "x = y" if "x mod n = y mod n" "x \<le> y" "y < x + n" for x y :: nat
  proof -
    have "n dvd y - x" using that(1,2) by (metis mod_eq_dvd_iff_nat)
    moreover have "y - x < n" using that(2,3) by linarith
    ultimately show ?thesis using that(2) nat_dvd_not_less [of "y - x" n] by fastforce
  qed
  show ?thesis
    using * [of a b] * [of b a] assms by (cases "a \<le> b") auto
qed

lemma realPos_mod:
  assumes "length (m_data q) = 2 ^ k" and "k \<le> 24"
  shows "realPos q (of_nat j) = j mod 2 ^ k"
proof -
  have "(of_nat (2 ^ k) - 1 :: u64) = mask k" by (simp add: mask_eq_exp_minus_1)
  then have "realPos q (of_nat j) = unat (take_bit k (of_nat j :: u64))"
    by (simp add: realPos_def assms(1) take_bit_eq_mask)
  also have "\<dots> = j mod 2 ^ 64 mod 2 ^ k"
    by (simp only: unsigned_take_bit_eq unsigned_of_nat) (simp add: take_bit_eq_mod)
  also have "\<dots> = j mod 2 ^ k"
    using assms(2) by (intro mod_mod_cancel le_imp_power_dvd) simp
  finally show ?thesis .
qed

lemma cells [simp]:
  "length (m_data (set_value i x q)) = length (m_data q)"
  "length (m_data (set_status i st q)) = length (m_data q)"
  "m_begin (set_value i x q) = m_begin q" "m_end (set_value i x q) = m_end q"
  "m_begin (set_status i st q) = m_begin q" "m_end (set_status i st q) = m_end q"
  "cell_status j (q\<lparr>m_end := e\<rparr>) = cell_status j q" "cell_value j (q\<lparr>m_end := e\<rparr>) = cell_value j q"
  "cell_status j (q\<lparr>m_begin := e\<rparr>) = cell_status j q" "cell_value j (q\<lparr>m_begin := e\<rparr>) = cell_value j q"
  by (simp_all add: set_value_def set_status_def cell_status_def cell_value_def)

lemma cell_update:
  "i < length (m_data q) \<Longrightarrow> cell_status j (set_status i st q) = (if j = i then st else cell_status j q)"
  "i < length (m_data q) \<Longrightarrow> cell_value j (set_status i st q) = cell_value j q"
  "i < length (m_data q) \<Longrightarrow> cell_status j (set_value i x q) = cell_status j q"
  "i < length (m_data q) \<Longrightarrow> cell_value j (set_value i x q) = (if j = i then x else cell_value j q)"
  by (auto simp: set_value_def set_status_def cell_status_def cell_value_def nth_list_update)

section \<open>The invariant\<close>

text \<open>Cells of the window of \<open>n\<close> positions from the first one not yet released.\<close>

definition window_ok :: "nat \<Rightarrow> 'a sys \<Rightarrow> bool" where
  "window_ok n s \<longleftrightarrow>
     (\<forall>j. length (taken s) \<le> j \<and> j < length (accepted s) \<longrightarrow> cell_status (j mod n) (queue s) = CellFull)
   \<and> (\<forall>j. length (accepted s) \<le> j \<and> j < length (taken s) + n \<longrightarrow> cell_status (j mod n) (queue s) = CellEmpty)
   \<and> (\<forall>j. length (taken s) \<le> j \<and> j < length (accepted s) \<and> (j = length (taken s) \<longrightarrow> (\<forall>p t. cons s \<noteq> CRelease p t))
        \<longrightarrow> cell_value (j mod n) (queue s) = accepted s ! j)"

fun prod_ok :: "nat \<Rightarrow> 'a producer \<Rightarrow> 'a sys \<Rightarrow> bool" where
  "prod_ok n (PReturned b) s \<longleftrightarrow> True"
| "prod_ok n (PTry x pos i) s \<longleftrightarrow> pos = length (accepted s) mod n \<and> i \<le> 2"
| "prod_ok n (PAdvance x pos) s \<longleftrightarrow> pos = length (accepted s) mod n \<and> length (accepted s) < length (taken s) + n"
| "prod_ok n (PWrite x pos) s \<longleftrightarrow> pos = length (accepted s) mod n \<and> length (accepted s) < length (taken s) + n"
| "prod_ok n (PCommit x pos) s \<longleftrightarrow> pos = length (accepted s) mod n \<and> length (accepted s) < length (taken s) + n
     \<and> cell_value pos (queue s) = x"

fun cons_ok :: "nat \<Rightarrow> 'a consumer \<Rightarrow> 'a sys \<Rightarrow> bool" where
  "cons_ok n (CReturned r) s \<longleftrightarrow> True"
| "cons_ok n (CTry pos i) s \<longleftrightarrow> pos = length (taken s) mod n \<and> i \<le> 3"
| "cons_ok n (CAdvance pos) s \<longleftrightarrow> pos = length (taken s) mod n \<and> length (taken s) < length (accepted s)"
| "cons_ok n (CRead pos) s \<longleftrightarrow> pos = length (taken s) mod n \<and> length (taken s) < length (accepted s)"
| "cons_ok n (CReset pos t) s \<longleftrightarrow> pos = length (taken s) mod n \<and> length (taken s) < length (accepted s)
     \<and> t = accepted s ! length (taken s)"
| "cons_ok n (CRelease pos t) s \<longleftrightarrow> pos = length (taken s) mod n \<and> length (taken s) < length (accepted s)
     \<and> t = accepted s ! length (taken s)"

fun advanced_p :: "'a producer \<Rightarrow> nat" where
  "advanced_p (PWrite x pos) = 1"
| "advanced_p (PCommit x pos) = 1"
| "advanced_p _ = 0"

fun advanced_c :: "'a consumer \<Rightarrow> nat" where
  "advanced_c (CRead pos) = 1"
| "advanced_c (CReset pos t) = 1"
| "advanced_c (CRelease pos t) = 1"
| "advanced_c _ = 0"

definition spsc_inv :: "nat \<Rightarrow> 'a sys \<Rightarrow> bool" where
  "spsc_inv k s \<longleftrightarrow> k \<le> 24 \<and> length (m_data (queue s)) = 2 ^ k
     \<and> m_end (queue s) = of_nat (length (accepted s) + advanced_p (prod s))
     \<and> m_begin (queue s) = of_nat (length (taken s) + advanced_c (cons s))
     \<and> taken s = take (length (taken s)) (accepted s)
     \<and> length (taken s) \<le> length (accepted s) \<and> length (accepted s) \<le> length (taken s) + 2 ^ k
     \<and> window_ok (2 ^ k) s \<and> prod_ok (2 ^ k) (prod s) s \<and> cons_ok (2 ^ k) (cons s) s"

lemma spsc_inv_start:
  "spsc_inv (if k < 24 then k else 24) (sys_start d k)"
  by (auto simp: spsc_inv_def sys_start_def SPSC_def window_ok_def cell_status_def)

lemma spsc_inv_push_call:
  assumes "spsc_inv k s" and "prod s = PReturned b"
  shows "spsc_inv k (s\<lparr>prod := push_call x (queue s)\<rparr>)"
  using assms by (cases "cons s")
    (auto simp: spsc_inv_def push_call_def realPos_mod window_ok_def)

lemma spsc_inv_pop_call:
  assumes "spsc_inv k s" and "cons s = CReturned r"
  shows "spsc_inv k (s\<lparr>cons := pop_call (queue s)\<rparr>)"
  using assms by (cases "prod s")
    (auto simp: spsc_inv_def pop_call_def realPos_mod window_ok_def)

lemma spsc_invD:
  assumes "spsc_inv k s"
  shows "k \<le> 24" "length (m_data (queue s)) = 2 ^ k" "window_ok (2 ^ k) s"
    "length (taken s) \<le> length (accepted s)" "length (accepted s) \<le> length (taken s) + 2 ^ k"
    "j mod 2 ^ k < length (m_data (queue s))"
  using assms by (simp_all add: spsc_inv_def)

text \<open>The cell at the end is empty exactly when there is room, the one at the begin full
  exactly when there is an item.\<close>

lemma cell_at_end:
  assumes "spsc_inv k s"
  shows "cell_status (length (accepted s) mod 2 ^ k) (queue s) =
    (if length (accepted s) < length (taken s) + 2 ^ k then CellEmpty else CellFull)"
proof (cases "length (accepted s) < length (taken s) + 2 ^ k")
  case True
  then show ?thesis using spsc_invD(3) [OF assms] by (simp add: window_ok_def)
next
  case False
  then have e: "length (accepted s) = length (taken s) + 2 ^ k" using spsc_invD(5) [OF assms] by simp
  then have "length (accepted s) mod 2 ^ k = length (taken s) mod 2 ^ k" by simp
  with e False show ?thesis using spsc_invD(3) [OF assms] by (simp add: window_ok_def)
qed

lemma cell_at_begin:
  assumes "spsc_inv k s"
  shows "cell_status (length (taken s) mod 2 ^ k) (queue s) =
    (if length (taken s) < length (accepted s) then CellFull else CellEmpty)"
  using spsc_invD(3,4) [OF assms] by (auto simp: window_ok_def)

lemma window_commit:
  assumes "spsc_inv k s" and "length (accepted s) < length (taken s) + 2 ^ k"
    and "cell_value (length (accepted s) mod 2 ^ k) (queue s) = x"
  shows "window_ok (2 ^ k) (s\<lparr>prod := p, queue := set_status (length (accepted s) mod 2 ^ k) CellFull (queue s),
    accepted := accepted s @ [x]\<rparr>)"
proof -
  have i: "length (accepted s) mod 2 ^ k < length (m_data (queue s))" by (rule spsc_invD(6) [OF assms(1)])
  have w: "j mod 2 ^ k = length (accepted s) mod 2 ^ k \<longleftrightarrow> j = length (accepted s)"
    if "length (taken s) \<le> j" "j < length (taken s) + 2 ^ k" for j
    using mod_window [of j "2 ^ k" "length (accepted s)" "length (taken s)"] that assms(2) spsc_invD(4) [OF assms(1)]
    by auto
  have "j < length (taken s) + 2 ^ k" if "j < Suc (length (accepted s))" for j
    using that assms(2) by linarith
  then show ?thesis
    using spsc_invD(3,4) [OF assms(1)] assms(2,3) w
    by (auto simp: window_ok_def cell_update [OF i] nth_append less_Suc_eq)
qed

lemma spsc_inv_prod_step:
  assumes "spsc_inv k s"
  shows "spsc_inv k (prod_step s)"
proof (cases "prod s")
  case (PReturned b)
  then have "prod_step s = s" by (simp add: prod_step_def)
  then show ?thesis using assms by simp
next
  case (PTry x pos i)
  have "cons_ok n (cons s) (s\<lparr>prod := p\<rparr>) = cons_ok n (cons s) s" for n p by (cases "cons s") auto
  then show ?thesis
    using assms PTry cell_at_end [OF assms]
    by (auto simp: prod_step_def spsc_inv_def window_ok_def split: if_splits)
next
  case (PAdvance x pos)
  have "cons_ok n (cons s) (s\<lparr>prod := p, queue := q\<rparr>) = cons_ok n (cons s) s" for n p q by (cases "cons s") auto
  then show ?thesis using assms PAdvance
    by (auto simp: prod_step_def spsc_inv_def window_ok_def)
next
  case (PWrite x pos)
  have "cons_ok n (cons s) (s\<lparr>prod := p, queue := q\<rparr>) = cons_ok n (cons s) s" for n p q by (cases "cons s") auto
  moreover have i: "length (accepted s) mod 2 ^ k < length (m_data (queue s))" by (rule spsc_invD(6) [OF assms])
  moreover have "j mod 2 ^ k \<noteq> length (accepted s) mod 2 ^ k"
    if "length (taken s) \<le> j" "j < length (accepted s)" for j
    using mod_window [of j "2 ^ k" "length (accepted s)" "length (taken s)"] that assms PWrite
    by (auto simp: spsc_inv_def)
  ultimately show ?thesis using assms PWrite
    by (auto simp: prod_step_def spsc_inv_def window_ok_def cell_update [OF i])
next
  case (PCommit x pos)
  then have pos: "pos = length (accepted s) mod 2 ^ k" and room: "length (accepted s) < length (taken s) + 2 ^ k"
    and x: "cell_value (length (accepted s) mod 2 ^ k) (queue s) = x"
    using assms by (auto simp: spsc_inv_def)
  have "cons_ok n (cons s) (s\<lparr>prod := p, queue := q, accepted := accepted s @ [y]\<rparr>)"
    if "cons_ok n (cons s) s" for n p q y
    using that by (cases "cons s") (auto simp: nth_append)
  then show ?thesis
    using assms window_commit [OF assms room x, of "PReturned True"] PCommit pos room
    by (auto simp: prod_step_def spsc_inv_def)
qed

lemma window_release:
  assumes "spsc_inv k s" and "length (taken s) < length (accepted s)"
  shows "window_ok (2 ^ k) (s\<lparr>cons := CReturned r, queue := set_status (length (taken s) mod 2 ^ k) CellEmpty (queue s),
    taken := taken s @ [x]\<rparr>)"
proof -
  have i: "length (taken s) mod 2 ^ k < length (m_data (queue s))" by (rule spsc_invD(6) [OF assms(1)])
  have w: "j mod 2 ^ k = length (taken s) mod 2 ^ k \<longleftrightarrow> j = length (taken s)"
    if "length (taken s) \<le> j" "j < length (taken s) + 2 ^ k" for j
    using mod_window [of j "2 ^ k" "length (taken s)" "length (taken s)"] that by auto
  have last: "j < Suc (length (taken s) + 2 ^ k) \<longleftrightarrow> j < length (taken s) + 2 ^ k \<or> j = length (taken s) + 2 ^ k" for j
    by auto
  show ?thesis
    using spsc_invD(3,4,5) [OF assms(1)] assms(2) w
    by (auto simp: window_ok_def cell_update [OF i] last)
qed

lemma spsc_inv_cons_step:
  assumes "spsc_inv k s"
  shows "spsc_inv k (cons_step d s)"
proof (cases "cons s")
  case (CReturned r)
  then have "cons_step d s = s" by (simp add: cons_step_def)
  then show ?thesis using assms by simp
next
  case (CTry pos i)
  have "prod_ok n (prod s) (s\<lparr>cons := c\<rparr>) = prod_ok n (prod s) s" for n c by (cases "prod s") auto
  then show ?thesis
    using assms CTry cell_at_begin [OF assms]
    by (auto simp: cons_step_def spsc_inv_def window_ok_def split: if_splits)
next
  case (CAdvance pos)
  have "prod_ok n (prod s) (s\<lparr>cons := c, queue := queue s\<lparr>m_begin := b\<rparr>\<rparr>) = prod_ok n (prod s) s" for n c b
    by (cases "prod s") auto
  then show ?thesis using assms CAdvance
    by (auto simp: cons_step_def spsc_inv_def window_ok_def)
next
  case (CRead pos)
  have "prod_ok n (prod s) (s\<lparr>cons := c\<rparr>) = prod_ok n (prod s) s" for n c by (cases "prod s") auto
  then show ?thesis using assms CRead
    by (auto simp: cons_step_def spsc_inv_def window_ok_def)
next
  case (CReset pos t)
  then have pos: "pos = length (taken s) mod 2 ^ k" and some: "length (taken s) < length (accepted s)"
    using assms by (auto simp: spsc_inv_def)
  have i: "length (taken s) mod 2 ^ k < length (m_data (queue s))" by (rule spsc_invD(6) [OF assms])
  have w: "j mod 2 ^ k \<noteq> length (taken s) mod 2 ^ k"
    if "length (taken s) < j" "j < length (taken s) + 2 ^ k" for j
    using mod_window [of j "2 ^ k" "length (taken s)" "length (taken s)"] that by auto
  have "prod_ok (2 ^ k) (prod s) (s\<lparr>cons := c, queue := set_value pos d (queue s)\<rparr>)" for c
    using assms some w [of "length (accepted s)"] unfolding pos
    by (cases "prod s") (auto simp: spsc_inv_def cell_update [OF i])
  then show ?thesis using assms CReset some w pos
    by (auto simp: cons_step_def spsc_inv_def window_ok_def cell_update [OF i])
next
  case (CRelease pos t)
  then have pos: "pos = length (taken s) mod 2 ^ k" and some: "length (taken s) < length (accepted s)"
    and t: "t = accepted s ! length (taken s)"
    using assms by (auto simp: spsc_inv_def)
  have i: "length (taken s) mod 2 ^ k < length (m_data (queue s))" by (rule spsc_invD(6) [OF assms])
  have "prod_ok (2 ^ k) (prod s) (s\<lparr>cons := c, queue := set_status pos CellEmpty (queue s), taken := ys\<rparr>)"
    if "length ys = Suc (length (taken s))" for c ys
    using assms that unfolding pos
    by (cases "prod s") (auto simp: spsc_inv_def cell_update [OF i])
  moreover have "taken s @ [t] = take (Suc (length (taken s))) (accepted s)"
    using assms some t by (simp add: spsc_inv_def take_Suc_conv_app_nth)
  ultimately show ?thesis
    using assms window_release [OF assms some, where r = "Some t" and x = t] CRelease pos some
    by (auto simp: cons_step_def spsc_inv_def)
qed

lemma spsc_inv_reach:
  "sys_reach d k s \<Longrightarrow> spsc_inv (if k < 24 then k else 24) s"
proof (induction rule: sys_reach.induct)
  case start
  show ?case by (rule spsc_inv_start)
next
  case (step s s')
  from step.hyps(2) step.IH show ?case
    by cases (auto intro: spsc_inv_push_call spsc_inv_pop_call spsc_inv_prod_step spsc_inv_cons_step)
qed

section \<open>What the threads may rely on\<close>

lemma spsc_full_iff:
  assumes "spsc_inv k s" and "advanced_p (prod s) = 0"
  shows "spsc_full (queue s) \<longleftrightarrow> length (accepted s) = length (taken s) + 2 ^ k"
proof -
  have "realPos (queue s) (m_end (queue s)) = length (accepted s) mod 2 ^ k"
    using assms realPos_mod [of "queue s" k "length (accepted s)"] by (simp add: spsc_inv_def)
  then show ?thesis
    using cell_at_end [OF assms(1)] spsc_invD(5) [OF assms(1)] by (auto simp: spsc_full_def)
qed

lemma spsc_empty_iff:
  assumes "spsc_inv k s" and "advanced_c (cons s) = 0"
  shows "spsc_empty (queue s) \<longleftrightarrow> length (accepted s) = length (taken s)"
proof -
  have "realPos (queue s) (m_begin (queue s)) = length (taken s) mod 2 ^ k"
    using assms realPos_mod [of "queue s" k "length (taken s)"] by (simp add: spsc_inv_def)
  then show ?thesis
    using cell_at_begin [OF assms(1)] spsc_invD(4) [OF assms(1)] by (auto simp: spsc_empty_def)
qed

lemma spsc_reach_facts:
  assumes "sys_reach d k s" and "n = 2 ^ (if k < 24 then k else 24)"
  shows "taken s = take (length (taken s)) (accepted s)
    \<and> length (taken s) \<le> length (accepted s) \<and> length (accepted s) \<le> length (taken s) + n
    \<and> (\<forall>b. prod s = PReturned b \<longrightarrow> spsc_full (queue s) = (length (accepted s) = length (taken s) + n))
    \<and> (\<forall>r. cons s = CReturned r \<longrightarrow> spsc_empty (queue s) = (length (accepted s) = length (taken s)))
    \<and> (\<forall>x pos i. prod s = PTry x pos i \<and> i < 2 \<longrightarrow>
         (prod (prod_step s) = PAdvance x pos \<longleftrightarrow> length (accepted s) < length (taken s) + n))"
proof -
  let ?k = "if k < 24 then k else 24"
  have inv: "spsc_inv ?k s" using assms(1) by (rule spsc_inv_reach)
  have "prod (prod_step s) = PAdvance x pos \<longleftrightarrow> length (accepted s) < length (taken s) + 2 ^ ?k"
    if "prod s = PTry x pos i" "i < 2" for x pos i
  proof -
    have "pos = length (accepted s) mod 2 ^ ?k" using inv that(1) by (auto simp: spsc_inv_def)
    then show ?thesis using that cell_at_end [OF inv] by (auto simp: prod_step_def)
  qed
  then show ?thesis
    using inv spsc_invD(4,5) [OF inv] spsc_full_iff [OF inv] spsc_empty_iff [OF inv] assms(2)
    by (auto simp: spsc_inv_def)
qed

text \<open>C15: The queue between the two threads is first in, first out under every interleaving of
  their steps: what the consumer has taken is a prefix of what the producer has put in, at
  most \<open>2 ^ powArg\<close> items are under way, nothing is lost, doubled or torn, and the counters
  may wrap around. Each side may trust the test it makes between its own operations: \<open>full\<close> of the
  producer, \<open>empty\<close> of the consumer; and an attempt to push succeeds exactly when there is
  room at that moment.\<close>

theorem spsc_fifo:
  assumes "sys_reach d k s" and "n = 2 ^ (if k < 24 then k else 24)"
  shows "taken s = take (length (taken s)) (accepted s)
    \<and> length (taken s) \<le> length (accepted s) \<and> length (accepted s) \<le> length (taken s) + n
    \<and> (\<forall>b. prod s = PReturned b \<longrightarrow> spsc_full (queue s) = (length (accepted s) = length (taken s) + n))
    \<and> (\<forall>r. cons s = CReturned r \<longrightarrow> spsc_empty (queue s) = (length (accepted s) = length (taken s)))
    \<and> (\<forall>x pos i. prod s = PTry x pos i \<and> i < 2 \<longrightarrow>
         (prod (prod_step s) = PAdvance x pos \<longleftrightarrow> length (accepted s) < length (taken s) + n))"
  using assms by (rule spsc_reach_facts)

text \<open>A queue of one cell in which the producer waits at its second item.\<close>

definition one_cell :: "nat sys" where
  "one_cell = (let s = prod_step (prod_step (prod_step (prod_step
       ((sys_start 0 0)\<lparr>prod := push_call 7 (queue (sys_start 0 0))\<rparr>))))
     in s\<lparr>prod := push_call 8 (queue s)\<rparr>)"

lemma one_cell_reach: "sys_reach 0 0 one_cell"
proof -
  have P: "sys_reach 0 0 s \<Longrightarrow> sys_reach 0 0 (prod_step s)" for s :: "nat sys"
    by (rule sys_reach.step [OF _ sys_step.producer])
  have C: "sys_reach 0 0 s \<Longrightarrow> prod s = PReturned b \<Longrightarrow> sys_reach 0 0 (s\<lparr>prod := push_call x (queue s)\<rparr>)" for s :: "nat sys" and b x
    by (rule sys_reach.step [OF _ sys_step.push])
  let ?s = "prod_step (prod_step (prod_step (prod_step
       ((sys_start 0 0)\<lparr>prod := push_call (7 :: nat) (queue (sys_start 0 0))\<rparr>))))"
  have "prod ?s = PReturned True"
    by (simp add: sys_start_def SPSC_def push_call_def prod_step_def realPos_def cell_status_def)
  moreover have "sys_reach 0 0 ?s"
    by (intro P C [of _ False] sys_reach.start) (simp add: sys_start_def)
  ultimately show ?thesis unfolding one_cell_def Let_def by (intro C)
qed

theorem spsc_fifo_witness:
  "prod (prod_step one_cell) \<noteq> PAdvance 8 0"
proof -
  have p: "prod one_cell = PTry 8 0 0" "accepted one_cell = [7]" "taken one_cell = []"
    by (simp_all add: one_cell_def sys_start_def SPSC_def push_call_def prod_step_def realPos_def cell_status_def
      set_value_def set_status_def)
  from spsc_fifo [OF one_cell_reach refl] have "\<forall>x pos i. prod one_cell = PTry x pos i \<and> i < 2 \<longrightarrow>
      (prod (prod_step one_cell) = PAdvance x pos \<longleftrightarrow> length (accepted one_cell) < length (taken one_cell) + 2 ^ (if (0::nat) < 24 then 0 else 24))"
    by blast
  then show ?thesis using p by simp
qed

end
