(* ===== verification/RecvQueue.thy ===== *)
theory RecvQueue
  imports SpscQueue
begin

text \<open>
  The receive queue as its users see it. The contract of a bounded queue is the locale
  \<open>bounded_queue\<close>: any sequence of operations answers as on a list that refuses items beyond a
  bound. Run without interference, the operations of \<open>SpscQueue\<close> meet it, so that the list the
  connection manager is modelled with (\<open>recvQueue_push\<close>, \<open>getPacket\<close>) stands for the ring of
  \<open>2 ^ 10\<close> cells the code has.
\<close>

section \<open>The contract of a bounded queue\<close>

datatype 'a queueOp = Push 'a | Pop

datatype 'a queueAns = Pushed bool | Popped "'a option"

fun queue_ops ::
  "('a \<Rightarrow> 'q \<Rightarrow> 'q \<times> bool) \<Rightarrow> ('q \<Rightarrow> 'q \<times> 'a option) \<Rightarrow> 'a queueOp list \<Rightarrow> 'q \<Rightarrow> 'q \<times> 'a queueAns list" where
  "queue_ops push pop [] q = (q, [])"
| "queue_ops push pop (Push x # ops) q =
     (let (q', b) = push x q; (q'', as) = queue_ops push pop ops q' in (q'', Pushed b # as))"
| "queue_ops push pop (Pop # ops) q =
     (let (q', r) = pop q; (q'', as) = queue_ops push pop ops q' in (q'', Popped r # as))"

definition list_push :: "nat \<Rightarrow> 'a \<Rightarrow> 'a list \<Rightarrow> 'a list \<times> bool" where
  "list_push cap x xs = (if length xs < cap then (xs @ [x], True) else (xs, False))"

fun list_pop :: "'a list \<Rightarrow> 'a list \<times> 'a option" where
  "list_pop [] = ([], None)"
| "list_pop (x # xs) = (xs, Some x)"

locale bounded_queue =
  fixes rep :: "'q \<Rightarrow> 'a list \<Rightarrow> bool"
    and cap :: nat
    and push :: "'a \<Rightarrow> 'q \<Rightarrow> 'q \<times> bool"
    and pop :: "'q \<Rightarrow> 'q \<times> 'a option"
  assumes rep_push: "rep q xs \<Longrightarrow> rep (fst (push x q)) (fst (list_push cap x xs))"
    and ans_push: "rep q xs \<Longrightarrow> snd (push x q) = snd (list_push cap x xs)"
    and rep_pop: "rep q xs \<Longrightarrow> rep (fst (pop q)) (fst (list_pop xs))"
    and ans_pop: "rep q xs \<Longrightarrow> snd (pop q) = snd (list_pop xs)"
begin

lemma ops_refine:
  "rep q xs \<Longrightarrow> rep (fst (queue_ops push pop ops q)) (fst (queue_ops (list_push cap) list_pop ops xs))
    \<and> snd (queue_ops push pop ops q) = snd (queue_ops (list_push cap) list_pop ops xs)"
proof (induction ops arbitrary: q xs)
  case Nil
  then show ?case by simp
next
  case (Cons op ops)
  show ?case
  proof (cases op)
    case (Push x)
    then show ?thesis
      using Cons.IH [OF rep_push [OF Cons.prems, of x]] ans_push [OF Cons.prems, of x]
      by (simp add: case_prod_beta Let_def)
  next
    case Pop
    then show ?thesis
      using Cons.IH [OF rep_pop [OF Cons.prems]] ans_pop [OF Cons.prems]
      by (simp add: case_prod_beta Let_def)
  qed
qed

end

section \<open>The ring meets the contract\<close>

definition idle :: "'a spsc \<Rightarrow> 'a list \<Rightarrow> nat \<Rightarrow> 'a sys" where
  "idle q acc n = \<lparr>queue = q, prod = PReturned True, cons = CReturned None, accepted = acc, taken = take n acc\<rparr>"

definition spsc_rep :: "nat \<Rightarrow> 'a spsc \<Rightarrow> 'a list \<Rightarrow> bool" where
  "spsc_rep k q xs \<longleftrightarrow> (\<exists>acc n. n \<le> length acc \<and> xs = drop n acc \<and> spsc_inv k (idle q acc n))"

lemma spsc_inv_returned:
  "spsc_inv k (s\<lparr>prod := PReturned b, cons := CReturned r\<rparr>) \<longleftrightarrow>
   spsc_inv k (s\<lparr>prod := PReturned True, cons := CReturned None\<rparr>)"
  by (simp add: spsc_inv_def window_ok_def)

lemma spsc_rep_start:
  assumes "k \<le> 24"
  shows "spsc_rep k (SPSC d k) []"
proof -
  have k: "(if k < 24 then k else 24) = k" using assms by auto
  have "spsc_inv k ((sys_start d k)\<lparr>prod := PReturned True, cons := CReturned None\<rparr>)"
    using spsc_inv_start [of k d] spsc_inv_returned [where s = "sys_start d k" and b = False and r = None and k = k]
    by (simp add: k sys_start_def)
  then show ?thesis
    unfolding spsc_rep_def by (intro exI [of _ "[]"] exI [of _ 0]) (simp add: idle_def sys_start_def)
qed

lemma spsc_rep_length: "spsc_rep k q xs \<Longrightarrow> length xs \<le> 2 ^ k"
  using spsc_invD(5) by (fastforce simp: spsc_rep_def idle_def)

lemma runs [simp]:
  "push_run n (PReturned b) q = (PReturned b, q)" "pop_run n d (CReturned r) q = (CReturned r, q)"
  by (induction n) simp_all

lemma push_alone:
  fixes q :: "'a spsc"
  assumes inv: "spsc_inv k (idle q acc n)" and n: "n \<le> length acc"
  shows "spsc_inv k (idle (fst (spsc_push x q)) (if length acc < n + 2 ^ k then acc @ [x] else acc) n)
    \<and> snd (spsc_push x q) = (length acc < n + 2 ^ k)"
proof -
  define s where "s = (idle q acc n)\<lparr>prod := push_call x q\<rparr>"
  have s: "spsc_inv k s" unfolding s_def
    using spsc_inv_push_call [OF inv, of True x] by (simp add: idle_def)
  have p: "prod s = PTry x (length acc mod 2 ^ k) 0"
    using inv n realPos_mod [of q k "length acc"] by (simp add: s_def idle_def push_call_def spsc_inv_def)
  have q: "queue s = q" and [simp]: "accepted s = acc" "taken s = take n acc" "cons s = CReturned None"
    by (simp_all add: s_def idle_def)
  have call: "push_call x q = PTry x (length acc mod 2 ^ k) 0" using p by (simp add: s_def)
  have cell: "cell_status (length acc mod 2 ^ k) q = (if length acc < n + 2 ^ k then CellEmpty else CellFull)"
    using cell_at_end [OF s] n q by simp
  show ?thesis
  proof (cases "length acc < n + 2 ^ k")
    case True
    have st: "prod_step (prod_step (prod_step (prod_step s))) =
      idle (fst (spsc_push x q)) (acc @ [x]) n"
      using True cell n
      by (simp add: s_def call idle_def prod_step_def spsc_push_def eval_nat_numeral)
    have "spsc_inv k (prod_step (prod_step (prod_step (prod_step s))))"
      by (intro spsc_inv_prod_step s)
    then show ?thesis using True cell unfolding st by (simp add: spsc_push_def call eval_nat_numeral)
  next
    case False
    then have "spsc_push x q = (q, False)" using cell by (simp add: spsc_push_def call eval_nat_numeral)
    then show ?thesis using False inv by simp
  qed
qed

lemma pop_alone:
  fixes q :: "'a spsc"
  assumes inv: "spsc_inv k (idle q acc n)" and n: "n \<le> length acc"
  shows "spsc_inv k (idle (fst (spsc_pop d q)) acc (if n < length acc then Suc n else n))
    \<and> snd (spsc_pop d q) = (if n < length acc then Some (acc ! n) else None)"
proof -
  define s where "s = (idle q acc n)\<lparr>cons := pop_call q\<rparr>"
  have s: "spsc_inv k s" unfolding s_def
    using spsc_inv_pop_call [OF inv, of None] by (simp add: idle_def)
  have c: "cons s = CTry (n mod 2 ^ k) 0"
    using inv n realPos_mod [of q k n] by (simp add: s_def idle_def pop_call_def spsc_inv_def min_absorb2)
  have q: "queue s = q" and [simp]: "accepted s = acc" "taken s = take n acc" "prod s = PReturned True"
    by (simp_all add: s_def idle_def)
  have call: "pop_call q = CTry (n mod 2 ^ k) 0" using c by (simp add: s_def)
  have cell: "cell_status (n mod 2 ^ k) q = (if n < length acc then CellFull else CellEmpty)"
    using cell_at_begin [OF s] n q by (simp add: min_absorb2)
  show ?thesis
  proof (cases "n < length acc")
    case True
    have "window_ok (2 ^ k) (idle q acc n)" by (rule spsc_invD(3) [OF inv])
    then have v: "cell_value (n mod 2 ^ k) q = acc ! n"
      using True n by (simp add: window_ok_def idle_def min_absorb2)
    have st: "cons_step d (cons_step d (cons_step d (cons_step d (cons_step d s)))) =
      (idle (fst (spsc_pop d q)) acc (Suc n))\<lparr>cons := CReturned (Some (acc ! n))\<rparr>"
      using True cell v
      by (simp add: s_def call idle_def cons_step_def spsc_pop_def eval_nat_numeral take_Suc_conv_app_nth)
    have "spsc_inv k (cons_step d (cons_step d (cons_step d (cons_step d (cons_step d s)))))"
      by (intro spsc_inv_cons_step s)
    then have "spsc_inv k (idle (fst (spsc_pop d q)) acc (Suc n))"
      using spsc_inv_returned [where k = k and s = "idle (fst (spsc_pop d q)) acc (Suc n)" and b = True and r = "Some (acc ! n)"]
      unfolding st by (simp add: idle_def)
    then show ?thesis using True cell v by (simp add: spsc_pop_def call eval_nat_numeral)
  next
    case False
    then have "spsc_pop d q = (q, None)" using cell by (simp add: spsc_pop_def call eval_nat_numeral)
    then show ?thesis using False inv by simp
  qed
qed

interpretation ring: bounded_queue "spsc_rep k" "2 ^ k" spsc_push "spsc_pop d" for k d
proof unfold_locales
  fix q :: "'a spsc" and xs x
  assume "spsc_rep k q xs"
  then obtain acc n where r: "n \<le> length acc" "xs = drop n acc" "spsc_inv k (idle q acc n)"
    by (auto simp: spsc_rep_def)
  have l: "length xs < 2 ^ k \<longleftrightarrow> length acc < n + 2 ^ k" using r(1,2) by auto
  note p = push_alone [OF r(3,1), of x] and o = pop_alone [OF r(3,1), of d]
  show "spsc_rep k (fst (spsc_push x q)) (fst (list_push (2 ^ k) x xs))"
    unfolding spsc_rep_def
    by (intro exI [of _ "if length acc < n + 2 ^ k then acc @ [x] else acc"] exI [of _ n])
      (use p r l in \<open>auto simp: list_push_def\<close>)
  show "snd (spsc_push x q) = snd (list_push (2 ^ k) x xs)"
    using p l by (simp add: list_push_def)
  show "spsc_rep k (fst (spsc_pop d q)) (fst (list_pop xs))"
    unfolding spsc_rep_def
    by (intro exI [of _ acc] exI [of _ "if n < length acc then Suc n else n"])
      (use o r in \<open>cases xs; auto simp: drop_Suc tl_drop [symmetric] dest: sym\<close>)
  show "snd (spsc_pop d q) = snd (list_pop xs)"
    using o r by (cases xs) (auto simp: Cons_nth_drop_Suc [symmetric] dest: sym)
qed

section \<open>The receive queue of the connection manager\<close>

lemma recvQueue_push_list: "list_push (2 ^ 10) x xs = (recvQueue_push x xs, length xs < recvQueue_max)"
  by (simp add: list_push_def recvQueue_push_def recvQueue_max_def)

lemma getPacket_list: "getPacket m = (m\<lparr>recvQueue := fst (list_pop (recvQueue m))\<rparr>, snd (list_pop (recvQueue m)))"
  by (cases "recvQueue m") (simp_all add: getPacket_def)

text \<open>C17: The receive queue of the connection manager. Whatever sequence of packets is put in
  and taken out, the ring of \<open>2 ^ 10\<close> cells answers as the list the connection manager is
  modelled with: it takes packets up to 1024 and refuses the others, and hands them out in
  order.\<close>

theorem recv_queue_refined:
  "snd (queue_ops spsc_push (spsc_pop d) ops (SPSC d 10)) =
     snd (queue_ops (\<lambda>x xs. (recvQueue_push x xs, length xs < recvQueue_max)) list_pop ops [])
   \<and> getPacket m = (m\<lparr>recvQueue := fst (list_pop (recvQueue m))\<rparr>, snd (list_pop (recvQueue m)))"
proof (rule conjI)
  have "spsc_rep 10 (SPSC d 10) []" by (rule spsc_rep_start) simp
  from ring.ops_refine [OF this, of d ops]
  show "snd (queue_ops spsc_push (spsc_pop d) ops (SPSC d 10)) =
     snd (queue_ops (\<lambda>x xs. (recvQueue_push x xs, length xs < recvQueue_max)) list_pop ops [])"
    unfolding recvQueue_push_list [abs_def] by simp
qed (rule getPacket_list)

end
