(* ===== verification/HttpPackets.thy ===== *)
theory HttpPackets
  imports Wire
begin

text \<open>
  \<open>HttpPacket\<close> of \<^verbatim>\<open>water/net/http_packet.cpp\<close>: the message a parser fills through its
  callbacks. The parser itself is the vendored \<open>http-parser\<close>; its three functions are a
  record of parameters, and a call of \<open>http_parser_execute\<close> answers with the new parser, the
  callbacks it made in order, and the number of bytes it took.
\<close>

datatype httpType = HttpRequest | HttpResponse

text \<open>\<open>statusCode\<close> and \<open>method\<close> are one field, a union.\<close>

record httpMsg =
  msg_type :: httpType
  msg_curHeaderFiled :: bytes
  msg_headers :: "bytes \<rightharpoonup> bytes"
  msg_code :: u32
  msg_keepAlive :: bool
  msg_body :: bytes
  msg_url :: bytes

datatype httpCallback =
  OnMessageBegin
| OnUrl bytes
| OnStatus u32 u32
| OnHeaderField bytes
| OnHeaderValue bytes
| OnHeadersComplete
| OnBody bytes
| OnMessageComplete
| OnChunkHeader
| OnChunkComplete

record 'p httpParser =
  parser_init :: "httpType \<Rightarrow> 'p"
  parser_pause :: "bool \<Rightarrow> 'p \<Rightarrow> 'p"
  parser_execute :: "'p \<Rightarrow> bytes \<Rightarrow> 'p \<times> httpCallback list \<times> nat"

record 'p httpPacket =
  hp_parser :: 'p
  hp_completed :: bool
  hp_msg :: httpMsg

definition httpMsg_new :: "httpType \<Rightarrow> httpMsg" where
  "httpMsg_new t = \<lparr>msg_type = t, msg_curHeaderFiled = [], msg_headers = Map.empty, msg_code = 0,
     msg_keepAlive = False, msg_body = [], msg_url = []\<rparr>"

text \<open>The parser is set up for requests in both cases, and the packet starts out completed.\<close>

definition HttpPacket :: "'p httpParser \<Rightarrow> httpType \<Rightarrow> 'p httpPacket" where
  "HttpPacket hp t =
     \<lparr>hp_parser = parser_init hp (if t = HttpRequest then HttpRequest else HttpRequest),
      hp_completed = True, hp_msg = httpMsg_new t\<rparr>"

text \<open>The first number of \<open>OnStatus\<close> is the status code of the parser, the second its method.\<close>

fun on_callback :: "httpCallback \<Rightarrow> 'p httpPacket \<Rightarrow> 'p httpPacket" where
  "on_callback OnMessageBegin p = p"
| "on_callback (OnUrl d) p = p\<lparr>hp_msg := (hp_msg p)\<lparr>msg_url := d\<rparr>\<rparr>"
| "on_callback (OnStatus status meth) p =
     p\<lparr>hp_msg := (hp_msg p)\<lparr>msg_code := (if msg_type (hp_msg p) = HttpRequest then meth else status)\<rparr>\<rparr>"
| "on_callback (OnHeaderField d) p = p\<lparr>hp_msg := (hp_msg p)\<lparr>msg_curHeaderFiled := d\<rparr>\<rparr>"
| "on_callback (OnHeaderValue d) p =
     p\<lparr>hp_msg := (hp_msg p)\<lparr>msg_headers := (msg_headers (hp_msg p))(msg_curHeaderFiled (hp_msg p) \<mapsto> d)\<rparr>\<rparr>"
| "on_callback OnHeadersComplete p = p\<lparr>hp_msg := (hp_msg p)\<lparr>msg_curHeaderFiled := []\<rparr>\<rparr>"
| "on_callback (OnBody d) p = p\<lparr>hp_msg := (hp_msg p)\<lparr>msg_body := msg_body (hp_msg p) @ d\<rparr>\<rparr>"
| "on_callback OnMessageComplete p = p\<lparr>hp_completed := True\<rparr>"
| "on_callback OnChunkHeader p = p"
| "on_callback OnChunkComplete p = p"

definition http_parse :: "'p httpParser \<Rightarrow> bytes \<Rightarrow> 'p httpPacket \<Rightarrow> 'p httpPacket \<times> nat" where
  "http_parse hp data p =
     (if hp_completed p then (p, 0)
      else let (st, cbs, used) = parser_execute hp (parser_pause hp False (hp_parser p)) data
           in (fold on_callback cbs (p\<lparr>hp_parser := st\<rparr>), used))"

definition http_tryParse :: "'p httpParser \<Rightarrow> httpType \<Rightarrow> bytes \<Rightarrow> 'p httpPacket option \<times> nat" where
  "http_tryParse hp t data =
     (let (p, used) = http_parse hp data (HttpPacket hp t) in (if hp_completed p then Some p else None, used))"

section \<open>What a packet becomes\<close>

text \<open>No callback takes the mark back, so a packet that starts out completed is never parsed.\<close>

lemma completed_stays:
  "hp_completed p \<Longrightarrow> hp_completed (fold on_callback cbs p)"
proof (induction cbs arbitrary: p)
  case (Cons cb cbs)
  then show ?case by (cases cb) auto
qed simp

lemma new_completed [simp]: "hp_completed (HttpPacket hp t)"
  by (simp add: HttpPacket_def)

lemma parse_completed [simp]: "hp_completed p \<Longrightarrow> http_parse hp data p = (p, 0)"
  by (simp add: http_parse_def)

text \<open>On a packet whose mark were cleared the callbacks would put the message together.\<close>

lemma callbacks_collect:
  "msg_body (hp_msg (fold on_callback (map OnBody ds) p)) = msg_body (hp_msg p) @ concat ds"
  by (induction ds arbitrary: p) auto

lemma callbacks_header:
  "msg_headers (hp_msg (fold on_callback [OnHeaderField k, OnHeaderValue v] p)) =
     (msg_headers (hp_msg p))(k \<mapsto> v)"
  by simp

text \<open>\<open>tryParse\<close> takes any data whatever, even none, for a complete message, without having
  looked at a byte of it: the mark of completion is set from the start and nothing clears it,
  so the parser is never called.\<close>

theorem http_tryParse_blind:
  "http_tryParse hp t data = (Some (HttpPacket hp t), 0)
   \<and> msg_url (hp_msg (HttpPacket hp t)) = [] \<and> msg_body (hp_msg (HttpPacket hp t)) = []
   \<and> msg_headers (hp_msg (HttpPacket hp t)) = Map.empty"
  by (simp add: http_tryParse_def) (simp add: HttpPacket_def httpMsg_new_def)

end
