(* ===== verification/HttpConns.thy ===== *)
theory HttpConns
  imports HttpPackets ConnReceive ConnSend
begin

text \<open>
  \<open>HttpConnectionManager\<close> of \<^verbatim>\<open>base/http_connection_manager.cpp\<close>. It is built like the
  manager of the TCP connections, whose loop for writing it repeats word for word
  (\<open>writeLoop\<close>); its packets come out of the http parser.
\<close>

section \<open>State\<close>

record 'p httpHolder =
  hh_hcid :: u64
  hh_fd :: int
  hh_conn :: bufConn
  hh_type :: httpType
  hh_recvPacket :: "'p httpPacket option"
  hh_sendQueue :: "nat list"

record 'p httpMgr =
  hm_packets :: "packet list"
  hm_holders :: "'p httpHolder list"
  hm_allConns :: "(int \<times> nat) list"
  hm_hcid2Conns :: "(u64 \<times> nat) list"
  hm_recvQueue :: "(nat \<times> 'p httpPacket) list"
  hm_epoll :: "(int \<times> interest) list"
  hm_erased :: "u64 list"

definition httpMgr_init :: "'p httpMgr" where
  "httpMgr_init = \<lparr>hm_packets = [], hm_holders = [], hm_allConns = [], hm_hcid2Conns = [],
     hm_recvQueue = [], hm_epoll = [], hm_erased = []\<rparr>"

definition set_hh :: "nat \<Rightarrow> 'p httpHolder \<Rightarrow> 'p httpMgr \<Rightarrow> 'p httpMgr" where
  "set_hh r h m = m\<lparr>hm_holders := (hm_holders m)[r := h]\<rparr>"

section \<open>Adding and removing connections\<close>

text \<open>
  The type of the connection is not stored, so that the holder keeps its default,
  \<open>client\<close>. A second connection under the same socket is not refused: the entry of its id is
  taken out again, and the registration goes on; if that fails, the entry of the socket goes,
  whoever it belongs to.
\<close>

definition http_addConnection ::
  "'p httpParser \<Rightarrow> bool \<Rightarrow> sendAns list \<Rightarrow> u64 \<Rightarrow> int \<Rightarrow> bufConn \<Rightarrow> httpType \<Rightarrow> 'p httpMgr \<Rightarrow> 'p httpMgr" where
  "http_addConnection hp epollOk as hcid fd c t m =
     (let r = length (hm_holders m);
          (byId, ok) = map_insert hcid r (hm_hcid2Conns m)
      in if \<not> ok then m
         else let (bySock, ok) = map_insert fd r (hm_allConns m);
                  byId = (if ok then byId else AList.delete hcid byId);
                  (res, _, c) = trySend as c;
                  h = \<lparr>hh_hcid = hcid, hh_fd = fd, hh_conn = c, hh_type = HttpRequest, hh_recvPacket = None,
                       hh_sendQueue = []\<rparr>;
                  m = m\<lparr>hm_hcid2Conns := byId, hm_allConns := bySock\<rparr>
              in case res of
                   Inl e \<Rightarrow> m\<lparr>hm_allConns := AList.delete fd bySock, hm_holders := hm_holders m @ [h]\<rparr>
                 | Inr sent \<Rightarrow>
                     if \<not> epollOk
                     then m\<lparr>hm_allConns := AList.delete fd bySock, hm_holders := hm_holders m @ [h]\<rparr>
                     else m\<lparr>hm_epoll := AList.update fd (if sent then WatchRead else WatchReadWrite) (hm_epoll m),
                            hm_holders := hm_holders m @ [h\<lparr>hh_recvPacket := Some (HttpPacket hp
                              (if hh_type h = HttpRequest then HttpRequest else HttpResponse))\<rparr>]\<rparr>)"

definition http_erase :: "int \<Rightarrow> 'p httpMgr \<Rightarrow> 'p httpMgr" where
  "http_erase fd m =
     (case map_of (hm_allConns m) fd of
        None \<Rightarrow> m
      | Some r \<Rightarrow>
          let i = hh_hcid (hm_holders m ! r)
          in m\<lparr>hm_hcid2Conns := AList.delete i (hm_hcid2Conns m), hm_erased := hm_erased m @ [i],
                hm_allConns := AList.delete fd (hm_allConns m), hm_epoll := AList.delete fd (hm_epoll m)\<rparr>)"

definition http_eraseById :: "u64 \<Rightarrow> 'p httpMgr \<Rightarrow> 'p httpMgr" where
  "http_eraseById hcid m =
     (case map_of (hm_hcid2Conns m) hcid of
        None \<Rightarrow> m
      | Some r \<Rightarrow> http_erase (hh_fd (hm_holders m ! r)) m)"

definition http_modifyWatch :: "int \<Rightarrow> interest \<Rightarrow> 'p httpMgr \<Rightarrow> netFault option \<times> 'p httpMgr" where
  "http_modifyWatch fd i m =
     (if map_of (hm_epoll m) fd = None then (Some NetError, m)
      else (None, m\<lparr>hm_epoll := AList.update fd i (hm_epoll m)\<rparr>))"

section \<open>Events of the sockets\<close>

definition http_push :: "nat \<times> 'p httpPacket \<Rightarrow> (nat \<times> 'p httpPacket) list \<Rightarrow> (nat \<times> 'p httpPacket) list" where
  "http_push x q = (if length q < recvQueue_max then q @ [x] else q)"

partial_function (option) http_readLoop ::
  "'p httpParser \<Rightarrow> recvAns list \<Rightarrow> nat \<Rightarrow> 'p httpPacket \<Rightarrow> bufConn \<Rightarrow> (nat \<times> 'p httpPacket) list
    \<Rightarrow> (netFault option \<times> 'p httpPacket \<times> bufConn \<times> (nat \<times> 'p httpPacket) list) option" where
  "http_readLoop hp as r pk c q =
     (case tryRecv as c of
        (Inl e, as, c) \<Rightarrow> Some (Some e, pk, c, q)
      | (Inr got, as, c) \<Rightarrow>
          if \<not> got then Some (None, pk, c, q)
          else let (pk, parsedSize) = http_parse hp (readable (rcvBuf c)) pk;
                   c = c\<lparr>rcvBuf := fst (commitRead parsedSize (rcvBuf c))\<rparr>
               in if \<not> hp_completed pk then Some (None, pk, c, q)
                  else http_readLoop hp as r (HttpPacket hp (msg_type (hp_msg pk))) c (http_push (r, pk) q))"

text \<open>A null pointer in \<open>recvPacket\<close> is dereferenced at the first read.\<close>

definition http_event :: "'p httpParser \<Rightarrow> int \<Rightarrow> sockEvent \<Rightarrow> 'p httpMgr \<Rightarrow> 'p httpMgr outcome option" where
  "http_event hp fd ev m =
     (case map_of (hm_allConns m) fd of
        None \<Rightarrow> Some (Inr m)
      | Some r \<Rightarrow>
          let h = hm_holders m ! r
          in case ev of
               EvRead as \<Rightarrow>
                 if length (hm_recvQueue m) = recvQueue_max then Some (Inr m)
                 else (case hh_recvPacket h of
                         None \<Rightarrow>
                           (case tryRecv as (hh_conn h) of
                              (Inl e, as, c) \<Rightarrow> Some (Inr (http_erase fd (set_hh r (h\<lparr>hh_conn := c\<rparr>) m)))
                            | (Inr got, as, c) \<Rightarrow>
                                Some (if got then Inl NullPointer else Inr (set_hh r (h\<lparr>hh_conn := c\<rparr>) m)))
                       | Some pk \<Rightarrow>
                           (case http_readLoop hp as r pk (hh_conn h) (hm_recvQueue m) of
                              None \<Rightarrow> None
                            | Some (res, pk, c, q) \<Rightarrow>
                                let m = (set_hh r (h\<lparr>hh_recvPacket := Some pk, hh_conn := c\<rparr>) m)\<lparr>hm_recvQueue := q\<rparr>
                                in Some (Inr (if res = None then m else http_erase fd m))))
             | EvWrite as \<Rightarrow>
                 (case writeLoop as (hm_packets m) (hh_sendQueue h) (hh_conn h) of
                    None \<Rightarrow> None
                  | Some (res, ps, q, c) \<Rightarrow>
                      let m = (set_hh r (h\<lparr>hh_sendQueue := q, hh_conn := c\<rparr>) m)\<lparr>hm_packets := ps\<rparr>
                      in Some (Inr (case res of
                           Inl e \<Rightarrow> http_erase fd m
                         | Inr sent \<Rightarrow> if \<not> sent then m
                           else let (err, m) = http_modifyWatch fd WatchRead m
                                in if err = None then m else http_erase fd m)))
             | EvError \<Rightarrow> Some (Inr (http_erase fd m)))"

definition http_getPacket :: "'p httpMgr \<Rightarrow> 'p httpMgr \<times> (nat \<times> 'p httpPacket) option" where
  "http_getPacket m =
     (case hm_recvQueue m of
        [] \<Rightarrow> (m, None)
      | x # q \<Rightarrow> (m\<lparr>hm_recvQueue := q\<rparr>, Some x))"

section \<open>Sending\<close>

definition http_queueRest :: "nat \<Rightarrow> nat \<Rightarrow> nat \<Rightarrow> nat \<Rightarrow> bufConn \<Rightarrow> 'p httpMgr \<Rightarrow> (netFault + bool) \<times> 'p httpMgr" where
  "http_queueRest off room r p c m =
     (let h = hm_holders m ! r;
          copied = packet_copy (hm_packets m ! p) room;
          b = fst (commitWrite (length copied) (fill off copied (sndBuf c)));
          m = m\<lparr>hm_packets := (hm_packets m)[p := packet_pop (length copied) (hm_packets m ! p)]\<rparr>;
          m = set_hh r (h\<lparr>hh_conn := c\<lparr>sndBuf := b\<rparr>, hh_sendQueue := hh_sendQueue h @ [p]\<rparr>) m;
          (err, m) = http_modifyWatch (hh_fd h) WatchReadWrite m
      in (case err of None \<Rightarrow> Inr True | Some e \<Rightarrow> Inl e, m))"

definition http_sendHolder :: "sendAns list \<Rightarrow> nat \<Rightarrow> nat \<Rightarrow> 'p httpMgr \<Rightarrow> (netFault + bool) \<times> 'p httpMgr" where
  "http_sendHolder as r p m =
     (let h = hm_holders m ! r; size = length (hm_packets m ! p)
      in if hh_sendQueue h \<noteq> [] then
           if 512 < length (hh_sendQueue h) then (Inr False, m)
           else (Inr True, set_hh r (h\<lparr>hh_sendQueue := hh_sendQueue h @ [p]\<rparr>) m)
         else
           let (b, off, room) = writeable size (sndBuf (hh_conn h));
               c = (hh_conn h)\<lparr>sndBuf := b\<rparr>
           in if size \<le> room then
                let b = fst (commitWrite size (fill off (packet_copy (hm_packets m ! p) room) b));
                    (res, as, c) = trySend as (c\<lparr>sndBuf := b\<rparr>)
                in case res of
                     Inl e \<Rightarrow> (Inl e, set_hh r (h\<lparr>hh_conn := c\<rparr>) m)
                   | Inr sent \<Rightarrow>
                       if sent then (Inr True, set_hh r (h\<lparr>hh_conn := c\<rparr>) m)
                       else http_queueRest off room r p c m
              else http_queueRest off room r p c m)"

text \<open>No exception is caught here.\<close>

definition http_sendPacket :: "sendAns list \<Rightarrow> u64 \<Rightarrow> nat \<Rightarrow> 'p httpMgr \<Rightarrow> (netFault + bool) \<times> 'p httpMgr" where
  "http_sendPacket as hcid p m =
     (case map_of (hm_hcid2Conns m) hcid of
        None \<Rightarrow> (Inr False, m)
      | Some r \<Rightarrow> http_sendHolder as r p m)"

section \<open>Connections are well formed\<close>

definition holder_ok :: "nat \<Rightarrow> int \<Rightarrow> nat \<Rightarrow> (u64 \<times> nat) list \<Rightarrow> 'p httpHolder \<Rightarrow> bool" where
  "holder_ok n fd r byId h \<longleftrightarrow> hh_fd h = fd \<and> (\<forall>p \<in> set (hh_sendQueue h). p < n) \<and> map_of byId (hh_hcid h) = Some r \<and> conn_ok (hh_conn h)
     \<and> (\<exists>pk. hh_recvPacket h = Some pk \<and> hp_completed pk)"

definition stored_ok :: "nat \<Rightarrow> 'p httpHolder \<Rightarrow> bool" where
  "stored_ok n h \<longleftrightarrow> conn_ok (hh_conn h) \<and> (\<forall>p \<in> set (hh_sendQueue h). p < n)"

definition http_ok :: "'p httpMgr \<Rightarrow> bool" where
  "http_ok m \<longleftrightarrow>
     (\<forall>fd r. map_of (hm_allConns m) fd = Some r \<longrightarrow>
        r < length (hm_holders m) \<and> holder_ok (length (hm_packets m)) fd r (hm_hcid2Conns m) (hm_holders m ! r))
   \<and> (\<forall>i r. map_of (hm_hcid2Conns m) i = Some r \<longrightarrow>
        r < length (hm_holders m) \<and> stored_ok (length (hm_packets m)) (hm_holders m ! r))"

lemma http_okD:
  assumes "http_ok m" and "map_of (hm_allConns m) fd = Some r"
  shows "r < length (hm_holders m)" "hh_fd (hm_holders m ! r) = fd"
    "map_of (hm_hcid2Conns m) (hh_hcid (hm_holders m ! r)) = Some r"
    "conn_ok (hh_conn (hm_holders m ! r))"
    "\<exists>pk. hh_recvPacket (hm_holders m ! r) = Some pk \<and> hp_completed pk"
    "\<forall>p \<in> set (hh_sendQueue (hm_holders m ! r)). p < length (hm_packets m)"
  using assms by (simp_all add: http_ok_def holder_ok_def)

lemma http_ok_init: "http_ok httpMgr_init"
  by (simp add: http_ok_def httpMgr_init_def)

lemma map_of_delete: "map_of (AList.delete k m) i = (if i = k then None else map_of m i)"
  by (simp add: delete_conv')

text \<open>Changes that leave the tables and the identities alone.\<close>

lemma nth_update: "xs[i := x] ! j = (if i = j \<and> j < length xs then x else xs ! j)"
  by (cases "i < length xs") (auto simp: nth_list_update list_update_beyond)

lemma holder_ok_same:
  assumes "holder_ok n fd r byId h" and "conn_ok (hh_conn h')" "hh_hcid h' = hh_hcid h" "hh_fd h' = hh_fd h"
    "hh_recvPacket h' = hh_recvPacket h" "\<forall>p \<in> set (hh_sendQueue h'). p < n"
  shows "holder_ok n fd r byId h'"
  using assms by (simp add: holder_ok_def)

lemma http_ok_set:
  assumes "http_ok m" and "conn_ok (hh_conn h)" "hh_hcid h = hh_hcid (hm_holders m ! r)"
    "hh_fd h = hh_fd (hm_holders m ! r)" "hh_recvPacket h = hh_recvPacket (hm_holders m ! r)"
    "\<forall>p \<in> set (hh_sendQueue h). p < length (hm_packets m)"
  shows "http_ok (set_hh r h m)"
proof -
  have "holder_ok (length (hm_packets m)) fd r' byId ((hm_holders m)[r := h] ! r')"
    if "holder_ok (length (hm_packets m)) fd r' byId (hm_holders m ! r')" for fd r' byId
    using that assms(2-6) by (auto simp: nth_update intro: holder_ok_same)
  moreover have "stored_ok (length (hm_packets m)) ((hm_holders m)[r := h] ! r')"
    if "stored_ok (length (hm_packets m)) (hm_holders m ! r')" for r'
    using that assms(2,6) by (auto simp: nth_update stored_ok_def)
  ultimately show ?thesis using assms(1) by (simp add: http_ok_def set_hh_def)
qed

lemma http_ok_frame:
  assumes "http_ok m" and "hm_holders m' = hm_holders m" "hm_allConns m' = hm_allConns m"
    "hm_hcid2Conns m' = hm_hcid2Conns m" "length (hm_packets m') = length (hm_packets m)"
  shows "http_ok m'"
  using assms by (simp add: http_ok_def)

lemma http_ok_erase:
  assumes "http_ok m"
  shows "http_ok (http_erase fd m)"
proof (cases "map_of (hm_allConns m) fd")
  case None
  then show ?thesis using assms by (simp add: http_erase_def)
next
  case (Some r)
  have "hh_hcid (hm_holders m ! r') \<noteq> hh_hcid (hm_holders m ! r)"
    if "map_of (hm_allConns m) fd' = Some r'" "fd' \<noteq> fd" for fd' r'
  proof
    assume "hh_hcid (hm_holders m ! r') = hh_hcid (hm_holders m ! r)"
    then have "Some r' = Some r"
      unfolding http_okD(3) [OF assms that(1), symmetric] http_okD(3) [OF assms Some, symmetric] by (rule arg_cong)
    then have "hm_holders m ! r' = hm_holders m ! r" by (rule option.inject [THEN iffD1, THEN arg_cong])
    then have "fd' = fd"
      unfolding http_okD(2) [OF assms that(1), symmetric] http_okD(2) [OF assms Some, symmetric] by (rule arg_cong)
    with that(2) show False ..
  qed
  then have keep: "holder_ok (length (hm_packets m)) fd' r' (AList.delete (hh_hcid (hm_holders m ! r)) (hm_hcid2Conns m)) (hm_holders m ! r')"
    if "map_of (hm_allConns m) fd' = Some r'" "fd' \<noteq> fd" for fd' r'
    using that assms by (simp add: holder_ok_def http_ok_def map_of_delete)
  show ?thesis
    using assms Some keep by (simp add: http_erase_def http_ok_def map_of_delete Let_def)
qed

lemma http_ok_add:
  assumes "http_ok m" and "conn_ok c"
  shows "http_ok (http_addConnection hp epollOk as hcid fd c t m)"
proof -
  obtain res as' c' where ts: "trySend as c = (res, as', c')" by (metis prod_cases3)
  have c': "conn_ok c'" using trySend_ok(1) [OF assms(2) ts] .
  have old: "r < length (hm_holders m)" "hh_hcid (hm_holders m ! r) \<noteq> hcid"
    if "map_of (hm_hcid2Conns m) hcid = None" "map_of (hm_allConns m) fd' = Some r" for fd' r
    using assms(1) that by (auto simp: http_ok_def holder_ok_def)
  have ids: "r < length (hm_holders m)" "stored_ok (length (hm_packets m)) (hm_holders m ! r)" if "map_of (hm_hcid2Conns m) i = Some r" for i r
    using assms(1) that by (auto simp: http_ok_def)
  show ?thesis
  proof (cases "map_of (hm_hcid2Conns m) hcid")
    case (Some r)
    then show ?thesis using assms(1) by (simp add: http_addConnection_def map_insert_def)
  next
    case None
    note old = old [OF None]
    show ?thesis
      using assms(1) None c' old ids
      by (cases "map_of (hm_allConns m) fd"; cases res; cases epollOk)
        (auto simp: http_addConnection_def map_insert_def ts Let_def http_ok_def holder_ok_def nth_append
          map_of_delete map_add_Some_iff less_SucI stored_ok_def split: if_splits)
  qed
qed

lemma http_ok_write:
  assumes "http_ok m"
  shows "\<exists>m'. http_event hp fd (EvWrite as) m = Some (Inr m') \<and> http_ok m'"
proof (cases "map_of (hm_allConns m) fd")
  case None
  then show ?thesis using assms by (simp add: http_event_def)
next
  case (Some r)
  let ?h = "hm_holders m ! r"
  obtain out ps q c where w: "writeLoop as (hm_packets m) (hh_sendQueue ?h) (hh_conn ?h) = Some (out, ps, q, c)"
    and c: "conn_ok c" "length ps = length (hm_packets m)" "set q \<subseteq> set (hh_sendQueue ?h)"
    using writeLoop_ok [OF http_okD(4,6) [OF assms Some], of as] by blast
  let ?m = "(set_hh r (?h\<lparr>hh_sendQueue := q, hh_conn := c\<rparr>) m)\<lparr>hm_packets := ps\<rparr>"
  have "http_ok (set_hh r (?h\<lparr>hh_sendQueue := q, hh_conn := c\<rparr>) m)"
    by (rule http_ok_set) (use assms c http_okD(6) [OF assms Some] in auto)
  then have m: "http_ok ?m" by (rule http_ok_frame) (simp_all add: c set_hh_def)
  then have "http_ok (?m\<lparr>hm_epoll := e\<rparr>)" for e by (rule http_ok_frame) simp_all
  then show ?thesis
    using Some w m http_ok_erase [OF m] by (auto simp: http_event_def http_modifyWatch_def Let_def split: sum.split)
qed

lemma http_ok_error:
  assumes "http_ok m"
  shows "\<exists>m'. http_event hp fd EvError m = Some (Inr m') \<and> http_ok m'"
  using assms http_ok_erase by (auto simp: http_event_def Let_def split: option.split)

lemma put_keeps:
  assumes "conn_ok c" and "off + length d \<le> capacity (sndBuf c)"
  shows "conn_ok (c\<lparr>sndBuf := fst (commitWrite n (fill off d (sndBuf c)))\<rparr>)"
proof -
  have l: "length (mem_write off d (m_buf (sndBuf c))) = length (m_buf (sndBuf c))"
    using assms(2) by (simp add: capacity_def)
  then have "mem_write off d (m_buf (sndBuf c)) = [] \<longleftrightarrow> m_buf (sndBuf c) = []"
    by (metis length_0_conv)
  with l assms show ?thesis by (auto simp: conn_ok_def cbuf_ok_def capacity_def commitWrite_def fill_def)
qed

lemma http_ok_queueRest:
  assumes "http_ok m" and "map_of (hm_hcid2Conns m) i = Some r" and "p < length (hm_packets m)"
    and "conn_ok c" and "off + room \<le> capacity (sndBuf c)"
  shows "http_ok (snd (http_queueRest off room r p c m))"
proof -
  let ?h = "hm_holders m ! r"
  let ?copied = "packet_copy (hm_packets m ! p) room"
  let ?c = "c\<lparr>sndBuf := fst (commitWrite (length ?copied) (fill off ?copied (sndBuf c)))\<rparr>"
  let ?m = "m\<lparr>hm_packets := (hm_packets m)[p := packet_pop (length ?copied) (hm_packets m ! p)]\<rparr>"
  let ?h' = "?h\<lparr>hh_conn := ?c, hh_sendQueue := hh_sendQueue ?h @ [p]\<rparr>"
  have "length ?copied \<le> room" by simp
  then have c: "conn_ok ?c" using assms(4,5) by (intro put_keeps) auto
  have "http_ok ?m" by (rule http_ok_frame [OF assms(1)]) simp_all
  then have "http_ok (set_hh r ?h' ?m)"
    by (rule http_ok_set) (use assms(1-3) c in \<open>auto simp: http_ok_def stored_ok_def\<close>)
  then show ?thesis
    by (rule http_ok_frame) (simp_all add: http_queueRest_def http_modifyWatch_def set_hh_def Let_def)
qed

lemma http_ok_send:
  assumes "http_ok m" and "p < length (hm_packets m)"
  shows "http_ok (snd (http_sendPacket as hcid p m))"
proof (cases "map_of (hm_hcid2Conns m) hcid")
  case None
  then show ?thesis using assms(1) by (simp add: http_sendPacket_def)
next
  case (Some r)
  let ?h = "hm_holders m ! r"
  have h: "conn_ok (hh_conn ?h)" "\<forall>p \<in> set (hh_sendQueue ?h). p < length (hm_packets m)"
    using assms(1) Some by (auto simp: http_ok_def stored_ok_def)
  have set_q: "http_ok (set_hh r (?h\<lparr>hh_sendQueue := hh_sendQueue ?h @ [p]\<rparr>) m)"
    by (rule http_ok_set [OF assms(1)]) (use h assms(2) in auto)
  have set_c: "http_ok (set_hh r (?h\<lparr>hh_conn := c\<rparr>) m)" if "conn_ok c" for c
    by (rule http_ok_set [OF assms(1)]) (use h that in auto)
  obtain b off room where w: "writeable (length (hm_packets m ! p)) (sndBuf (hh_conn ?h)) = (b, off, room)"
    by (metis prod_cases3)
  let ?c = "(hh_conn ?h)\<lparr>sndBuf := b\<rparr>"
  note mv = moved_ok(1) [OF h(1) w]
  have cb: "cbuf_ok (sndBuf (hh_conn ?h))" using h(1) by (simp add: conn_ok_def)
  have space: "off + room \<le> capacity b" using writeable_ok(3,5) [OF cb w] by simp
  have rest: "http_ok (snd (http_queueRest off room r p c m))" if "conn_ok c" "capacity (sndBuf c) = capacity b" for c
    using http_ok_queueRest [OF assms(1) Some assms(2) that(1)] space that(2) by simp
  let ?d = "packet_copy (hm_packets m ! p) room"
  let ?l = "?c\<lparr>sndBuf := fst (commitWrite (length (hm_packets m ! p)) (fill off ?d b))\<rparr>"
  obtain res as' c' where ts: "trySend as ?l = (res, as', c')" by (metis prod_cases3)
  have "length ?d \<le> room" by simp
  then have l: "conn_ok ?l" "capacity (sndBuf ?l) = capacity b"
    using put_keeps [OF mv, of off ?d] space
    by (auto simp: capacity_def commitWrite_def fill_def)
  note t = trySend_ok(1,4) [OF l(1) ts]
  show ?thesis
    using Some set_q set_c [OF t(1)] rest [OF t(1)] rest [OF mv] assms(1) w ts t(2) l(2)
    by (auto simp: http_sendPacket_def http_sendHolder_def Let_def split: sum.split)
qed

section \<open>The loop of the read event\<close>

text \<open>
  A parse of a completed packet takes nothing from the buffer. So once the buffer holds a byte,
  each round finds it there again; only the socket can end the loop, by an error or the end of
  the stream.
\<close>

lemma readLoop_spins:
  assumes "http_readLoop hp as r pk c q = Some out"
    and "conn_ok c" "open_stream as" "hp_completed pk"
    and "readable (rcvBuf c) \<noteq> [] \<or> (\<exists>b bs as'. as = RBytes (b # bs) # as')"
  shows False
  using assms
proof (induction rule: http_readLoop.raw_induct [rotated, consumes 1, case_names round])
  case (round loop hp as r pk c q out)
  obtain as' c' where t: "tryRecv as c = (Inr True, as', c')" "open_stream as'" "conn_ok c'" "readable (rcvBuf c') \<noteq> []"
    using tryRecv_open [OF round.prems(1,2,4)] by blast
  let ?c = "c'\<lparr>rcvBuf := fst (commitRead 0 (rcvBuf c'))\<rparr>"
  have cb: "cbuf_ok (rcvBuf c')" using t(3) by (simp add: conn_ok_def)
  obtain b where b: "commitRead 0 (rcvBuf c') = (b, True)" "cbuf_ok b" "readable b = readable (rcvBuf c')"
    "capacity b = capacity (rcvBuf c')"
    using commitRead_ok [OF cb, of 0] by auto
  have "loop hp as' r (HttpPacket hp (msg_type (hp_msg pk))) ?c (http_push (r, pk) q) = Some out"
    using round.hyps t(1) round.prems(3) by simp
  from round.IH [OF this] show False using t b by (simp add: conn_ok_def)
qed

text \<open>When it ends all the same, it has kept the buffers sound, and the next packet is complete as well.\<close>

lemma http_readLoop_keeps:
  assumes "http_readLoop hp as r pk c q = Some out" and "conn_ok c" "hp_completed pk"
  shows "case out of (res, pk', c', q') \<Rightarrow> conn_ok c' \<and> hp_completed pk'"
  using assms
proof (induction rule: http_readLoop.raw_induct [rotated, consumes 1, case_names round])
  case (round loop hp as r pk c q out)
  obtain res as' c' where t: "tryRecv as c = (res, as', c')" by (metis prod_cases3)
  have c': "conn_ok c'" using tryRecv_ok(1) [OF round.prems(1) t] .
  show ?case
  proof (cases "res = Inr True")
    case False
    then show ?thesis using round.hyps round.prems(2) t c' by (auto split: sum.splits)
  next
    case True
    let ?c = "c'\<lparr>rcvBuf := fst (commitRead 0 (rcvBuf c'))\<rparr>"
    have "conn_ok ?c" using commit_parsed(1) [OF c', of 0] by simp
    moreover have "loop hp as' r (HttpPacket hp (msg_type (hp_msg pk))) ?c (http_push (r, pk) q) = Some out"
      using round.hyps t True round.prems(2) by simp
    ultimately show ?thesis using round.IH by simp
  qed
qed

lemma http_ok_receiving:
  assumes "http_ok m" and "conn_ok c" "hp_completed pk"
  shows "http_ok (set_hh r ((hm_holders m ! r)\<lparr>hh_recvPacket := Some pk, hh_conn := c\<rparr>) m)"
  using assms by (auto simp: http_ok_def set_hh_def nth_update holder_ok_def stored_ok_def)

lemma http_ok_read:
  assumes "http_ok m" and "http_event hp fd (EvRead as) m = Some out"
  shows "\<exists>m'. out = Inr m' \<and> http_ok m'"
proof (cases "map_of (hm_allConns m) fd = None \<or> length (hm_recvQueue m) = recvQueue_max")
  case True
  then show ?thesis using assms by (auto simp: http_event_def split: option.splits)
next
  case False
  then obtain r where r: "map_of (hm_allConns m) fd = Some r" by auto
  obtain pk where pk: "hh_recvPacket (hm_holders m ! r) = Some pk" "hp_completed pk" using http_okD(5) [OF assms(1) r] by blast
  obtain res pk' c q where l: "http_readLoop hp as r pk (hh_conn (hm_holders m ! r)) (hm_recvQueue m) = Some (res, pk', c, q)"
    using assms(2) False r pk(1) by (auto simp: http_event_def Let_def split: option.splits)
  let ?m = "(set_hh r ((hm_holders m ! r)\<lparr>hh_recvPacket := Some pk', hh_conn := c\<rparr>) m)\<lparr>hm_recvQueue := q\<rparr>"
  have "conn_ok c \<and> hp_completed pk'" using http_readLoop_keeps [OF l http_okD(4) [OF assms(1) r] pk(2)] by simp
  then have "http_ok ?m" using http_ok_receiving [OF assms(1)] by (intro http_ok_frame [of _ ?m]) simp_all
  moreover have "out = Inr (if res = None then ?m else http_erase fd ?m)"
    using assms(2) False r pk(1) l by (simp add: http_event_def Let_def)
  ultimately show ?thesis using http_ok_erase by auto
qed

section \<open>Properties\<close>

text \<open>C30: The http connections are well formed at all times: what is registered under a socket
  has this socket, is registered under its id, has sound buffers, a packet to receive into that is
  already marked complete, and only packets that exist in its queue. Adding and removing
  connections, sending, taking a packet from the receive queue and the events keep this. The events to
  write and of errors end; the event to read keeps it whenever it ends, and never stops at
  the null pointer it might meet.\<close>

theorem http_conns_well_formed:
  assumes "http_ok m"
  shows "(conn_ok c \<longrightarrow> http_ok (http_addConnection hp epollOk as hcid fd c t m))
    \<and> http_ok (http_erase fd m) \<and> http_ok (http_eraseById hcid m)
    \<and> (p < length (hm_packets m) \<longrightarrow> http_ok (snd (http_sendPacket as hcid p m)))
    \<and> (\<exists>m'. http_event hp fd (EvWrite as) m = Some (Inr m') \<and> http_ok m')
    \<and> (\<exists>m'. http_event hp fd EvError m = Some (Inr m') \<and> http_ok m')
    \<and> (http_event hp fd (EvRead ra) m = Some out \<longrightarrow> (\<exists>m'. out = Inr m' \<and> http_ok m'))
    \<and> http_ok (fst (http_getPacket m))"
  using http_ok_add [OF assms] http_ok_erase [OF assms] http_ok_send [OF assms] http_ok_write [OF assms]
    http_ok_error [OF assms] http_ok_read [OF assms] assms
  by (auto simp: http_eraseById_def http_getPacket_def http_ok_def split: option.split list.split)

definition whp :: "bool httpParser" where
  "whp = \<lparr>parser_init = (\<lambda>t. False), parser_pause = (\<lambda>b _. b),
     parser_execute = (\<lambda>p d. (True, [OnBody d, OnMessageComplete], length d))\<rparr>"

theorem http_conns_well_formed_witness:
  "http_ok (http_addConnection whp True [] 1 5 bufConn_new HttpResponse httpMgr_init)"
  by (rule http_conns_well_formed [OF http_ok_init, THEN conjunct1, rule_format])
    (simp add: conn_ok_def bufConn_new_def)

text \<open>C31: The read event of an http connection never ends once a byte has come in, as long as
  the socket reports neither an error nor the end of the stream: the packet to receive into is
  complete from the start, so each round takes nothing from the buffer, queues the empty
  packet and finds the buffer as it was. The thread of the http connections hangs.\<close>

theorem http_reader_never_returns:
  assumes "http_ok m" and "map_of (hm_allConns m) fd = Some r" and "length (hm_recvQueue m) \<noteq> recvQueue_max"
    and "open_stream as"
    and "readable (rcvBuf (hh_conn (hm_holders m ! r))) \<noteq> [] \<or> (\<exists>b bs as'. as = RBytes (b # bs) # as')"
  shows "http_event hp fd (EvRead as) m = None"
proof -
  obtain pk where pk: "hh_recvPacket (hm_holders m ! r) = Some pk" "hp_completed pk"
    using http_okD(5) [OF assms(1,2)] by blast
  have "http_readLoop hp as r pk (hh_conn (hm_holders m ! r)) (hm_recvQueue m) = None"
    using readLoop_spins [OF _ http_okD(4) [OF assms(1,2)] assms(4) pk(2) assms(5)] by (metis not_None_eq)
  then show ?thesis using assms(2,3) pk(1) by (simp add: http_event_def)
qed

theorem http_reader_never_returns_witness:
  "http_event whp 5 (EvRead [RBytes [71, 69, 84]]) (http_addConnection whp True [] 1 5 bufConn_new HttpRequest httpMgr_init) = None"
proof (rule http_reader_never_returns)
  let ?m = "http_addConnection whp True [] 1 5 bufConn_new HttpRequest httpMgr_init"
  show "http_ok ?m" by (rule http_ok_add [OF http_ok_init]) (simp add: conn_ok_def bufConn_new_def)
  show "map_of (hm_allConns ?m) 5 = Some 0" "length (hm_recvQueue ?m) \<noteq> recvQueue_max"
    by (auto simp: http_addConnection_def httpMgr_init_def map_insert_def recvQueue_max_def Let_def trySend.simps bufConn_new_def)
  show "open_stream [RBytes [71, 69, 84]]" by (simp add: open_stream_def)
qed simp

text \<open>A failed registration leaves the id of the connection behind, which can then be sent to
  but never be used again.\<close>

lemma http_stale_id:
  "map_of (hm_hcid2Conns (http_addConnection hp False [] 1 5 bufConn_new t httpMgr_init)) 1 = Some 0"
  "hm_allConns (http_addConnection hp False [] 1 5 bufConn_new t httpMgr_init) = []"
  by (simp_all add: http_addConnection_def httpMgr_init_def map_insert_def trySend.simps bufConn_new_def)

text \<open>And it takes the entry of another connection of the same socket with it.\<close>

lemma http_foreign_entry:
  "hm_allConns (http_addConnection hp False [] 2 5 bufConn_new t
     (http_addConnection hp True [] 1 5 bufConn_new t httpMgr_init)) = []"
  by (simp add: http_addConnection_def httpMgr_init_def map_insert_def trySend.simps bufConn_new_def)

end
