(* ===== verification/UrlCode.thy ===== *)
theory UrlCode
  imports Wire
begin

text \<open>
  URL encoding and decoding of \<^verbatim>\<open>processes/http/url_en_decode.cpp\<close>. Strings are their bytes.
\<close>

section \<open>Encoding\<close>

definition hexDigits :: bytes where
  "hexDigits = [48, 49, 50, 51, 52, 53, 54, 55, 56, 57, 65, 66, 67, 68, 69, 70]"

definition urlEncode_char :: "u8 \<Rightarrow> bytes" where
  "urlEncode_char c =
     (if c = 32 then [43]
      else if (c < 48 \<and> c \<noteq> 45 \<and> c \<noteq> 46) \<or> (c < 65 \<and> 57 < c) \<or> (90 < c \<and> c < 97 \<and> c \<noteq> 95) \<or> 122 < c
      then [37, hexDigits ! unat (drop_bit 4 c), hexDigits ! unat (c AND 15)]
      else [c])"

fun urlEncode :: "bytes \<Rightarrow> bytes" where
  "urlEncode [] = []"
| "urlEncode (c # s) = urlEncode_char c @ urlEncode s"

section \<open>Decoding\<close>

definition isxdigit :: "u8 \<Rightarrow> bool" where
  "isxdigit c \<longleftrightarrow> (48 \<le> c \<and> c \<le> 57) \<or> (65 \<le> c \<and> c \<le> 70) \<or> (97 \<le> c \<and> c \<le> 102)"

definition tolower :: "u8 \<Rightarrow> u8" where
  "tolower c = (if 65 \<le> c \<and> c \<le> 90 then c + 32 else c)"

definition hexValue :: "u8 \<Rightarrow> int" where
  "hexValue c = (let c = tolower c in if 48 \<le> c \<and> c \<le> 57 then uint c - 48 else uint c - 97 + 10)"

definition php_htoi :: "u8 \<Rightarrow> u8 \<Rightarrow> int" where
  "php_htoi a b = hexValue a * 16 + hexValue b"

fun urlDecode :: "bytes \<Rightarrow> bytes" where
  "urlDecode [] = []"
| "urlDecode (c # s) =
     (if c = 43 then 32 # urlDecode s
      else if c = 37 \<and> 2 \<le> length s \<and> isxdigit (s ! 0) \<and> isxdigit (s ! 1)
      then word_of_int (php_htoi (s ! 0) (s ! 1)) # urlDecode (drop 2 s)
      else c # urlDecode s)"

section \<open>Round trip\<close>

lemma hexDigits_value:
  assumes "n < 16"
  shows "isxdigit (hexDigits ! n)" and "hexValue (hexDigits ! n) = int n"
proof -
  have "\<forall>n \<in> set [0..<16]. isxdigit (hexDigits ! n) \<and> hexValue (hexDigits ! n) = int n"
    by (simp add: upt_rec hexDigits_def isxdigit_def hexValue_def tolower_def Let_def)
  then show "isxdigit (hexDigits ! n)" and "hexValue (hexDigits ! n) = int n" using assms by simp_all
qed

lemma nibbles:
  fixes c :: u8
  shows "unat (drop_bit 4 c) < 16" "unat (c AND 15) < 16"
    "word_of_int (int (unat (drop_bit 4 c)) * 16 + int (unat (c AND 15))) = c"
proof -
  have hi: "unat (drop_bit 4 c) = unat c div 16" by (simp add: drop_bit_eq_div unat_div)
  have m: "(15 :: u8) = mask 4" by (simp add: mask_eq_exp_minus_1)
  have lo: "unat (c AND 15) = unat c mod 16"
    unfolding m take_bit_eq_mask [symmetric] unsigned_take_bit_eq by (simp add: take_bit_eq_mod)
  have "unat c < 256" using unsigned_less [of c, where 'a = nat] by simp
  then show "unat (drop_bit 4 c) < 16" "unat (c AND 15) < 16" using hi lo by simp_all
  have "int (unat (drop_bit 4 c)) * 16 + int (unat (c AND 15)) = int (unat c)"
    unfolding hi lo by (metis div_mult_mod_eq of_nat_add of_nat_mult of_nat_numeral)
  then show "word_of_int (int (unat (drop_bit 4 c)) * 16 + int (unat (c AND 15))) = c" by simp
qed

lemma decode_hex:
  "isxdigit a \<Longrightarrow> isxdigit b \<Longrightarrow> urlDecode (37 # a # b # r) = word_of_int (php_htoi a b) # urlDecode r"
  by simp

lemma decode_encode_char: "urlDecode (urlEncode_char c @ r) = c # urlDecode r"
proof -
  consider "c = 32" | "urlEncode_char c = [37, hexDigits ! unat (drop_bit 4 c), hexDigits ! unat (c AND 15)]"
    | "urlEncode_char c = [c]" "c \<noteq> 37" "c \<noteq> 43"
  proof (cases "(c < 48 \<and> c \<noteq> 45 \<and> c \<noteq> 46) \<or> (c < 65 \<and> 57 < c) \<or> (90 < c \<and> c < 97 \<and> c \<noteq> 95) \<or> 122 < c")
    case True
    then show thesis using that(1,2) by (cases "c = 32") (simp_all add: urlEncode_char_def)
  next
    case False
    then have "c \<noteq> 37" "c \<noteq> 43" "c \<noteq> 32" by auto
    then show thesis using that(3) False by (simp add: urlEncode_char_def)
  qed
  then show ?thesis
  proof cases
    case 1
    then show ?thesis by (simp add: urlEncode_char_def)
  next
    case 2
    have "php_htoi (hexDigits ! unat (drop_bit 4 c)) (hexDigits ! unat (c AND 15))
      = int (unat (drop_bit 4 c)) * 16 + int (unat (c AND 15))"
      unfolding php_htoi_def using hexDigits_value(2) [OF nibbles(1) [of c]] hexDigits_value(2) [OF nibbles(2) [of c]]
      by (rule arg_cong2 [where f = "\<lambda>x y. x * 16 + y"])
    then show ?thesis
      unfolding 2 append_Cons append_Nil
        decode_hex [OF hexDigits_value(1) [OF nibbles(1) [of c]] hexDigits_value(1) [OF nibbles(2) [of c]]]
      by (simp only: nibbles(3))
  next
    case 3
    then show ?thesis by simp
  qed
qed

lemma decode_encode: "urlDecode (urlEncode s @ r) = s @ urlDecode r"
proof (induction s)
  case (Cons c s)
  then show ?case using decode_encode_char [of c "urlEncode s @ r"] by simp
qed simp

text \<open>What the encoding produces is made of unreserved characters, \<open>+\<close> and escapes.\<close>

definition url_safe :: "u8 \<Rightarrow> bool" where
  "url_safe c \<longleftrightarrow> (48 \<le> c \<and> c \<le> 57) \<or> (65 \<le> c \<and> c \<le> 90) \<or> (97 \<le> c \<and> c \<le> 122) \<or> c \<in> {37, 43, 45, 46, 95}"

lemma hexDigits_safe: "n < 16 \<Longrightarrow> url_safe (hexDigits ! n)"
proof -
  have "\<forall>n \<in> set [0..<16]. url_safe (hexDigits ! n)"
    by (simp add: upt_rec hexDigits_def url_safe_def)
  then show "n < 16 \<Longrightarrow> url_safe (hexDigits ! n)" by simp
qed

lemma encode_safe: "\<forall>c \<in> set (urlEncode s). url_safe c"
proof (induction s)
  case (Cons c s)
  have "\<forall>x \<in> set (urlEncode_char c). url_safe x"
    using hexDigits_safe [OF nibbles(1) [of c]] hexDigits_safe [OF nibbles(2) [of c]]
    unfolding urlEncode_char_def by (auto simp: url_safe_def not_less)
  with Cons show ?case by auto
qed simp

text \<open>Every byte string survives URL encoding: decoding what \<open>urlEncode\<close> made of it gives
  it back, whatever follows, and the encoded text consists of letters, digits and the
  characters \<open>% + - . _\<close> only.\<close>

theorem url_roundtrip:
  shows "(urlDecode (urlEncode s) = s)
    \<and> (urlDecode (urlEncode s @ urlEncode t) = s @ t)
    \<and> (list_all url_safe (urlEncode s))"
  using decode_encode [of s "[]"] decode_encode [of s "urlEncode t"] decode_encode [of t "[]"] encode_safe [of s]
  by (simp add: list_all_iff)

text \<open>The other way round the text may change: a percent sign that starts no escape is kept.\<close>

lemma decode_not_injective: "urlDecode [37, 50, 48] = urlDecode [43]" "urlDecode [37, 103] = [37, 103]"
  by (simp_all add: isxdigit_def php_htoi_def hexValue_def tolower_def Let_def)

end
