(* ===== verification/HttpRequest.thy ===== *)
theory HttpRequest
  imports UrlCode
begin

text \<open>
  The requests of the http process: \<open>HttpParse\<close> of \<^verbatim>\<open>processes/http/http_parse.cpp\<close> and the
  table of callbacks of \<^verbatim>\<open>processes/http/http_callback.cpp\<close>. A packet is shorter than
  \<open>2 ^ 31\<close> bytes, so that its size fits an \<^verbatim>\<open>int\<close>. \<open>isprint\<close> is that of the C locale.
\<close>

section \<open>The end of the header\<close>

definition isprint :: "u8 \<Rightarrow> bool" where
  "isprint c \<longleftrightarrow> 32 \<le> c \<and> c \<le> 126"

text \<open>
  The loop over \<open>s\<close>; the list is what lies from \<open>s\<close> to the end of the buffer. A control
  character sets the length to -1 and does not end the loop.
\<close>

fun header_loop :: "nat \<Rightarrow> int \<Rightarrow> bytes \<Rightarrow> int" where
  "header_loop i len (a # b # rest) =
     (if 0 < len then len
      else header_loop (i + 1)
        (if \<not> isprint a \<and> a \<noteq> 13 \<and> a \<noteq> 10 \<and> a < 128 then - 1
         else if a = 10 \<and> b = 10 then int i + 2
         else if a = 10 \<and> rest \<noteq> [] \<and> b = 13 \<and> hd rest = 10 then int i + 3
         else len) (b # rest))"
| "header_loop i len _ = len"

definition getHeaderLen :: "bytes \<Rightarrow> int" where
  "getHeaderLen buf = header_loop 0 0 buf"

section \<open>The request\<close>

record httpProtocInfo =
  request_method :: bytes
  uri :: bytes
  query_string :: bytes
  post_data_len :: int
  post_data :: bytes
  header_info :: bytes

definition protocInfo_new :: httpProtocInfo where
  "protocInfo_new = \<lparr>request_method = [], uri = [], query_string = [], post_data_len = 0, post_data = [], header_info = []\<rparr>"

definition readHeader :: "bytes \<Rightarrow> httpProtocInfo \<Rightarrow> httpProtocInfo \<times> bool" where
  "readHeader buf info =
     (let headerLen = getHeaderLen buf; n = nat headerLen
      in if int (length buf) < headerLen then (info, False)
         else if headerLen \<le> 0 then (info, False)
         else (info\<lparr>header_info := header_info info @ take n buf,
                    post_data_len := int (length buf) - headerLen,
                    post_data := post_data info @ drop n buf\<rparr>, True))"

fun pos_of :: "u8 \<Rightarrow> bytes \<Rightarrow> nat option" where
  "pos_of c [] = None"
| "pos_of c (x # xs) = (if x = c then Some 0 else map_option Suc (pos_of c xs))"

definition find_from :: "u8 \<Rightarrow> nat \<Rightarrow> bytes \<Rightarrow> nat option" where
  "find_from c n s = map_option ((+) n) (pos_of c (drop n s))"

definition GET :: bytes where "GET = [71, 69, 84]"
definition POST :: bytes where "POST = [80, 79, 83, 84]"

definition parseHttpHeader :: "httpProtocInfo \<Rightarrow> httpProtocInfo \<times> bool" where
  "parseHttpHeader info =
     (case find_from 32 0 (header_info info) of
        None \<Rightarrow> (info, False)
      | Some posFirst \<Rightarrow>
          let info = info\<lparr>request_method := take posFirst (header_info info)\<rparr>
          in if request_method info \<noteq> GET \<and> request_method info \<noteq> POST then (info, False)
             else case find_from 32 (posFirst + 1) (header_info info) of
                    None \<Rightarrow> (info, False)
                  | Some posSecond \<Rightarrow>
                      let u = urlDecode (take (posSecond - (posFirst + 1)) (drop (posFirst + 1) (header_info info)))
                      in (case find_from 63 0 u of
                            None \<Rightarrow> (info\<lparr>uri := u\<rparr>, True)
                          | Some pos \<Rightarrow> (info\<lparr>query_string := drop (pos + 1) u, uri := take pos u\<rparr>, True)))"

section \<open>The callbacks\<close>

definition cb_reg :: "bytes \<Rightarrow> 'cb \<Rightarrow> (bytes \<rightharpoonup> 'cb) \<Rightarrow> (bytes \<rightharpoonup> 'cb) \<times> bool" where
  "cb_reg key f m = (if m key \<noteq> None then (m, False) else (m(key \<mapsto> f), True))"

definition cb_del :: "bytes \<Rightarrow> (bytes \<rightharpoonup> 'cb) \<Rightarrow> (bytes \<rightharpoonup> 'cb)" where
  "cb_del key m = m(key := None)"

definition initCallBack :: "'cb \<Rightarrow> (bytes \<rightharpoonup> 'cb) \<Rightarrow> (bytes \<rightharpoonup> 'cb)" where
  "initCallBack tstFn m = fst (cb_reg [47, 116, 101, 115, 116] tstFn m)"

text \<open>The result: the request, the callback that is called with it, if any, and the answer.\<close>

definition dealRequest :: "(bytes \<rightharpoonup> 'cb) \<Rightarrow> httpProtocInfo \<Rightarrow> 'cb option \<times> bool" where
  "dealRequest m info = (m (uri info), True)"

definition parseHttp :: "(bytes \<rightharpoonup> 'cb) \<Rightarrow> bytes \<Rightarrow> httpProtocInfo \<times> 'cb option \<times> bool" where
  "parseHttp m pk =
     (let (info, ok) = readHeader pk protocInfo_new
      in if \<not> ok then (info, None, False)
         else let (info, ok) = parseHttpHeader info
              in if \<not> ok then (info, None, False) else (info, dealRequest m info))"

section \<open>Reading back a request\<close>

definition crlf :: bytes where "crlf = [13, 10]"

definition text_line :: "bytes \<Rightarrow> bool" where
  "text_line l \<longleftrightarrow> l \<noteq> [] \<and> 10 \<notin> set l \<and> 13 \<notin> set l"

definition header_text :: "bytes list \<Rightarrow> bytes" where
  "header_text ls = concat (map (\<lambda>l. l @ crlf) ls) @ crlf"

definition http_request :: "bytes \<Rightarrow> bytes \<Rightarrow> bytes \<Rightarrow> bytes list \<Rightarrow> bytes" where
  "http_request meth target version hdrs =
     header_text ((meth @ [32] @ urlEncode target @ [32] @ version) # hdrs)"

lemma skip_one:
  "len \<le> 0 \<Longrightarrow> a \<noteq> 10 \<Longrightarrow> r \<noteq> [] \<Longrightarrow> \<exists>len' \<le> 0. header_loop i len (a # r) = header_loop (Suc i) len' r"
  by (intro exI [of _ "if \<not> isprint a \<and> a \<noteq> 13 \<and> a < 128 then - 1 else len"]) (cases r; simp)

lemma skip_line:
  "len \<le> 0 \<Longrightarrow> 10 \<notin> set l \<Longrightarrow> r \<noteq> [] \<Longrightarrow> \<exists>len' \<le> 0. header_loop i len (l @ r) = header_loop (i + length l) len' r"
proof (induction l arbitrary: i len)
  case Nil
  then show ?case by auto
next
  case (Cons a l)
  obtain len1 where "len1 \<le> 0" "header_loop i len (a # l @ r) = header_loop (Suc i) len1 (l @ r)"
    using skip_one [of len a "l @ r" i] Cons.prems by auto
  then show ?case using Cons.IH [of len1 "Suc i"] Cons.prems by auto
qed

lemma header_positive: "0 < len \<Longrightarrow> header_loop i len xs = len"
  by (induction i len xs rule: header_loop.induct) auto

lemma header_loop_text:
  "\<forall>l \<in> set ls. text_line l \<Longrightarrow> ls \<noteq> [] \<Longrightarrow> len \<le> 0
    \<Longrightarrow> header_loop i len (header_text ls @ body) = int i + int (length (header_text ls))"
proof (induction ls arbitrary: i len)
  case (Cons l ls)
  let ?r = "concat (map (\<lambda>l. l @ crlf) ls) @ crlf @ body"
  have l: "10 \<notin> set l" using Cons.prems by (simp add: text_line_def)
  obtain len1 where 1: "len1 \<le> 0"
    "header_loop i len (l @ 13 # 10 # ?r) = header_loop (i + length l) len1 (13 # 10 # ?r)"
    using skip_line [OF Cons.prems(3) l, of "13 # 10 # ?r" i] by auto
  obtain len2 where 2: "len2 \<le> 0"
    "header_loop (i + length l) len1 (13 # 10 # ?r) = header_loop (Suc (i + length l)) len2 (10 # ?r)"
    using skip_one [OF 1(1), of 13 "10 # ?r" "i + length l"] by auto
  have t: "header_text (l # ls) @ body = l @ 13 # 10 # ?r" by (simp add: header_text_def crlf_def)
  show ?case
  proof (cases ls)
    case Nil
    then show ?thesis
      using 1 2 t by (simp add: crlf_def header_positive header_text_def)
  next
    case (Cons k ks)
    obtain a k' where k: "k = a # k'" "a \<noteq> 10" "a \<noteq> 13"
      using Cons.prems(1) Cons by (cases k) (auto simp: text_line_def)
    have "header_loop (Suc (i + length l)) len2 (10 # ?r) = header_loop (i + length l + 2) len2 ?r"
      using 2(1) k by (simp add: Cons)
    moreover have "header_loop (i + length l + 2) len2 (header_text ls @ body)
      = int (i + length l + 2) + int (length (header_text ls))"
      using Cons.IH [of len2 "i + length l + 2"] Cons.prems 2(1) Cons by auto
    ultimately show ?thesis
      using 1 2 t by (simp add: header_text_def crlf_def)
  qed
qed simp

lemma getHeaderLen_text:
  "\<forall>l \<in> set ls. text_line l \<Longrightarrow> ls \<noteq> [] \<Longrightarrow> getHeaderLen (header_text ls @ body) = int (length (header_text ls))"
  using header_loop_text [of ls 0 0 body] by (simp add: getHeaderLen_def)

lemma pos_of_append: "c \<notin> set xs \<Longrightarrow> pos_of c (xs @ c # ys) = Some (length xs)"
  by (induction xs) auto

lemma pos_of_None: "pos_of c xs = None \<longleftrightarrow> c \<notin> set xs"
  by (induction xs) auto

lemma pos_of_split:
  "pos_of c xs = Some n \<Longrightarrow> take n xs = takeWhile (\<lambda>x. x \<noteq> c) xs \<and> drop n xs = dropWhile (\<lambda>x. x \<noteq> c) xs"
  by (induction xs arbitrary: n) (auto split: if_splits)

lemma encode_no_break: "32 \<notin> set (urlEncode s)" "10 \<notin> set (urlEncode s)" "13 \<notin> set (urlEncode s)"
  using encode_safe [of s] by (auto simp: url_safe_def)

lemma split_uri:
  "(case find_from 63 0 u of
      None \<Rightarrow> (info\<lparr>uri := u\<rparr>, True)
    | Some pos \<Rightarrow> (info\<lparr>query_string := drop (pos + 1) u, uri := take pos u\<rparr>, True))
   = (info\<lparr>query_string := (if 63 \<in> set u then drop 1 (dropWhile (\<lambda>c. c \<noteq> 63) u) else query_string info),
           uri := takeWhile (\<lambda>c. c \<noteq> 63) u\<rparr>, True)"
proof (cases "pos_of 63 u")
  case None
  then have no: "63 \<notin> set u" using pos_of_None [of 63 u] by simp
  then have "takeWhile (\<lambda>c. c \<noteq> 63) u = u" by (auto simp: takeWhile_eq_all_conv)
  with None no show ?thesis unfolding find_from_def by (simp del: takeWhile_eq_all_conv)
next
  case (Some n)
  then have "63 \<in> set u" using pos_of_None [of 63 u] by auto
  moreover have "drop (n + 1) u = drop 1 (drop n u)" by (simp add: add.commute)
  ultimately show ?thesis using pos_of_split [OF Some] Some by (simp add: find_from_def del: drop_drop)
qed

lemma header_of_request:
  assumes "header_info info = http_request meth target version hdrs" and "meth = GET \<or> meth = POST"
    and "query_string info = []"
  shows "parseHttpHeader info = (info\<lparr>request_method := meth, uri := takeWhile (\<lambda>c. c \<noteq> 63) target,
    query_string := drop 1 (dropWhile (\<lambda>c. c \<noteq> 63) target)\<rparr>, True)"
proof -
  obtain r where h: "header_info info = meth @ 32 # urlEncode target @ 32 # r"
    using assms(1) by (simp add: http_request_def header_text_def)
  have m: "32 \<notin> set meth" using assms(2) by (auto simp: GET_def POST_def)
  have 1: "find_from 32 0 (header_info info) = Some (length meth)"
    using pos_of_append [OF m] by (simp add: find_from_def h)
  have "pos_of 32 (urlEncode target @ 32 # r) = Some (length (urlEncode target))"
    by (rule pos_of_append [OF encode_no_break(1)])
  then have 2: "find_from 32 (length meth + 1) (header_info info) = Some (length meth + 1 + length (urlEncode target))"
    by (simp add: find_from_def h)
  have "urlDecode (urlEncode target) = target" using decode_encode [of target "[]"] by simp
  moreover have "drop 1 (dropWhile (\<lambda>c. c \<noteq> 63) target) = []" if "63 \<notin> set target"
    using that dropWhile_eq_Nil_conv [of "\<lambda>c. c \<noteq> 63" target] by (auto simp del: dropWhile_eq_Nil_conv)
  ultimately show ?thesis
    using 1 2 assms(2,3) unfolding parseHttpHeader_def
    by (cases "63 \<in> set target") (auto simp: h split_uri Let_def)
qed

text \<open>C33: A request is read back as it was written. Of a packet that holds a header, whose
  target was URL encoded, and a body, the parser returns the method, the target up to the first
  question mark, the rest of the target as the query, the header and the body, and calls the
  callback registered for the path. The target is decoded before it is cut, so that an encoded
  question mark cuts it like a bare one.\<close>

theorem http_request_read:
  assumes "meth = GET \<or> meth = POST" and "version \<noteq> []"
    and "\<forall>l \<in> set (version # hdrs). text_line l"
  shows "parseHttp cbs (http_request meth target version hdrs @ body) =
    (\<lparr>request_method = meth, uri = takeWhile (\<lambda>c. c \<noteq> 63) target,
      query_string = drop 1 (dropWhile (\<lambda>c. c \<noteq> 63) target),
      post_data_len = int (length body), post_data = body,
      header_info = http_request meth target version hdrs\<rparr>,
     cbs (takeWhile (\<lambda>c. c \<noteq> 63) target), True)"
proof -
  let ?h = "http_request meth target version hdrs"
  have "text_line (meth @ [32] @ urlEncode target @ [32] @ version)"
    using assms(1,3) encode_no_break [of target] by (auto simp: text_line_def GET_def POST_def)
  then have len: "getHeaderLen (?h @ body) = int (length ?h)"
    unfolding http_request_def using assms(3) by (intro getHeaderLen_text) auto
  have "0 < length ?h" by (simp add: http_request_def header_text_def crlf_def)
  then have "readHeader (?h @ body) protocInfo_new =
    (protocInfo_new\<lparr>header_info := ?h, post_data_len := int (length body), post_data := body\<rparr>, True)"
    unfolding readHeader_def len by (simp add: protocInfo_new_def)
  then show ?thesis
    using header_of_request [of "protocInfo_new\<lparr>header_info := ?h, post_data_len := int (length body), post_data := body\<rparr>"
        meth target version hdrs] assms(1)
    by (simp add: parseHttp_def dealRequest_def protocInfo_new_def)
qed

theorem http_request_read_witness:
  "fst (snd (parseHttp (initCallBack () Map.empty) (http_request GET [47, 116, 101, 115, 116, 63, 97] [72] [] @ [1]))) = Some ()"
  using http_request_read [of GET "[72]" "[]" "initCallBack () Map.empty" "[47, 116, 101, 115, 116, 63, 97]" "[1]"]
  by (simp add: text_line_def initCallBack_def cb_reg_def)

text \<open>A control character does not make a header invalid when the end of the header follows it.\<close>

lemma control_character_passes: "getHeaderLen [7, 10, 10, 65] = 3" "getHeaderLen [7, 65, 66] = - 1"
  by (simp_all add: getHeaderLen_def isprint_def)

end
