(* ===== verification/Dispatch.thy ===== *)
theory Dispatch
  imports ConnIndex
begin

text \<open>
  Messages between the processes: the relays of the gateway, the lobby and the hall
  (\<^verbatim>\<open>processes/gateway/gateway.cpp\<close>, \<^verbatim>\<open>processes/lobby/lobby.cpp\<close>,
  \<^verbatim>\<open>processes/hall/hall.cpp\<close>), the router (\<^verbatim>\<open>processes/router/router.cpp\<close>), and the
  dispatchers (\<^verbatim>\<open>protocol/protobuf/proto_manager.cpp\<close>,
  \<^verbatim>\<open>protocol/rawmsg/rawmsg_manager.cpp\<close>). The protobuf library is a parameter: the bytes a
  message serialises to, if it does, and the codes for which it has a message.
\<close>

section \<open>Dispatching\<close>

datatype dispatch = Handled u32 bytes u64 | TooShort | UnknownCode u32 | NoHandler u32

definition regHandler :: "u32 \<Rightarrow> 'h \<Rightarrow> (u32 \<rightharpoonup> 'h) \<Rightarrow> (u32 \<rightharpoonup> 'h)" where
  "regHandler c h hs = hs(c \<mapsto> h)"

definition to_handler :: "(u32 \<Rightarrow> bool) \<Rightarrow> (u32 \<rightharpoonup> 'h) \<Rightarrow> u32 \<Rightarrow> bytes \<Rightarrow> u64 \<Rightarrow> dispatch" where
  "to_handler known hs c d sender =
     (if \<not> known c then UnknownCode c else if hs c = None then NoHandler c else Handled c d sender)"

text \<open>The message lies at \<open>recv\<close>; its size is what the header of the packet says.\<close>

definition open_message ::
  "(u32 \<Rightarrow> bool) \<Rightarrow> (u32 \<rightharpoonup> 'h) \<Rightarrow> bytes \<Rightarrow> nat \<Rightarrow> u64 \<Rightarrow> dispatch outcome" where
  "open_message known hs recv recvSize sender =
     (if recvSize < tcpMsg_size then Inr TooShort
      else obind (read32 recv) (\<lambda>c.
        if isEnvelopeMsgCode c then
          if recvSize < envelope_size then Inr TooShort
          else obind (read_envelope recv) (\<lambda>e.
            Inr (to_handler known hs (env_msgCode e)
              (take (recvSize - envelope_size) (drop envelope_size recv)) (env_sourceId e)))
        else Inr (to_handler known hs c (take (recvSize - tcpMsg_size) (drop tcpMsg_size recv)) sender)))"

definition proto_dealTcpMsg ::
  "(u32 \<Rightarrow> bool) \<Rightarrow> (u32 \<rightharpoonup> 'h) \<Rightarrow> bytes \<Rightarrow> nat \<Rightarrow> u64 \<Rightarrow> dispatch outcome" where
  "proto_dealTcpMsg known hs recv recvSize sender = open_message known hs recv recvSize sender"

definition raw_dealTcpMsg :: "(u32 \<rightharpoonup> 'h) \<Rightarrow> bytes \<Rightarrow> nat \<Rightarrow> u64 \<Rightarrow> dispatch outcome" where
  "raw_dealTcpMsg hs recv recvSize sender = open_message (\<lambda>_. True) hs recv recvSize sender"

datatype handling = Skipped | RawMsg dispatch | ProtoMsg dispatch

definition by_protocol ::
  "(u32 \<Rightarrow> bool) \<Rightarrow> (u32 \<rightharpoonup> 'h) \<Rightarrow> (u32 \<rightharpoonup> 'h) \<Rightarrow> packet \<Rightarrow> bytes \<Rightarrow> u64 \<Rightarrow> handling outcome" where
  "by_protocol known raws protos pk mem connId =
     obind (read32 mem) (\<lambda>c.
       if isRawMsgCode c then
         obind (raw_dealTcpMsg raws mem (tcp_contentSize pk) connId) (\<lambda>d. Inr (RawMsg d))
       else if isProtobufMsgCode c then
         obind (proto_dealTcpMsg known protos mem (tcp_contentSize pk) connId) (\<lambda>d. Inr (ProtoMsg d))
       else Inr Skipped)"

definition gateway_tcpPacketHandle ::
  "(u32 \<Rightarrow> bool) \<Rightarrow> (u32 \<rightharpoonup> 'h) \<Rightarrow> (u32 \<rightharpoonup> 'h) \<Rightarrow> packet \<Rightarrow> u64 \<Rightarrow> handling outcome" where
  "gateway_tcpPacketHandle known raws protos pk connId =
     (if tcp_contentSize pk < tcpMsg_size then Inr Skipped
      else case tcp_content pk of
             None \<Rightarrow> Inl NullPointer
           | Some mem \<Rightarrow> by_protocol known raws protos pk mem connId)"

text \<open>The lobby and the hall do not look at the size first.\<close>

definition lobby_tcpPacketHandle ::
  "(u32 \<Rightarrow> bool) \<Rightarrow> (u32 \<rightharpoonup> 'h) \<Rightarrow> (u32 \<rightharpoonup> 'h) \<Rightarrow> packet \<Rightarrow> u64 \<Rightarrow> handling outcome" where
  "lobby_tcpPacketHandle known raws protos pk connId =
     (case tcp_content pk of
        None \<Rightarrow> Inl NullPointer
      | Some mem \<Rightarrow> by_protocol known raws protos pk mem connId)"

definition hall_tcpPacketHandle ::
  "(u32 \<Rightarrow> bool) \<Rightarrow> (u32 \<rightharpoonup> 'h) \<Rightarrow> (u32 \<rightharpoonup> 'h) \<Rightarrow> packet \<Rightarrow> u64 \<Rightarrow> handling outcome" where
  "hall_tcpPacketHandle known raws protos pk connId =
     (case tcp_content pk of
        None \<Rightarrow> Inl NullPointer
      | Some mem \<Rightarrow> by_protocol known raws protos pk mem connId)"

section \<open>Relaying\<close>

definition envelopeContent :: "u64 \<Rightarrow> u64 \<Rightarrow> processId \<Rightarrow> u32 \<Rightarrow> bytes \<Rightarrow> bytes" where
  "envelopeContent junk src pid c body =
     envelope_bytes ((Envelope junk c)\<lparr>env_targetPid := pid_value pid, env_sourceId := src\<rparr>) @ body"

definition allocPacket :: "packet \<Rightarrow> connMgr \<Rightarrow> connMgr \<times> nat" where
  "allocPacket pk m = (m\<lparr>packets := packets m @ [pk]\<rparr>, length (packets m))"

definition toRouter ::
  "(nat \<Rightarrow> sendAns list) \<Rightarrow> (string \<rightharpoonup> u32) \<Rightarrow> packet \<Rightarrow> connMgr \<Rightarrow> connMgr \<times> bool" where
  "toRouter as n2t pk m =
     (let (m, p) = allocPacket pk m in sendPacketToPrivate as (ProcessId_name n2t ''router'' 1) p m)"

text \<open>A packet built around its content, or the content written into a packet of its size.\<close>

definition packet_around :: "bytes \<Rightarrow> packet outcome" where
  "packet_around c = tcp_setContent c"

definition packet_with :: "bytes \<Rightarrow> packet outcome" where
  "packet_with c =
     obind (tcp_new (of_nat (length c))) (\<lambda>pk.
       if length pk < 4 + length c then Inl OutOfBounds else Inr (mem_write 4 c pk))"

definition gateway_relayToPrivate ::
  "(nat \<Rightarrow> sendAns list) \<Rightarrow> (string \<rightharpoonup> u32) \<Rightarrow> u64 \<Rightarrow> u64 \<Rightarrow> processId \<Rightarrow> u32 \<Rightarrow> bytes option
    \<Rightarrow> connMgr \<Rightarrow> (connMgr \<times> bool) outcome" where
  "gateway_relayToPrivate as n2t junk src pid c ser m =
     (case ser of
        None \<Rightarrow> Inr (m, False)
      | Some body \<Rightarrow> obind (packet_with (envelopeContent junk src pid c body)) (\<lambda>pk. Inr (toRouter as n2t pk m)))"

definition gateway_relayRaw ::
  "(nat \<Rightarrow> sendAns list) \<Rightarrow> (string \<rightharpoonup> u32) \<Rightarrow> u64 \<Rightarrow> u64 \<Rightarrow> processId \<Rightarrow> u32 \<Rightarrow> bytes
    \<Rightarrow> connMgr \<Rightarrow> (connMgr \<times> bool) outcome" where
  "gateway_relayRaw as n2t junk src pid c raw m =
     obind (packet_around (envelopeContent junk src pid c raw)) (\<lambda>pk. Inr (toRouter as n2t pk m))"

definition lobby_relayToPrivate ::
  "(nat \<Rightarrow> sendAns list) \<Rightarrow> (string \<rightharpoonup> u32) \<Rightarrow> u64 \<Rightarrow> u64 \<Rightarrow> processId \<Rightarrow> u32 \<Rightarrow> bytes option
    \<Rightarrow> connMgr \<Rightarrow> (connMgr \<times> bool) outcome" where
  "lobby_relayToPrivate as n2t junk src pid c ser m =
     (case ser of
        None \<Rightarrow> Inr (m, False)
      | Some body \<Rightarrow> obind (packet_around (envelopeContent junk src pid c body)) (\<lambda>pk. Inr (toRouter as n2t pk m)))"

definition lobby_relayRaw ::
  "(nat \<Rightarrow> sendAns list) \<Rightarrow> (string \<rightharpoonup> u32) \<Rightarrow> u64 \<Rightarrow> u64 \<Rightarrow> processId \<Rightarrow> u32 \<Rightarrow> bytes
    \<Rightarrow> connMgr \<Rightarrow> (connMgr \<times> bool) outcome" where
  "lobby_relayRaw as n2t junk src pid c raw m =
     obind (packet_around (envelopeContent junk src pid c raw)) (\<lambda>pk. Inr (toRouter as n2t pk m))"

definition hall_relayToPrivate ::
  "(nat \<Rightarrow> sendAns list) \<Rightarrow> (string \<rightharpoonup> u32) \<Rightarrow> u64 \<Rightarrow> u64 \<Rightarrow> processId \<Rightarrow> u32 \<Rightarrow> bytes option
    \<Rightarrow> connMgr \<Rightarrow> (connMgr \<times> bool) outcome" where
  "hall_relayToPrivate as n2t junk src pid c ser m =
     (case ser of
        None \<Rightarrow> Inr (m, False)
      | Some body \<Rightarrow> obind (packet_around (envelopeContent junk src pid c body)) (\<lambda>pk. Inr (toRouter as n2t pk m)))"

definition hall_relayRaw ::
  "(nat \<Rightarrow> sendAns list) \<Rightarrow> (string \<rightharpoonup> u32) \<Rightarrow> u64 \<Rightarrow> u64 \<Rightarrow> processId \<Rightarrow> u32 \<Rightarrow> bytes
    \<Rightarrow> connMgr \<Rightarrow> (connMgr \<times> bool) outcome" where
  "hall_relayRaw as n2t junk src pid c raw m =
     obind (packet_around (envelopeContent junk src pid c raw)) (\<lambda>pk. Inr (toRouter as n2t pk m))"

text \<open>A message of the process itself bears the identity of the process as its source.\<close>

definition gateway_sendToPrivate where
  "gateway_sendToPrivate as n2t junk me pid c ser m =
     gateway_relayToPrivate as n2t junk (ucast (pid_value me)) pid c ser m"

definition lobby_sendToPrivate where
  "lobby_sendToPrivate as n2t junk me pid c ser m =
     lobby_relayToPrivate as n2t junk (ucast (pid_value me)) pid c ser m"

definition hall_sendToPrivate where
  "hall_sendToPrivate as n2t junk me pid c ser m =
     hall_relayToPrivate as n2t junk (ucast (pid_value me)) pid c ser m"

definition toClient :: "(nat \<Rightarrow> sendAns list) \<Rightarrow> u64 \<Rightarrow> packet \<Rightarrow> connMgr \<Rightarrow> connMgr \<times> bool" where
  "toClient as ccid pk m = (let (m, p) = allocPacket pk m in sendPacketToPublic as ccid p m)"

definition sendToClientRaw ::
  "(nat \<Rightarrow> sendAns list) \<Rightarrow> u64 \<Rightarrow> u32 \<Rightarrow> bytes \<Rightarrow> connMgr \<Rightarrow> (connMgr \<times> bool) outcome" where
  "sendToClientRaw as ccid c raw m =
     obind (packet_around (le32 c @ raw)) (\<lambda>pk. Inr (toClient as ccid pk m))"

definition sendToClient ::
  "(nat \<Rightarrow> sendAns list) \<Rightarrow> u64 \<Rightarrow> u32 \<Rightarrow> bytes option \<Rightarrow> connMgr \<Rightarrow> (connMgr \<times> bool) outcome" where
  "sendToClient as ccid c ser m =
     (case ser of
        None \<Rightarrow> Inr (m, False)
      | Some body \<Rightarrow> obind (packet_with (le32 c @ body)) (\<lambda>pk. Inr (toClient as ccid pk m)))"

text \<open>
  The router forwards the packet itself. The header is read where it should be, whether or
  not the packet is that long.
\<close>

definition router_tcpPacketHandle :: "(nat \<Rightarrow> sendAns list) \<Rightarrow> nat \<Rightarrow> connMgr \<Rightarrow> connMgr outcome" where
  "router_tcpPacketHandle as p m =
     (case tcp_content (packets m ! p) of
        None \<Rightarrow> Inr m
      | Some mem \<Rightarrow> obind (read_envelope mem) (\<lambda>e.
          let receiver = pid_setValue (env_targetPid e)
          in if pid_num receiver = 0
             then Inr (broadcastPacketToPrivate as (pid_type receiver) p m)
             else Inr (fst (sendPacketToPrivate as receiver p m))))"

section \<open>One hop\<close>

lemma packet_with_frame: "framable c \<Longrightarrow> packet_with c = Inr (frame c)"
  by (simp add: packet_with_def tcp_new_def unat_of_nat_framable framable_def Let_def packet_new_def
      mem_write_def frame_def le32_def u32_mod_def)

lemma packet_around_frame: "framable c \<Longrightarrow> packet_around c = Inr (frame c)"
  using setContent_Inr_iff [of c "frame c"] by (simp add: packet_around_def)

lemma content_frame [simp]: "tcp_content (frame c) = Some c"
  by (simp add: tcp_content_def frame_def)

lemma contentSize_frame: "framable c \<Longrightarrow> tcp_contentSize (frame c) = length c"
  using header_frame [of c "[]"] by (simp add: tcp_contentSize_def)

lemma open_envelope:
  assumes "recvSize = length (envelopeContent junk src pid c body)" and "known c" and "hs c = Some h"
  shows "open_message known hs (envelopeContent junk src pid c body) recvSize sender = Inr (Handled c body src)"
proof -
  let ?e = "(Envelope junk c)\<lparr>env_targetPid := pid_value pid, env_sourceId := src\<rparr>"
  have "read32 (envelope_bytes ?e @ body) = Inr (env_code (Envelope junk c))"
    by (simp add: envelope_bytes_def)
  then show ?thesis
    using assms Envelope_classes(1) [of junk c]
    by (simp add: open_message_def envelopeContent_def to_handler_def tcpMsg_size_def envelope_size_def
        Envelope_def)
qed

lemma read_envelopeContent:
  "read_envelope (envelopeContent junk src pid c body) =
    Inr ((Envelope junk c)\<lparr>env_targetPid := pid_value pid, env_sourceId := src\<rparr>)"
  by (simp add: envelopeContent_def)

lemma router_forwards:
  assumes "packets m ! p = frame (envelopeContent junk src pid c body)" and "pid_small pid"
  shows "router_tcpPacketHandle as p m =
    (if pid_num pid = 0 then Inr (broadcastPacketToPrivate as (pid_type pid) p m)
     else Inr (fst (sendPacketToPrivate as pid p m)))"
  using assms by (simp add: router_tcpPacketHandle_def read_envelopeContent setValue_value_bits)

text \<open>
  The gateway, the lobby and the hall put a message into the same packet.
\<close>

lemma relay_frame:
  assumes "framable (envelopeContent junk src pid c body)"
  shows "gateway_relayToPrivate as n2t junk src pid c (Some body) m
      = Inr (toRouter as n2t (frame (envelopeContent junk src pid c body)) m)"
    and "lobby_relayToPrivate as n2t junk src pid c (Some body) m
      = Inr (toRouter as n2t (frame (envelopeContent junk src pid c body)) m)"
    and "hall_relayToPrivate as n2t junk src pid c (Some body) m
      = Inr (toRouter as n2t (frame (envelopeContent junk src pid c body)) m)"
  using packet_with_frame [OF assms] packet_around_frame [OF assms]
  by (simp_all add: gateway_relayToPrivate_def lobby_relayToPrivate_def hall_relayToPrivate_def)

text \<open>
  The dispatcher calls the handler of the inner code with the bytes of the message and the source the
  sender named. This does not depend on the connection the packet comes in on, nor on its
  kind: whoever can send a packet to a process can speak under any identity.
\<close>

lemma handle_envelope:
  assumes "framable (envelopeContent junk src pid c body)" and "isProtobufMsgCode c" and "known c" and "protos c = Some h"
  shows "gateway_tcpPacketHandle known raws protos (frame (envelopeContent junk src pid c body)) connId
      = Inr (ProtoMsg (Handled c body src))"
    and "lobby_tcpPacketHandle known raws protos (frame (envelopeContent junk src pid c body)) connId
      = Inr (ProtoMsg (Handled c body src))"
    and "hall_tcpPacketHandle known raws protos (frame (envelopeContent junk src pid c body)) connId
      = Inr (ProtoMsg (Handled c body src))"
proof -
  let ?c = "envelopeContent junk src pid c body"
  have r: "read32 ?c = Inr (env_code (Envelope junk c))"
    by (simp add: envelopeContent_def envelope_bytes_def)
  have l: "tcp_contentSize (frame ?c) = length ?c" using contentSize_frame [OF assms(1)] .
  have "\<not> isRawMsgCode (env_code (Envelope junk c))"
    using assms(2) Envelope_classes(2,3) [of junk c] code_classes_disjoint(4) by blast
  then have "by_protocol known raws protos (frame ?c) ?c connId = Inr (ProtoMsg (Handled c body src))"
    using open_envelope [of "length ?c" junk src pid c body known protos h connId] assms(2-4)
    by (simp add: by_protocol_def r l Envelope_classes(3) proto_dealTcpMsg_def)
  moreover have "\<not> length ?c < tcpMsg_size"
    by (simp add: envelopeContent_def tcpMsg_size_def envelope_size_def)
  ultimately show
    "gateway_tcpPacketHandle known raws protos (frame ?c) connId = Inr (ProtoMsg (Handled c body src))"
    "lobby_tcpPacketHandle known raws protos (frame ?c) connId = Inr (ProtoMsg (Handled c body src))"
    "hall_tcpPacketHandle known raws protos (frame ?c) connId = Inr (ProtoMsg (Handled c body src))"
    by (simp_all add: gateway_tcpPacketHandle_def lobby_tcpPacketHandle_def hall_tcpPacketHandle_def l)
qed

text \<open>The router does not look at the size of what it forwards, and the lobby and the hall
  not at the size of what they dispatch: a short packet is read past its end.\<close>

lemma read_past_end [simp]:
  "obind (read32 b) (\<lambda>_. Inl OutOfBounds) = Inl OutOfBounds"
  "obind (read64 b) (\<lambda>_. Inl OutOfBounds) = Inl OutOfBounds"
proof -
  show r: "obind (read32 b) (\<lambda>_. Inl OutOfBounds) = Inl OutOfBounds" for b :: bytes
    by (cases b rule: read32.cases) simp_all
  have v: "read32 b = Inl OutOfBounds \<or> (\<exists>w. read32 b = Inr w)" for b :: bytes
    by (cases b rule: read32.cases) simp_all
  show "obind (read64 b) (\<lambda>_. Inl OutOfBounds) = Inl OutOfBounds"
    using v [of b] v [of "drop 4 b"] by (auto simp: read64_def)
qed

lemma router_reads_past_end:
  assumes "length body < 20"
  shows "packets m ! p = frame body \<Longrightarrow> router_tcpPacketHandle as p m = Inl OutOfBounds"
proof -
  have "read_envelope body = Inl OutOfBounds"
    using assms by (simp add: read_envelope_def read32_short)
  then show "packets m ! p = frame body \<Longrightarrow> router_tcpPacketHandle as p m = Inl OutOfBounds"
    by (simp add: router_tcpPacketHandle_def)
qed

end
