(* ===== verification/ProcessLoop.thy ===== *)
theory ProcessLoop
  imports Dispatch ConnReceive ConnSend
begin

text \<open>
  The main timer's handler of every process, \<open>Process::dealTcpPackets\<close> of
  \<^verbatim>\<open>base/process.cpp\<close>: it takes packets from the receive queue until there is none and gives
  each to \<open>tcpPacketHandle\<close>, which the process overrides. The contract of that method is the
  locale \<open>packet_handler\<close>; the router's meets it here.
\<close>

section \<open>The loop\<close>

partial_function (option) dealTcpPackets ::
  "(packet \<Rightarrow> nat \<Rightarrow> 's \<times> connMgr \<Rightarrow> ('s \<times> connMgr) outcome) \<Rightarrow> 's \<times> connMgr \<Rightarrow> ('s \<times> connMgr) outcome option" where
  "dealTcpPackets handle s =
     (case getPacket (snd s) of
        (m, None) \<Rightarrow> Some (Inr (fst s, m))
      | (m, Some (r, pk)) \<Rightarrow>
          (case handle pk r (fst s, m) of
             Inl e \<Rightarrow> Some (Inl e)
           | Inr s' \<Rightarrow> dealTcpPackets handle s'))"

text \<open>What it comes to: the packets that are in the queue, one after the other.\<close>

fun deal_all ::
  "(packet \<Rightarrow> nat \<Rightarrow> 's \<times> connMgr \<Rightarrow> ('s \<times> connMgr) outcome) \<Rightarrow> (nat \<times> packet) list \<Rightarrow> 's \<times> connMgr
    \<Rightarrow> ('s \<times> connMgr) outcome" where
  "deal_all handle [] s = Inr s"
| "deal_all handle ((r, pk) # q) s =
     obind (handle pk r (fst s, (snd s)\<lparr>recvQueue := q\<rparr>)) (deal_all handle q)"

locale packet_handler =
  fixes handle :: "packet \<Rightarrow> nat \<Rightarrow> 's \<times> connMgr \<Rightarrow> ('s \<times> connMgr) outcome"
  assumes queue_kept: "handle pk r s = Inr s' \<Longrightarrow> recvQueue (snd s') = recvQueue (snd s)"
    and ids_kept: "handle pk r s = Inr s' \<Longrightarrow> map h_id (holders (snd s')) = map h_id (holders (snd s))"
begin

lemma loop_returns: "dealTcpPackets handle s = Some (deal_all handle (recvQueue (snd s)) s)"
proof (induction "recvQueue (snd s)" arbitrary: s)
  case Nil
  then show ?case by (subst dealTcpPackets.simps) (simp add: getPacket_def)
next
  case (Cons x q)
  obtain r pk where x: "x = (r, pk)" by force
  let ?s = "(fst s, (snd s)\<lparr>recvQueue := q\<rparr>)"
  have step: "dealTcpPackets handle s = (case handle pk r ?s of Inl e \<Rightarrow> Some (Inl e) | Inr s' \<Rightarrow> dealTcpPackets handle s')"
    by (subst dealTcpPackets.simps) (simp add: getPacket_def Cons.hyps(2) [symmetric] x)
  show ?case
  proof (cases "handle pk r ?s")
    case (Inl e)
    then show ?thesis using step by (simp add: Cons.hyps(2) [symmetric] x)
  next
    case (Inr s')
    then have "q = recvQueue (snd s')" using queue_kept [OF Inr] by simp
    then show ?thesis using step Inr Cons.hyps(1) [of s'] by (simp add: Cons.hyps(2) [symmetric] x)
  qed
qed

lemma deal_keeps:
  "recvQueue (snd s) = q \<Longrightarrow> deal_all handle q s = Inr s'
    \<Longrightarrow> recvQueue (snd s') = [] \<and> map h_id (holders (snd s')) = map h_id (holders (snd s))"
proof (induction q arbitrary: s)
  case (Cons x q)
  obtain r pk where x: "x = (r, pk)" by force
  obtain s1 where s1: "handle pk r (fst s, (snd s)\<lparr>recvQueue := q\<rparr>) = Inr s1" "deal_all handle q s1 = Inr s'"
    using Cons.prems(2) by (auto simp: x)
  have "recvQueue (snd s1) = q" using queue_kept [OF s1(1)] by simp
  from Cons.IH [OF this s1(2)] show ?case using ids_kept [OF s1(1)] by simp
qed simp

end

section \<open>Sending does not touch the queue\<close>

lemma queueRest_keeps [simp]:
  "recvQueue (snd (queueRest off room r p c m)) = recvQueue m"
  by (simp add: queueRest_def Let_def setHolder_def modifyWatch_def)

lemma ids_update:
  "h_id h = h_id (holders m ! r) \<Longrightarrow> map h_id (holders (setHolder r h m)) = map h_id (holders m)"
  by (cases "r < length (holders m)") (simp_all add: setHolder_def map_update list_update_same_conv list_update_beyond)

lemma sendPacket_keeps:
  assumes "sendPacket as r p m = (res, m')"
  shows "recvQueue m' = recvQueue m" "map h_id (holders m') = map h_id (holders m)"
proof -
  have q: "map h_id (holders (snd (queueRest off room r p c m))) = map h_id (holders m)" for off room c
    using ids_update [of "(holders m ! r)\<lparr>h_conn := c', h_sendQueue := x\<rparr>" m r for c' x]
    by (simp add: queueRest_def modifyWatch_def Let_def) (simp add: setHolder_def)
  show "recvQueue m' = recvQueue m"
    using assms queueRest_keeps
    by (auto simp: sendPacket_def Let_def setHolder_def split: if_splits prod.splits sum.splits dest!: arg_cong [of _ _ snd])
  show "map h_id (holders m') = map h_id (holders m)"
    using assms q ids_update [of _ m r]
    by (auto simp: sendPacket_def Let_def split: if_splits prod.splits sum.splits dest!: arg_cong [of _ _ snd])
qed

text \<open>And it does not look at it.\<close>

lemma sendPacket_queue:
  "sendPacket as r p (m\<lparr>recvQueue := q\<rparr>) = (let (res, m') = sendPacket as r p m in (res, m'\<lparr>recvQueue := q\<rparr>))"
  by (auto simp: sendPacket_def Let_def setHolder_def queueRest_def modifyWatch_def split: prod.split sum.split)

lemma sendAll_keeps:
  "recvQueue (sendAll as rs p m) = recvQueue m \<and> map h_id (holders (sendAll as rs p m)) = map h_id (holders m)"
proof (induction rs arbitrary: m)
  case (Cons r rs)
  then show ?case using sendPacket_keeps [OF prod.collapse [symmetric], of "as r" r p m] by simp
qed simp

lemma to_private_keeps:
  "recvQueue (fst (sendPacketToPrivate as pid p m)) = recvQueue m
    \<and> map h_id (holders (fst (sendPacketToPrivate as pid p m))) = map h_id (holders m)"
  using sendPacket_keeps [OF prod.collapse [symmetric]]
  by (simp add: sendPacketToPrivate_def no_throw_def split: option.split)

lemma to_public_keeps:
  "recvQueue (fst (sendPacketToPublic as i p m)) = recvQueue m
    \<and> map h_id (holders (fst (sendPacketToPublic as i p m))) = map h_id (holders m)"
  using sendPacket_keeps [OF prod.collapse [symmetric]]
  by (simp add: sendPacketToPublic_def no_throw_def split: option.split)

section \<open>The router\<close>

text \<open>The packet from the queue is the one that is sent on; it enters the store here.\<close>

definition router_handle :: "(nat \<Rightarrow> sendAns list) \<Rightarrow> packet \<Rightarrow> nat \<Rightarrow> unit \<times> connMgr \<Rightarrow> (unit \<times> connMgr) outcome" where
  "router_handle as pk r s =
     (let (m, p) = allocPacket pk (snd s) in obind (router_tcpPacketHandle as p m) (\<lambda>m. Inr ((), m)))"

lemma broadcast_keeps:
  "recvQueue (broadcastPacketToPrivate as t p m) = recvQueue m
    \<and> map h_id (holders (broadcastPacketToPrivate as t p m)) = map h_id (holders m)"
  using sendAll_keeps by (simp add: broadcastPacketToPrivate_def split: option.split)

lemma router_keeps:
  assumes "router_tcpPacketHandle as p m = Inr m'"
  shows "recvQueue m' = recvQueue m \<and> map h_id (holders m') = map h_id (holders m)"
proof (cases "tcp_content (packets m ! p)")
  case None
  then show ?thesis using assms by (simp add: router_tcpPacketHandle_def)
next
  case (Some mem)
  then obtain e where e: "read_envelope mem = Inr e" using assms by (auto simp: router_tcpPacketHandle_def)
  show ?thesis
    using assms Some e broadcast_keeps to_private_keeps
    by (cases "pid_num (pid_setValue (env_targetPid e)) = 0") (auto simp: router_tcpPacketHandle_def Let_def)
qed

interpretation router: packet_handler "router_handle as" for as
proof unfold_locales
  fix pk r s s'
  assume "router_handle as pk r s = Inr s'"
  then have "router_tcpPacketHandle as (length (packets (snd s))) ((snd s)\<lparr>packets := packets (snd s) @ [pk]\<rparr>) = Inr (snd s')"
    by (auto simp: router_handle_def allocPacket_def)
  from router_keeps [OF this]
  show "recvQueue (snd s') = recvQueue (snd s)" "map h_id (holders (snd s')) = map h_id (holders (snd s))"
    by simp_all
qed

end
