(* ===== verification/RelayPath.thy ===== *)
theory RelayPath
  imports ProcessLoop
begin

text \<open>
  The whole way of a message between two processes: the relay of the sender
  (\<^verbatim>\<open>processes/gateway/gateway.cpp\<close>, \<^verbatim>\<open>processes/lobby/lobby.cpp\<close>,
  \<^verbatim>\<open>processes/hall/hall.cpp\<close>), the bytes on its connection to the router, the read events and
  the process loop of the router, the bytes on its connection to the addressed process, and the read
  events and the dispatcher there. What is not code is the network: a socket delivers what
  its peer has put on the wire, in pieces of any size.
\<close>

section \<open>Sending on an idle connection\<close>

definition idle :: "connMgr \<Rightarrow> nat \<Rightarrow> bool" where
  "idle m r \<longleftrightarrow> r < length (holders m) \<and> conn_ok (h_conn (holders m ! r))
     \<and> h_sendQueue (holders m ! r) = [] \<and> readable (sndBuf (h_conn (holders m ! r))) = []"

definition takes :: "sendAns list \<Rightarrow> nat \<Rightarrow> bool" where
  "takes as n \<longleftrightarrow> (\<exists>k as'. as = SAccept k # as' \<and> n \<le> k)"

text \<open>The connection to a process, and what has been put on its wire between two states.\<close>

definition route :: "connMgr \<Rightarrow> processId \<Rightarrow> nat \<Rightarrow> bool" where
  "route m pid r \<longleftrightarrow>
     (\<exists>ps. map_of (privateConns m) (pid_type pid) = Some ps \<and> map_of ps (pid_num pid) = Some r)"

definition sent :: "connMgr \<Rightarrow> connMgr \<Rightarrow> nat \<Rightarrow> bytes" where
  "sent m m' r = drop (length (wire (h_conn (holders m ! r)))) (wire (h_conn (holders m' ! r)))"

lemma trySend_takes:
  assumes "conn_ok c" and "readable (sndBuf c) = d" and "d \<noteq> []" and "takes as (length d)"
  shows "\<exists>as' c'. trySend as c = (Inr True, as', c') \<and> wire c' = wire c @ d \<and> rcvBuf c' = rcvBuf c"
proof -
  obtain k as' where k: "as = SAccept k # as'" "length d \<le> k" using assms(4) by (auto simp: takes_def)
  have ok: "cbuf_ok (sndBuf c)" using assms(1) by (simp add: conn_ok_def)
  obtain b' where "commitRead (length d) (sndBuf c) = (b', True)" "cbuf_ok b'" "readable b' = []"
    using commitRead_ok [OF ok, of "length d"] assms(2) by auto
  then show ?thesis
    using k assms(2,3) by (simp add: trySend.simps Let_def min_absorb2 empty_iff)
qed

lemma sendPacket_clean:
  assumes "idle m r" and "packets m ! p = d" and "d \<noteq> []" and "takes as (length d)"
    and "length d \<le> capacity (sndBuf (h_conn (holders m ! r)))"
  shows "\<exists>c'. sendPacket as r p m = (Inr True, setHolder r ((holders m ! r)\<lparr>h_conn := c'\<rparr>) m)
    \<and> wire c' = wire (h_conn (holders m ! r)) @ d"
proof -
  let ?c = "h_conn (holders m ! r)"
  have ok: "conn_ok ?c" "cbuf_ok (sndBuf ?c)" using assms(1) by (simp_all add: idle_def conn_ok_def)
  obtain b off room where w: "writeable (length d) (sndBuf ?c) = (b, off, room)" by (metis prod_cases3)
  have fits: "length d \<le> room" using writeable_ok(7) [OF ok(2) w] assms(1,5) by (simp add: idle_def)
  have lo: "conn_ok (loaded ?c d)" "outgoing (loaded ?c d) = outgoing ?c @ d" using loaded_ok [OF ok(1) w fits] by simp_all
  have wire: "wire (loaded ?c d) = wire ?c" by (simp add: loaded_def split: prod.split)
  then have "readable (sndBuf (loaded ?c d)) = d" using lo(2) assms(1) by (simp add: outgoing_def idle_def)
  from trySend_takes [OF lo(1) this assms(3,4)] obtain as' c' where
    ts: "trySend as (loaded ?c d) = (Inr True, as', c')" "wire c' = wire ?c @ d" using wire by auto
  have "loaded ?c d = ?c\<lparr>sndBuf := fst (commitWrite (length d) (fill off (take room d) b))\<rparr>"
    using fits by (simp add: loaded_def w)
  then have "sendPacket as r p m = (Inr True, setHolder r ((holders m ! r)\<lparr>h_conn := c'\<rparr>) m)"
    using assms(1,2) ts w fits by (simp add: sendPacket_def idle_def Let_def)
  then show ?thesis using ts(2) by blast
qed

lemma to_private_clean:
  assumes "route m pid r" and "idle m r" and "d \<noteq> []" and "takes (as r) (length d)"
    and "length d \<le> capacity (sndBuf (h_conn (holders m ! r)))" and "packets m ! p = d"
  shows "\<exists>m'. sendPacketToPrivate as pid p m = (m', True) \<and> sent m m' r = d"
proof -
  obtain c' where c: "sendPacket (as r) r p m = (Inr True, setHolder r ((holders m ! r)\<lparr>h_conn := c'\<rparr>) m)"
    "wire c' = wire (h_conn (holders m ! r)) @ d"
    using sendPacket_clean [OF assms(2,6,3,4,5)] by blast
  moreover have "r < length (holders m)" using assms(2) by (simp add: idle_def)
  ultimately have "sent m (snd (sendPacket (as r) r p m)) r = d" by (simp add: sent_def setHolder_def)
  then show ?thesis
    using assms(1) c by (auto simp: sendPacketToPrivate_def route_def no_throw_def)
qed

section \<open>Reading until the socket is empty\<close>

text \<open>
  The poller is level-triggered: it raises the read event of a watched socket again as long as there are bytes,
  each time with what the last event left.
\<close>

definition leftover :: "recvAns list \<Rightarrow> nat \<Rightarrow> connMgr \<Rightarrow> recvAns list" where
  "leftover as r m =
     (case readLoop as r (h_recvPacket (holders m ! r)) (h_conn (holders m ! r)) (recvQueue m) of
        None \<Rightarrow> as
      | Some (_, as', _) \<Rightarrow> as')"

partial_function (option) read_all :: "int \<Rightarrow> recvAns list \<Rightarrow> connMgr \<Rightarrow> connMgr option" where
  "read_all fd as m =
     (if incoming as = [] then Some m
      else case map_of (allConns m) fd of
             None \<Rightarrow> Some m
           | Some r \<Rightarrow>
               (case epollerEventHandler fd (EvRead as) m of
                  None \<Rightarrow> None
                | Some m' \<Rightarrow> read_all fd (leftover as r m) m'))"

definition answers :: "recvAns list \<Rightarrow> nat" where
  "answers as = (\<Sum>a\<leftarrow>as. case a of RBytes bs \<Rightarrow> Suc (length bs) | _ \<Rightarrow> 1)"

lemma answers_simps [simp]:
  "answers [] = 0" "answers (RBytes bs # as) = Suc (length bs) + answers as"
  "answers (RAgain # as) = Suc (answers as)" "answers (RError # as) = Suc (answers as)"
  by (simp_all add: answers_def)

lemma tryRecv_progress:
  assumes "conn_ok c" and "tryRecv as c = (r, as', c')"
  shows "capacity (rcvBuf c') = capacity (rcvBuf c)" "answers as' \<le> answers as"
    "length (readable (rcvBuf c)) < capacity (rcvBuf c) \<Longrightarrow> as \<noteq> [] \<Longrightarrow> answers as' < answers as"
proof -
  have ok: "cbuf_ok (rcvBuf c)" using assms(1) by (simp add: conn_ok_def)
  obtain b off room where w: "writeable 0 (rcvBuf c) = (b, off, room)" by (metis prod_cases3)
  note wo = writeable_ok [OF ok w]
  have cap: "capacity (fst (commitWrite n (fill off d b))) = capacity (rcvBuf c)" if "length d \<le> room" for n d
    using that wo by (simp add: commitWrite_def fill_def capacity_def)
  have "capacity (rcvBuf c') = capacity (rcvBuf c) \<and> answers as' \<le> answers as
    \<and> (room \<noteq> 0 \<and> as \<noteq> [] \<longrightarrow> answers as' < answers as)"
    using assms(2) w wo(3)
    by (auto simp: cap tryRecv.simps Let_def split: if_splits list.splits recvAns.splits)
  then show "capacity (rcvBuf c') = capacity (rcvBuf c)" "answers as' \<le> answers as"
    "length (readable (rcvBuf c)) < capacity (rcvBuf c) \<Longrightarrow> as \<noteq> [] \<Longrightarrow> answers as' < answers as"
    using wo(6) by auto
qed

lemma readLoop_keeps:
  "readLoop as r pk c q = Some (res, as', pk', c', q') \<Longrightarrow> conn_ok c \<Longrightarrow>
    sndBuf c' = sndBuf c \<and> wire c' = wire c \<and> capacity (rcvBuf c') = capacity (rcvBuf c) \<and> conn_ok c'
    \<and> (open_stream as \<longrightarrow> res = None \<and> open_stream as') \<and> answers as' \<le> answers as
    \<and> (length (readable (rcvBuf c)) < capacity (rcvBuf c) \<and> as \<noteq> [] \<longrightarrow> answers as' < answers as)"
proof (induction "todo as pk c" arbitrary: as pk c q rule: less_induct)
  case less
  obtain t as1 c1 where tr: "tryRecv as c = (t, as1, c1)" by (metis prod_cases3)
  note ok = tryRecv_ok [OF less.prems(2) tr]
  note pr = tryRecv_progress [OF less.prems(2) tr]
  have open1: "open_stream as \<Longrightarrow> open_stream as1 \<and> \<not> (\<exists>e. t = Inl e)" using tryRecv_quiet tr by blast
  show ?case
  proof (cases "t = Inr True")
    case False
    then have "as' = as1 \<and> c' = c1 \<and> (res = None \<or> (\<exists>e. t = Inl e))"
      using less.prems(1) tr by (subst (asm) readLoop.simps) (auto split: sum.splits)
    then show ?thesis using ok pr open1 by auto
  next
    case data: True
    obtain pk1 n where p: "tcp_parse pk (readable (rcvBuf c1)) = (pk1, n)" by force
    let ?c = "c1\<lparr>rcvBuf := fst (commitRead n (rcvBuf c1))\<rparr>"
    note n = parse_bound [OF p]
    note c = commit_parsed [OF ok(1) n]
    have cap: "capacity (rcvBuf ?c) = capacity (rcvBuf c)" using pr(1) by (simp add: capacity_def commitRead_def Let_def)
    show ?thesis
    proof (cases "tcp_complete pk1")
      case False
      then have "res = None \<and> as' = as1 \<and> c' = ?c"
        using less.prems(1) readLoop_step [OF tr [unfolded data] p] by simp
      then show ?thesis using ok cap pr open1 c(1) by auto
    next
      case True
      then have rl: "readLoop as1 r [] ?c (recvQueue_push (r, pk1) q) = Some (res, as', pk', c', q')"
        using less.prems(1) readLoop_step [OF tr [unfolded data] p] by simp
      have "length (readable (rcvBuf c1) @ incoming as1) = length (readable (rcvBuf c) @ incoming as)"
        using ok(2) data by simp
      then have "todo as1 [] ?c < todo as pk c"
        using n c(2) True parse_zero [of pk "readable (rcvBuf c1)" pk1] p
        by (cases "n = 0") (auto simp: todo_def)
      from less.hyps [OF this rl c(1)] show ?thesis using ok(4,5) cap pr open1 by auto
    qed
  qed
qed

lemma read_event:
  assumes "map_of (allConns m) fd = Some r" and "holders m ! r = h" and "length (recvQueue m) < recvQueue_max"
    and "readLoop as r (h_recvPacket h) (h_conn h) (recvQueue m) = Some (None, as', pk, c, q)"
  shows "epollerEventHandler fd (EvRead as) m = Some ((setHolder r (h\<lparr>h_recvPacket := pk, h_conn := c\<rparr>) m)\<lparr>recvQueue := q\<rparr>)"
    and "leftover as r m = as'"
  using assms by (simp_all add: epollerEventHandler_def leftover_def)

text \<open>A frame that arrives in any pieces is queued, and the sending half of the connection is left alone.\<close>

lemma read_all_frame:
  assumes "map_of (allConns m) fd = Some r" and "r < length (holders m)" and "holders m ! r = h" and "conn_ok (h_conn h)"
    and "\<not> tcp_complete (h_recvPacket h)"
    and "readable (rcvBuf (h_conn h)) = [] \<or> length (h_recvPacket h) + length (readable (rcvBuf (h_conn h))) < 4"
    and "4 \<le> capacity (rcvBuf (h_conn h))" and "recvQueue m = []" and "open_stream as" and "framable c"
    and "h_recvPacket h @ readable (rcvBuf (h_conn h)) @ incoming as = frame c"
  shows "\<exists>c'. read_all fd as m = Some ((setHolder r (h\<lparr>h_recvPacket := [], h_conn := c'\<rparr>) m)\<lparr>recvQueue := [(r, frame c)]\<rparr>)
    \<and> sndBuf c' = sndBuf (h_conn h) \<and> wire c' = wire (h_conn h) \<and> conn_ok c' \<and> readable (rcvBuf c') = []"
  using assms
proof (induction "answers as" arbitrary: as m h rule: less_induct)
  case less
  let ?c = "h_conn h" and ?pk = "h_recvPacket h"
  obtain res as' pk' c' cs1 cs2 where rl: "readLoop as r ?pk ?c [] = Some (res, as', pk', c', delivered r cs1)"
    and cs: "[c] = cs1 @ cs2" and pk': "\<not> tcp_complete pk'" and und: "undelivered res as' pk' c' = stream cs2"
    and used: "res = None \<longrightarrow> readable (rcvBuf c') = [] \<or> length pk' + length (readable (rcvBuf c')) < 4"
    using readLoop_stream [OF less.prems(4,5), of "[c]" as "[]" "[]" r] less.prems(10,11) by (auto simp: recvQueue_max_def)
  have ne: "incoming as \<noteq> []"
  proof
    assume e: "incoming as = []"
    then have "length ?pk + length (readable (rcvBuf ?c)) = 4 + length c"
      using arg_cong [OF less.prems(11), of length] by simp
    then have "?pk = frame c" using less.prems(6,11) e by auto
    then show False using less.prems(5,10) complete_frame_append [of c "[]"] by simp
  qed
  have lt: "length (readable (rcvBuf ?c)) < capacity (rcvBuf ?c)" "as \<noteq> []" using less.prems(6,7) ne by auto
  have k: "sndBuf c' = sndBuf ?c" "wire c' = wire ?c" "capacity (rcvBuf c') = capacity (rcvBuf ?c)" "conn_ok c'"
    "res = None" "open_stream as'" "answers as' < answers as"
    using readLoop_keeps [OF rl less.prems(4)] less.prems(9) lt by auto
  let ?m = "(setHolder r (h\<lparr>h_recvPacket := pk', h_conn := c'\<rparr>) m)\<lparr>recvQueue := delivered r cs1\<rparr>"
  have ev: "epollerEventHandler fd (EvRead as) m = Some ?m" "leftover as r m = as'"
    using read_event [OF less.prems(1,3), of as as' pk' c' "delivered r cs1"] rl k(5) less.prems(8)
    by (simp_all add: recvQueue_max_def)
  then have step: "read_all fd as m = read_all fd as' ?m"
    using ne less.prems(1) by (subst read_all.simps) simp
  consider (queued) "cs1 = [c]" "cs2 = []" | (partial) "cs1 = []" "cs2 = [c]"
    using cs by (cases cs1) auto
  then show ?case
  proof cases
    case queued
    then have "pk' = []" "readable (rcvBuf c') = []" "incoming as' = []"
      using und k(5) by (simp_all add: undelivered_def)
    then show ?thesis using step k queued by (subst (asm) (2) read_all.simps) auto
  next
    case partial
    let ?h = "h\<lparr>h_recvPacket := pk', h_conn := c'\<rparr>"
    have m: "map_of (allConns ?m) fd = Some r" "r < length (holders ?m)" "holders ?m ! r = ?h" "recvQueue ?m = []"
      using less.prems(1,2) partial by (simp_all add: setHolder_def)
    have st: "h_recvPacket ?h @ readable (rcvBuf (h_conn ?h)) @ incoming as' = frame c"
      using und partial k(5) by (simp add: undelivered_def)
    have "\<exists>c''. read_all fd as' ?m = Some ((setHolder r (?h\<lparr>h_recvPacket := [], h_conn := c''\<rparr>) ?m)\<lparr>recvQueue := [(r, frame c)]\<rparr>)
      \<and> sndBuf c'' = sndBuf (h_conn ?h) \<and> wire c'' = wire (h_conn ?h) \<and> conn_ok c'' \<and> readable (rcvBuf c'') = []"
      using k(3-6) pk' used less.prems(7,10) by (intro less.hyps [OF k(7) m(1-3) _ _ _ _ m(4) _ _ st]) simp_all
    then obtain c'' where c'': "read_all fd as' ?m = Some ((setHolder r (?h\<lparr>h_recvPacket := [], h_conn := c''\<rparr>) ?m)\<lparr>recvQueue := [(r, frame c)]\<rparr>)"
      "sndBuf c'' = sndBuf ?c" "wire c'' = wire ?c" "conn_ok c''" "readable (rcvBuf c'') = []" using k(1,2) by auto
    have "(setHolder r (?h\<lparr>h_recvPacket := [], h_conn := c''\<rparr>) ?m)\<lparr>recvQueue := [(r, frame c)]\<rparr>
      = (setHolder r (h\<lparr>h_recvPacket := [], h_conn := c''\<rparr>) m)\<lparr>recvQueue := [(r, frame c)]\<rparr>"
      by (simp add: setHolder_def)
    then show ?thesis using step c'' by (intro exI [of _ c'']) simp
  qed
qed

section \<open>From end to end\<close>

text \<open>A connection over which a packet can be sent at once, and one on which nothing has begun to arrive.\<close>

definition ready :: "connMgr \<Rightarrow> processId \<Rightarrow> nat \<Rightarrow> sendAns list \<Rightarrow> packet \<Rightarrow> bool" where
  "ready m pid r as d \<longleftrightarrow> route m pid r \<and> idle m r \<and> takes as (length d)
     \<and> length d \<le> capacity (sndBuf (h_conn (holders m ! r)))"

definition listening :: "connMgr \<Rightarrow> int \<Rightarrow> nat \<Rightarrow> bool" where
  "listening m fd r \<longleftrightarrow> map_of (allConns m) fd = Some r \<and> r < length (holders m) \<and> conn_ok (h_conn (holders m ! r))
     \<and> h_recvPacket (holders m ! r) = [] \<and> readable (rcvBuf (h_conn (holders m ! r))) = []
     \<and> 4 \<le> capacity (rcvBuf (h_conn (holders m ! r))) \<and> recvQueue m = []"

lemma relay_leaves:
  assumes "framable (envelopeContent junk src pid c body)"
    and "ready m (ProcessId_name n2t ''router'' 1) r (as r) (frame (envelopeContent junk src pid c body))"
    and "relay \<in> {gateway_relayToPrivate, lobby_relayToPrivate, hall_relayToPrivate}"
  shows "\<exists>m'. relay as n2t junk src pid c (Some body) m = Inr (m', True)
    \<and> sent m m' r = frame (envelopeContent junk src pid c body)"
proof -
  let ?d = "frame (envelopeContent junk src pid c body)"
  let ?m = "fst (allocPacket ?d m)"
  have "route ?m (ProcessId_name n2t ''router'' 1) r" "idle ?m r" "takes (as r) (length ?d)"
    "length ?d \<le> capacity (sndBuf (h_conn (holders ?m ! r)))" "packets ?m ! length (packets m) = ?d"
    using assms(2) by (simp_all add: ready_def route_def idle_def allocPacket_def)
  from to_private_clean [where as = as, OF this(1,2) frame_not_Nil this(3-5)] obtain m' where
    "sendPacketToPrivate as (ProcessId_name n2t ''router'' 1) (length (packets m)) ?m = (m', True)" "sent ?m m' r = ?d" by blast
  then have "toRouter as n2t ?d m = (m', True)" "sent m m' r = ?d"
    by (simp_all add: toRouter_def allocPacket_def sent_def)
  moreover have "relay as n2t junk src pid c (Some body) m = Inr (toRouter as n2t ?d m)"
    using assms(3) by (auto simp: relay_frame [OF assms(1)])
  ultimately show ?thesis by simp
qed

lemma listens_frame:
  assumes "listening m fd r" and "open_stream as" and "framable c" and "incoming as = frame c"
  shows "\<exists>m'. read_all fd as m = Some m' \<and> recvQueue m' = [(r, frame c)] \<and> privateConns m' = privateConns m
    \<and> packets m' = packets m \<and> length (holders m') = length (holders m)
    \<and> (\<forall>i. h_sendQueue (holders m' ! i) = h_sendQueue (holders m ! i)
        \<and> sndBuf (h_conn (holders m' ! i)) = sndBuf (h_conn (holders m ! i))
        \<and> wire (h_conn (holders m' ! i)) = wire (h_conn (holders m ! i))
        \<and> (conn_ok (h_conn (holders m ! i)) \<longrightarrow> conn_ok (h_conn (holders m' ! i))))"
proof -
  let ?h = "holders m ! r"
  have l: "map_of (allConns m) fd = Some r" "r < length (holders m)" "conn_ok (h_conn ?h)" "\<not> tcp_complete (h_recvPacket ?h)"
    "readable (rcvBuf (h_conn ?h)) = [] \<or> length (h_recvPacket ?h) + length (readable (rcvBuf (h_conn ?h))) < 4"
    "4 \<le> capacity (rcvBuf (h_conn ?h))" "recvQueue m = []"
    "h_recvPacket ?h @ readable (rcvBuf (h_conn ?h)) @ incoming as = frame c"
    using assms(1,4) by (simp_all add: listening_def)
  from read_all_frame [OF l(1,2) refl l(3-7) assms(2,3) l(8)] obtain c' where
    c: "read_all fd as m = Some ((setHolder r (?h\<lparr>h_recvPacket := [], h_conn := c'\<rparr>) m)\<lparr>recvQueue := [(r, frame c)]\<rparr>)"
    "sndBuf c' = sndBuf (h_conn ?h)" "wire c' = wire (h_conn ?h)" "conn_ok c'" by blast
  then show ?thesis using l(2) by (simp add: setHolder_def nth_list_update)
qed

lemma router_passes_on:
  assumes "framable (envelopeContent junk src pid c body)" and "pid_small pid" and "pid_num pid \<noteq> 0"
    and "ready m pid r (as r) (frame (envelopeContent junk src pid c body))"
    and "recvQueue m = [(i, frame (envelopeContent junk src pid c body))]"
  shows "\<exists>m'. dealTcpPackets (router_handle as) ((), m) = Some (Inr ((), m'))
    \<and> sent m m' r = frame (envelopeContent junk src pid c body)"
proof -
  let ?d = "frame (envelopeContent junk src pid c body)"
  let ?m = "fst (allocPacket ?d (m\<lparr>recvQueue := []\<rparr>))"
  have p: "route ?m pid r" "idle ?m r" "takes (as r) (length ?d)"
    "length ?d \<le> capacity (sndBuf (h_conn (holders ?m ! r)))" "packets ?m ! length (packets m) = ?d"
    using assms(4) by (simp_all add: ready_def route_def idle_def allocPacket_def)
  from to_private_clean [where as = as, OF p(1,2) frame_not_Nil p(3-5)] obtain m' where
    m': "sendPacketToPrivate as pid (length (packets m)) ?m = (m', True)" "sent ?m m' r = ?d" by blast
  have "router_tcpPacketHandle as (length (packets m)) ?m = Inr m'"
    using router_forwards [OF p(5) assms(2)] assms(3) m'(1) by simp
  then have "router_handle as ?d i ((), m\<lparr>recvQueue := []\<rparr>) = Inr ((), m')"
    by (simp add: router_handle_def allocPacket_def)
  then have "dealTcpPackets (router_handle as) ((), m) = Some (Inr ((), m'))"
    using router.loop_returns [of as "((), m)"] assms(5) by simp
  moreover have "sent m m' r = ?d" using m'(2) by (simp add: sent_def allocPacket_def)
  ultimately show ?thesis by blast
qed

text \<open>C6: A message relayed over the router arrives as it was sent. When the gateway, the lobby or the hall relays
  a message to a process over an idle connection to the router whose socket takes the packet at once, it puts the
  frame of its envelope on the wire and nothing else; when that reaches the router in pieces of any size, then the read events of the router, which end,
  queue one packet, and its process loop, which ends, puts the same frame on the wire to the process the envelope is addressed to,
  when that connection is idle and its socket takes the packet too; and when that reaches the
  process in pieces of any size, the read events there queue one packet, and the dispatcher of a gateway, a lobby or a hall calls
  the handler of the inner code with the bytes of the message and the source the sender named, whatever
  the connection the packet came in on. A connection that is busy may add bytes that nobody sent to its
  stream, which the hypotheses on the sockets exclude.\<close>

theorem relay_end_to_end:
  assumes "framable (envelopeContent junk src pid c body)" and "pid_small pid" and "pid_num pid \<noteq> 0"
    and "isProtobufMsgCode c" and "known c" and "protos c = Some handler"
    and "relay \<in> {gateway_relayToPrivate, lobby_relayToPrivate, hall_relayToPrivate}"
    and "ready mS (ProcessId_name n2t ''router'' 1) rS (asS rS) (frame (envelopeContent junk src pid c body))"
    and "listening mR fdR rR" and "open_stream aR"
    and "ready mR pid rT (asR rT) (frame (envelopeContent junk src pid c body))"
    and "listening mT fdT rI" and "open_stream aT"
  shows "\<exists>mS'. relay asS n2t junk src pid c (Some body) mS = Inr (mS', True)
    \<and> sent mS mS' rS = frame (envelopeContent junk src pid c body)
    \<and> (incoming aR = sent mS mS' rS \<longrightarrow>
        (\<exists>mR1 mR2. read_all fdR aR mR = Some mR1
          \<and> dealTcpPackets (router_handle asR) ((), mR1) = Some (Inr ((), mR2))
          \<and> sent mR mR2 rT = frame (envelopeContent junk src pid c body)
          \<and> (incoming aT = sent mR mR2 rT \<longrightarrow>
              (\<exists>mT1 mT2 pk. read_all fdT aT mT = Some mT1
                \<and> getPacket mT1 = (mT2, Some (rI, pk)) \<and> getPacket mT2 = (mT2, None)
                \<and> gateway_tcpPacketHandle known raws protos pk (h_id (holders mT2 ! rI)) = Inr (ProtoMsg (Handled c body src))
                \<and> lobby_tcpPacketHandle known raws protos pk (h_id (holders mT2 ! rI)) = Inr (ProtoMsg (Handled c body src))
                \<and> hall_tcpPacketHandle known raws protos pk (h_id (holders mT2 ! rI)) = Inr (ProtoMsg (Handled c body src))))))"
proof -
  let ?d = "frame (envelopeContent junk src pid c body)"
  obtain mS' where S: "relay asS n2t junk src pid c (Some body) mS = Inr (mS', True)" "sent mS mS' rS = ?d"
    using relay_leaves [where as = asS, OF assms(1,8,7)] by blast
  have R: "\<exists>mR1 mR2. read_all fdR aR mR = Some mR1 \<and> dealTcpPackets (router_handle asR) ((), mR1) = Some (Inr ((), mR2))
    \<and> sent mR mR2 rT = ?d" if aR: "incoming aR = ?d"
  proof -
    obtain mR1 where m1: "read_all fdR aR mR = Some mR1" "recvQueue mR1 = [(rR, ?d)]" "privateConns mR1 = privateConns mR"
      "length (holders mR1) = length (holders mR)"
      "h_sendQueue (holders mR1 ! rT) = h_sendQueue (holders mR ! rT)"
      "sndBuf (h_conn (holders mR1 ! rT)) = sndBuf (h_conn (holders mR ! rT))"
      "wire (h_conn (holders mR1 ! rT)) = wire (h_conn (holders mR ! rT))"
      "conn_ok (h_conn (holders mR ! rT)) \<longrightarrow> conn_ok (h_conn (holders mR1 ! rT))"
      using listens_frame [OF assms(9,10,1) aR] by blast
    have "ready mR1 pid rT (asR rT) ?d" using assms(11) m1 by (simp add: ready_def route_def idle_def)
    from router_passes_on [where as = asR and i = rR, OF assms(1-3) this m1(2)] m1(1,7) show ?thesis by (auto simp: sent_def)
  qed
  have T: "\<exists>mT1 mT2 pk. read_all fdT aT mT = Some mT1 \<and> getPacket mT1 = (mT2, Some (rI, ?d)) \<and> getPacket mT2 = (mT2, None)"
    if aT: "incoming aT = ?d"
    using listens_frame [OF assms(12,13,1) aT] by (auto simp: getPacket_def)
  note h = handle_envelope [where protos = protos and raws = raws and known = known, OF assms(1,4-6)]
  have "\<exists>mR1 mR2. read_all fdR aR mR = Some mR1
      \<and> dealTcpPackets (router_handle asR) ((), mR1) = Some (Inr ((), mR2)) \<and> sent mR mR2 rT = ?d
      \<and> (incoming aT = sent mR mR2 rT \<longrightarrow>
          (\<exists>mT1 mT2 pk. read_all fdT aT mT = Some mT1
            \<and> getPacket mT1 = (mT2, Some (rI, pk)) \<and> getPacket mT2 = (mT2, None)
            \<and> gateway_tcpPacketHandle known raws protos pk (h_id (holders mT2 ! rI)) = Inr (ProtoMsg (Handled c body src))
            \<and> lobby_tcpPacketHandle known raws protos pk (h_id (holders mT2 ! rI)) = Inr (ProtoMsg (Handled c body src))
            \<and> hall_tcpPacketHandle known raws protos pk (h_id (holders mT2 ! rI)) = Inr (ProtoMsg (Handled c body src))))"
    if aS: "incoming aR = sent mS mS' rS"
  proof -
    obtain mR1 mR2 where "read_all fdR aR mR = Some mR1" "dealTcpPackets (router_handle asR) ((), mR1) = Some (Inr ((), mR2))"
      "sent mR mR2 rT = ?d" using R [OF aS [unfolded S(2)]] by blast
    then show ?thesis using T h by metis
  qed
  then show ?thesis using S by blast
qed

text \<open>
  The lobby speaks to the gateway: each process has one connection, that of the lobby and of the gateway leads
  to the router, and the router has one to each of them.
\<close>

definition wpid :: "u32 \<Rightarrow> processId" where
  "wpid t = \<lparr>pid_type = t, pid_num = 1\<rparr>"

definition wnames :: "string \<rightharpoonup> u32" where
  "wnames = [''router'' \<mapsto> 1, ''lobby'' \<mapsto> 2, ''gateway'' \<mapsto> 3]"

definition wend :: connMgr where
  "wend = addPrivateConnection True 5 bufConn_new (wpid 1) connMgr_init"

definition wrouter :: connMgr where
  "wrouter = addPrivateConnection True 6 bufConn_new (wpid 3) (addPrivateConnection True 5 bufConn_new (wpid 2) connMgr_init)"

definition wframe :: packet where
  "wframe = frame (envelopeContent 0 4242 (wpid 3) 5 [1, 2, 3])"

lemma wend_shape:
  "holders wend = [newHolder True (ucast (pid_value (wpid 1))) 5 bufConn_new]" "allConns wend = [(5, 0)]"
  "privateConns wend = [(1, [(1, 0)])]" "recvQueue wend = []"
  by (simp_all add: wend_def addPrivateConnection_def connMgr_init_def map_insert_def privateOfType_def wpid_def Let_def)

lemma wrouter_shape:
  "holders wrouter = [newHolder True (ucast (pid_value (wpid 2))) 5 bufConn_new, newHolder True (ucast (pid_value (wpid 3))) 6 bufConn_new]"
  "allConns wrouter = [(5, 0), (6, 1)]" "privateConns wrouter = [(2, [(1, 0)]), (3, [(1, 1)])]" "recvQueue wrouter = []"
  by (simp_all add: wrouter_def addPrivateConnection_def connMgr_init_def map_insert_def privateOfType_def wpid_def Let_def)

theorem relay_end_to_end_witness:
  "\<exists>mS' mR1 mR2 mT1 mT2 pk. lobby_relayToPrivate (\<lambda>r. [SAccept 100]) wnames 0 4242 (wpid 3) 5 (Some [1, 2, 3]) wend = Inr (mS', True)
    \<and> incoming [RBytes (take 7 wframe), RBytes (drop 7 wframe)] = sent wend mS' 0
    \<and> read_all 5 [RBytes (take 7 wframe), RBytes (drop 7 wframe)] wrouter = Some mR1
    \<and> dealTcpPackets (router_handle (\<lambda>r. [SAccept 100])) ((), mR1) = Some (Inr ((), mR2))
    \<and> incoming [RBytes wframe] = sent wrouter mR2 1
    \<and> read_all 5 [RBytes wframe] wend = Some mT1 \<and> getPacket mT1 = (mT2, Some (0, pk))
    \<and> gateway_tcpPacketHandle (\<lambda>c. c = 5) Map.empty [5 \<mapsto> ()] pk (h_id (holders mT2 ! 0))
        = Inr (ProtoMsg (Handled 5 [1, 2, 3] 4242))"
proof -
  have c: "conn_ok bufConn_new" by (simp add: conn_ok_def bufConn_new_def)
  have n: "ProcessId_name wnames ''router'' 1 = wpid 1"
    by (simp add: ProcessId_name_def wnames_def wpid_def stringToType_def)
  have l: "length wframe = 27" by (simp add: wframe_def envelopeContent_def envelope_size_def)
  have fr: "framable (envelopeContent 0 4242 (wpid 3) 5 [1, 2, 3])"
    by (simp add: framable_def envelopeContent_def envelope_size_def u32_mod_def)
  have s: "ready wend (ProcessId_name wnames ''router'' 1) 0 [SAccept 100] wframe"
    "ready wrouter (wpid 3) 1 [SAccept 100] wframe"
    using c by (simp_all add: n ready_def route_def idle_def takes_def wend_shape wrouter_shape newHolder_def l)
      (simp_all add: wpid_def bufConn_new_def)
  have r: "listening wend 5 0" "listening wrouter 5 0"
    using c by (simp_all add: listening_def wend_shape wrouter_shape newHolder_def) (simp_all add: bufConn_new_def)
  have o: "open_stream [RBytes (take 7 wframe), RBytes (drop 7 wframe)]" "open_stream [RBytes wframe]"
    using l by (auto simp: open_stream_def)
  have w: "incoming [RBytes (take 7 wframe), RBytes (drop 7 wframe)] = wframe" "incoming [RBytes wframe] = wframe"
    using l by auto
  have p: "pid_small (wpid 3)" "pid_num (wpid 3) \<noteq> 0" by (simp_all add: pid_small_def wpid_def)
  have k: "isProtobufMsgCode 5" by (simp add: isProtobufMsgCode_def code_masks)
  have q: "[5 \<mapsto> ()] 5 = Some ()"
    "lobby_relayToPrivate \<in> {gateway_relayToPrivate, lobby_relayToPrivate, hall_relayToPrivate}" by simp_all
  let ?aR = "[RBytes (take 7 wframe), RBytes (drop 7 wframe)]" and ?as = "\<lambda>r. [SAccept 100]"
  from relay_end_to_end [OF fr p k, of "\<lambda>c. c = 5" "[5 \<mapsto> ()]" "()" lobby_relayToPrivate wend wnames 0 ?as
        wrouter 5 0 ?aR 1 ?as wend 5 0 "[RBytes wframe]" Map.empty,
        folded wframe_def, OF refl q(1,2) s(1) r(2) o(1) s(2) r(1) o(2)]
  obtain mS' where S: "lobby_relayToPrivate ?as wnames 0 4242 (wpid 3) 5 (Some [1, 2, 3]) wend = Inr (mS', True)"
    "sent wend mS' 0 = wframe"
    and n1: "incoming ?aR = sent wend mS' 0 \<longrightarrow>
      (\<exists>mR1 mR2. read_all 5 ?aR wrouter = Some mR1 \<and> dealTcpPackets (router_handle ?as) ((), mR1) = Some (Inr ((), mR2))
        \<and> sent wrouter mR2 1 = wframe
        \<and> (incoming [RBytes wframe] = sent wrouter mR2 1 \<longrightarrow>
            (\<exists>mT1 mT2 pk. read_all 5 [RBytes wframe] wend = Some mT1 \<and> getPacket mT1 = (mT2, Some (0, pk)) \<and> getPacket mT2 = (mT2, None)
              \<and> gateway_tcpPacketHandle (\<lambda>c. c = 5) Map.empty [5 \<mapsto> ()] pk (h_id (holders mT2 ! 0)) = Inr (ProtoMsg (Handled 5 [1, 2, 3] 4242))
              \<and> lobby_tcpPacketHandle (\<lambda>c. c = 5) Map.empty [5 \<mapsto> ()] pk (h_id (holders mT2 ! 0)) = Inr (ProtoMsg (Handled 5 [1, 2, 3] 4242))
              \<and> hall_tcpPacketHandle (\<lambda>c. c = 5) Map.empty [5 \<mapsto> ()] pk (h_id (holders mT2 ! 0)) = Inr (ProtoMsg (Handled 5 [1, 2, 3] 4242)))))"
    by (elim exE conjE) (rule that)
  from n1 S(2) w(1) obtain mR1 mR2 where R: "read_all 5 ?aR wrouter = Some mR1"
    "dealTcpPackets (router_handle ?as) ((), mR1) = Some (Inr ((), mR2))" "sent wrouter mR2 1 = wframe"
    and n2: "incoming [RBytes wframe] = sent wrouter mR2 1 \<longrightarrow>
      (\<exists>mT1 mT2 pk. read_all 5 [RBytes wframe] wend = Some mT1 \<and> getPacket mT1 = (mT2, Some (0, pk)) \<and> getPacket mT2 = (mT2, None)
        \<and> gateway_tcpPacketHandle (\<lambda>c. c = 5) Map.empty [5 \<mapsto> ()] pk (h_id (holders mT2 ! 0)) = Inr (ProtoMsg (Handled 5 [1, 2, 3] 4242))
        \<and> lobby_tcpPacketHandle (\<lambda>c. c = 5) Map.empty [5 \<mapsto> ()] pk (h_id (holders mT2 ! 0)) = Inr (ProtoMsg (Handled 5 [1, 2, 3] 4242))
        \<and> hall_tcpPacketHandle (\<lambda>c. c = 5) Map.empty [5 \<mapsto> ()] pk (h_id (holders mT2 ! 0)) = Inr (ProtoMsg (Handled 5 [1, 2, 3] 4242)))"
    by metis
  from n2 R(3) w(2) obtain mT1 mT2 pk where T: "read_all 5 [RBytes wframe] wend = Some mT1" "getPacket mT1 = (mT2, Some (0, pk))"
    "gateway_tcpPacketHandle (\<lambda>c. c = 5) Map.empty [5 \<mapsto> ()] pk (h_id (holders mT2 ! 0)) = Inr (ProtoMsg (Handled 5 [1, 2, 3] 4242))"
    by metis
  show ?thesis using S R T w by (intro exI conjI) (assumption | simp only:)+
qed

end
