(* ===== verification/GatewayClients.thy ===== *)
theory GatewayClients
  imports ConnIndex FastTravel
begin

text \<open>
  The gateway's client manager (\<^verbatim>\<open>processes/gateway/client_manager.cpp\<close>), its composition
  with the connection manager (\<^verbatim>\<open>processes/gateway/gateway.cpp\<close>), and the access tokens
  (\<^verbatim>\<open>processes/gateway/anysdk_login_manager.cpp\<close>). A client record is changed while it is in
  the map and only cleared in the list of the dying, so records are values here.
\<close>

section \<open>State\<close>

datatype gwClientState = Logining | GwPlaying

record gwClient =
  gc_ccid :: u64
  gc_cuid :: u64
  gc_state :: gwClientState

record gwManager =
  gw_pid :: processId
  gw_counter :: u32
  gw_clients :: "(u64, gwClient) ftm"
  gw_dying :: "gwClient list"

definition ClientManager :: "processId \<Rightarrow> gwManager" where
  "ClientManager pid = \<lparr>gw_pid = pid, gw_counter = 1, gw_clients = ftm_empty, gw_dying = []\<rparr>"

text \<open>What leaves the gateway: a login request for the lobby, or the answer for a client.\<close>

datatype gwOut = LoginQuest string u64 string | LoginRet u64 "u64 option"

section \<open>Operations\<close>

definition make_ccid :: "u64 \<Rightarrow> u32 \<Rightarrow> u32 \<Rightarrow> u64" where
  "make_ccid now processNum counter =
     push_bit 32 now OR ucast (push_bit 24 processNum) OR ucast counter"

definition createNewClient :: "u64 \<Rightarrow> gwManager \<Rightarrow> gwManager \<times> gwClient" where
  "createNewClient now g =
     (g\<lparr>gw_counter := gw_counter g + 1\<rparr>,
      \<lparr>gc_ccid = make_ccid now (pid_num (gw_pid g)) (gw_counter g), gc_cuid = 0, gc_state = Logining\<rparr>)"

definition gw_insert :: "gwClient \<Rightarrow> gwManager \<Rightarrow> gwManager \<times> bool" where
  "gw_insert c g =
     (let (cs, ok) = ftm_insert (gc_ccid c) c (gw_clients g) in (g\<lparr>gw_clients := cs\<rparr>, ok))"

definition gw_erase :: "gwClient \<Rightarrow> gwManager \<Rightarrow> gwManager" where
  "gw_erase c g = g\<lparr>gw_clients := ftm_erase (gc_ccid c) (gw_clients g)\<rparr>"

definition gw_getByCcid :: "u64 \<Rightarrow> gwManager \<Rightarrow> gwClient option" where
  "gw_getByCcid ccid g = ftm_find (gw_clients g) ccid"

definition eraseLater :: "gwClient \<Rightarrow> gwManager \<Rightarrow> gwManager" where
  "eraseLater c g = (let g = gw_erase c g in g\<lparr>gw_dying := gw_dying g @ [c]\<rparr>)"

definition gw_timerExec :: "gwManager \<Rightarrow> gwManager" where
  "gw_timerExec g = g\<lparr>gw_dying := []\<rparr>"

definition gw_clientOnline :: "u64 \<Rightarrow> gwManager \<Rightarrow> gwManager \<times> u64" where
  "gw_clientOnline now g =
     (let (g, c) = createNewClient now g; (g, ok) = gw_insert c g
      in if \<not> ok then (g, 0) else (g, gc_ccid c))"

definition clientOffline :: "u64 \<Rightarrow> gwManager \<Rightarrow> gwManager" where
  "clientOffline ccid g =
     (case gw_getByCcid ccid g of None \<Rightarrow> g | Some c \<Rightarrow> gw_erase c g)"

definition kickOutClient :: "u64 \<Rightarrow> bool \<Rightarrow> gwManager \<Rightarrow> gwManager" where
  "kickOutClient ccid delay g =
     (case gw_getByCcid ccid g of
        None \<Rightarrow> g
      | Some c \<Rightarrow> if delay then eraseLater c g else gw_erase c g)"

definition proto_C_Login :: "string \<Rightarrow> string \<Rightarrow> u64 \<Rightarrow> gwManager \<Rightarrow> gwManager \<times> gwOut list" where
  "proto_C_Login openid nick ccid g =
     (case gw_getByCcid ccid g of
        None \<Rightarrow> (g, [])
      | Some c \<Rightarrow> let isLegal = True in (g, if isLegal then [LoginQuest openid ccid nick] else []))"

definition proto_RetLoginQuest :: "u64 \<Rightarrow> u64 \<Rightarrow> bool \<Rightarrow> gwManager \<Rightarrow> gwManager \<times> gwOut list" where
  "proto_RetLoginQuest ccid cuid success g =
     (case gw_getByCcid ccid g of
        None \<Rightarrow> (g, [])
      | Some c \<Rightarrow>
          let c = c\<lparr>gc_cuid := cuid, gc_state := GwPlaying\<rparr>;
              m = gw_clients g;
              g = g\<lparr>gw_clients := m\<lparr>ft_vec := map (\<lambda>(k, v). (k, if k = ccid then c else v)) (ft_vec m)\<rparr>\<rparr>
          in if success then (g, [LoginRet (gc_ccid c) (Some cuid)])
             else (eraseLater c g, [LoginRet (gc_ccid c) None]))"

definition proto_ClientBeReplaced :: "u64 \<Rightarrow> gwManager \<Rightarrow> gwManager" where
  "proto_ClientBeReplaced ccid g =
     (case gw_getByCcid ccid g of None \<Rightarrow> g | Some c \<Rightarrow> kickOutClient ccid True g)"

section \<open>With the connections\<close>

type_synonym gateway = "gwManager \<times> connMgr"

definition newClientConnection :: "u64 \<Rightarrow> bool \<Rightarrow> int \<Rightarrow> bufConn \<Rightarrow> gateway \<Rightarrow> gateway" where
  "newClientConnection now epollOk fd c s =
     (let (g, ccid) = gw_clientOnline now (fst s)
      in if ccid = 0 then (g, snd s)
         else let (m, ok) = addPublicConnection epollOk fd c ccid (snd s)
              in (if ok then g else kickOutClient ccid False g, m))"

text \<open>The event of an erased public connection is answered by \<open>clientOffline\<close>.\<close>

fun offline_events :: "connEvent list \<Rightarrow> gwManager \<Rightarrow> gwManager" where
  "offline_events [] g = g"
| "offline_events (AfterErasePublic i # es) g = offline_events es (clientOffline i g)"
| "offline_events (_ # es) g = offline_events es g"

definition gw_socketEvent :: "int \<Rightarrow> sockEvent \<Rightarrow> gateway \<Rightarrow> gateway option" where
  "gw_socketEvent fd ev s =
     (case epollerEventHandler fd ev (snd s) of
        None \<Rightarrow> None
      | Some m \<Rightarrow> Some (offline_events (drop (length (raised (snd s))) (raised m)) (fst s), m))"

section \<open>Connection identities\<close>

lemma bit_ccid:
  "bit (make_ccid now num cnt) n \<longleftrightarrow> n < 64 \<and>
     (32 \<le> n \<and> bit now (n - 32) \<or> 24 \<le> n \<and> n < 32 \<and> bit num (n - 24) \<or> bit cnt n)"
  by (auto simp: make_ccid_def bit_simps dest: bit_imp_le_length)

lemma less_bits: "(w :: 'a :: len word) < 2 ^ k \<Longrightarrow> bit w n \<Longrightarrow> n < k"
proof -
  assume "w < 2 ^ k" and b: "bit w n"
  then have "w AND mask k = w" by (intro less_mask_eq)
  with b have "bit (w AND mask k) n" by simp
  then show ?thesis by (simp add: bit_simps)
qed

lemma ccid_large:
  assumes "num \<noteq> 0" and "num < 256"
  shows "65536 \<le> make_ccid now num cnt"
proof (rule ccontr)
  assume "\<not> 65536 \<le> make_ccid now num cnt"
  then have small: "make_ccid now num cnt < 2 ^ 16" by simp
  obtain k where k: "bit num k" using assms(1) by (metis bit_eqI bit_0_eq bot_apply bot_bool_def)
  then have "k < 8" using less256_bit [OF assms(2)] by blast
  then have "bit (make_ccid now num cnt) (k + 24)" using k by (simp add: bit_ccid)
  then show False using less_bits [OF small] by fastforce
qed

text \<open>The layout of a connection identity. As long as the counter of the gateway stays
  below \<open>2 ^ 24\<close> and its number below 256, the identity is 32 bits of time, 8 bits of
  number and 24 bits of counter, as the header says. But nothing holds the counter there:
  the maximum the class declares is not used, and a larger counter runs into the field of
  the gateway's number, which then reads as the disjunction of the two.\<close>

theorem ccid_layout:
  assumes "gw_counter g = cnt" and "pid_num (gw_pid g) = num" and "num < 256" and "now < 2 ^ 32"
  shows "(drop_bit 32 (gc_ccid (snd (createNewClient now g))) = now)
    \<and> (cnt < 2 ^ 24 \<longrightarrow> take_bit 24 (gc_ccid (snd (createNewClient now g))) = ucast cnt
      \<and> take_bit 8 (drop_bit 24 (gc_ccid (snd (createNewClient now g)))) = ucast num)
    \<and> (take_bit 8 (drop_bit 24 (gc_ccid (snd (createNewClient now g)))) = ucast (num OR drop_bit 24 cnt))"
proof (intro conjI)
  have c: "gc_ccid (snd (createNewClient now g)) = make_ccid now num cnt"
    using assms(1,2) by (simp add: createNewClient_def)
  have n: "bit num k \<Longrightarrow> k < 8" for k using less256_bit [OF assms(3)] by blast
  have t: "bit now k \<Longrightarrow> k < 32" for k using less_bits [OF assms(4)] by blast
  have u: "bit cnt k \<Longrightarrow> k < 32" for k using bit_imp_le_length [of cnt k] by simp
  show "drop_bit 32 (gc_ccid (snd (createNewClient now g))) = now"
    unfolding c by (rule bit_word_eqI) (auto simp: bit_simps bit_ccid dest: t u)
  show third: "take_bit 8 (drop_bit 24 (gc_ccid (snd (createNewClient now g)))) = ucast (num OR drop_bit 24 cnt)"
    unfolding c by (rule bit_word_eqI) (auto simp: bit_simps bit_ccid dest: n u)
  show "cnt < 2 ^ 24 \<longrightarrow> take_bit 24 (gc_ccid (snd (createNewClient now g))) = ucast cnt
      \<and> take_bit 8 (drop_bit 24 (gc_ccid (snd (createNewClient now g)))) = ucast num"
  proof (intro impI conjI)
    assume "cnt < 2 ^ 24"
    then have v: "bit cnt k \<Longrightarrow> k < 24" for k using less_bits by blast
    then have "drop_bit 24 cnt = 0" by (intro bit_word_eqI) (auto simp: bit_simps dest!: v)
    then show "take_bit 8 (drop_bit 24 (gc_ccid (snd (createNewClient now g)))) = ucast num"
      using third by simp
    show "take_bit 24 (gc_ccid (snd (createNewClient now g))) = ucast cnt"
      unfolding c by (rule bit_word_eqI) (auto simp: bit_simps bit_ccid dest: v)
  qed
qed

theorem ccid_layout_witness:
  "take_bit 8 (drop_bit 24 (gc_ccid (snd (createNewClient 1500000000
     ((ClientManager \<lparr>pid_type = 1, pid_num = 1\<rparr>)\<lparr>gw_counter := 0x2000000\<rparr>))))) = 3"
proof -
  let ?g = "(ClientManager \<lparr>pid_type = 1, pid_num = 1\<rparr>)\<lparr>gw_counter := 0x2000000\<rparr>"
  have "take_bit 8 (drop_bit 24 (gc_ccid (snd (createNewClient 1500000000 ?g)))) = ucast ((1 :: u32) OR drop_bit 24 0x2000000)"
    by (rule ccid_layout [THEN conjunct2, THEN conjunct2]) (simp_all add: ClientManager_def)
  then show ?thesis by simp
qed

section \<open>Sessions and connections\<close>

definition gw_inv :: "gateway \<Rightarrow> bool" where
  "gw_inv s \<longleftrightarrow> ftm_inv (gw_clients (fst s)) \<and> index_ok (snd s)
     \<and> pid_num (gw_pid (fst s)) \<noteq> 0 \<and> pid_num (gw_pid (fst s)) < 256
     \<and> (\<forall>i c. ftm_find (gw_clients (fst s)) i = Some c \<longrightarrow>
          gc_ccid c = i \<and> map_of (publicConns (snd s)) i \<noteq> None)"

inductive gw_step :: "gateway \<Rightarrow> gateway \<Rightarrow> bool" where
  connect: "gw_step s (newClientConnection now epollOk fd c s)"
| socket: "gw_socketEvent fd ev s = Some s' \<Longrightarrow> gw_step s s'"
| send: "gw_step (g, m) (g, snd (sendPacket as r p m))"
| login: "gw_step (g, m) (fst (proto_C_Login openid nick ccid g), m)"
| login_ret: "gw_step (g, m) (fst (proto_RetLoginQuest ccid cuid success g), m)"
| replaced: "gw_step (g, m) (proto_ClientBeReplaced ccid g, m)"
| kick: "gw_step (g, m) (kickOutClient ccid delay g, m)"
| tick: "gw_step (g, m) (gw_timerExec g, m)"

inductive gw_reachable :: "processId \<Rightarrow> gateway \<Rightarrow> bool" for pid where
  start: "gw_reachable pid (ClientManager pid, connMgr_init)"
| more_steps: "gw_reachable pid s \<Longrightarrow> gw_step s s' \<Longrightarrow> gw_reachable pid s'"

definition clients_ok :: "(u64, gwClient) ftm \<Rightarrow> (u64 \<times> nat) list \<Rightarrow> bool" where
  "clients_ok cs pub \<longleftrightarrow> ftm_inv cs \<and>
     (\<forall>i c. ftm_find cs i = Some c \<longrightarrow> gc_ccid c = i \<and> map_of pub i \<noteq> None)"

lemma gw_inv_iff:
  "gw_inv (g, m) \<longleftrightarrow> clients_ok (gw_clients g) (publicConns m) \<and> index_ok m
    \<and> pid_num (gw_pid g) \<noteq> 0 \<and> pid_num (gw_pid g) < 256"
  by (auto simp: gw_inv_def clients_ok_def)

lemma clients_ok_erase:
  "clients_ok cs pub \<Longrightarrow> clients_ok (ftm_erase k cs) pub"
  by (auto simp: clients_ok_def ftm.inv_del ftm.lookup_del)

lemma clients_ok_erase_pub:
  "clients_ok cs pub \<Longrightarrow> clients_ok (ftm_erase k cs) (AList.delete k pub)"
  by (auto simp: clients_ok_def ftm.inv_del ftm.lookup_del delete_conv' split: if_splits)

lemma clients_ok_update:
  assumes "clients_ok cs pub" and "gc_ccid c = i"
  shows "clients_ok (cs\<lparr>ft_vec := map (\<lambda>(k, v). (k, if k = i then c else v)) (ft_vec cs)\<rparr>) pub"
proof -
  let ?cs = "cs\<lparr>ft_vec := map (\<lambda>(k, v). (k, if k = i then c else v)) (ft_vec cs)\<rparr>"
  have f: "fst \<circ> (\<lambda>(k, v). (k, if k = i then c else v)) = fst" by auto
  have inv: "ftm_inv cs" using assms(1) by (simp add: clients_ok_def)
  then have "ftm_inv ?cs" by (auto simp: ftm_inv_def f case_prod_beta)
  moreover have "ftm_find ?cs k = (case ftm_find cs k of None \<Rightarrow> None | Some v \<Rightarrow> Some (if k = i then c else v))" for k
  proof (cases "ft_map cs k")
    case (Some j)
    then show ?thesis using ftm_invD [OF inv Some] by (simp add: ftm_find_def ftm_pos_def case_prod_beta)
  qed (simp add: ftm_find_def ftm_pos_def)
  ultimately show ?thesis using assms by (auto simp: clients_ok_def split: option.splits)
qed

lemma clients_ok_kick: "clients_ok (gw_clients g) pub \<Longrightarrow> clients_ok (gw_clients (kickOutClient i d g)) pub"
  by (auto simp: kickOutClient_def eraseLater_def gw_erase_def clients_ok_erase split: option.split)

lemma kick_pid [simp]: "gw_pid (kickOutClient i d g) = gw_pid g"
  by (auto simp: kickOutClient_def eraseLater_def gw_erase_def split: option.split)

text \<open>The events a socket event of the connection manager can raise.\<close>

lemma erase_public:
  "publicConns (eraseConnection fd m) = publicConns m
      \<and> (raised (eraseConnection fd m) = raised m \<or> (\<exists>p. raised (eraseConnection fd m) = raised m @ [AfterErasePrivate p]))
   \<or> (\<exists>i. publicConns (eraseConnection fd m) = AList.delete i (publicConns m)
      \<and> raised (eraseConnection fd m) = raised m @ [AfterErasePublic i])"
  by (auto simp: eraseConnection_def Let_def split: option.split)

lemma erase_public_cong:
  assumes "allConns x = allConns m" and "publicConns x = publicConns m" and "privateConns x = privateConns m"
    and "raised x = raised m" and "\<And>r. h_id (holders x ! r) = h_id (holders m ! r)"
  shows "publicConns (eraseConnection fd x) = publicConns (eraseConnection fd m)
    \<and> raised (eraseConnection fd x) = raised (eraseConnection fd m)"
  using assms by (auto simp: eraseConnection_def Let_def privateOfType_def split: option.split)

lemma handler_public:
  assumes "epollerEventHandler fd ev m = Some m'"
  shows "publicConns m' = publicConns m \<and> raised m' = raised m
    \<or> publicConns m' = publicConns (eraseConnection fd m) \<and> raised m' = raised (eraseConnection fd m)"
proof -
  have close: "publicConns (closeConn r x) = publicConns x" "raised (closeConn r x) = raised x" for r x
    by (simp_all add: closeConn_def setHolder_def)
  have id: "h_id ((holders m)[k := h] ! r) = h_id (holders m ! r)" if "h_id h = h_id (holders m ! k)" for k h r
    using that by (cases "k = r"; cases "k < length (holders m)") (simp_all add: list_update_beyond)
  have e1: "publicConns (eraseConnection fd ((setHolder k h m)\<lparr>recvQueue := q\<rparr>)) = publicConns (eraseConnection fd m)
      \<and> raised (eraseConnection fd ((setHolder k h m)\<lparr>recvQueue := q\<rparr>)) = raised (eraseConnection fd m)"
    and e2: "publicConns (eraseConnection fd ((setHolder k h m)\<lparr>packets := ps\<rparr>)) = publicConns (eraseConnection fd m)
      \<and> raised (eraseConnection fd ((setHolder k h m)\<lparr>packets := ps\<rparr>)) = raised (eraseConnection fd m)"
    if "h_id h = h_id (holders m ! k)" for k h q ps
    using id [OF that] by (intro erase_public_cong; simp add: setHolder_def)+
  have s: "publicConns (setHolder k h m) = publicConns m" "raised (setHolder k h m) = raised m" for k h
    by (simp_all add: setHolder_def)
  show ?thesis
    using assms
    by (auto simp: epollerEventHandler_def modifyWatch_def Let_def close e1 e2 s split: option.splits sockEvent.splits if_splits sum.splits)
qed

lemma offline_ok:
  "clients_ok (gw_clients g) pub \<Longrightarrow>
    clients_ok (gw_clients (clientOffline i g)) (AList.delete i pub) \<and> gw_pid (clientOffline i g) = gw_pid g"
proof (cases "gw_getByCcid i g")
  case None
  moreover assume "clients_ok (gw_clients g) pub"
  ultimately show ?thesis
    by (auto simp: clientOffline_def clients_ok_def gw_getByCcid_def delete_conv' split: if_splits)
next
  case (Some c)
  moreover assume ok: "clients_ok (gw_clients g) pub"
  ultimately have "gc_ccid c = i" by (auto simp: clients_ok_def gw_getByCcid_def)
  then show ?thesis
    using Some clients_ok_erase_pub [OF ok, of i] by (simp add: clientOffline_def gw_erase_def)
qed

lemma gw_inv_socket:
  assumes "gw_inv (g, m)" and "gw_socketEvent fd ev (g, m) = Some s'"
  shows "gw_inv s'"
proof -
  obtain m' where m': "epollerEventHandler fd ev m = Some m'"
    "s' = (offline_events (drop (length (raised m)) (raised m')) g, m')"
    using assms(2) by (auto simp: gw_socketEvent_def split: option.splits)
  have ix: "index_ok m'" using index_ok_handler [OF _ m'(1)] assms(1) by (simp add: gw_inv_iff)
  have ok: "clients_ok (gw_clients g) (publicConns m)" using assms(1) by (simp add: gw_inv_iff)
  from handler_public [OF m'(1)] show ?thesis
  proof
    assume "publicConns m' = publicConns m \<and> raised m' = raised m"
    then show ?thesis using m'(2) ix assms(1) by (simp add: gw_inv_iff)
  next
    assume "publicConns m' = publicConns (eraseConnection fd m) \<and> raised m' = raised (eraseConnection fd m)"
    then show ?thesis
      using erase_public [of fd m] m'(2) ix ok assms(1) offline_ok [OF ok] by (auto simp: gw_inv_iff)
  qed
qed

lemma gw_inv_connect:
  assumes "gw_inv (g, m)"
  shows "gw_inv (newClientConnection now epollOk fd c (g, m))"
proof -
  let ?k = "make_ccid now (pid_num (gw_pid g)) (gw_counter g)"
  let ?cl = "\<lparr>gc_ccid = ?k, gc_cuid = 0, gc_state = Logining\<rparr>"
  have inv: "ftm_inv (gw_clients g)" "clients_ok (gw_clients g) (publicConns m)" "index_ok m"
    and num: "pid_num (gw_pid g) \<noteq> 0" "pid_num (gw_pid g) < 256"
    using assms by (auto simp: gw_inv_iff clients_ok_def)
  have large: "65536 \<le> ?k" by (rule ccid_large [OF num])
  then have nz: "?k \<noteq> 0" by auto
  show ?thesis
  proof (cases "ftm_find (gw_clients g) ?k")
    case (Some v)
    then have "ftm_insert ?k ?cl (gw_clients g) = (gw_clients g, False)" using ftm.ins_old [OF inv(1)] by simp
    then show ?thesis
      using assms by (simp add: newClientConnection_def gw_clientOnline_def createNewClient_def gw_insert_def gw_inv_iff)
  next
    case None
    obtain cs where cs: "ftm_insert ?k ?cl (gw_clients g) = (cs, True)"
      and find: "ftm_find cs = (ftm_find (gw_clients g))(?k \<mapsto> ?cl)"
      using ftm.ins_new [OF inv(1) None, of ?cl] by (metis prod.collapse)
    have ic: "ftm_inv cs" using ftm.inv_ins [OF inv(1), of ?k ?cl] cs by simp
    let ?g = "g\<lparr>gw_counter := gw_counter g + 1, gw_clients := cs\<rparr>"
    have on: "gw_clientOnline now g = (?g, ?k)"
      using cs by (simp add: gw_clientOnline_def createNewClient_def gw_insert_def)
    obtain m' ok where ap: "addPublicConnection epollOk fd c ?k m = (m', ok)" by force
    have ix: "index_ok m'" using index_ok_addPublic [OF inv(3) large, of epollOk fd c] ap by simp
    show ?thesis
    proof (cases ok)
      case True
      then have "\<exists>r. map_of (publicConns m') = (map_of (publicConns m))(?k \<mapsto> r)"
        using ap map_insert_new [of ?k "length (holders m)" "publicConns m"]
        by (auto simp: addPublicConnection_def Let_def split: prod.splits if_splits)
      then have "clients_ok cs (publicConns m')"
        using inv(2) ic find by (auto simp: clients_ok_def)
      then show ?thesis
        using True on ap ix num nz by (simp add: newClientConnection_def gw_inv_iff)
    next
      case False
      then have m: "m' = m" using ap by (auto simp: addPublicConnection_def Let_def split: prod.splits if_splits)
      have "ftm_find (ftm_erase ?k cs) = ftm_find (gw_clients g)"
        using ftm.del_ins [OF inv(1) None, of ?cl] cs by simp
      then have "clients_ok (ftm_erase ?k cs) (publicConns m)"
        using inv(2) ftm.inv_del [OF ic] by (auto simp: clients_ok_def)
      then show ?thesis
        using False on ap m assms nz find
        by (simp add: newClientConnection_def kickOutClient_def gw_getByCcid_def gw_erase_def gw_inv_iff)
    qed
  qed
qed

lemma gw_step_inv: "gw_step s s' \<Longrightarrow> gw_inv s \<Longrightarrow> gw_inv s'"
proof (induction rule: gw_step.induct)
  case (connect s now epollOk fd c)
  then show ?case using gw_inv_connect [of "fst s" "snd s"] by simp
next
  case (socket fd ev s s')
  then show ?case using gw_inv_socket [of "fst s" "snd s"] by simp
next
  case (send g m as r p)
  have "publicConns (snd (sendPacket as r p m)) = publicConns m"
    by (simp add: sendPacket_def queueRest_def modifyWatch_def setHolder_def Let_def split: prod.split sum.split)
  then show ?case using send index_ok_sendPacket by (simp add: gw_inv_iff)
next
  case (login g m openid nick ccid)
  then show ?case by (simp add: proto_C_Login_def gw_inv_iff split: option.split)
next
  case (login_ret g m ccid cuid success)
  show ?case
  proof (cases "gw_getByCcid ccid g")
    case None
    then show ?thesis using login_ret by (simp add: proto_RetLoginQuest_def)
  next
    case (Some c)
    let ?c = "c\<lparr>gc_cuid := cuid, gc_state := GwPlaying\<rparr>"
    have "gc_ccid ?c = ccid" using login_ret Some by (auto simp: gw_inv_def gw_getByCcid_def)
    then have "clients_ok ((gw_clients g)\<lparr>ft_vec := map (\<lambda>(k, v). (k, if k = ccid then ?c else v)) (ft_vec (gw_clients g))\<rparr>) (publicConns m)"
      using login_ret by (intro clients_ok_update) (simp_all add: gw_inv_iff)
    then show ?thesis
      using Some login_ret clients_ok_erase
      by (auto simp: proto_RetLoginQuest_def gw_inv_iff eraseLater_def gw_erase_def Let_def)
  qed
next
  case (replaced g m ccid)
  then show ?case using clients_ok_kick by (simp add: proto_ClientBeReplaced_def gw_inv_iff split: option.split)
next
  case (kick g m ccid delay)
  then show ?case using clients_ok_kick by (simp add: gw_inv_iff)
next
  case (tick g m)
  then show ?case by (simp add: gw_timerExec_def gw_inv_iff)
qed

lemma gw_reachable_inv:
  "gw_reachable pid s \<Longrightarrow> pid_num pid \<noteq> 0 \<Longrightarrow> pid_num pid < 256 \<Longrightarrow> gw_inv s"
proof (induction rule: gw_reachable.induct)
  case start
  then show ?case
    by (simp add: gw_inv_def ClientManager_def index_ok_init ftm_find_def ftm_pos_def ftm_empty_def ftm_inv_def)
next
  case (more_steps s s')
  then show ?case using gw_step_inv by blast
qed

text \<open>C13: In every state the gateway can reach, a client that is registered has a live
  connection: its identity is registered in the connection manager, and the connection
  there bears this identity and is found by its socket. So a client is never left behind
  when its connection goes, whether it is lost, refused by the connection manager or closed
  after an error.\<close>

theorem sessions_have_connections:
  assumes "gw_reachable pid (g, m)" and "pid_num pid \<noteq> 0" and "pid_num pid < 256"
    and "gw_getByCcid ccid g = Some c"
  shows "gc_ccid c = ccid \<and> 65536 \<le> ccid
    \<and> (\<exists>r < length (holders m). map_of (publicConns m) ccid = Some r \<and> \<not> h_private (holders m ! r)
        \<and> h_id (holders m ! r) = ccid \<and> map_of (allConns m) (h_fd (holders m ! r)) = Some r)"
proof -
  have inv: "gw_inv (g, m)" using assms(1-3) by (rule gw_reachable_inv)
  then obtain r where r: "gc_ccid c = ccid" "map_of (publicConns m) ccid = Some r"
    using assms(4) by (force simp: gw_inv_def gw_getByCcid_def)
  have "links (map_of (allConns m)) (map_of (publicConns m)) (private_at m) (hview m)"
    using inv by (simp add: gw_inv_iff index_ok_def)
  from links_pub [OF this r(2)] show ?thesis using r by (auto simp: hview_def split: if_splits)
qed

theorem sessions_have_connections_witness:
  "65536 \<le> make_ccid 1500000000 1 1"
proof -
  let ?pid = "\<lparr>pid_type = 1, pid_num = 1\<rparr>"
  let ?s = "newClientConnection 1500000000 True 5 bufConn_new (ClientManager ?pid, connMgr_init)"
  have "gw_reachable ?pid ?s" by (rule gw_reachable.more_steps [OF gw_reachable.start gw_step.connect])
  moreover have "gw_getByCcid (make_ccid 1500000000 1 1) (fst ?s)
    = Some \<lparr>gc_ccid = make_ccid 1500000000 1 1, gc_cuid = 0, gc_state = Logining\<rparr>"
    by (simp add: newClientConnection_def gw_clientOnline_def createNewClient_def gw_insert_def ClientManager_def
        ftm_insert_def ftm_empty_def addPublicConnection_def connMgr_init_def map_insert_def gw_getByCcid_def
        ftm_find_def ftm_pos_def make_ccid_def)
  ultimately show ?thesis using sessions_have_connections [of ?pid "fst ?s" "snd ?s"] by fastforce
qed

text \<open>The other way round it does not hold: who is kicked out or replaced loses the client
  record but not the connection, which goes on delivering messages.\<close>

lemma kicked_keeps_connection:
  assumes "gw_inv (g, m)" and "gw_getByCcid ccid g = Some c"
  shows "gw_getByCcid ccid (kickOutClient ccid delay g) = None \<and> map_of (publicConns m) ccid \<noteq> None"
proof -
  have ok: "clients_ok (gw_clients g) (publicConns m)" using assms(1) by (simp add: gw_inv_iff)
  then have c: "gc_ccid c = ccid" "ftm_inv (gw_clients g)" and pub: "map_of (publicConns m) ccid \<noteq> None"
    using assms(2) unfolding clients_ok_def gw_getByCcid_def by blast+
  have "gw_getByCcid ccid (kickOutClient ccid delay g) = ftm_find (ftm_erase ccid (gw_clients g)) ccid"
    using assms(2) c(1) by (simp add: kickOutClient_def eraseLater_def gw_erase_def gw_getByCcid_def)
  then show ?thesis using pub ftm.lookup_del [OF c(2), of ccid] by simp
qed

end
