(* ===== verification/GatewayLoop.thy ===== *)
theory GatewayLoop
  imports ProcessLoop GatewayClients
begin

text \<open>
  The messages of the gateway: the table of handlers that
  \<^verbatim>\<open>processes/gateway/register_client_msg_relay.cpp\<close> and \<open>ClientManager::regMsgHandler\<close> fill, what
  each of them does with a message, and \<open>Gateway::tcpPacketHandle\<close> as the handler of the
  process loop. The codes of the messages are generated from the \<^verbatim>\<open>.proto\<close> files, and the
  protobuf library reads and writes the messages: both are the record \<open>gwEnv\<close>.
\<close>

section \<open>The environment\<close>

datatype protoName =
    codeC_Login | codeC_SendChat | codeC_G13_CreateGame | codeC_G13_JionGame | codeC_G13_GiveUp
  | codeC_G13_VoteFoAbortGame | codeC_G13_ReadyFlag | codeC_G13_BringOut
  | codeS_LoginRet | codeS_Chat | codeS_Notice | codeS_G13_RoomAttr | codeS_G13_AbortGameOrNot
  | codeS_G13_PlayerQuited | codeS_G13_PlayersInRoom | codeS_G13_HandOfMine | codeS_G13_AllHands
  | codeLoginQuest | codeRetLoginQuest | codeClientBeReplaced

text \<open>
  \<open>ge_again\<close>: the bytes of a message that was read from the given bytes, if it can be
  written. The fields of the messages the gateway looks into follow.
\<close>

record gwEnv =
  ge_code :: "protoName \<Rightarrow> u32"
  ge_known :: "u32 \<Rightarrow> bool"
  ge_again :: "u32 \<Rightarrow> bytes \<Rightarrow> bytes option"
  ge_login :: "bytes \<Rightarrow> string \<times> string"
  ge_ret :: "bytes \<Rightarrow> u64 \<times> u64 \<times> bool"
  ge_replaced :: "bytes \<Rightarrow> u64"
  ge_write :: "gwOut \<Rightarrow> bytes option"
  ge_names :: "string \<rightharpoonup> u32"
  ge_answers :: "nat \<Rightarrow> sendAns list"
  ge_junk :: u64

section \<open>The table\<close>

datatype gwHandler = RelayToServer processId u32 | RelayToClient u32 | OnLogin | OnRetLogin | OnReplaced

definition lobbyPid :: "gwEnv \<Rightarrow> processId" where
  "lobbyPid E = ProcessId_name (ge_names E) ''lobby'' 1"

definition msgs_to_lobby :: "protoName list" where
  "msgs_to_lobby = [codeC_SendChat, codeC_G13_CreateGame, codeC_G13_JionGame, codeC_G13_GiveUp,
     codeC_G13_VoteFoAbortGame, codeC_G13_ReadyFlag, codeC_G13_BringOut]"

definition msgs_to_client :: "protoName list" where
  "msgs_to_client = [codeS_Chat, codeS_Notice, codeS_G13_RoomAttr, codeS_G13_AbortGameOrNot,
     codeS_G13_PlayerQuited, codeS_G13_PlayersInRoom, codeS_G13_HandOfMine, codeS_G13_AllHands]"

definition regClientMsgRelay :: "gwEnv \<Rightarrow> (u32 \<rightharpoonup> gwHandler) \<Rightarrow> (u32 \<rightharpoonup> gwHandler)" where
  "regClientMsgRelay E hs =
     fold (\<lambda>n. regHandler (ge_code E n) (RelayToClient (ge_code E n))) msgs_to_client
       (fold (\<lambda>n. regHandler (ge_code E n) (RelayToServer (lobbyPid E) (ge_code E n))) msgs_to_lobby hs)"

definition regMsgHandler :: "gwEnv \<Rightarrow> (u32 \<rightharpoonup> gwHandler) \<Rightarrow> (u32 \<rightharpoonup> gwHandler)" where
  "regMsgHandler E hs =
     regHandler (ge_code E codeClientBeReplaced) OnReplaced
       (regHandler (ge_code E codeRetLoginQuest) OnRetLogin
         (regHandler (ge_code E codeC_Login) OnLogin hs))"

definition gw_table :: "gwEnv \<Rightarrow> (u32 \<rightharpoonup> gwHandler)" where
  "gw_table E = regMsgHandler E (regClientMsgRelay E Map.empty)"

section \<open>The handlers\<close>

definition relayClientMsgToServer :: "gwEnv \<Rightarrow> processId \<Rightarrow> u32 \<Rightarrow> bytes \<Rightarrow> u64 \<Rightarrow> connMgr \<Rightarrow> connMgr outcome" where
  "relayClientMsgToServer E pid c body ccid m =
     obind (gateway_relayToPrivate (ge_answers E) (ge_names E) (ge_junk E) ccid pid c (ge_again E c body) m)
       (\<lambda>(m, ok). Inr m)"

definition relayClientMsgToClient :: "gwEnv \<Rightarrow> u32 \<Rightarrow> bytes \<Rightarrow> u64 \<Rightarrow> connMgr \<Rightarrow> connMgr outcome" where
  "relayClientMsgToClient E c body ccid m =
     obind (sendToClient (ge_answers E) ccid c (ge_again E c body) m) (\<lambda>(m, ok). Inr m)"

text \<open>What the login handlers send.\<close>

fun send_out :: "gwEnv \<Rightarrow> processId \<Rightarrow> gwOut list \<Rightarrow> connMgr \<Rightarrow> connMgr outcome" where
  "send_out E me [] m = Inr m"
| "send_out E me (LoginQuest openid ccid nick # os) m =
     obind (gateway_sendToPrivate (ge_answers E) (ge_names E) (ge_junk E) me (ProcessId_name (ge_names E) ''lobby'' 1)
       (ge_code E codeLoginQuest) (ge_write E (LoginQuest openid ccid nick)) m) (\<lambda>(m, ok). send_out E me os m)"
| "send_out E me (LoginRet ccid cuid # os) m =
     obind (sendToClient (ge_answers E) ccid (ge_code E codeS_LoginRet) (ge_write E (LoginRet ccid cuid)) m)
       (\<lambda>(m, ok). send_out E me os m)"

fun run_handler :: "gwEnv \<Rightarrow> gwHandler \<Rightarrow> bytes \<Rightarrow> u64 \<Rightarrow> gateway \<Rightarrow> gateway outcome" where
  "run_handler E (RelayToServer pid c) body ccid (g, m) = obind (relayClientMsgToServer E pid c body ccid m) (\<lambda>m. Inr (g, m))"
| "run_handler E (RelayToClient c) body ccid (g, m) = obind (relayClientMsgToClient E c body ccid m) (\<lambda>m. Inr (g, m))"
| "run_handler E OnLogin body ccid (g, m) =
     (let (openid, nick) = ge_login E body; (g, os) = proto_C_Login openid nick ccid g
      in obind (send_out E (gw_pid g) os m) (\<lambda>m. Inr (g, m)))"
| "run_handler E OnRetLogin body ccid (g, m) =
     (let (ccid, cuid, success) = ge_ret E body; (g, os) = proto_RetLoginQuest ccid cuid success g
      in obind (send_out E (gw_pid g) os m) (\<lambda>m. Inr (g, m)))"
| "run_handler E OnReplaced body ccid (g, m) = Inr (proto_ClientBeReplaced (ge_replaced E body) g, m)"

text \<open>No raw message has a handler in the gateway.\<close>

definition gateway_handle :: "gwEnv \<Rightarrow> packet \<Rightarrow> nat \<Rightarrow> gateway \<Rightarrow> gateway outcome" where
  "gateway_handle E pk r s =
     obind (gateway_tcpPacketHandle (ge_known E) (Map.empty :: u32 \<rightharpoonup> gwHandler) (gw_table E) pk (h_id (holders (snd s) ! r)))
       (\<lambda>d. case d of
          ProtoMsg (Handled c body sender) \<Rightarrow>
            (case gw_table E c of None \<Rightarrow> Inr s | Some h \<Rightarrow> run_handler E h body sender s)
        | _ \<Rightarrow> Inr s)"

section \<open>The gateway meets the contract of the loop\<close>

definition same_queue :: "connMgr \<Rightarrow> connMgr \<Rightarrow> bool" where
  "same_queue m m' \<longleftrightarrow> recvQueue m' = recvQueue m \<and> map h_id (holders m') = map h_id (holders m)"

lemma same_queue_refl [simp]: "same_queue m m"
  by (simp add: same_queue_def)

lemma same_queue_trans: "same_queue m m' \<Longrightarrow> same_queue m' m'' \<Longrightarrow> same_queue m m''"
  by (simp add: same_queue_def)

lemma toRouter_keeps: "same_queue m (fst (toRouter as n2t pk m))"
  using to_private_keeps by (simp add: same_queue_def toRouter_def allocPacket_def)

lemma toClient_keeps: "same_queue m (fst (toClient as ccid pk m))"
  using to_public_keeps by (simp add: same_queue_def toClient_def allocPacket_def)

lemma relayToPrivate_keeps:
  "gateway_relayToPrivate as n2t junk src pid c ser m = Inr (m', ok) \<Longrightarrow> same_queue m m'"
  using toRouter_keeps by (auto simp: gateway_relayToPrivate_def split: option.splits dest!: arg_cong [of _ _ fst])

lemma sendToClient_keeps:
  "sendToClient as ccid c ser m = Inr (m', ok) \<Longrightarrow> same_queue m m'"
  using toClient_keeps by (auto simp: sendToClient_def split: option.splits dest!: arg_cong [of _ _ fst])

lemma send_out_keeps: "send_out E me os m = Inr m' \<Longrightarrow> same_queue m m'"
proof (induction os arbitrary: m)
  case (Cons x os)
  show ?case
  proof (cases x)
    case (LoginQuest openid ccid nick)
    then obtain m1 ok where "gateway_relayToPrivate (ge_answers E) (ge_names E) (ge_junk E) (ucast (pid_value me))
        (ProcessId_name (ge_names E) ''lobby'' 1) (ge_code E codeLoginQuest) (ge_write E x) m = Inr (m1, ok)"
      and "send_out E me os m1 = Inr m'"
      using Cons.prems by (auto simp: gateway_sendToPrivate_def)
    then show ?thesis using same_queue_trans [OF relayToPrivate_keeps Cons.IH] by blast
  next
    case (LoginRet ccid cuid)
    then obtain m1 ok where "sendToClient (ge_answers E) ccid (ge_code E codeS_LoginRet) (ge_write E x) m = Inr (m1, ok)"
      and "send_out E me os m1 = Inr m'"
      using Cons.prems by auto
    then show ?thesis using same_queue_trans [OF sendToClient_keeps Cons.IH] by blast
  qed
qed simp

lemma run_handler_keeps:
  assumes "run_handler E h body ccid (g, m) = Inr (g', m')"
  shows "same_queue m m'"
proof (cases h)
  case (RelayToServer pid c)
  then obtain ok where "gateway_relayToPrivate (ge_answers E) (ge_names E) (ge_junk E) ccid pid c (ge_again E c body) m = Inr (m', ok)"
    using assms by (auto simp: relayClientMsgToServer_def)
  then show ?thesis by (rule relayToPrivate_keeps)
next
  case (RelayToClient c)
  then obtain ok where "sendToClient (ge_answers E) ccid c (ge_again E c body) m = Inr (m', ok)"
    using assms by (auto simp: relayClientMsgToClient_def)
  then show ?thesis by (rule sendToClient_keeps)
next
  case OnLogin
  then obtain me os where "send_out E me os m = Inr m'"
    using assms by (auto split: prod.splits)
  then show ?thesis by (rule send_out_keeps)
next
  case OnRetLogin
  then obtain me os where "send_out E me os m = Inr m'"
    using assms by (auto split: prod.splits)
  then show ?thesis by (rule send_out_keeps)
next
  case OnReplaced
  then show ?thesis using assms by simp
qed

lemma gateway_handle_cases:
  assumes "gateway_handle E pk r s = Inr s'"
  obtains "s' = s" | h body sender where "run_handler E h body sender s = Inr s'"
proof -
  obtain d where d: "(case d of
          ProtoMsg (Handled c body sender) \<Rightarrow>
            (case gw_table E c of None \<Rightarrow> Inr s | Some h \<Rightarrow> run_handler E h body sender s)
        | _ \<Rightarrow> Inr s) = Inr s'"
    using assms by (auto simp: gateway_handle_def)
  show thesis
  proof (cases "\<exists>c body sender. d = ProtoMsg (Handled c body sender) \<and> gw_table E c \<noteq> None")
    case True
    then obtain c body sender h where "d = ProtoMsg (Handled c body sender)" "gw_table E c = Some h" by auto
    with d that(2) [of h body sender] show thesis by simp
  next
    case False
    with d have "s' = s" by (cases d) (auto split: dispatch.splits option.splits)
    then show thesis by (rule that(1))
  qed
qed

interpretation gateway: packet_handler "gateway_handle E" for E
proof unfold_locales
  fix pk r s s'
  assume h: "gateway_handle E pk r s = Inr s'"
  have "same_queue (snd s) (snd s')"
    using h by (cases rule: gateway_handle_cases) (metis same_queue_refl, metis prod.collapse run_handler_keeps)
  then show "recvQueue (snd s') = recvQueue (snd s)" "map h_id (holders (snd s')) = map h_id (holders (snd s))"
    by (simp_all add: same_queue_def)
qed

section \<open>From the client's stream to the router\<close>

definition client_content :: "gwEnv \<Rightarrow> protoName \<times> bytes \<Rightarrow> bytes" where
  "client_content E nb = le32 (ge_code E (fst nb)) @ snd nb"

definition relay_content :: "gwEnv \<Rightarrow> u64 \<Rightarrow> protoName \<times> bytes \<Rightarrow> bytes" where
  "relay_content E ccid nb =
     envelopeContent (ge_junk E) ccid (lobbyPid E) (ge_code E (fst nb)) (the (ge_again E (ge_code E (fst nb)) (snd nb)))"

definition relayed :: "gwEnv \<Rightarrow> u64 \<Rightarrow> protoName \<times> bytes \<Rightarrow> connMgr \<Rightarrow> connMgr" where
  "relayed E ccid nb m = fst (toRouter (ge_answers E) (ge_names E) (frame (relay_content E ccid nb)) m)"

text \<open>A message a client may send to the lobby, and which can be written again.\<close>

definition relayable :: "gwEnv \<Rightarrow> u64 \<Rightarrow> protoName \<times> bytes \<Rightarrow> bool" where
  "relayable E ccid nb \<longleftrightarrow> fst nb \<in> set msgs_to_lobby \<and> isProtobufMsgCode (ge_code E (fst nb))
     \<and> isPublicMsgCode (ge_code E (fst nb)) \<and> ge_known E (ge_code E (fst nb)) \<and> framable (client_content E nb)
     \<and> ge_again E (ge_code E (fst nb)) (snd nb) \<noteq> None \<and> framable (relay_content E ccid nb)"

lemma table_to_lobby:
  assumes "inj (ge_code E)" and "n \<in> set msgs_to_lobby"
  shows "gw_table E (ge_code E n) = Some (RelayToServer (lobbyPid E) (ge_code E n))"
  using assms(2)
  by (auto simp: gw_table_def regMsgHandler_def regClientMsgRelay_def regHandler_def msgs_to_lobby_def
      msgs_to_client_def inj_eq [OF assms(1)])

lemma handle_client_message:
  assumes "inj (ge_code E)" and "relayable E ccid nb" and "h_id (holders m ! r) = ccid"
  shows "gateway_handle E (frame (client_content E nb)) r (g, m) = Inr (g, relayed E ccid nb m)"
proof -
  let ?c = "ge_code E (fst nb)" and ?pk = "frame (client_content E nb)"
  obtain b where b: "ge_again E ?c (snd nb) = Some b" using assms(2) by (auto simp: relayable_def)
  have t: "gw_table E ?c = Some (RelayToServer (lobbyPid E) ?c)"
    using table_to_lobby [OF assms(1)] assms(2) by (simp add: relayable_def)
  have len: "tcp_contentSize ?pk = length (client_content E nb)"
    using assms(2) contentSize_frame by (simp add: relayable_def)
  have cls: "isProtobufMsgCode ?c" "\<not> isRawMsgCode ?c" "\<not> isEnvelopeMsgCode ?c"
    using assms(2) code_classes_disjoint [of ?c] by (auto simp: relayable_def)
  have r: "read32 (client_content E nb) = Inr ?c" by (simp add: client_content_def)
  have "gateway_tcpPacketHandle (ge_known E) (Map.empty :: u32 \<rightharpoonup> gwHandler) (gw_table E) ?pk ccid
    = Inr (ProtoMsg (Handled ?c (snd nb) ccid))"
    using cls assms(2) t
    by (simp add: gateway_tcpPacketHandle_def by_protocol_def proto_dealTcpMsg_def open_message_def to_handler_def
        len r relayable_def tcpMsg_size_def) (simp add: client_content_def)
  moreover have "packet_with (relay_content E ccid nb) = Inr (frame (relay_content E ccid nb))"
    using packet_with_frame assms(2) by (simp add: relayable_def)
  ultimately show ?thesis
    using t b assms(3) by (simp add: gateway_handle_def relayClientMsgToServer_def gateway_relayToPrivate_def
        relayed_def relay_content_def case_prod_beta)
qed

text \<open>Relaying and the receive queue do not meet.\<close>

lemma relayed_queue: "relayed E ccid nb (m\<lparr>recvQueue := q\<rparr>) = (relayed E ccid nb m)\<lparr>recvQueue := q\<rparr>"
proof -
  have f: "(m\<lparr>recvQueue := q\<rparr>)\<lparr>packets := ps\<rparr> = (m\<lparr>packets := ps\<rparr>)\<lparr>recvQueue := q\<rparr>" for ps by simp
  show ?thesis
    unfolding relayed_def toRouter_def allocPacket_def sendPacketToPrivate_def no_throw_def
    by (simp add: f sendPacket_queue Let_def split: option.split prod.split)
qed

lemma relay_all_queue:
  "fold (relayed E ccid) ms (m\<lparr>recvQueue := q\<rparr>) = (fold (relayed E ccid) ms m)\<lparr>recvQueue := q\<rparr>"
  by (induction ms arbitrary: m) (simp_all add: relayed_queue)

lemma relayed_keeps: "same_queue m (relayed E ccid nb m)"
  unfolding relayed_def by (rule toRouter_keeps)

lemma map_nth_eq: "map f xs = map f ys \<Longrightarrow> r < length ys \<Longrightarrow> r < length xs \<and> f (xs ! r) = f (ys ! r)"
  by (metis length_map nth_map)

lemma deal_client_messages:
  assumes "inj (ge_code E)" and "\<forall>nb \<in> set ms. relayable E ccid nb"
    and "r < length (holders m)" and "h_id (holders m ! r) = ccid"
    and "recvQueue m = map (\<lambda>nb. (r, frame (client_content E nb))) ms"
  shows "deal_all (gateway_handle E) (recvQueue m) (g, m) = Inr (g, (fold (relayed E ccid) ms m)\<lparr>recvQueue := []\<rparr>)"
  using assms(2-)
proof (induction ms arbitrary: m)
  case Nil
  then show ?case by simp
next
  case (Cons nb ms)
  let ?q = "map (\<lambda>nb. (r, frame (client_content E nb))) ms"
  let ?m = "relayed E ccid nb (m\<lparr>recvQueue := ?q\<rparr>)"
  have k: "recvQueue ?m = ?q" "map h_id (holders ?m) = map h_id (holders m)"
    using relayed_keeps [of "m\<lparr>recvQueue := ?q\<rparr>"] by (simp_all add: same_queue_def)
  then have ids: "r < length (holders ?m)" "h_id (holders ?m ! r) = ccid"
    using map_nth_eq [OF k(2) Cons.prems(2)] Cons.prems(3) by simp_all
  have step: "gateway_handle E (frame (client_content E nb)) r (g, m\<lparr>recvQueue := ?q\<rparr>) = Inr (g, ?m)"
    using Cons.prems(1,3) by (intro handle_client_message [OF assms(1)]) simp_all
  have "deal_all (gateway_handle E) (recvQueue m) (g, m) = deal_all (gateway_handle E) (recvQueue ?m) (g, ?m)"
    unfolding k(1) Cons.prems(4) list.map deal_all.simps fst_conv snd_conv step obind.simps by (rule refl)
  also have "\<dots> = Inr (g, (fold (relayed E ccid) ms ?m)\<lparr>recvQueue := []\<rparr>)"
    using Cons.IH [OF _ ids k(1)] Cons.prems(1) by simp
  also have "fold (relayed E ccid) ms ?m = (fold (relayed E ccid) ms (relayed E ccid nb m))\<lparr>recvQueue := ?q\<rparr>"
    by (simp add: relayed_queue relay_all_queue)
  finally show ?case by simp
qed

text \<open>C2: What a client sends reaches the router. The socket of a client delivers, in any pieces, the
  stream of frames of messages meant for the lobby; the read event cuts it into packets, and the
  process loop, which ends, gives each packet to the handler of its code, which sends it on
  to the router under the identity of the connection: once, in order, and nothing else. What
  was not relayed is the rest of the stream: the beginning of a message in the packet and the buffer of the
  connection, and what the socket was not asked for. The connection may even break in the same event.\<close>

theorem client_messages_reach_router:
  assumes "inj (ge_code E)" and "\<forall>nb \<in> set ms. relayable E ccid nb"
    and "map_of (allConns m) fd = Some r" and "r < length (holders m)" and "holders m ! r = h" and "h_id h = ccid"
    and "conn_ok (h_conn h)" and "\<not> tcp_complete (h_recvPacket h)"
    and "recvQueue m = []" and "length ms \<le> recvQueue_max"
    and "h_recvPacket h @ readable (rcvBuf (h_conn h)) @ incoming as @ future = stream (map (client_content E) ms)"
  shows "\<exists>m1 k rest h1. epollerEventHandler fd (EvRead as) m = Some m1 \<and> k \<le> length ms
    \<and> dealTcpPackets (gateway_handle E) (g, m1)
        = Some (Inr (g, (fold (relayed E ccid) (take k ms) m1)\<lparr>recvQueue := []\<rparr>))
    \<and> holders m1 ! r = h1 \<and> \<not> tcp_complete (h_recvPacket h1)
    \<and> h_recvPacket h1 @ readable (rcvBuf (h_conn h1)) @ rest @ future
        = stream (map (client_content E) (drop k ms))
    \<and> (map_of (allConns m1) fd \<noteq> None \<longrightarrow>
        readable (rcvBuf (h_conn h1)) = [] \<or> length (h_recvPacket h1) + length (readable (rcvBuf (h_conn h1))) < 4)"
proof -
  have fr: "\<forall>c \<in> set (map (client_content E) ms). framable c" using assms(2) by (auto simp: relayable_def)
  obtain res as' pk' c' cs1 cs2 where rl: "readLoop as r (h_recvPacket h) (h_conn h) [] = Some (res, as', pk', c', delivered r cs1)"
    and cs: "map (client_content E) ms = cs1 @ cs2" and pk': "\<not> tcp_complete pk'"
    and und: "undelivered res as' pk' c' @ future = stream cs2"
    and used: "res = None \<longrightarrow> readable (rcvBuf c') = [] \<or> length pk' + length (readable (rcvBuf c')) < 4"
    using readLoop_stream [OF assms(7,8) fr assms(11), of "[]" r] assms(10) by auto
  let ?k = "length cs1"
  have k: "cs1 = map (client_content E) (take ?k ms)" "cs2 = map (client_content E) (drop ?k ms)" "?k \<le> length ms"
    using arg_cong [OF cs, of "take ?k"] arg_cong [OF cs, of "drop ?k"] arg_cong [OF cs, of length]
    by (simp_all add: take_map drop_map)
  let ?m = "(setHolder r (h\<lparr>h_recvPacket := pk', h_conn := c'\<rparr>) m)\<lparr>recvQueue := delivered r cs1\<rparr>"
  let ?m1 = "if res = None then ?m else closeConn r (eraseConnection fd ?m)"
  have ev: "epollerEventHandler fd (EvRead as) m = Some ?m1"
    using assms(3,5,9) rl by (simp add: epollerEventHandler_def recvQueue_max_def Let_def)
  have eq: "recvQueue (eraseConnection fd x) = recvQueue x" for x
    by (simp add: eraseConnection_def Let_def split: option.split)
  have q: "recvQueue ?m1 = map (\<lambda>nb. (r, frame (client_content E nb))) (take ?k ms)"
    using arg_cong [OF k(1), of "map (\<lambda>c. (r, frame c))"]
    by (simp add: closeConn_def setHolder_def eq delivered_def comp_def)
  have hr: "r < length (holders ?m1)" "h_id (holders ?m1 ! r) = ccid" "h_recvPacket (holders ?m1 ! r) = pk'"
    "h_conn (holders ?m1 ! r) = c'"
    using assms(4-6) by (simp_all add: closeConn_def setHolder_def)
  have "\<forall>nb \<in> set (take ?k ms). relayable E ccid nb" using assms(2) by (meson in_set_takeD)
  from deal_client_messages [OF assms(1) this hr(1,2) q, of g]
  have d: "dealTcpPackets (gateway_handle E) (g, ?m1)
    = Some (Inr (g, (fold (relayed E ccid) (take ?k ms) ?m1)\<lparr>recvQueue := []\<rparr>))"
    using gateway.loop_returns [of E "(g, ?m1)"] by simp
  have gone: "map_of (allConns ?m1) fd \<noteq> None \<Longrightarrow> res = None"
    by (auto simp: closeConn_def setHolder_def eraseConnection_def Let_def delete_conv' split: option.splits if_splits)
  show ?thesis
    using ev k(3) d hr(3,4) pk' und k(2) used gone
    by (intro exI [of _ ?m1] exI [of _ ?k] exI [of _ "if res = None then incoming as' else []"] exI [of _ "holders ?m1 ! r"])
      (simp only: undelivered_def append_assoc simp_thms, blast)
qed

text \<open>A gateway with one client, who asks for a round and gets ready, in three pieces.\<close>

definition wcode :: "protoName \<Rightarrow> u32" where
  "wcode n = (case n of codeC_Login \<Rightarrow> 1 | codeC_SendChat \<Rightarrow> 2 | codeC_G13_CreateGame \<Rightarrow> 3 | codeC_G13_JionGame \<Rightarrow> 4
     | codeC_G13_GiveUp \<Rightarrow> 5 | codeC_G13_VoteFoAbortGame \<Rightarrow> 6 | codeC_G13_ReadyFlag \<Rightarrow> 7 | codeC_G13_BringOut \<Rightarrow> 8
     | codeS_LoginRet \<Rightarrow> 9 | codeS_Chat \<Rightarrow> 10 | codeS_Notice \<Rightarrow> 11 | codeS_G13_RoomAttr \<Rightarrow> 12 | codeS_G13_AbortGameOrNot \<Rightarrow> 13
     | codeS_G13_PlayerQuited \<Rightarrow> 14 | codeS_G13_PlayersInRoom \<Rightarrow> 15 | codeS_G13_HandOfMine \<Rightarrow> 16 | codeS_G13_AllHands \<Rightarrow> 17
     | codeLoginQuest \<Rightarrow> 18 | codeRetLoginQuest \<Rightarrow> 19 | codeClientBeReplaced \<Rightarrow> 20)"

definition wenv :: gwEnv where
  "wenv = \<lparr>ge_code = wcode, ge_known = (\<lambda>c. c < 21), ge_again = (\<lambda>c b. Some b), ge_login = (\<lambda>b. ([], [])),
     ge_ret = (\<lambda>b. (0, 0, True)), ge_replaced = (\<lambda>b. 0), ge_write = (\<lambda>x. Some []), ge_names = [''lobby'' \<mapsto> 2, ''router'' \<mapsto> 1],
     ge_answers = (\<lambda>r. []), ge_junk = 0\<rparr>"

definition wmgr :: connMgr where
  "wmgr = fst (addPublicConnection True 5 bufConn_new 77 connMgr_init)"

definition wstream :: bytes where
  "wstream = [6, 0, 0, 0, 4, 0, 0, 0, 65, 66, 4, 0, 0, 0, 7, 0, 0, 0]"

theorem client_messages_reach_router_witness:
  "\<exists>m1 k. epollerEventHandler 5 (EvRead [RBytes (take 7 wstream), RBytes (drop 7 wstream)]) wmgr = Some m1
    \<and> dealTcpPackets (gateway_handle wenv) (ClientManager \<lparr>pid_type = 3, pid_num = 1\<rparr>, m1)
      = Some (Inr (ClientManager \<lparr>pid_type = 3, pid_num = 1\<rparr>,
          (fold (relayed wenv 77) (take k [(codeC_G13_JionGame, [65, 66]), (codeC_G13_ReadyFlag, [])]) m1)\<lparr>recvQueue := []\<rparr>))"
proof -
  let ?ms = "[(codeC_G13_JionGame, [65, 66]), (codeC_G13_ReadyFlag, [])] :: (protoName \<times> bytes) list"
  let ?as = "[RBytes (take 7 wstream), RBytes (drop 7 wstream)]"
  have inj: "inj (ge_code wenv)"
    by (rule injI) (simp add: wenv_def wcode_def split: protoName.splits)
  have rel: "\<forall>nb \<in> set ?ms. relayable wenv 77 nb"
    by (simp add: relayable_def msgs_to_lobby_def wenv_def wcode_def isProtobufMsgCode_def isPublicMsgCode_def code_masks
        framable_def client_content_def relay_content_def envelopeContent_def envelope_size_def u32_mod_def)
  have mgr: "map_of (allConns wmgr) 5 = Some 0" "holders wmgr ! 0 = newHolder False 77 5 bufConn_new"
    "0 < length (holders wmgr)" "recvQueue wmgr = []"
    by (simp_all add: wmgr_def addPublicConnection_def connMgr_init_def map_insert_def)
  have c: "conn_ok bufConn_new" by (simp add: conn_ok_def bufConn_new_def)
  have st: "[] @ readable (rcvBuf bufConn_new) @ incoming ?as @ [] = stream (map (client_content wenv) ?ms)"
    by (simp add: bufConn_new_def frame_def le32_def client_content_def wenv_def wcode_def wstream_def)
  show ?thesis
    using client_messages_reach_router [OF inj rel mgr(1,3,2) _ _ _ mgr(4), of ?as "[]" "ClientManager \<lparr>pid_type = 3, pid_num = 1\<rparr>"]
      c st by (auto simp: newHolder_def recvQueue_max_def)
qed

end
