(* ===== verification/FlashSandbox.thy ===== *)
theory FlashSandbox
  imports ConnReceive
begin

text \<open>
  \<open>FlashSandboxHandler\<close> of \<^verbatim>\<open>base/flash_sanbox_handler.cpp\<close>, which is to answer the policy
  request of Flash players. What the sockets answer, each for itself, is part of the state.
\<close>

section \<open>State\<close>

datatype flashState = Recving | Sending | Waitclose

record flashConn =
  fc_state :: flashState
  fc_tp :: int
  fc_conn :: bufConn
  fc_in :: "recvAns list"
  fc_out :: "sendAns list"

definition addFlashSandboxConn :: "int \<Rightarrow> bufConn \<Rightarrow> recvAns list \<Rightarrow> sendAns list \<Rightarrow> flashConn list \<Rightarrow> flashConn list" where
  "addFlashSandboxConn now c ins outs conns =
     conns @ [\<lparr>fc_state = Recving, fc_tp = now, fc_conn = c, fc_in = ins, fc_out = outs\<rparr>]"

section \<open>One visit of a connection\<close>

definition revText :: bytes where
  \<open>revText = map of_char ''<policy-file-request/>''\<close>

definition sendText :: bytes where
  \<open>sendText = map of_char
     ''<cross-domain-policy> <allow-access-from domain="*" to-ports="*"/> </cross-domain-policy>''\<close>

text \<open>
  The arrays include what ends them: one zero byte in the first, two in the second. Comparing
  a string with an array compares it with the characters before the first zero.
\<close>

definition revText_size :: nat where "revText_size = length revText + 1"
definition sendText_size :: nat where "sendText_size = length sendText + 2"

definition cstring_eq :: "bytes \<Rightarrow> bytes \<Rightarrow> bool" where
  "cstring_eq text chars \<longleftrightarrow> text = takeWhile (\<lambda>c. c \<noteq> 0) chars"

definition strncpy_fill :: "nat \<Rightarrow> bytes \<Rightarrow> bytes" where
  "strncpy_fill n s = take n s @ replicate (n - length s) 0"

text \<open>A call of \<open>recv\<close> for one byte, past the buffer.\<close>

fun recv_one :: "recvAns list \<Rightarrow> (netFault + int) \<times> recvAns list" where
  "recv_one [] = (Inr (- 1), [])"
| "recv_one (RAgain # as) = (Inr (- 1), as)"
| "recv_one (RError # as) = (Inl NetError, as)"
| "recv_one (RBytes [] # as) = (Inr 0, as)"
| "recv_one (RBytes [b] # as) = (Inr 1, as)"
| "recv_one (RBytes (b # bs) # as) = (Inr 1, RBytes bs # as)"

text \<open>
  What the iterator does: it stays where it is, it goes on, the element is erased, or it is
  erased and the connection of the element behind it is closed. An erased element is given as it
  is when it goes.
\<close>

datatype visit = Stay flashConn | GoOn flashConn | Erase flashConn | EraseCloseNext flashConn

definition visit_waitclose :: "flashConn \<Rightarrow> visit" where
  "visit_waitclose fc =
     (case recv_one (fc_in fc) of
        (Inl e, as) \<Rightarrow> Erase (fc\<lparr>fc_in := as\<rparr>)
      | (Inr n, as) \<Rightarrow> if n = 0 then Erase (fc\<lparr>fc_in := as\<rparr>) else GoOn (fc\<lparr>fc_in := as\<rparr>))"

definition visit_sending :: "flashConn \<Rightarrow> visit" where
  "visit_sending fc =
     (case trySend (fc_out fc) (fc_conn fc) of
        (Inl e, as, c) \<Rightarrow> Erase (fc\<lparr>fc_conn := c, fc_out := as\<rparr>)
      | (Inr sent, as, c) \<Rightarrow>
          let fc = fc\<lparr>fc_conn := c, fc_out := as\<rparr>
          in if \<not> sent then Stay fc else visit_waitclose (fc\<lparr>fc_state := Waitclose\<rparr>))"

definition visit_recving :: "flashConn \<Rightarrow> visit" where
  "visit_recving fc =
     (case tryRecv (fc_in fc) (fc_conn fc) of
        (Inl e, as, c) \<Rightarrow> Erase (fc\<lparr>fc_conn := c, fc_in := as\<rparr>)
      | (Inr got, as, c) \<Rightarrow>
          if length (readable (rcvBuf c)) < revText_size then Stay (fc\<lparr>fc_conn := c, fc_in := as\<rparr>)
          else let text = take revText_size (readable (rcvBuf c));
                   c = c\<lparr>rcvBuf := fst (commitRead revText_size (rcvBuf c))\<rparr>
               in if \<not> cstring_eq text (revText @ [0]) then Erase (fc\<lparr>fc_conn := c, fc_in := as\<rparr>)
                  else let (b, off, room) = writeable sendText_size (sndBuf c)
                       in if room < sendText_size then EraseCloseNext (fc\<lparr>fc_conn := c\<lparr>sndBuf := b\<rparr>, fc_in := as\<rparr>)
                          else let b = fst (commitWrite sendText_size (fill off (strncpy_fill room sendText) b))
                               in visit_sending (fc\<lparr>fc_conn := c\<lparr>sndBuf := b\<rparr>, fc_in := as, fc_state := Sending\<rparr>))"

definition visit_conn :: "int \<Rightarrow> flashConn \<Rightarrow> visit" where
  "visit_conn now fc =
     (if fc_tp fc + 5000000000 < now then Erase fc
      else case fc_state fc of
             Recving \<Rightarrow> visit_recving fc
           | Sending \<Rightarrow> visit_sending fc
           | Waitclose \<Rightarrow> visit_waitclose fc)"

section \<open>One pass over the connections\<close>

text \<open>
  The lock is held during a pass, and the time is read before it. The result is the list that
  is left, and the connections the pass has dropped, in their order.
\<close>

definition close_first :: "flashConn list \<Rightarrow> flashConn list outcome" where
  "close_first fcs = (case fcs of [] \<Rightarrow> Inl OutOfBounds | fc # rest \<Rightarrow> Inr (fc\<lparr>fc_in := [RError], fc_out := [SError]\<rparr> # rest))"

partial_function (option) flash_pass ::
  "int \<Rightarrow> flashConn list \<times> flashConn list \<Rightarrow> flashConn list \<Rightarrow> (flashConn list \<times> flashConn list) outcome option" where
  "flash_pass now acc fcs =
     (case fcs of
        [] \<Rightarrow> Some (Inr acc)
      | fc # rest \<Rightarrow>
          (case visit_conn now fc of
             Stay fc' \<Rightarrow> flash_pass now acc (fc' # rest)
           | GoOn fc' \<Rightarrow> flash_pass now (fst acc @ [fc'], snd acc) rest
           | Erase fc' \<Rightarrow> flash_pass now (fst acc, snd acc @ [fc']) rest
           | EraseCloseNext fc' \<Rightarrow>
               (case close_first rest of
                  Inl e \<Rightarrow> Some (Inl e)
                | Inr rest' \<Rightarrow> flash_pass now (fst acc, snd acc @ [fc']) rest')))"

section \<open>No request is ever answered\<close>

lemma text_never_equal: "length text = revText_size \<Longrightarrow> \<not> cstring_eq text (revText @ [0])"
proof -
  have "length (takeWhile (\<lambda>c. c \<noteq> 0) (revText @ [0])) < revText_size"
    by (simp add: revText_size_def revText_def)
  then show "length text = revText_size \<Longrightarrow> \<not> cstring_eq text (revText @ [0])" by (auto simp: cstring_eq_def)
qed

text \<open>Nothing was put into the send buffer, the socket has taken nothing, and it was not even asked.\<close>

definition unanswered :: "flashConn \<Rightarrow> flashConn \<Rightarrow> bool" where
  "unanswered fc fc' \<longleftrightarrow> fc_state fc' = Recving \<and> sndBuf (fc_conn fc') = sndBuf (fc_conn fc)
     \<and> wire (fc_conn fc') = wire (fc_conn fc) \<and> fc_out fc' = fc_out fc"

lemma unanswered_refl: "fc_state fc = Recving \<Longrightarrow> unanswered fc fc"
  by (simp add: unanswered_def)

lemma unanswered_trans: "unanswered a b \<Longrightarrow> unanswered b c \<Longrightarrow> unanswered a c"
  by (simp add: unanswered_def)

lemma tryRecv_sends_nothing:
  "tryRecv as c = (r, as', c') \<Longrightarrow> sndBuf c' = sndBuf c \<and> wire c' = wire c"
  by (auto simp: tryRecv.simps Let_def split: prod.splits if_splits list.splits recvAns.splits)

lemma visit_recving_cases:
  assumes "fc_state fc = Recving"
  shows "\<exists>fc'. (visit_conn now fc = Erase fc' \<or> visit_conn now fc = Stay fc') \<and> unanswered fc fc'"
proof (cases "fc_tp fc + 5000000000 < now")
  case True
  then show ?thesis using unanswered_refl [OF assms] by (auto simp: visit_conn_def)
next
  case False
  obtain res as c where t: "tryRecv (fc_in fc) (fc_conn fc) = (res, as, c)" by (metis prod_cases3)
  have u: "unanswered fc (fc\<lparr>fc_conn := c, fc_in := as\<rparr>)" "unanswered fc (fc\<lparr>fc_conn := c\<lparr>rcvBuf := b\<rparr>, fc_in := as\<rparr>)" for b
    using tryRecv_sends_nothing [OF t] assms by (simp_all add: unanswered_def)
  show ?thesis
  proof (cases "\<exists>got. res = Inr got \<and> revText_size \<le> length (readable (rcvBuf c))")
    case True
    then show ?thesis
      using t text_never_equal [of "take revText_size (readable (rcvBuf c))"] assms False u
      by (auto simp: visit_conn_def visit_recving_def Let_def)
  next
    case neither: False
    then show ?thesis
      using t assms False u by (auto simp: visit_conn_def visit_recving_def split: sum.split)
  qed
qed

text \<open>A visit of a connection whose socket stays silent leaves it in place.\<close>

definition waiting :: "int \<Rightarrow> flashConn \<Rightarrow> bool" where
  "waiting now fc \<longleftrightarrow> fc_state fc = Recving \<and> now \<le> fc_tp fc + 5000000000 \<and> conn_ok (fc_conn fc)
     \<and> open_stream (fc_in fc) \<and> length (readable (rcvBuf (fc_conn fc)) @ incoming (fc_in fc)) < revText_size"

lemma waiting_stays:
  assumes "waiting now fc"
  shows "\<exists>fc'. visit_conn now fc = Stay fc' \<and> waiting now fc'"
proof -
  obtain res as c where t: "tryRecv (fc_in fc) (fc_conn fc) = (res, as, c)" by (metis prod_cases3)
  have w: "conn_ok (fc_conn fc)" "open_stream (fc_in fc)" using assms by (simp_all add: waiting_def)
  have os: "open_stream as" and no: "\<not> (\<exists>e. res = Inl e)"
    using tryRecv_quiet [OF w(2) t] by simp_all
  then obtain got where r: "res = Inr got" by (cases res) auto
  note ok = tryRecv_ok [OF w(1) t]
  have eq: "readable (rcvBuf c) @ incoming as = readable (rcvBuf (fc_conn fc)) @ incoming (fc_in fc)" by (rule ok(2) [OF r])
  have "length (readable (rcvBuf c)) \<le> length (readable (rcvBuf c) @ incoming as)" by simp
  then have short: "length (readable (rcvBuf c)) < revText_size" using assms by (simp add: waiting_def eq)
  let ?fc = "fc\<lparr>fc_conn := c, fc_in := as\<rparr>"
  have "waiting now ?fc" using assms os ok(1) eq by (simp add: waiting_def)
  moreover have "visit_conn now fc = Stay ?fc"
    using assms short t r by (simp add: visit_conn_def visit_recving_def waiting_def)
  ultimately show ?thesis by blast
qed

lemma pass_result:
  assumes "flash_pass now acc fcs = Some out" and "\<forall>fc \<in> set fcs. fc_state fc = Recving"
  shows "(\<exists>gone'. out = Inr (fst acc, snd acc @ gone') \<and> list_all2 unanswered fcs gone') \<and> \<not> (\<exists>fc \<in> set fcs. waiting now fc)"
  using assms
proof (induction rule: flash_pass.raw_induct [rotated, consumes 1, case_names round])
  case (round pass now acc fcs out)
  show ?case
  proof (cases fcs)
    case Nil
    then show ?thesis using round.hyps by simp
  next
    case (Cons fc rest)
    then have st: "fc_state fc = Recving" using round.prems by simp
    from visit_recving_cases [OF st, of now] obtain fc' where
      v: "visit_conn now fc = Erase fc' \<or> visit_conn now fc = Stay fc'" and u: "unanswered fc fc'" by blast
    have w: "\<not> waiting now fc" if "visit_conn now fc = Erase fc'" using that waiting_stays [of now fc] by auto
    from v show ?thesis
    proof
      assume v: "visit_conn now fc = Erase fc'"
      then have "pass now (fst acc, snd acc @ [fc']) rest = Some out" using round.hyps Cons by simp
      from round.IH [OF this] obtain gone' where "out = Inr (fst acc, (snd acc @ [fc']) @ gone')"
        "list_all2 unanswered rest gone'" "\<not> (\<exists>fc \<in> set rest. waiting now fc)"
        using round.prems Cons by auto
      then show ?thesis using Cons u w [OF v] by (auto intro!: exI [of _ "fc' # gone'"])
    next
      assume v: "visit_conn now fc = Stay fc'"
      then have "pass now acc (fc' # rest) = Some out" using round.hyps Cons by simp
      moreover have "\<forall>x \<in> set (fc' # rest). fc_state x = Recving" using round.prems Cons u by (simp add: unanswered_def)
      ultimately obtain gone' where g: "out = Inr (fst acc, snd acc @ gone')" "list_all2 unanswered (fc' # rest) gone'"
        "\<not> (\<exists>x \<in> set (fc' # rest). waiting now x)"
        using round.IH [of now acc "fc' # rest" out] by blast
      have "list_all2 unanswered (fc # rest) gone'"
        using g(2) unanswered_trans [OF u] by (auto simp: list_all2_Cons1)
      moreover have "\<not> waiting now fc" using g(3) v waiting_stays [of now fc] by auto
      ultimately show ?thesis using g(1,3) Cons by auto
    qed
  qed
qed

text \<open>C34: The server of policy files never answers. A visit of a connection that has only been
  accepted leaves its send buffer and its socket alone, and the connection where it was or drops it; so a pass over such
  connections that returns has dropped every one of them, those that sent the request among them, without
  a byte sent, because the text received is compared with one character less than it has. And as long as one peer is
  connected and silent, the pass never returns: the loop looks at the same connection again, at the time it took
  before the pass, so that not even the time limit helps, and with the lock taken, so that no
  connection can be added.\<close>

theorem flash_never_answers:
  assumes "\<forall>fc \<in> set fcs. fc_state fc = Recving"
  shows "(\<forall>fc \<in> set fcs. \<exists>fc'. (visit_conn now fc = Erase fc' \<or> visit_conn now fc = Stay fc') \<and> unanswered fc fc')
    \<and> (flash_pass now ([], []) fcs = Some out \<longrightarrow> (\<exists>gone. out = Inr ([], gone) \<and> list_all2 unanswered fcs gone))
    \<and> ((\<exists>fc \<in> set fcs. waiting now fc) \<longrightarrow> flash_pass now ([], []) fcs = None)"
  using pass_result [of now "([], [])" fcs] visit_recving_cases assms by (cases "flash_pass now ([], []) fcs") auto

theorem flash_never_answers_witness:
  "flash_pass 7 ([], []) (addFlashSandboxConn 5 bufConn_new [RBytes [60, 112]] []
     (addFlashSandboxConn 3 bufConn_new [RBytes (revText @ [0])] [] [])) = None"
proof -
  have "waiting 7 \<lparr>fc_state = Recving, fc_tp = 5, fc_conn = bufConn_new, fc_in = [RBytes [60, 112]], fc_out = []\<rparr>"
    by (simp add: waiting_def conn_ok_def bufConn_new_def open_stream_def revText_size_def revText_def)
  then show ?thesis
    by (intro flash_never_answers [THEN conjunct2, THEN conjunct2, rule_format]) (auto simp: addFlashSandboxConn_def)
qed

end
