(* ===== verification/Config.thy ===== *)
theory Config
  imports Wire "HOL-Library.Product_Lexorder"
begin

text \<open>
  The configuration of a process: splitting and reading of strings
  (\<^verbatim>\<open>water/componet/string_kit.h\<close>), addresses (\<^verbatim>\<open>water/net/endpoint.cpp\<close>) and
  \<open>ProcessConfig::load\<close> (\<^verbatim>\<open>base/process_config.cpp\<close>). The XML parser is not modelled: a document is the
  attributes that are read from it, an absent attribute being the empty string. The delimiter of
  every call is one character.
\<close>

section \<open>Strings\<close>

fun find_char :: "char \<Rightarrow> string \<Rightarrow> nat option" where
  "find_char c [] = None"
| "find_char c (x # xs) = (if x = c then Some 0 else map_option Suc (find_char c xs))"

lemma find_char_le: "find_char c s = Some k \<Longrightarrow> k < length s"
  by (induction s arbitrary: k) (auto split: if_splits)

function splitString :: "string \<Rightarrow> char \<Rightarrow> string list" where
  "splitString s delimiter =
     (case find_char delimiter s of
        None \<Rightarrow> if s \<noteq> [] then [s] else []
      | Some k \<Rightarrow> (if k \<noteq> 0 then [take k s] else []) @ splitString (drop (k + 1) s) delimiter)"
  by pat_completeness auto
termination
  by (relation "measure (\<lambda>(s, c). length s)") (auto dest: find_char_le)

declare splitString.simps [simp del]

text \<open>Extraction of a number from a stream: white space, a sign, digits; what does not begin like this is 0.\<close>

definition is_digit :: "char \<Rightarrow> bool" where
  "is_digit c \<longleftrightarrow> 48 \<le> (of_char c :: nat) \<and> (of_char c :: nat) \<le> 57"

definition digit_val :: "char \<Rightarrow> int" where
  "digit_val c = int (of_char c) - 48"

definition is_space :: "char \<Rightarrow> bool" where
  "is_space c \<longleftrightarrow> (of_char c :: nat) \<in> {9, 10, 11, 12, 13, 32}"

fun digits_val :: "int \<Rightarrow> string \<Rightarrow> int" where
  "digits_val a [] = a"
| "digits_val a (c # cs) = (if is_digit c then digits_val (a * 10 + digit_val c) cs else a)"

definition read_number :: "string \<Rightarrow> bool \<times> int" where
  "read_number s =
     (case dropWhile is_space s of
        [] \<Rightarrow> (False, 0)
      | c # cs \<Rightarrow> if c = CHR ''-'' then (True, digits_val 0 cs)
                  else if c = CHR ''+'' then (False, digits_val 0 cs)
                  else (False, digits_val 0 (c # cs)))"

text \<open>A value out of range becomes the nearest one; a negative value of an unsigned type wraps.\<close>

definition fromString_int :: "int \<Rightarrow> string \<Rightarrow> int" where
  "fromString_int hi s =
     (let (neg, v) = read_number s in if neg then - (min v (hi + 1)) else min v hi)"

definition fromString_u16 :: "string \<Rightarrow> u16" where
  "fromString_u16 s =
     (let (neg, v) = read_number s in if 65535 < v then 65535 else if neg then - word_of_int v else word_of_int v)"

definition fromString_i16s :: "string \<Rightarrow> int list" where
  "fromString_i16s s = map (fromString_int 32767) (splitString s (CHR '',''))"

fun decimal :: "nat \<Rightarrow> string" where
  "decimal n = (if n < 10 then [char_of (48 + n)] else decimal (n div 10) @ [char_of (48 + n mod 10)])"

declare decimal.simps [simp del]

section \<open>Addresses\<close>

text \<open>
  An address is a struct around the union of an integer and four bytes, and therefore a class for
  \<open>fromString\<close> of \<^verbatim>\<open>water/componet/string_kit.h\<close>, which calls its method on the whole text; its
  stream operator, which would stop at white space, is not used. Endpoints are ordered by the
  integer, then the port.
\<close>

type_synonym endpoint = "u32 \<times> u16"

definition ip_value :: "u8 \<Rightarrow> u8 \<Rightarrow> u8 \<Rightarrow> u8 \<Rightarrow> u32" where
  "ip_value a b c d = ucast a OR push_bit 8 (ucast b) OR push_bit 16 (ucast c) OR push_bit 24 (ucast d)"

definition resize4 :: "string list \<Rightarrow> string list" where
  "resize4 xs = take 4 (xs @ replicate 4 [])"

definition ip_fromString :: "string \<Rightarrow> u32" where
  "ip_fromString s =
     (let items = resize4 (splitString s (CHR ''.'')); b = (\<lambda>i. word_of_int (fromString_int 2147483647 (items ! i)))
      in ip_value (b 0) (b 1) (b 2) (b 3))"

definition ip_toString :: "u32 \<Rightarrow> string" where
  "ip_toString v =
     decimal (unat (le32 v ! 0)) @ ''.'' @ decimal (unat (le32 v ! 1)) @ ''.''
       @ decimal (unat (le32 v ! 2)) @ ''.'' @ decimal (unat (le32 v ! 3))"

datatype cfgFault = LoadProcessConfigFailed | ProcessCfgNotExisit | InvalidEndpointStringFormat

definition ep_fromString :: "string \<Rightarrow> cfgFault + endpoint" where
  "ep_fromString s =
     (let strs = splitString s (CHR '':'')
      in if length strs < 2 then Inl InvalidEndpointStringFormat
         else Inr (ip_fromString (strs ! 0), fromString_u16 (strs ! 1)))"

definition ep_toString :: "endpoint \<Rightarrow> string" where
  "ep_toString ep = ip_toString (fst ep) @ '':'' @ decimal (unat (snd ep))"

section \<open>Reading back an address\<close>

lemma find_char_None: "c \<notin> set w \<Longrightarrow> find_char c w = None"
  by (induction w) auto

lemma find_char_append: "c \<notin> set w \<Longrightarrow> find_char c (w @ c # s) = Some (length w)"
  by (induction w) auto

lemma split_last: "c \<notin> set w \<Longrightarrow> w \<noteq> [] \<Longrightarrow> splitString w c = [w]"
  by (subst splitString.simps) (simp add: find_char_None)

lemma split_word: "c \<notin> set w \<Longrightarrow> w \<noteq> [] \<Longrightarrow> splitString (w @ c # s) c = w # splitString s c"
  by (subst splitString.simps) (simp add: find_char_append)

lemma digit_char: "n < 10 \<Longrightarrow> is_digit (char_of (48 + n)) \<and> digit_val (char_of (48 + n)) = int n"
  by (simp add: is_digit_def digit_val_def of_char_of take_bit_nat_eq_self)

lemma decimal_digits: "\<forall>c \<in> set (decimal n). is_digit c" and decimal_nonempty: "decimal n \<noteq> []"
proof (induction n rule: decimal.induct)
  case (1 n)
  { case 1 with "1.IH" digit_char show ?case by (subst decimal.simps) auto next
    case 2 show ?case by (subst decimal.simps) simp }
qed

lemma digits_append: "\<forall>c \<in> set xs. is_digit c \<Longrightarrow> digits_val a (xs @ ys) = digits_val (digits_val a xs) ys"
  by (induction a xs rule: digits_val.induct) auto

lemma digits_decimal: "digits_val 0 (decimal n) = int n"
proof (induction n rule: decimal.induct)
  case (1 n)
  show ?case
  proof (cases "n < 10")
    case True
    then show ?thesis using digit_char [of n] by (subst decimal.simps) simp
  next
    case False
    have "digits_val 0 (decimal (n div 10) @ [char_of (48 + n mod 10)])
      = int (n div 10) * 10 + int (n mod 10)"
      using digits_append [OF decimal_digits] 1 [OF False] digit_char [of "n mod 10"] by simp
    also have "\<dots> = int n" by (metis div_mult_mod_eq of_nat_add of_nat_mult of_nat_numeral)
    finally show ?thesis using False by (subst decimal.simps) simp
  qed
qed

lemma read_decimal: "read_number (decimal n) = (False, int n)"
proof -
  obtain c cs where d: "decimal n = c # cs" using decimal_nonempty [of n] by (cases "decimal n") auto
  have "is_digit c" using decimal_digits [of n] d by simp
  then have "\<not> is_space c" "c \<noteq> CHR ''-''" "c \<noteq> CHR ''+''" by (auto simp: is_digit_def is_space_def)
  then show ?thesis using d digits_decimal [of n] by (simp add: read_number_def del: digits_val.simps)
qed

lemma decimal_no: "\<not> is_digit c \<Longrightarrow> c \<notin> set (decimal n)"
  using decimal_digits by blast

lemma dots: "CHR ''.'' \<notin> set (decimal n)" "CHR '':'' \<notin> set (decimal n)"
  by (rule decimal_no, simp add: is_digit_def)+

lemma int_decimal: "int n \<le> hi \<Longrightarrow> fromString_int hi (decimal n) = int n"
  by (simp add: fromString_int_def read_decimal min_def)

lemma u16_decimal: "fromString_u16 (decimal (unat w)) = w"
proof -
  have "unat w < 2 ^ 16" "uint w < 2 ^ 16"
    using unsigned_less [of w, where 'a = nat] unsigned_less [of w, where 'a = int] by simp_all
  then show ?thesis by (simp add: fromString_u16_def read_decimal)
qed

lemma split_ip:
  "splitString (decimal a @ ''.'' @ decimal b @ ''.'' @ decimal c @ ''.'' @ decimal d) (CHR ''.'')
    = [decimal a, decimal b, decimal c, decimal d]"
  by (simp add: split_word split_last dots decimal_nonempty)

lemma ip_value_le32: "ip_value (le32 v ! 0) (le32 v ! 1) (le32 v ! 2) (le32 v ! 3) = v"
  using read32_le32 [of v "[]"] by (simp add: le32_def ip_value_def)

lemma ip_roundtrip: "ip_fromString (ip_toString v) = v"
proof -
  have b: "fromString_int 2147483647 (decimal (unat (x :: u8))) = int (unat x)" for x
  proof -
    have "unat x < 2 ^ 8" "uint x < 2 ^ 8"
      using unsigned_less [of x, where 'a = nat] unsigned_less [of x, where 'a = int] by simp_all
    then show ?thesis by (intro int_decimal) simp
  qed
  show ?thesis
    unfolding ip_fromString_def ip_toString_def split_ip
    by (simp add: resize4_def b numeral_eq_Suc Let_def) (use ip_value_le32 [of v] in \<open>simp add: numeral_eq_Suc\<close>)
qed

text \<open>An endpoint is read back from its text: the address and the port survive printing and
  parsing, for every one of the \<open>2 ^ 48\<close> values; and the text of an address is read as the
  address of its four numbers, in the byte order in which it is stored.\<close>

theorem endpoint_roundtrip:
  "ep_fromString (ep_toString ep) = Inr ep"
proof -
  have no: "CHR '':'' \<notin> set (ip_toString v)" "ip_toString v \<noteq> []" for v
    using dots(2) decimal_nonempty by (auto simp: ip_toString_def)
  have "splitString (ep_toString ep) (CHR '':'') = [ip_toString (fst ep), decimal (unat (snd ep))]"
    by (simp add: ep_toString_def split_word split_last no dots decimal_nonempty)
  then show ?thesis by (simp add: ep_fromString_def ip_roundtrip u16_decimal)
qed

text \<open>What is not an address is read as some address all the same.\<close>

lemma ip_of_nonsense: "ip_fromString ''0,0,0,0'' = 0" "ip_fromString ''router'' = 0"
  by (simp_all add: ip_fromString_def splitString.simps resize4_def fromString_int_def read_number_def is_space_def
      is_digit_def ip_value_def Let_def numeral_eq_Suc digit_val_def)

section \<open>Loading\<close>

record xmlProcess =
  xp_num :: int
  xp_private :: "(string \<times> string) option"
  xp_public :: "string option"
  xp_flash :: "string option"
  xp_http :: "string option"

record xmlType =
  xt_name :: string
  xt_processes :: "xmlProcess list"

record xmlDoc =
  xd_allType :: string
  xd_types :: "xmlType list"

record processConfig =
  pc_id :: processId
  pc_listenEps :: "(u32 \<times> endpoint) list"
  pc_listen :: "endpoint option"
  pc_connect :: "endpoint list"
  pc_public :: "endpoint list"
  pc_flash :: "endpoint list"
  pc_http :: "endpoint list"

definition processConfig_init :: processConfig where
  "processConfig_init = \<lparr>pc_id = \<lparr>pid_type = 0, pid_num = 0\<rparr>, pc_listenEps = [], pc_listen = None, pc_connect = [],
     pc_public = [], pc_flash = [], pc_http = []\<rparr>"

text \<open>A set of process ids is ordered by their values, and only the values are used.\<close>

fun add_nums :: "u32 \<Rightarrow> int list \<Rightarrow> u32 list \<Rightarrow> u32 list" where
  "add_nums t [] ids = ids"
| "add_nums t (n # ns) ids = add_nums t ns (insort_insert (pid_value \<lparr>pid_type = t, pid_num = word_of_int n\<rparr>) ids)"

fun parse_items :: "(string \<rightharpoonup> u32) \<Rightarrow> string list \<Rightarrow> u32 list \<Rightarrow> u32 list option" where
  "parse_items n2t [] ids = Some ids"
| "parse_items n2t (item # items) ids =
     (let processStr = splitString item (CHR '':'')
      in if length processStr = 2 then
           let t = stringToType n2t (processStr ! 0)
           in if t = 0 then None else parse_items n2t items (add_nums t (fromString_i16s (processStr ! 1)) ids)
         else if length processStr = 3 then
           let t = stringToType n2t (processStr ! 1)
           in if t = 0 then parse_items n2t items ids
              else parse_items n2t items (add_nums t (fromString_i16s (processStr ! 2)) ids)
         else None)"

definition parseProcessList :: "(string \<rightharpoonup> u32) \<Rightarrow> string \<Rightarrow> u32 list option" where
  "parseProcessList n2t str = parse_items n2t (splitString str (CHR '' '')) []"

fun lookup_all :: "(u32 \<times> endpoint) list \<Rightarrow> u32 list \<Rightarrow> endpoint list \<Rightarrow> endpoint list option" where
  "lookup_all eps [] ret = Some ret"
| "lookup_all eps (i # ids) ret =
     (case map_of eps i of None \<Rightarrow> None | Some ep \<Rightarrow> lookup_all eps ids (insort_insert ep ret))"

definition parsePrivateEndpoint :: "(string \<rightharpoonup> u32) \<Rightarrow> (u32 \<times> endpoint) list \<Rightarrow> string \<Rightarrow> endpoint list option" where
  "parsePrivateEndpoint n2t eps str =
     (case parseProcessList n2t str of None \<Rightarrow> None | Some ids \<Rightarrow> lookup_all eps ids [])"

fun parse_endpoints :: "string list \<Rightarrow> endpoint list \<Rightarrow> cfgFault + endpoint list" where
  "parse_endpoints [] ret = Inr ret"
| "parse_endpoints (s # ss) ret =
     (case ep_fromString s of Inl e \<Rightarrow> Inl e | Inr ep \<Rightarrow> parse_endpoints ss (insort_insert ep ret))"

definition parseEndpointList :: "string \<Rightarrow> cfgFault + endpoint list" where
  "parseEndpointList str = parse_endpoints (splitString str (CHR '' '')) []"

definition parse_listen :: "string \<Rightarrow> cfgFault + endpoint option" where
  "parse_listen s = (if s = [] then Inr None else case ep_fromString s of Inl e \<Rightarrow> Inl e | Inr ep \<Rightarrow> Inr (Some ep))"

text \<open>The nodes of one process type; the node of the process itself is remembered, the last one if there are several.\<close>

fun scan_processes ::
  "(string \<rightharpoonup> u32) \<Rightarrow> string \<Rightarrow> u16 \<Rightarrow> string \<Rightarrow> xmlProcess list \<Rightarrow> processConfig \<times> xmlProcess option
    \<Rightarrow> cfgFault + processConfig \<times> xmlProcess option" where
  "scan_processes n2t me num name [] (pc, this) = Inr (pc, this)"
| "scan_processes n2t me num name (p # ps) (pc, this) =
     (case xp_private p of
        None \<Rightarrow> Inl ProcessCfgNotExisit
      | Some (listen, connectTo) \<Rightarrow>
          (case parse_listen listen of
             Inl e \<Rightarrow> Inl e
           | Inr ep \<Rightarrow>
               let i = pid_value (ProcessId_name n2t name (word_of_int (xp_num p)));
                   pc = (case ep of None \<Rightarrow> pc | Some e \<Rightarrow> pc\<lparr>pc_listenEps := omap_put i e (pc_listenEps pc)\<rparr>);
                   self = name = me \<and> xp_num p = uint num;
                   pc = (if self then pc\<lparr>pc_id := \<lparr>pid_type = stringToType n2t name, pid_num = ucast num\<rparr>, pc_listen := ep\<rparr> else pc)
               in scan_processes n2t me num name ps (pc, if self then Some p else this)))"

fun scan_types ::
  "(string \<rightharpoonup> u32) \<Rightarrow> string \<Rightarrow> u16 \<Rightarrow> xmlType list \<Rightarrow> processConfig \<times> xmlProcess option
    \<Rightarrow> cfgFault + processConfig \<times> xmlProcess option" where
  "scan_types n2t me num [] st = Inr st"
| "scan_types n2t me num (t # ts) st =
     (if stringToType n2t (xt_name t) = 0 then Inl ProcessCfgNotExisit
      else case scan_processes n2t me num (xt_name t) (xt_processes t) st of
             Inl e \<Rightarrow> Inl e
           | Inr st \<Rightarrow> scan_types n2t me num ts st)"

definition parse_optional :: "string option \<Rightarrow> cfgFault + endpoint list" where
  "parse_optional s = (case s of None \<Rightarrow> Inr [] | Some s \<Rightarrow> parseEndpointList s)"

definition load_this :: "(string \<rightharpoonup> u32) \<Rightarrow> processConfig \<Rightarrow> xmlProcess \<Rightarrow> cfgFault + processConfig" where
  "load_this n2t pc p =
     (case xp_private p of
        None \<Rightarrow> Inl ProcessCfgNotExisit
      | Some (listen, connectTo) \<Rightarrow>
          (case parsePrivateEndpoint n2t (pc_listenEps pc) connectTo of
             None \<Rightarrow> Inl LoadProcessConfigFailed
           | Some eps \<Rightarrow>
               (case parse_optional (xp_public p) of
                  Inl e \<Rightarrow> Inl e
                | Inr pub \<Rightarrow>
                    (case parse_optional (xp_flash p) of
                       Inl e \<Rightarrow> Inl e
                     | Inr flash \<Rightarrow>
                         (case parse_optional (xp_http p) of
                            Inl e \<Rightarrow> Inl e
                          | Inr http \<Rightarrow>
                              Inr (pc\<lparr>pc_connect := eps, pc_public := pub, pc_flash := flash, pc_http := http\<rparr>))))))"

definition type_registry :: "string \<Rightarrow> string \<rightharpoonup> u32" where
  "type_registry allType = snd (addTypes (splitString allType (CHR '' '')) noTypes)"

text \<open>A document without a root, or without the list of processes, is refused.\<close>

definition load_config :: "string \<Rightarrow> u16 \<Rightarrow> xmlDoc option option \<Rightarrow> cfgFault + processConfig" where
  "load_config me num doc =
     (case doc of
        None \<Rightarrow> Inl LoadProcessConfigFailed
      | Some None \<Rightarrow> Inl LoadProcessConfigFailed
      | Some (Some d) \<Rightarrow>
          let n2t = type_registry (xd_allType d)
          in (case scan_types n2t me num (xd_types d) (processConfig_init, None) of
                Inl e \<Rightarrow> Inl e
              | Inr (pc, None) \<Rightarrow> Inl ProcessCfgNotExisit
              | Inr (pc, Some p) \<Rightarrow> load_this n2t pc p))"

section \<open>What a loaded configuration holds\<close>

definition listens :: "xmlProcess \<Rightarrow> endpoint \<Rightarrow> bool" where
  "listens p ep \<longleftrightarrow> (\<exists>l c. xp_private p = Some (l, c) \<and> l \<noteq> [] \<and> ep_fromString l = Inr ep)"

definition known :: "(xmlProcess \<Rightarrow> bool) \<Rightarrow> processConfig \<Rightarrow> bool" where
  "known nodes pc \<longleftrightarrow> (\<forall>e \<in> snd ` set (pc_listenEps pc). \<exists>p. nodes p \<and> listens p e)"

definition own :: "(string \<rightharpoonup> u32) \<Rightarrow> string \<Rightarrow> u16 \<Rightarrow> processConfig \<Rightarrow> bool" where
  "own n2t me num pc \<longleftrightarrow> pc_id pc = \<lparr>pid_type = stringToType n2t me, pid_num = ucast num\<rparr>"

lemma values_omap_put: "snd ` set (omap_put k v m) \<subseteq> insert v (snd ` set m)"
proof (induction m)
  case (Cons e m)
  then show ?case by (cases e) (auto simp del: image_subset_iff)
qed simp

lemma values_put: "e \<in> snd ` set (omap_put k v m) \<Longrightarrow> e = v \<or> e \<in> snd ` set m"
  using values_omap_put [of k v m] by (meson insertE subsetD)

lemma scan_processes_known:
  "scan_processes n2t me num name ps (pc, this) = Inr (pc', this') \<Longrightarrow> (\<And>p. p \<in> set ps \<Longrightarrow> nodes p) \<Longrightarrow> known nodes pc
    \<Longrightarrow> (this \<noteq> None \<Longrightarrow> own n2t me num pc)
    \<Longrightarrow> known nodes pc' \<and> (this' \<noteq> None \<longrightarrow> own n2t me num pc')"
proof (induction ps arbitrary: pc this)
  case (Cons p ps)
  from Cons.prems(1) obtain l c where p: "xp_private p = Some (l, c)" by (auto split: option.splits)
  from Cons.prems(1) p obtain ep where ep: "parse_listen l = Inr ep" by (auto split: sum.splits)
  have l: "listens p e" if "ep = Some e" for e
    using ep p that by (auto simp: listens_def parse_listen_def split: if_splits sum.splits)
  define pc1 where "pc1 = (case ep of None \<Rightarrow> pc
    | Some e \<Rightarrow> pc\<lparr>pc_listenEps := omap_put (pid_value (ProcessId_name n2t name (word_of_int (xp_num p)))) e (pc_listenEps pc)\<rparr>)"
  define self where "self \<longleftrightarrow> name = me \<and> xp_num p = uint num"
  define pc2 where "pc2 = (if self then pc1\<lparr>pc_id := \<lparr>pid_type = stringToType n2t name, pid_num = ucast num\<rparr>, pc_listen := ep\<rparr> else pc1)"
  have r: "scan_processes n2t me num name ps (pc2, if self then Some p else this) = Inr (pc', this')"
    using Cons.prems(1) p ep unfolding pc1_def pc2_def self_def by (simp only: scan_processes.simps option.case prod.case sum.case Let_def)
  have k1: "known nodes pc1"
  proof (cases ep)
    case (Some e)
    have "\<exists>q. nodes q \<and> listens q x" if "x \<in> snd ` set (pc_listenEps pc1)" for x
    proof -
      have "x = e \<or> x \<in> snd ` set (pc_listenEps pc)" using that unfolding pc1_def Some
        by (intro values_put) simp
      then show ?thesis using Cons.prems(2) [of p] Cons.prems(3) l [OF Some] by (auto simp: known_def)
    qed
    then show ?thesis by (simp only: known_def) blast
  qed (use Cons.prems(3) in \<open>simp add: pc1_def\<close>)
  have eps: "pc_listenEps pc2 = pc_listenEps pc1" by (simp add: pc2_def)
  have "known nodes pc2" using k1 unfolding known_def eps .
  moreover have "own n2t me num pc2" if "(if self then Some p else this) \<noteq> None"
  proof (cases self)
    case True then show ?thesis by (simp add: pc2_def own_def self_def)
  next
    case False
    then have "own n2t me num pc" using Cons.prems(4) that by simp
    then show ?thesis using False by (simp add: pc2_def pc1_def own_def split: option.split)
  qed
  ultimately show ?case using Cons.IH [OF r] Cons.prems(2) by simp
qed simp

lemma scan_types_known:
  "scan_types n2t me num ts st = Inr (pc', this') \<Longrightarrow> (\<And>t p. t \<in> set ts \<Longrightarrow> p \<in> set (xt_processes t) \<Longrightarrow> nodes p)
    \<Longrightarrow> known nodes (fst st) \<Longrightarrow> (snd st \<noteq> None \<Longrightarrow> own n2t me num (fst st))
    \<Longrightarrow> known nodes pc' \<and> (this' \<noteq> None \<longrightarrow> own n2t me num pc')"
proof (induction ts arbitrary: st)
  case (Cons t ts)
  obtain pc this where st: "st = (pc, this)" by fastforce
  from Cons.prems(1) obtain st1 where s: "scan_processes n2t me num (xt_name t) (xt_processes t) st = Inr st1"
    and r: "scan_types n2t me num ts st1 = Inr (pc', this')"
    by (auto split: if_splits sum.splits)
  have "known nodes (fst st1) \<and> (snd st1 \<noteq> None \<longrightarrow> own n2t me num (fst st1))"
    using scan_processes_known [of n2t me num "xt_name t" "xt_processes t" pc this "fst st1" "snd st1" nodes]
      s st Cons.prems(2) [of t] Cons.prems(3, 4) by simp
  then show ?case using Cons.IH [OF r] Cons.prems(2) by (meson list.set_intros(2))
qed simp

lemma lookup_all_sub: "lookup_all eps ids ret = Some r \<Longrightarrow> set r \<subseteq> set ret \<union> snd ` set eps"
proof (induction ids arbitrary: ret)
  case (Cons i ids)
  then obtain ep where e: "map_of eps i = Some ep" and r: "lookup_all eps ids (insort_insert ep ret) = Some r"
    by (auto split: option.splits)
  have "ep \<in> snd ` set eps" using map_of_SomeD [OF e] by force
  then show ?case using Cons.IH [OF r] by (auto simp: set_insort_insert)
qed simp

lemma load_this_fields:
  assumes "load_this n2t pc p = Inr pc'"
  shows "set (pc_connect pc') \<subseteq> snd ` set (pc_listenEps pc)" "pc_id pc' = pc_id pc"
proof -
  obtain ids where "lookup_all (pc_listenEps pc) ids [] = Some (pc_connect pc')" and i: "pc_id pc' = pc_id pc"
    using assms by (auto simp: load_this_def parsePrivateEndpoint_def split: option.splits sum.splits)
  then show "set (pc_connect pc') \<subseteq> snd ` set (pc_listenEps pc)"
    using lookup_all_sub by (metis Un_empty_left list.set(1))
  show "pc_id pc' = pc_id pc" by (rule i)
qed

text \<open>A configuration that loads is closed: every endpoint the process will connect to is the
  listening endpoint of some process of the document, and the process has the id of its own node,
  whatever its nodes are and in whatever order they come.\<close>

theorem config_closed:
  assumes "load_config me num doc = Inr pc"
  shows "\<exists>d. doc = Some (Some d)
      \<and> (\<forall>ep \<in> set (pc_connect pc). \<exists>t \<in> set (xd_types d). \<exists>p \<in> set (xt_processes t). listens p ep)
      \<and> pc_id pc = \<lparr>pid_type = stringToType (type_registry (xd_allType d)) me, pid_num = ucast num\<rparr>"
proof -
  from assms obtain d pc1 p where d: "doc = Some (Some d)"
    and s: "scan_types (type_registry (xd_allType d)) me num (xd_types d) (processConfig_init, None) = Inr (pc1, Some p)"
    and l: "load_this (type_registry (xd_allType d)) pc1 p = Inr pc"
    by (auto simp: load_config_def Let_def split: option.splits sum.splits)
  let ?nodes = "\<lambda>p. \<exists>t \<in> set (xd_types d). p \<in> set (xt_processes t)"
  have "known ?nodes pc1 \<and> own (type_registry (xd_allType d)) me num pc1"
    using scan_types_known [OF s, of ?nodes] by (fastforce simp: known_def processConfig_init_def)
  then show ?thesis
    using d load_this_fields [OF l] unfolding known_def own_def by (metis (no_types, lifting) subset_iff)
qed

definition sample_doc :: xmlDoc where
  "sample_doc = \<lparr>xd_allType = ''router gateway'', xd_types =
     [\<lparr>xt_name = ''gateway'', xt_processes =
        [\<lparr>xp_num = 1, xp_private = Some ([], ''router:1''), xp_public = Some ''0.0.0.0:7000'', xp_flash = None, xp_http = Some []\<rparr>]\<rparr>,
      \<lparr>xt_name = ''router'', xt_processes =
        [\<lparr>xp_num = 1, xp_private = Some (''127.0.0.1:6000'', []), xp_public = None, xp_flash = None, xp_http = None\<rparr>]\<rparr>]\<rparr>"

lemma sample_loads:
  "load_config ''gateway'' 1 (Some (Some sample_doc)) =
     Inr \<lparr>pc_id = \<lparr>pid_type = 2, pid_num = 1\<rparr>, pc_listenEps = [(0x101, (0x0100007f, 6000))], pc_listen = None,
          pc_connect = [(0x0100007f, 6000)], pc_public = [(0, 7000)], pc_flash = [], pc_http = []\<rparr>"
  by code_simp

theorem config_closed_witness:
  "\<exists>d. Some (Some sample_doc) = Some (Some d)
      \<and> (\<forall>ep \<in> {(0x0100007f, 6000)}. \<exists>t \<in> set (xd_types d). \<exists>p \<in> set (xt_processes t). listens p ep)
      \<and> \<lparr>pid_type = 2, pid_num = 1\<rparr> = \<lparr>pid_type = stringToType (type_registry (xd_allType d)) ''gateway'', pid_num = ucast (1 :: u16)\<rparr>"
  using config_closed [OF sample_loads] by simp

end
