(* ===== verification/TcpEnds.thy ===== *)
theory TcpEnds
  imports ConnBuffer
begin

text \<open>
  The threads that open connections: \<open>TcpClient\<close> of \<^verbatim>\<open>base/tcp_client.cpp\<close>, which keeps a
  connection to each of its remote endpoints, and \<open>TcpServer\<close> of \<^verbatim>\<open>base/tcp_server.cpp\<close>, which
  accepts them. Connections are numbered in the order in which they are made; whether one still exists
  (the weak pointer has not expired), and what a call of the system answers, are arguments. Times
  are nanoseconds.
\<close>

section \<open>The client\<close>

record remoteInfo =
  ri_retryTimepoint :: int
  ri_retryInterval :: int
  ri_conn :: "nat option"

datatype connectAns = Connected | ConnectTimeout | ConnectFault

text \<open>\<open>tc_log\<close>: the calls of \<open>connect\<close>, with their time and answer, and the number of the connection.\<close>

record 'ep tcpClient =
  tc_endpoints :: "('ep \<times> remoteInfo) list"
  tc_next :: nat
  tc_newConn :: "('ep \<times> nat) list"
  tc_log :: "(int \<times> 'ep \<times> connectAns \<times> nat) list"

definition tcpClient_init :: "'ep tcpClient" where
  "tcpClient_init = \<lparr>tc_endpoints = [], tc_next = 0, tc_newConn = [], tc_log = []\<rparr>"

definition addRemoteEndpoint :: "'ep::linorder \<Rightarrow> int \<Rightarrow> int \<Rightarrow> 'ep tcpClient \<Rightarrow> 'ep tcpClient" where
  "addRemoteEndpoint ep retryInterval now tc =
     (case map_of (tc_endpoints tc) ep of
        None \<Rightarrow> tc\<lparr>tc_endpoints := omap_put ep \<lparr>ri_retryTimepoint = now, ri_retryInterval = retryInterval, ri_conn = None\<rparr>
          (tc_endpoints tc)\<rparr>
      | Some info \<Rightarrow> tc\<lparr>tc_endpoints := omap_put ep (info\<lparr>ri_retryInterval := retryInterval\<rparr>) (tc_endpoints tc)\<rparr>)"

definition expired :: "(nat \<Rightarrow> bool) \<Rightarrow> remoteInfo \<Rightarrow> bool" where
  "expired alive info \<longleftrightarrow> (case ri_conn info of None \<Rightarrow> True | Some n \<Rightarrow> \<not> alive n)"

text \<open>A connection attempt that times out is repeated in the next pass.\<close>

definition client_visit ::
  "(nat \<Rightarrow> bool) \<Rightarrow> ('ep \<Rightarrow> connectAns) \<Rightarrow> int \<Rightarrow> 'ep \<Rightarrow> remoteInfo \<Rightarrow> 'ep tcpClient \<Rightarrow> remoteInfo \<times> 'ep tcpClient" where
  "client_visit alive ans now ep info tc =
     (if now < ri_retryTimepoint info then (info, tc)
      else if \<not> expired alive info then (info, tc)
      else let n = tc_next tc; tc = tc\<lparr>tc_log := tc_log tc @ [(now, ep, ans ep, n)]\<rparr>
           in case ans ep of
                Connected \<Rightarrow> (info\<lparr>ri_conn := Some n\<rparr>, tc\<lparr>tc_next := n + 1, tc_newConn := tc_newConn tc @ [(ep, n)]\<rparr>)
              | ConnectTimeout \<Rightarrow> (info, tc)
              | ConnectFault \<Rightarrow> (info\<lparr>ri_retryTimepoint := now + ri_retryInterval info * 1000000000\<rparr>, tc))"

text \<open>The switch is read before each endpoint; the pass ends when it is off.\<close>

fun client_loop ::
  "(nat \<Rightarrow> bool) \<Rightarrow> ('ep \<Rightarrow> connectAns) \<Rightarrow> ('ep \<Rightarrow> bool) \<Rightarrow> int \<Rightarrow> ('ep \<times> remoteInfo) list \<Rightarrow> 'ep tcpClient
    \<Rightarrow> ('ep \<times> remoteInfo) list \<times> 'ep tcpClient" where
  "client_loop alive ans switch now [] tc = ([], tc)"
| "client_loop alive ans switch now ((ep, info) # eps) tc =
     (if \<not> switch ep then ((ep, info) # eps, tc)
      else let (info, tc) = client_visit alive ans now ep info tc;
               (eps, tc) = client_loop alive ans switch now eps tc
           in ((ep, info) # eps, tc))"

definition client_pass ::
  "(nat \<Rightarrow> bool) \<Rightarrow> ('ep \<Rightarrow> connectAns) \<Rightarrow> ('ep \<Rightarrow> bool) \<Rightarrow> int \<Rightarrow> 'ep tcpClient \<Rightarrow> 'ep tcpClient" where
  "client_pass alive ans switch now tc =
     (let (eps, tc) = client_loop alive ans switch now (tc_endpoints tc) tc in tc\<lparr>tc_endpoints := eps\<rparr>)"

definition readyNum :: "(nat \<Rightarrow> bool) \<Rightarrow> 'ep tcpClient \<Rightarrow> nat" where
  "readyNum alive tc = length (filter (\<lambda>(ep, info). expired alive info) (tc_endpoints tc))"

section \<open>The server\<close>

datatype acceptAns = Accepted bufConn | NoConnection | AcceptFault

record tcpServer =
  sv_listeners :: "int list"
  sv_epoll :: "int list"
  sv_newConn :: "bufConn list"

datatype serverEvent = SvRead acceptAns | SvWrite | SvError

definition server_event :: "int \<Rightarrow> serverEvent \<Rightarrow> tcpServer \<Rightarrow> tcpServer" where
  "server_event fd ev sv =
     (if fd \<notin> set (sv_listeners sv) then sv\<lparr>sv_epoll := removeAll fd (sv_epoll sv)\<rparr>
      else case ev of
             SvError \<Rightarrow> sv\<lparr>sv_epoll := removeAll fd (sv_epoll sv)\<rparr>
           | SvWrite \<Rightarrow> sv
           | SvRead ans \<Rightarrow>
               (case ans of
                  Accepted c \<Rightarrow> sv\<lparr>sv_newConn := sv_newConn sv @ [c]\<rparr>
                | NoConnection \<Rightarrow> sv
                | AcceptFault \<Rightarrow> sv))"

text \<open>Listening: an endpoint that cannot be listened on ends the thread.\<close>

fun listen_all :: "('ep \<Rightarrow> int option) \<Rightarrow> 'ep list \<Rightarrow> tcpServer \<Rightarrow> tcpServer \<times> bool" where
  "listen_all sys [] sv = (sv, True)"
| "listen_all sys (ep # eps) sv =
     (case sys ep of
        None \<Rightarrow> (sv, False)
      | Some fd \<Rightarrow> listen_all sys eps (sv\<lparr>sv_epoll := fd # sv_epoll sv, sv_listeners := sv_listeners sv @ [fd]\<rparr>))"

section \<open>One connection to each endpoint\<close>

text \<open>\<open>iv\<close> is the interval of each endpoint.\<close>

definition spaced :: "('ep \<Rightarrow> int) \<Rightarrow> (int \<times> 'ep \<times> connectAns \<times> nat) list \<Rightarrow> bool" where
  "spaced iv log \<longleftrightarrow> sorted_wrt (\<lambda>(t, ep, a, n) (t', ep', a', n'). ep = ep' \<and> a = ConnectFault
     \<longrightarrow> t + iv ep * 1000000000 \<le> t') log"

definition ep_ok :: "('ep \<Rightarrow> int) \<Rightarrow> (nat \<Rightarrow> bool) \<Rightarrow> 'ep tcpClient \<Rightarrow> 'ep \<times> remoteInfo \<Rightarrow> bool" where
  "ep_ok iv alive tc e \<longleftrightarrow> ri_retryInterval (snd e) = iv (fst e)
     \<and> (\<forall>(t, ep, a, n) \<in> set (tc_log tc). ep = fst e \<and> a = ConnectFault
          \<longrightarrow> t + iv ep * 1000000000 \<le> ri_retryTimepoint (snd e))
     \<and> (\<forall>(ep, n) \<in> set (tc_newConn tc). ep = fst e \<longrightarrow> ri_conn (snd e) = Some n \<or> \<not> alive n)"

lemma visit_ok:
  assumes "client_visit alive ans now ep info tc = (info', tc')"
    and "ep_ok iv alive tc (ep, info)" and "spaced iv (tc_log tc)" and "0 \<le> iv ep"
  shows "ep_ok iv alive tc' (ep, info')" "spaced iv (tc_log tc')" "tc_endpoints tc' = tc_endpoints tc"
    "ep' \<noteq> ep \<Longrightarrow> ep_ok iv alive tc (ep', i) \<Longrightarrow> ep_ok iv alive tc' (ep', i)"
    "set (tc_log tc) \<subseteq> set (tc_log tc')"
    "ri_retryTimepoint info \<le> now \<Longrightarrow> expired alive info \<Longrightarrow> (now, ep, ans ep, tc_next tc) \<in> set (tc_log tc')"
    "fst ` set (tc_newConn tc') \<subseteq> insert ep (fst ` set (tc_newConn tc))"
proof -
  have snoc: "spaced iv (tc_log tc @ [(now, ep, ans ep, tc_next tc)])" if "ri_retryTimepoint info \<le> now"
  proof -
    have "\<forall>(t, ep', a, n) \<in> set (tc_log tc). ep' = ep \<and> a = ConnectFault \<longrightarrow> t + iv ep * 1000000000 \<le> now"
      using assms(2) that by (fastforce simp: ep_ok_def)
    then show ?thesis using assms(3) by (auto simp: spaced_def sorted_wrt_append)
  qed
  have dead: "ep_ok iv alive tc (ep, info) \<Longrightarrow> expired alive info \<Longrightarrow> \<forall>(e, n) \<in> set (tc_newConn tc). e = ep \<longrightarrow> \<not> alive n"
    by (fastforce simp: ep_ok_def expired_def)
  show "ep_ok iv alive tc' (ep, info')"
    using assms(1,2,4) dead by (auto simp: client_visit_def ep_ok_def Let_def split: if_splits connectAns.splits; fastforce)
  show "spaced iv (tc_log tc')"
    using assms(1,3) snoc by (auto simp: client_visit_def Let_def split: if_splits connectAns.splits)
  show "tc_endpoints tc' = tc_endpoints tc" "set (tc_log tc) \<subseteq> set (tc_log tc')"
    "fst ` set (tc_newConn tc') \<subseteq> insert ep (fst ` set (tc_newConn tc))"
    using assms(1) by (auto simp: client_visit_def Let_def split: if_splits connectAns.splits)
  show "ep' \<noteq> ep \<Longrightarrow> ep_ok iv alive tc (ep', i) \<Longrightarrow> ep_ok iv alive tc' (ep', i)"
    using assms(1) by (auto simp: client_visit_def ep_ok_def Let_def split: if_splits connectAns.splits)
  show "ri_retryTimepoint info \<le> now \<Longrightarrow> expired alive info \<Longrightarrow> (now, ep, ans ep, tc_next tc) \<in> set (tc_log tc')"
    using assms(1) by (auto simp: client_visit_def Let_def split: connectAns.splits)
qed

lemma loop_ok:
  assumes "client_loop alive ans switch now eps tc = (eps', tc')" and "distinct (map fst eps)"
    and "\<forall>e \<in> set eps. ep_ok iv alive tc e" and "spaced iv (tc_log tc)" and "\<forall>ep. 0 \<le> iv ep"
  shows "map fst eps' = map fst eps \<and> (\<forall>e \<in> set eps'. ep_ok iv alive tc' e) \<and> spaced iv (tc_log tc')
    \<and> set (tc_log tc) \<subseteq> set (tc_log tc') \<and> fst ` set (tc_newConn tc') \<subseteq> fst ` set (tc_newConn tc) \<union> fst ` set eps
    \<and> (\<forall>ep i. ep \<notin> fst ` set eps \<and> ep_ok iv alive tc (ep, i) \<longrightarrow> ep_ok iv alive tc' (ep, i))
    \<and> ((\<forall>ep. switch ep) \<longrightarrow> (\<forall>(ep, info) \<in> set eps. ri_retryTimepoint info \<le> now \<and> expired alive info
        \<longrightarrow> (\<exists>n. (now, ep, ans ep, n) \<in> set (tc_log tc'))))"
  using assms
proof (induction eps arbitrary: tc eps' tc')
  case Nil
  then show ?case by auto
next
  case (Cons e eps)
  obtain ep info where e: "e = (ep, info)" by force
  show ?case
  proof (cases "switch ep")
    case False
    then show ?thesis using Cons.prems e by auto
  next
    case True
    obtain info1 tc1 where v: "client_visit alive ans now ep info tc = (info1, tc1)" by force
    obtain eps2 tc2 where l: "client_loop alive ans switch now eps tc1 = (eps2, tc2)" by force
    have eq: "eps' = (ep, info1) # eps2" "tc' = tc2" using Cons.prems(1) True v l by (simp_all add: e)
    have ok: "ep_ok iv alive tc (ep, info)" and iv: "0 \<le> iv ep" and new: "ep \<notin> fst ` set eps"
      using Cons.prems e by auto
    note vo = visit_ok [OF v ok Cons.prems(4) iv]
    have "\<forall>x \<in> set eps. ep_ok iv alive tc1 x"
      using Cons.prems(3) vo(4) new by (metis fst_conv image_eqI list.set_intros(2) prod.collapse)
    from Cons.IH [OF l _ this vo(2) Cons.prems(5)]
    have ih: "map fst eps2 = map fst eps" "\<forall>e \<in> set eps2. ep_ok iv alive tc2 e" "spaced iv (tc_log tc2)"
      "set (tc_log tc1) \<subseteq> set (tc_log tc2)" "fst ` set (tc_newConn tc2) \<subseteq> fst ` set (tc_newConn tc1) \<union> fst ` set eps"
      "\<And>ep i. ep \<notin> fst ` set eps \<Longrightarrow> ep_ok iv alive tc1 (ep, i) \<Longrightarrow> ep_ok iv alive tc2 (ep, i)"
      "(\<forall>ep. switch ep) \<longrightarrow> (\<forall>(ep, info) \<in> set eps. ri_retryTimepoint info \<le> now \<and> expired alive info
        \<longrightarrow> (\<exists>n. (now, ep, ans ep, n) \<in> set (tc_log tc2)))"
      using Cons.prems(2) e by simp_all
    have 1: "ep_ok iv alive tc2 (ep, info1)" by (rule ih(6) [OF new vo(1)])
    have 2: "ep_ok iv alive tc2 (k, i)" if "k \<notin> fst ` set (e # eps)" "ep_ok iv alive tc (k, i)" for k i
      using that e ih(6) vo(4) by auto
    have 3: "\<exists>n. (now, ep, ans ep, n) \<in> set (tc_log tc2)" if "ri_retryTimepoint info \<le> now" "expired alive info"
      using vo(6) [OF that] ih(4) by blast
    have "fst ` set (tc_newConn tc2) \<subseteq> fst ` set (tc_newConn tc) \<union> insert ep (fst ` set eps)" using ih(5) vo(7) by blast
    then have 4: "fst ` set (tc_newConn tc2) \<subseteq> fst ` set (tc_newConn tc) \<union> fst ` set ((ep, info) # eps)" by simp
    show ?thesis
      unfolding eq e using ih(1-4,7) vo(5) 1 2 3 4 [unfolded e] e by (intro conjI) auto
  qed
qed

type_synonym 'ep pass = "(nat \<Rightarrow> bool) \<times> ('ep \<Rightarrow> connectAns) \<times> ('ep \<Rightarrow> bool) \<times> int"

fun client_passes :: "'ep pass list \<Rightarrow> 'ep tcpClient \<Rightarrow> 'ep tcpClient" where
  "client_passes [] tc = tc"
| "client_passes ((alive, ans, switch, now) # ps) tc = client_passes ps (client_pass alive ans switch now tc)"

text \<open>A connection that is gone does not come back.\<close>

fun ends_only :: "(nat \<Rightarrow> bool) \<Rightarrow> 'ep pass list \<Rightarrow> bool" where
  "ends_only alive [] = True"
| "ends_only alive ((alive', ans, switch, now) # ps) = ((\<forall>n. alive' n \<longrightarrow> alive n) \<and> ends_only alive' ps)"

fun last_alive :: "(nat \<Rightarrow> bool) \<Rightarrow> 'ep pass list \<Rightarrow> nat \<Rightarrow> bool" where
  "last_alive alive [] = alive"
| "last_alive alive ((alive', ans, switch, now) # ps) = last_alive alive' ps"

definition client_ok :: "('ep \<Rightarrow> int) \<Rightarrow> (nat \<Rightarrow> bool) \<Rightarrow> 'ep tcpClient \<Rightarrow> bool" where
  "client_ok iv alive tc \<longleftrightarrow> distinct (map fst (tc_endpoints tc)) \<and> (\<forall>e \<in> set (tc_endpoints tc). ep_ok iv alive tc e)
     \<and> spaced iv (tc_log tc) \<and> fst ` set (tc_newConn tc) \<subseteq> fst ` set (tc_endpoints tc)"

lemma client_ok_alive: "client_ok iv alive tc \<Longrightarrow> \<forall>n. alive' n \<longrightarrow> alive n \<Longrightarrow> client_ok iv alive' tc"
  by (fastforce simp: client_ok_def ep_ok_def)

lemma pass_frame [simp]:
  "tc_log (tc\<lparr>tc_endpoints := eps\<rparr>) = tc_log tc" "tc_newConn (tc\<lparr>tc_endpoints := eps\<rparr>) = tc_newConn tc"
  "ep_ok iv alive (tc\<lparr>tc_endpoints := eps\<rparr>) e = ep_ok iv alive tc e"
  by (simp_all add: ep_ok_def)

lemma client_ok_pass:
  assumes "client_ok iv alive tc" and "\<forall>ep. 0 \<le> iv ep"
  shows "client_ok iv alive (client_pass alive ans switch now tc)"
    and "(\<forall>ep. switch ep) \<Longrightarrow> (ep, info) \<in> set (tc_endpoints tc) \<Longrightarrow> ri_retryTimepoint info \<le> now \<Longrightarrow> expired alive info
      \<Longrightarrow> \<exists>n. (now, ep, ans ep, n) \<in> set (tc_log (client_pass alive ans switch now tc))"
proof -
  obtain eps' tc' where l: "client_loop alive ans switch now (tc_endpoints tc) tc = (eps', tc')" by force
  have p: "client_pass alive ans switch now tc = tc'\<lparr>tc_endpoints := eps'\<rparr>" using l by (simp add: client_pass_def)
  have "distinct (map fst (tc_endpoints tc))" "\<forall>e \<in> set (tc_endpoints tc). ep_ok iv alive tc e" "spaced iv (tc_log tc)"
    and sub: "fst ` set (tc_newConn tc) \<subseteq> fst ` set (tc_endpoints tc)"
    using assms(1) by (simp_all add: client_ok_def)
  note lo = loop_ok [OF l this(1,2,3) assms(2)]
  then have k: "map fst eps' = map fst (tc_endpoints tc)" and ok: "\<forall>e \<in> set eps'. ep_ok iv alive tc' e"
    and sp: "spaced iv (tc_log tc')" and nc: "fst ` set (tc_newConn tc') \<subseteq> fst ` set (tc_newConn tc) \<union> fst ` set (tc_endpoints tc)"
    by simp_all
  have keys: "fst ` set eps' = fst ` set (tc_endpoints tc)" using arg_cong [OF k, of set] by simp
  have "distinct (map fst eps')" unfolding k using assms(1) by (simp add: client_ok_def)
  moreover have "fst ` set (tc_newConn tc') \<subseteq> fst ` set eps'" unfolding keys using nc sub by blast
  ultimately show "client_ok iv alive (client_pass alive ans switch now tc)"
    unfolding client_ok_def p pass_frame using ok sp by simp
  have last: "(\<forall>ep. switch ep) \<longrightarrow> (\<forall>e \<in> set (tc_endpoints tc). case e of (ep, info) \<Rightarrow>
      ri_retryTimepoint info \<le> now \<and> expired alive info \<longrightarrow> (\<exists>n. (now, ep, ans ep, n) \<in> set (tc_log tc')))"
    using lo by (elim conjE)
  assume "\<forall>ep. switch ep" and e: "(ep, info) \<in> set (tc_endpoints tc)" "ri_retryTimepoint info \<le> now" "expired alive info"
  then have "case (ep, info) of (ep, info) \<Rightarrow> ri_retryTimepoint info \<le> now \<and> expired alive info
      \<longrightarrow> (\<exists>n. (now, ep, ans ep, n) \<in> set (tc_log tc'))"
    using last by blast
  then show "\<exists>n. (now, ep, ans ep, n) \<in> set (tc_log (client_pass alive ans switch now tc))"
    using e unfolding p pass_frame by simp
qed

lemma client_ok_passes:
  assumes "client_ok iv alive tc" and "\<forall>ep. 0 \<le> iv ep" and "ends_only alive ps"
  shows "client_ok iv (last_alive alive ps) (client_passes ps tc)"
  using assms
proof (induction ps tc arbitrary: alive rule: client_passes.induct)
  case (2 alive' ans switch now ps tc)
  then have "client_ok iv alive' (client_pass alive' ans switch now tc)"
    using client_ok_pass(1) [OF client_ok_alive [OF 2(2), of alive'] 2(3)] by simp
  with 2 show ?case by simp
qed simp

lemma client_ok_add:
  assumes "client_ok iv alive tc" and "tc_log tc = []" and "tc_newConn tc = []" and "sorted_wrt (<) (map fst (tc_endpoints tc))"
  shows "client_ok iv alive (addRemoteEndpoint ep (iv ep) now tc)"
proof -
  have "\<exists>info. addRemoteEndpoint ep (iv ep) now tc = tc\<lparr>tc_endpoints := omap_put ep info (tc_endpoints tc)\<rparr> \<and> ri_retryInterval info = iv ep"
    by (auto simp: addRemoteEndpoint_def split: option.split)
  then obtain info where a: "addRemoteEndpoint ep (iv ep) now tc = tc\<lparr>tc_endpoints := omap_put ep info (tc_endpoints tc)\<rparr>"
    "ri_retryInterval info = iv ep" by blast
  have s: "sorted_wrt (<) (map fst (omap_put ep info (tc_endpoints tc)))" by (rule sorted_omap_put [OF assms(4)])
  then have d: "distinct (map fst (omap_put ep info (tc_endpoints tc)))" by (simp add: strict_sorted_iff)
  have "ri_retryInterval (snd e) = iv (fst e)" if "e \<in> set (omap_put ep info (tc_endpoints tc))" for e
  proof -
    have "map_of (omap_put ep info (tc_endpoints tc)) (fst e) = Some (snd e)" using that d by simp
    then have "((map_of (tc_endpoints tc))(ep \<mapsto> info)) (fst e) = Some (snd e)"
      using map_of_omap_put [OF assms(4), of ep info] by simp
    then have "fst e = ep \<and> snd e = info \<or> e \<in> set (tc_endpoints tc)"
      by (auto split: if_splits dest!: map_of_SomeD)
    then show ?thesis using a(2) assms(1) by (auto simp: client_ok_def ep_ok_def)
  qed
  then show ?thesis using d assms(2,3) by (auto simp: client_ok_def a(1) ep_ok_def spaced_def)
qed

text \<open>C39: How a process keeps its outgoing connections. Whatever happens in the passes, after a
  failed attempt an endpoint is left alone for its interval; there are never two living connections to one endpoint; and
  in a pass that is not interrupted every endpoint that is due and has no living connection is tried.\<close>

theorem tcp_client_retries:
  assumes "client_ok iv (\<lambda>_. True) tc" and "\<forall>ep. 0 \<le> iv ep" and "ends_only (\<lambda>_. True) ps"
  shows "spaced iv (tc_log (client_passes ps tc))
    \<and> (\<forall>ep n m. {(ep, n), (ep, m)} \<subseteq> set (tc_newConn (client_passes ps tc))
         \<and> last_alive (\<lambda>_. True) ps n \<and> last_alive (\<lambda>_. True) ps m \<longrightarrow> n = m)
    \<and> (\<forall>ep info. (ep, info) \<in> set (tc_endpoints (client_passes ps tc)) \<and> ri_retryTimepoint info \<le> now
         \<and> expired (last_alive (\<lambda>_. True) ps) info
         \<longrightarrow> (\<exists>n. (now, ep, ans ep, n) \<in> set (tc_log (client_pass (last_alive (\<lambda>_. True) ps) ans (\<lambda>_. True) now
                (client_passes ps tc)))))"
proof -
  let ?tc = "client_passes ps tc" and ?al = "last_alive (\<lambda>_. True) ps"
  have ok: "client_ok iv ?al ?tc" by (rule client_ok_passes [OF assms])
  have "n = m" if "(ep, n) \<in> set (tc_newConn ?tc)" "(ep, m) \<in> set (tc_newConn ?tc)" "?al n" "?al m" for ep n m
  proof -
    have "fst (ep, n) \<in> fst ` set (tc_newConn ?tc)" by (rule imageI [OF that(1)])
    then have "fst (ep, n) \<in> fst ` set (tc_endpoints ?tc)" using ok unfolding client_ok_def by blast
    then obtain info where "(ep, info) \<in> set (tc_endpoints ?tc)" by auto
    then have "ep_ok iv ?al ?tc (ep, info)" using ok by (simp add: client_ok_def)
    then have c: "(ep, k) \<in> set (tc_newConn ?tc) \<Longrightarrow> ?al k \<Longrightarrow> ri_conn info = Some k" for k
      unfolding ep_ok_def by fastforce
    have "Some n = Some m" using c [OF that(1,3)] c [OF that(2,4)] by (rule trans [OF sym])
    then show ?thesis by simp
  qed
  moreover have "spaced iv (tc_log ?tc)" using ok by (simp add: client_ok_def)
  moreover have "\<exists>n. (now, ep, ans ep, n) \<in> set (tc_log (client_pass ?al ans (\<lambda>_. True) now ?tc))"
    if "(ep, info) \<in> set (tc_endpoints ?tc)" "ri_retryTimepoint info \<le> now" "expired ?al info" for ep info
    by (rule client_ok_pass(2) [OF ok assms(2) _ that]) simp
  ultimately show ?thesis by (intro conjI allI impI) (simp, blast, blast)
qed

text \<open>One endpoint: the first attempt fails, the second succeeds, and the connection breaks at once.\<close>

definition wclient :: "nat tcpClient" where
  "wclient = addRemoteEndpoint 80 5 0 tcpClient_init"

definition wpasses :: "nat pass list" where
  "wpasses = [(\<lambda>n. True, \<lambda>ep. ConnectFault, \<lambda>ep. True, 1), (\<lambda>n. True, \<lambda>ep. Connected, \<lambda>ep. True, 1000000000),
     (\<lambda>n. True, \<lambda>ep. Connected, \<lambda>ep. True, 6000000000), (\<lambda>n. n \<noteq> 0, \<lambda>ep. Connected, \<lambda>ep. True, 7000000000)]"

theorem tcp_client_retries_witness:
  "spaced (\<lambda>_. 5) (tc_log (client_passes wpasses wclient)) \<and> length (tc_log (client_passes wpasses wclient)) = 3"
proof
  have "client_ok (\<lambda>_. 5) (\<lambda>_. True) wclient"
    unfolding wclient_def by (rule client_ok_add) (simp_all add: client_ok_def tcpClient_init_def spaced_def)
  moreover have "ends_only (\<lambda>_. True) wpasses" by (simp add: wpasses_def)
  ultimately show "spaced (\<lambda>_. 5) (tc_log (client_passes wpasses wclient))"
    by (intro tcp_client_retries [THEN conjunct1]) auto
  show "length (tc_log (client_passes wpasses wclient)) = 3"
    by (simp add: wpasses_def wclient_def addRemoteEndpoint_def tcpClient_init_def client_pass_def client_visit_def expired_def)
qed

text \<open>What is counted as ready are the endpoints without a connection.\<close>

lemma readyNum_counts_missing:
  "readyNum alive wclient = 1" "readyNum (\<lambda>n. True) (client_pass (\<lambda>n. True) (\<lambda>ep. Connected) (\<lambda>ep. True) 1 wclient) = 0"
  by (simp_all add: readyNum_def wclient_def addRemoteEndpoint_def tcpClient_init_def client_pass_def client_visit_def expired_def)

end
