(* ===== verification/Timers.thy ===== *)
theory Timers
  imports FastTravel "HOL-Library.Product_Lexorder"
begin

text \<open>
  \<open>Event\<close> of \<^verbatim>\<open>water/componet/event.h\<close> and \<open>Timer\<close> of \<^verbatim>\<open>water/componet/timer.cpp\<close>. The
  list of callbacks of an event and the index of their ids are the vector and the index of the
  container in \<open>FastTravel\<close>, updated in the same way. A handler is a value that \<open>run\<close> applies to
  the state; what it throws is swallowed, so \<open>run\<close> is total. Times are nanoseconds.
\<close>

section \<open>Events\<close>

record 'h event =
  ev_table :: "(u64, 'h) ftm"
  ev_lastRegID :: u64

definition ev_new :: "'h event" where
  "ev_new = \<lparr>ev_table = ftm_empty, ev_lastRegID = 0\<rparr>"

definition callbackList :: "'h event \<Rightarrow> (u64 \<times> 'h) list" where
  "callbackList e = ft_vec (ev_table e)"

text \<open>The new entry goes to the end, and the index is set whether or not it knew the id.\<close>

definition ev_reg :: "'h \<Rightarrow> 'h event \<Rightarrow> 'h event \<times> u64" where
  "ev_reg cb e =
     (let i = ev_lastRegID e + 1; t = ev_table e
      in (\<lparr>ev_table = \<lparr>ft_vec = ft_vec t @ [(i, cb)], ft_map = (ft_map t)(i \<mapsto> length (ft_vec t))\<rparr>,
           ev_lastRegID = i\<rparr>, i))"

text \<open>When one callback is left it goes, whatever id is given.\<close>

definition ev_unreg :: "u64 \<Rightarrow> 'h event \<Rightarrow> 'h event outcome" where
  "ev_unreg regID e =
     (let t = ev_table e
      in if length (ft_vec t) = 1 then Inr (e\<lparr>ev_table := ftm_empty\<rparr>)
         else case ft_map t regID of
           None \<Rightarrow> Inr e
         | Some i \<Rightarrow>
             if i + 1 \<noteq> length (ft_vec t) then obind (vec_at (ft_vec t) i) (\<lambda>_. Inr (e\<lparr>ev_table := ftm_erase regID t\<rparr>))
             else Inr (e\<lparr>ev_table := ftm_erase regID t\<rparr>))"

fun call_all :: "('h \<Rightarrow> 'a \<Rightarrow> 's \<Rightarrow> 's) \<Rightarrow> 'a \<Rightarrow> (u64 \<times> 'h) list \<Rightarrow> 's \<Rightarrow> 's" where
  "call_all run a [] s = s"
| "call_all run a ((i, cb) # cbs) s = call_all run a cbs (run cb a s)"

definition ev_raise :: "('h \<Rightarrow> 'a \<Rightarrow> 's \<Rightarrow> 's) \<Rightarrow> 'a \<Rightarrow> 'h event \<Rightarrow> 's \<Rightarrow> 's" where
  "ev_raise run a e s = call_all run a (callbackList e) s"

text \<open>As long as the ids do not wrap around, they are distinct and the index is right.\<close>

definition ev_inv :: "'h event \<Rightarrow> bool" where
  "ev_inv e \<longleftrightarrow> ftm_inv (ev_table e) \<and> (\<forall>i \<in> fst ` set (callbackList e). 0 < i \<and> i \<le> ev_lastRegID e)"

definition ev_handler :: "'h event \<Rightarrow> u64 \<Rightarrow> 'h option" where
  "ev_handler e i = ftm_find (ev_table e) i"

lemma ev_inv_new: "ev_inv ev_new"
  by (simp add: ev_inv_def ev_new_def callbackList_def ftm_empty_def ftm_inv_def)

lemma call_all_append: "call_all run a (xs @ ys) s = call_all run a ys (call_all run a xs s)"
  by (induction run a xs s rule: call_all.induct) simp_all

lemma in_table:
  assumes "ftm_inv t" and "ft_map t i = Some n"
  shows "i \<in> fst ` set (ft_vec t)"
  using ftm_invD [OF assms] by (metis image_eqI nth_mem)

lemma ev_reg_insert:
  assumes "ev_inv e" and "ev_lastRegID e \<noteq> -1"
  shows "ev_reg cb e = (\<lparr>ev_table = fst (ftm_insert (ev_lastRegID e + 1) cb (ev_table e)),
      ev_lastRegID = ev_lastRegID e + 1\<rparr>, ev_lastRegID e + 1)"
    and "ftm_find (ev_table e) (ev_lastRegID e + 1) = None" and "ev_lastRegID e < ev_lastRegID e + 1"
proof -
  have less: "ev_lastRegID e < ev_lastRegID e + 1"
    using unatSuc [of "ev_lastRegID e"] assms(2)
    by (metis add.commute lessI max_word_wrap word_less_nat_alt)
  have none: "ft_map (ev_table e) (ev_lastRegID e + 1) = None"
  proof (rule ccontr)
    assume "ft_map (ev_table e) (ev_lastRegID e + 1) \<noteq> None"
    then have "ev_lastRegID e + 1 \<in> fst ` set (callbackList e)"
      using assms(1) in_table by (fastforce simp: ev_inv_def callbackList_def)
    then have "ev_lastRegID e + 1 \<le> ev_lastRegID e" using assms(1) by (auto simp: ev_inv_def)
    with less show False by simp
  qed
  then show "ev_reg cb e = (\<lparr>ev_table = fst (ftm_insert (ev_lastRegID e + 1) cb (ev_table e)),
      ev_lastRegID = ev_lastRegID e + 1\<rparr>, ev_lastRegID e + 1)"
    by (simp add: ev_reg_def ftm_insert_def Let_def)
  show "ftm_find (ev_table e) (ev_lastRegID e + 1) = None" using none by (simp add: ftm_find_def ftm_pos_def)
  show "ev_lastRegID e < ev_lastRegID e + 1" by (rule less)
qed

lemma ev_reg_ok:
  assumes "ev_inv e" and "ev_lastRegID e \<noteq> -1" and "ev_reg cb e = (e', i)"
  shows "ev_inv e'" "ev_handler e i = None" "ev_handler e' = (ev_handler e)(i \<mapsto> cb)"
    "callbackList e' = callbackList e @ [(i, cb)]"
proof -
  note r = ev_reg_insert [OF assms(1,2)]
  have e': "e' = \<lparr>ev_table = fst (ftm_insert i cb (ev_table e)), ev_lastRegID = i\<rparr>" and i: "i = ev_lastRegID e + 1"
    using assms(3) r(1) [of cb] by auto
  have t: "ftm_inv (ev_table e)" using assms(1) by (simp add: ev_inv_def)
  show cl: "callbackList e' = callbackList e @ [(i, cb)]"
    using assms(3) by (auto simp: ev_reg_def callbackList_def Let_def)
  have "ftm_inv (ev_table e')" using ftm.inv_ins [OF t] by (simp add: e')
  moreover have "0 < i" using r(3) i by (metis word_gt_0 word_not_simps(1))
  ultimately show "ev_inv e'" using assms(1) r(3) cl by (auto simp: ev_inv_def e' i)
  show "ev_handler e i = None" using r(2) i by (simp add: ev_handler_def)
  show "ev_handler e' = (ev_handler e)(i \<mapsto> cb)"
    using ftm.ins_new [OF t r(2), of cb] by (simp add: ev_handler_def [abs_def] e' i)
qed

lemma ev_unreg_ok:
  assumes "ev_inv e"
  shows "\<exists>e'. ev_unreg regID e = Inr e' \<and> ev_inv e'
    \<and> ev_handler e' = (if length (callbackList e) = 1 then Map.empty else (ev_handler e)(regID := None))"
proof (cases "length (callbackList e) = 1")
  case True
  have "ftm_find ftm_empty = (Map.empty :: u64 \<rightharpoonup> 'a)"
    by (auto simp: ftm_find_def ftm_pos_def ftm_empty_def)
  with True show ?thesis
    by (auto simp: ev_unreg_def callbackList_def ev_inv_def ev_handler_def [abs_def] ftm_empty_def ftm_inv_def Let_def)
next
  case False
  have t: "ftm_inv (ev_table e)" using assms by (simp add: ev_inv_def)
  let ?e = "e\<lparr>ev_table := ftm_erase regID (ev_table e)\<rparr>"
  have h: "ev_handler ?e = (ev_handler e)(regID := None)"
    using ftm.lookup_del [OF t, of regID] by (simp add: ev_handler_def [abs_def])
  have inv: "ftm_inv (ev_table ?e)" using ftm.inv_del [OF t] by simp
  have "fst ` set (callbackList ?e) \<subseteq> fst ` set (callbackList e)"
  proof
    fix i assume "i \<in> fst ` set (callbackList ?e)"
    then have "ev_handler ?e i \<noteq> None"
      using ftm_find_map_of [OF inv] by (simp add: ev_handler_def callbackList_def map_of_eq_None_iff)
    then have "ev_handler e i \<noteq> None" using h by (auto split: if_splits)
    then show "i \<in> fst ` set (callbackList e)"
      using ftm_find_map_of [OF t] by (simp add: ev_handler_def callbackList_def map_of_eq_None_iff)
  qed
  then have ok: "ev_inv ?e"
    using assms inv unfolding ev_inv_def by (metis (no_types, lifting) event.select_convs(2) event.surjective event.update_convs(1) subsetD)
  show ?thesis
  proof (cases "ft_map (ev_table e) regID")
    case None
    then have "(ev_handler e)(regID := None) = ev_handler e"
      by (auto simp: ev_handler_def ftm_find_def ftm_pos_def)
    then show ?thesis using None False assms by (auto simp: ev_unreg_def callbackList_def Let_def)
  next
    case (Some i)
    then have "ev_unreg regID e = Inr ?e"
      using False ftm_invD(1) [OF t Some] by (simp add: ev_unreg_def callbackList_def Let_def vec_at_def)
    then show ?thesis using False h ok by auto
  qed
qed


section \<open>The timer\<close>

text \<open>
  The handlers of one interval share an event, the time of the last registration and the number of
  times the event was raised. Durations and times are counted in nanoseconds.
\<close>

record 'h eventHandlers =
  eh_event :: "'h event"
  eh_regTime :: u64
  eh_counter :: u64

record 'h timer =
  m_eventHandlers :: "(int \<times> 'h eventHandlers) list"
  m_unregedIds :: "(int \<times> u64) list"

definition timer_new :: "'h timer" where
  "timer_new = \<lparr>m_eventHandlers = [], m_unregedIds = []\<rparr>"

definition eh_new :: "'h eventHandlers" where
  "eh_new = \<lparr>eh_event = ev_new, eh_regTime = 0, eh_counter = 0\<rparr>"

definition timer_regEventHandler :: "int \<Rightarrow> 'h \<Rightarrow> u64 \<Rightarrow> 'h timer \<Rightarrow> 'h timer \<times> int \<times> u64" where
  "timer_regEventHandler interval handler now tm =
     (let iv = to_i64 (interval * 1000000);
          info = (case map_of (m_eventHandlers tm) iv of None \<Rightarrow> eh_new | Some h \<Rightarrow> h);
          (e, eventId) = ev_reg handler (eh_event info)
      in (tm\<lparr>m_eventHandlers := omap_put iv \<lparr>eh_event = e, eh_regTime = now, eh_counter = 0\<rparr> (m_eventHandlers tm)\<rparr>,
          iv, eventId))"

text \<open>A handler goes at the next round: until then its id is in a sorted set.\<close>

definition timer_unregEventHandler :: "int \<times> u64 \<Rightarrow> 'h timer \<Rightarrow> 'h timer" where
  "timer_unregEventHandler i tm = tm\<lparr>m_unregedIds := insort_insert i (m_unregedIds tm)\<rparr>"

text \<open>An interval nobody registered ends the cleaning, and the ids stay in the set.\<close>

fun clean_loop :: "(int \<times> u64) list \<Rightarrow> (int \<times> 'h eventHandlers) list \<Rightarrow> ((int \<times> 'h eventHandlers) list \<times> bool) outcome" where
  "clean_loop [] m = Inr (m, True)"
| "clean_loop ((iv, i) # ids) m =
     (case map_of m iv of
       None \<Rightarrow> Inr (m, False)
     | Some h \<Rightarrow> obind (ev_unreg i (eh_event h)) (\<lambda>e. clean_loop ids (omap_put iv (h\<lparr>eh_event := e\<rparr>) m)))"

definition cleanEventHandler :: "'h timer \<Rightarrow> 'h timer outcome" where
  "cleanEventHandler tm =
     obind (clean_loop (m_unregedIds tm) (m_eventHandlers tm)) (\<lambda>(m, done_all).
       Inr \<lparr>m_eventHandlers = m, m_unregedIds = (if done_all then [] else m_unregedIds tm)\<rparr>)"

text \<open>
  The product and the sum are unsigned, a duration times a \<^verbatim>\<open>uint64_t\<close>; but the sum is stored in a point
  of time of the clock, which is signed, and so is the comparison.
\<close>

definition emitTime :: "int \<Rightarrow> 'h eventHandlers \<Rightarrow> int" where
  "emitTime iv h = sint (eh_regTime h + word_of_int iv * eh_counter h)"

fun tick_loop :: "('h \<Rightarrow> 'a \<Rightarrow> 's \<Rightarrow> 's) \<Rightarrow> u64 \<Rightarrow> 'a \<Rightarrow> (int \<times> 'h eventHandlers) list \<Rightarrow> 's
    \<Rightarrow> (int \<times> 'h eventHandlers) list \<times> 's" where
  "tick_loop run now sysNow [] s = ([], s)"
| "tick_loop run now sysNow ((iv, h) # m) s =
     (let due = emitTime iv h \<le> sint now;
          (m', s') = tick_loop run now sysNow m (if due then ev_raise run sysNow (eh_event h) s else s)
      in ((iv, if due then h\<lparr>eh_counter := eh_counter h + 1\<rparr> else h) # m', s'))"

definition timer_tick :: "('h \<Rightarrow> 'a \<Rightarrow> 's \<Rightarrow> 's) \<Rightarrow> u64 \<Rightarrow> 'a \<Rightarrow> 'h timer \<Rightarrow> 's \<Rightarrow> ('h timer \<times> 's) outcome" where
  "timer_tick run now sysNow tm s =
     obind (cleanEventHandler tm) (\<lambda>tm'.
       let (m, s') = tick_loop run now sysNow (m_eventHandlers tm') s
       in Inr (tm'\<lparr>m_eventHandlers := m\<rparr>, s'))"

section \<open>The thread of the timer\<close>

record 'h processTimer =
  m_suspend :: bool
  m_timer :: "'h timer"

definition suspend :: "'h processTimer \<Rightarrow> 'h processTimer" where
  "suspend pt = pt\<lparr>m_suspend := True\<rparr>"

definition resume :: "'h processTimer \<Rightarrow> 'h processTimer" where
  "resume pt = pt\<lparr>m_suspend := False\<rparr>"

text \<open>One round of the loop of the thread.\<close>

definition ptimer_round :: "('h \<Rightarrow> 'a \<Rightarrow> 's \<Rightarrow> 's) \<Rightarrow> u64 \<Rightarrow> 'a \<Rightarrow> 'h processTimer \<Rightarrow> 's \<Rightarrow> ('h processTimer \<times> 's) outcome" where
  "ptimer_round run now sysNow pt s =
     (if m_suspend pt then Inr (pt, s)
      else obind (timer_tick run now sysNow (m_timer pt) s) (\<lambda>(tm, s'). Inr (pt\<lparr>m_timer := tm\<rparr>, s')))"

fun ptimer_rounds :: "('h \<Rightarrow> 'a \<Rightarrow> 's \<Rightarrow> 's) \<Rightarrow> (u64 \<times> 'a) list \<Rightarrow> 'h processTimer \<Rightarrow> 's \<Rightarrow> ('h processTimer \<times> 's) outcome" where
  "ptimer_rounds run [] pt s = Inr (pt, s)"
| "ptimer_rounds run ((now, sysNow) # ts) pt s =
     obind (ptimer_round run now sysNow pt s) (\<lambda>(pt', s'). ptimer_rounds run ts pt' s')"

section \<open>When a handler is called\<close>

text \<open>The calls are recorded, each with the handler and the time it was given.\<close>

definition record_call :: "'h \<Rightarrow> 'a \<Rightarrow> ('h \<times> 'a) list \<Rightarrow> ('h \<times> 'a) list" where
  "record_call cb a s = s @ [(cb, a)]"

definition calls_of :: "'h \<Rightarrow> ('h \<times> 'a) list \<Rightarrow> nat" where
  "calls_of cb s = length (filter (\<lambda>c. fst c = cb) s)"

lemma calls_of_raise:
  "calls_of cb (ev_raise record_call a e s) = calls_of cb s + length (filter (\<lambda>x. snd x = cb) (callbackList e))"
proof -
  have "calls_of cb (call_all record_call a xs s) = calls_of cb s + length (filter (\<lambda>x. snd x = cb) xs)" for xs
    by (induction xs arbitrary: s) (auto simp: record_call_def calls_of_def)
  then show ?thesis by (simp add: ev_raise_def)
qed

definition silent :: "'h \<Rightarrow> (int \<times> 'h eventHandlers) list \<Rightarrow> bool" where
  "silent cb m \<longleftrightarrow> (\<forall>(iv, h) \<in> set m. \<forall>(i, cb') \<in> set (callbackList (eh_event h)). cb' \<noteq> cb)"

definition tick_one :: "u64 \<Rightarrow> int \<times> 'h eventHandlers \<Rightarrow> int \<times> 'h eventHandlers" where
  "tick_one now = (\<lambda>(iv, h). (iv, if emitTime iv h \<le> sint now then h\<lparr>eh_counter := eh_counter h + 1\<rparr> else h))"

lemma tick_handlers: "fst (tick_loop run now a m s) = map (tick_one now) m"
  by (induction run now a m s rule: tick_loop.induct) (auto simp: Let_def tick_one_def split: prod.split)

lemma tick_append:
  "snd (tick_loop run now a (xs @ ys) s) = snd (tick_loop run now a ys (snd (tick_loop run now a xs s)))"
  by (induction run now a xs s rule: tick_loop.induct) (auto simp: Let_def split: prod.split)

lemma snd_tick_Cons:
  "snd (tick_loop run now a ((iv, h) # m) s)
     = snd (tick_loop run now a m (if emitTime iv h \<le> sint now then ev_raise run a (eh_event h) s else s))"
  by (simp add: Let_def split: prod.split)

lemma silent_tick: "silent cb m \<Longrightarrow> silent cb (map (tick_one now) m)"
  by (fastforce simp: silent_def tick_one_def split: if_splits)

lemma calls_silent: "silent cb m \<Longrightarrow> calls_of cb (snd (tick_loop record_call now a m s)) = calls_of cb s"
proof (induction m arbitrary: s)
  case Nil
  then show ?case by simp
next
  case (Cons kh m)
  obtain iv h where kh: "kh = (iv, h)" by force
  have "silent cb m" and "filter (\<lambda>x. snd x = cb) (callbackList (eh_event h)) = []"
    using Cons.prems by (auto simp: silent_def kh filter_empty_conv)
  then show ?case by (simp add: kh snd_tick_Cons Cons.IH calls_of_raise del: tick_loop.simps)
qed

text \<open>A handler that is alone in its event: every round raises the event once at most.\<close>

lemma calls_tick:
  assumes "silent cb xs" and "silent cb ys" and "callbackList (eh_event h) = [(i, cb)]"
  shows "calls_of cb (snd (tick_loop record_call now a (xs @ (iv, h) # ys) s))
    = calls_of cb s + (if emitTime iv h \<le> sint now then 1 else 0)"
  using assms by (simp add: tick_append snd_tick_Cons calls_silent calls_of_raise del: tick_loop.simps)

section \<open>The schedule\<close>

text \<open>The rounds of the thread as the clock of the timer sees them, the interval in nanoseconds.\<close>

fun forwards :: "nat \<Rightarrow> (u64 \<times> 'a) list \<Rightarrow> bool" where
  "forwards t [] = True"
| "forwards t ((now, a) # ts) = (t \<le> unat now \<and> forwards (unat now) ts)"

fun steady :: "nat \<Rightarrow> nat \<Rightarrow> (u64 \<times> 'a) list \<Rightarrow> bool" where
  "steady iv t [] = True"
| "steady iv t ((now, a) # ts) = (unat now < t + iv \<and> steady iv (unat now) ts)"

fun last_time :: "nat \<Rightarrow> (u64 \<times> 'a) list \<Rightarrow> nat" where
  "last_time t [] = t"
| "last_time t ((now, a) # ts) = last_time (unat now) ts"

lemma last_time_ge: "forwards t ts \<Longrightarrow> t \<le> last_time t ts"
  by (induction t ts rule: last_time.induct) auto

lemma sint_small: "unat (w :: u64) < 2 ^ 63 \<Longrightarrow> sint w = int (unat w)"
proof -
  assume "unat w < 2 ^ 63"
  then have "uint w < int (2 ^ 63)"
    unfolding unat_eq_nat_uint using nat_less_iff [of "uint w" "2 ^ 63"] by (simp only: uint_ge_0 simp_thms)
  then have "uint w < 2 ^ 63" by simp
  moreover have "- (2 ^ 63) \<le> uint w" by (rule order.trans [OF _ uint_ge_0]) simp
  ultimately have "sint w = uint w" by (simp add: sint_uint signed_take_bit_int_eq_self)
  then show ?thesis by simp
qed

lemma emitTime_small:
  assumes "0 \<le> iv" and "unat (eh_regTime h) + nat iv * unat (eh_counter h) < 2 ^ 63"
  shows "emitTime iv h = int (unat (eh_regTime h) + nat iv * unat (eh_counter h))"
proof -
  let ?n = "unat (eh_regTime h) + nat iv * unat (eh_counter h)"
  have "eh_regTime h + word_of_int iv * eh_counter h = word_of_nat ?n" using assms(1) by simp
  moreover have "unat (word_of_nat n :: u64) = n" if "n < 2 ^ 64" for n
    using that by (simp add: unsigned_of_nat take_bit_nat_eq_self)
  from this [of ?n] have "unat (word_of_nat ?n :: u64) = ?n" using assms(2) by simp
  ultimately have "eh_regTime h + word_of_int iv * eh_counter h = word_of_nat ?n" "unat (word_of_nat ?n :: u64) = ?n"
    by blast+
  then show ?thesis using assms(2) sint_small [of "word_of_nat ?n"] unfolding emitTime_def by argo
qed

lemma div_add_le:
  assumes "(t' :: nat) \<le> t + iv"
  shows "(t' - t0) div iv \<le> Suc ((t - t0) div iv)"
proof (cases "iv = 0")
  case False
  have "(t' - t0) div iv \<le> ((t - t0) + iv) div iv" using assms by (intro div_le_mono) simp
  also have "\<dots> = Suc ((t - t0) div iv)" using div_add_self2 [OF False, of "t - t0"] by linarith
  finally show ?thesis .
qed simp

text \<open>
  One round for a handler that is alone in its event. The event is raised when the clock has
  reached the next multiple of the interval.
\<close>

lemma due_iff:
  fixes now :: u64
  assumes "0 < iv" and "unat (eh_regTime h) = t0" and "t0 \<le> unat now" and "unat now + nat iv < 2 ^ 63"
    and "unat (eh_counter h) \<le> Suc ((unat now - t0) div nat iv)"
  shows "emitTime iv h \<le> sint now \<longleftrightarrow> unat (eh_counter h) \<le> (unat now - t0) div nat iv"
proof -
  have "nat iv * unat (eh_counter h) \<le> nat iv * Suc ((unat now - t0) div nat iv)"
    using assms(5) by (rule mult_le_mono2)
  also have "\<dots> \<le> nat iv + (unat now - t0)" by simp
  finally have "t0 + nat iv * unat (eh_counter h) < 2 ^ 63" using assms(3,4) by simp
  then have "emitTime iv h = int (t0 + nat iv * unat (eh_counter h))" "sint now = int (unat now)"
    using assms(1,2) emitTime_small [of iv h] sint_small [of now] assms(4) by (simp, linarith)
  then have "emitTime iv h \<le> sint now \<longleftrightarrow> unat (eh_counter h) * nat iv \<le> unat now - t0"
    using assms(3) by (simp only: of_nat_le_iff mult.commute le_diff_conv2 add.commute)
  then show ?thesis using assms(1) by (simp add: less_eq_div_iff_mult_less_eq)
qed

lemma tick_alone:
  assumes "m_eventHandlers tm = xs @ (iv, h) # ys" and "m_unregedIds tm = []"
    and "silent cb xs" and "silent cb ys" and "callbackList (eh_event h) = [(i, cb)]"
  shows "\<exists>tm' s'. timer_tick record_call now a tm s = Inr (tm', s') \<and> m_unregedIds tm' = []
    \<and> m_eventHandlers tm' = map (tick_one now) xs @ tick_one now (iv, h) # map (tick_one now) ys
    \<and> calls_of cb s' = calls_of cb s + (if emitTime iv h \<le> sint now then 1 else 0)"
proof -
  obtain m s' where r: "tick_loop record_call now a (xs @ (iv, h) # ys) s = (m, s')" by force
  then show ?thesis
    using assms calls_tick [OF assms(3,4,5), of now a iv s] tick_handlers [of record_call now a "xs @ (iv, h) # ys" s]
    by (simp add: timer_tick_def cleanEventHandler_def del: tick_loop.simps)
qed

lemma rounds_alone:
  assumes "0 < iv" and "forwards t ts" and "t0 \<le> t" and "last_time t ts + nat iv < 2 ^ 63"
    and "\<not> m_suspend pt" and "m_unregedIds (m_timer pt) = []"
    and "m_eventHandlers (m_timer pt) = xs @ (iv, h) # ys" and "silent cb xs" and "silent cb ys"
    and "callbackList (eh_event h) = [(i, cb)]" and "unat (eh_regTime h) = t0"
    and "unat (eh_counter h) \<le> Suc ((t - t0) div nat iv)"
  shows "\<exists>pt' s'. ptimer_rounds record_call ts pt s = Inr (pt', s')
    \<and> calls_of cb s' + unat (eh_counter h) \<le> calls_of cb s + Suc ((last_time t ts - t0) div nat iv)
    \<and> (steady (nat iv) t ts \<and> (unat (eh_counter h) = Suc ((t - t0) div nat iv) \<or> ts \<noteq> [] \<and> t = t0 \<and> eh_counter h = 0)
       \<longrightarrow> calls_of cb s' + unat (eh_counter h) = calls_of cb s + Suc ((last_time t ts - t0) div nat iv))"
  using assms
proof (induction t ts arbitrary: pt s xs h ys rule: last_time.induct)
  case (1 t)
  then show ?case by simp
next
  case (2 t now a ts)
  let ?q = "\<lambda>t. (t - t0) div nat iv"
  let ?d = "emitTime iv h \<le> sint now"
  have t: "t \<le> unat now" and fw: "forwards (unat now) ts" and t0: "t0 \<le> unat now" using 2(3,4) by auto
  have lt: "last_time (unat now) ts + nat iv < 2 ^ 63" using 2(5) by simp
  then have now: "unat now + nat iv < 2 ^ 63" using last_time_ge [OF fw] by linarith
  have qq: "?q t \<le> ?q (unat now)" using t by (intro div_le_mono diff_le_mono)
  then have c: "unat (eh_counter h) \<le> Suc (?q (unat now))" using 2(13) by linarith
  have due: "?d \<longleftrightarrow> unat (eh_counter h) \<le> ?q (unat now)" by (rule due_iff [OF 2(2) 2(12) t0 now c])
  obtain tm' s1 where r: "timer_tick record_call now a (m_timer pt) s = Inr (tm', s1)"
    and u: "m_unregedIds tm' = []"
    and hs: "m_eventHandlers tm' = map (tick_one now) xs @ tick_one now (iv, h) # map (tick_one now) ys"
    and n: "calls_of cb s1 = calls_of cb s + (if ?d then 1 else 0)"
    using tick_alone [OF 2(8,7,9,10,11), of now a s] by blast
  let ?h = "if ?d then h\<lparr>eh_counter := eh_counter h + 1\<rparr> else h"
  have "?q (unat now) \<le> unat now" using div_le_dividend order.trans diff_le_self by blast
  then have "unat (eh_counter h) + 1 < 2 ^ 64" if ?d
  proof -
    have "unat (eh_counter h) \<le> unat now" using that due \<open>?q (unat now) \<le> unat now\<close> by simp
    moreover have "1 \<le> nat iv" using 2(2) by simp
    ultimately show ?thesis using now by simp
  qed
  then have cnt: "unat (eh_counter ?h) = unat (eh_counter h) + (if ?d then 1 else 0)"
    using unat_add_lem [of "eh_counter h" 1] by auto
  have c': "unat (eh_counter ?h) \<le> Suc (?q (unat now))" using cnt due c by auto
  have "tick_one now (iv, h) = (iv, ?h)" by (simp add: tick_one_def)
  then have hs': "m_eventHandlers (m_timer (pt\<lparr>m_timer := tm'\<rparr>)) = map (tick_one now) xs @ (iv, ?h) # map (tick_one now) ys"
    using hs by simp
  have "callbackList (eh_event ?h) = [(i, cb)]" and "unat (eh_regTime ?h) = t0" using 2(11,12) by auto
  from 2(1) [OF 2(2) fw t0 lt _ _ hs' silent_tick [OF 2(9)] silent_tick [OF 2(10)] this c', of s1]
  obtain pt' s' where r': "ptimer_rounds record_call ts (pt\<lparr>m_timer := tm'\<rparr>) s1 = Inr (pt', s')"
    and le: "calls_of cb s' + unat (eh_counter ?h) \<le> calls_of cb s1 + Suc (?q (last_time (unat now) ts))"
    and eq: "steady (nat iv) (unat now) ts \<Longrightarrow> unat (eh_counter ?h) = Suc (?q (unat now))
      \<Longrightarrow> calls_of cb s' + unat (eh_counter ?h) = calls_of cb s1 + Suc (?q (last_time (unat now) ts))"
    using 2(6) u by auto
  have "unat (eh_counter ?h) = Suc (?q (unat now))"
    if "unat now < t + nat iv" and "unat (eh_counter h) = Suc (?q t) \<or> t = t0 \<and> eh_counter h = 0"
    using that(2)
  proof
    assume "unat (eh_counter h) = Suc (?q t)"
    moreover have "?q (unat now) \<le> Suc (?q t)" using that(1) by (intro div_add_le) simp
    ultimately show ?thesis using cnt due qq by auto
  next
    assume "t = t0 \<and> eh_counter h = 0"
    then show ?thesis using cnt due that(1) t by (auto simp: less_diff_conv2)
  qed
  then show ?case using r r' le eq n cnt 2(6) by (auto simp: ptimer_round_def)
qed

lemma omap_put_split: "\<exists>xs ys. omap_put k v m = xs @ (k, v) # ys \<and> set (xs @ ys) \<subseteq> set m"
proof (induction m)
  case Nil
  show ?case by (intro exI [of _ "[]"]) simp
next
  case (Cons kv m)
  obtain k' v' where kv: "kv = (k', v')" by force
  obtain xs ys where IH: "omap_put k v m = xs @ (k, v) # ys" "set (xs @ ys) \<subseteq> set m" using Cons.IH by blast
  consider "k < k'" | "k = k'" | "\<not> k < k' \<and> k \<noteq> k'" by blast
  then show ?case
  proof cases
    case 1
    then show ?thesis by (intro exI [of _ "[]"] exI [of _ "kv # m"]) (simp add: kv)
  next
    case 2
    then show ?thesis by (intro exI [of _ "[]"] exI [of _ m]) (auto simp: kv)
  next
    case 3
    then have "omap_put k v (kv # m) = (kv # xs) @ (k, v) # ys" using IH by (simp add: kv)
    moreover have "set ((kv # xs) @ ys) \<subseteq> set (kv # m)" using IH(2) by auto
    ultimately show ?thesis by blast
  qed
qed

lemma silent_subset: "set m' \<subseteq> set m \<Longrightarrow> silent cb m \<Longrightarrow> silent cb m'"
  unfolding silent_def by blast

lemma reg_fresh:
  assumes "in_i64 (ms * 1000000)" and "map_of (m_eventHandlers tm) (ms * 1000000) = None" and "silent cb (m_eventHandlers tm)"
    and "timer_regEventHandler ms cb t0 tm = (tm', i)"
  obtains xs h ys k where "m_eventHandlers tm' = xs @ (ms * 1000000, h) # ys" and "silent cb xs" and "silent cb ys"
    and "callbackList (eh_event h) = [(k, cb)]" and "eh_regTime h = t0" and "eh_counter h = 0"
    and "m_unregedIds tm' = m_unregedIds tm"
proof -
  let ?h = "\<lparr>eh_event = fst (ev_reg cb ev_new), eh_regTime = t0, eh_counter = 0\<rparr>"
  have tm': "tm' = tm\<lparr>m_eventHandlers := omap_put (ms * 1000000) ?h (m_eventHandlers tm)\<rparr>"
    using assms(1,2,4) by (auto simp: timer_regEventHandler_def eh_new_def Let_def split: prod.splits)
  obtain xs ys where m: "omap_put (ms * 1000000) ?h (m_eventHandlers tm) = xs @ (ms * 1000000, ?h) # ys"
      "set (xs @ ys) \<subseteq> set (m_eventHandlers tm)"
    using omap_put_split [of "ms * 1000000" ?h "m_eventHandlers tm"] by blast
  have cl: "callbackList (eh_event ?h) = [(1, cb)]"
    by (simp add: callbackList_def ev_reg_def ev_new_def ftm_empty_def Let_def)
  have "silent cb xs" and "silent cb ys" using silent_subset [OF _ assms(3)] m(2) by simp_all
  then show ?thesis using that [of xs ?h ys 1] m(1) cl tm' by simp
qed

text \<open>C18:
  A timer calls a handler on schedule. After a handler is registered for an interval nobody else has, and
  while the clock goes forwards, the rounds of the timer's thread call it at most once for every multiple of the
  interval that the clock has passed, the time of the registration included; and when the rounds follow
  each other faster than the interval, exactly once for each. Other handlers do not change that. The
  clock counts nanoseconds in 63 bits, and the end of the next interval must still lie in that range.
\<close>

theorem timer_schedule:
  assumes "0 < ms" and "map_of (m_eventHandlers tm) (ms * 1000000) = None"
    and "silent cb (m_eventHandlers tm)" and "m_unregedIds tm = []"
    and "timer_regEventHandler ms cb t0 tm = (tm', i)" and "forwards (unat t0) ts"
    and "last_time (unat t0) ts + nat (ms * 1000000) < 2 ^ 63"
  shows "\<exists>pt calls. ptimer_rounds record_call ts (resume \<lparr>m_suspend = True, m_timer = tm'\<rparr>) [] = Inr (pt, calls)
    \<and> calls_of cb calls \<le> Suc ((last_time (unat t0) ts - unat t0) div nat (ms * 1000000))
    \<and> (steady (nat (ms * 1000000)) (unat t0) ts \<and> ts \<noteq> []
       \<longrightarrow> calls_of cb calls = Suc ((last_time (unat t0) ts - unat t0) div nat (ms * 1000000)))"
proof -
  have "nat (ms * 1000000) < 9223372036854775808" using assms(7) by simp
  then have range: "in_i64 (ms * 1000000)" using assms(1) by (simp add: in_i64_def)
  obtain xs h ys k where r: "m_eventHandlers tm' = xs @ (ms * 1000000, h) # ys" "silent cb xs" "silent cb ys"
      "callbackList (eh_event h) = [(k, cb)]" "eh_regTime h = t0" "eh_counter h = 0" "m_unregedIds tm' = []"
    using reg_fresh [OF range assms(2,3,5)] assms(4) by metis
  have "0 < ms * 1000000" using assms(1) by simp
  from rounds_alone [OF this assms(6) order.refl assms(7), of "resume \<lparr>m_suspend = True, m_timer = tm'\<rparr>" xs h ys cb k "[]"] r
  show ?thesis by (simp add: resume_def calls_of_def)
qed

definition wtimer :: "nat timer" where
  "wtimer = fst (timer_regEventHandler 20 7 (5 :: u64) timer_new)"

text \<open>Beyond it the time of the next call is negative, and the handler is called in every round.\<close>

lemma emitTime_overflow:
  "emitTime 9223372036854000000 \<lparr>eh_event = e, eh_regTime = 5000000, eh_counter = 1\<rparr> < 0"
  by (simp add: emitTime_def sint_uint signed_take_bit_eq_take_bit_shift take_bit_eq_mod)

theorem timer_schedule_witness:
  "\<exists>pt calls. ptimer_rounds record_call [(5 + 1000000, ()), (5 + 10000000, ()), (5 + 12000000, ()), (5 + 21000000, ())]
      (resume \<lparr>m_suspend = True, m_timer = fst (timer_regEventHandler 10 3 5 wtimer)\<rparr>) [] = Inr (pt, calls)
    \<and> calls_of 3 calls = 3"
proof -
  have "silent 3 (m_eventHandlers wtimer)" "map_of (m_eventHandlers wtimer) (10 * 1000000) = None" "m_unregedIds wtimer = []"
    by (simp_all add: wtimer_def timer_regEventHandler_def timer_new_def eh_new_def ev_reg_def ev_new_def ftm_empty_def
        Let_def silent_def callbackList_def to_i64_def)
  then show ?thesis
    using timer_schedule [of 10 wtimer 3 5 "fst (timer_regEventHandler 10 3 5 wtimer)" "snd (timer_regEventHandler 10 3 5 wtimer)"
        "[(5 + 1000000, ()), (5 + 10000000, ()), (5 + 12000000, ()), (5 + 21000000, ())]"]
    by auto
qed

text \<open>The subscription of an event. Registering gives an id nobody has and puts the handler behind the others, so
  that it is called last; unregistering takes the handler of that id and leaves the ids of the others as they were,
  but when one handler is left it takes that one whatever the id.
\<close>

theorem event_registry:
  assumes "ev_inv e" and "ev_lastRegID e \<noteq> - 1"
  shows "(\<exists>e' i. ev_reg cb e = (e', i) \<and> ev_inv e' \<and> i \<noteq> 0 \<and> ev_handler e i = None
        \<and> ev_handler e' = (ev_handler e)(i \<mapsto> cb) \<and> ev_raise run a e' s = run cb a (ev_raise run a e s))
    \<and> (\<exists>e'. ev_unreg j e = Inr e' \<and> ev_inv e'
        \<and> ev_handler e' = (if length (callbackList e) = 1 then Map.empty else (ev_handler e)(j := None)))"
proof -
  obtain e' i where r: "ev_reg cb e = (e', i)" by force
  note ok = ev_reg_ok [OF assms r]
  have "i \<in> fst ` set (callbackList e')" using ok(4) by simp
  then have "i \<noteq> 0" using ok(1) by (auto simp: ev_inv_def)
  moreover have "ev_raise run a e' s = run cb a (ev_raise run a e s)"
    using ok(4) by (simp add: ev_raise_def call_all_append)
  ultimately show ?thesis using r ok(1-3) ev_unreg_ok [OF assms(1), of j] by blast
qed

theorem event_registry_witness:
  "\<exists>e'. ev_unreg 9 (fst (ev_reg (7 :: nat) ev_new)) = Inr e' \<and> ev_handler e' = Map.empty"
proof -
  let ?e = "fst (ev_reg (7 :: nat) ev_new)"
  have "ev_inv ?e" using ev_reg_ok(1) [OF ev_inv_new _ prod.collapse [symmetric]] by (simp add: ev_new_def)
  moreover have "ev_lastRegID ?e \<noteq> - 1" and "length (callbackList ?e) = 1"
    by (simp_all add: ev_reg_def ev_new_def ftm_empty_def callbackList_def Let_def)
  ultimately show ?thesis using event_registry [of ?e, THEN conjunct2, of 9] by auto
qed

end
