(* ===== verification/ProcessThreads.thy ===== *)
theory ProcessThreads
  imports Timers "HOL-Library.Char_ord" "HOL-Library.List_Lexorder"
begin

text \<open>
  The threads of a process: \<open>Process::lanchThreads\<close>, \<open>joinThreads\<close>, \<open>stop\<close> and \<open>start\<close> of
  \<^verbatim>\<open>base/process.cpp\<close> over \<open>ProcessThread\<close> of \<^verbatim>\<open>base/process_thread.cpp\<close>. What the main
  thread observes in a round, the number of private connections and whether a thread has returned,
  is an argument. A process without a http server has no thread of http connections.
\<close>

section \<open>Threads\<close>

datatype thread = PrivateServer | PrivateClient | PublicServer | HttpServer | HttpConns | ConnChecker
  | FlashServer | FlashHandler | TcpConns | MainTimer

text \<open>A thread may end with an exception, one of the two kinds that \<open>start\<close> names or another.\<close>

datatype waitRet = WaitTimeout | WaitDone bool | WaitThrew bool

text \<open>
  \<open>th_future\<close>: the threads whose result can still be taken. A second \<open>run\<close> of an object does not occur.
\<close>

record process =
  th_on :: "thread \<Rightarrow> bool"
  th_future :: "thread list"
  th_closed :: "thread list"
  th_table :: "(string \<times> thread) list"
  th_suspend :: bool

definition process_init :: process where
  "process_init = \<lparr>th_on = (\<lambda>t. False), th_future = [], th_closed = [], th_table = [], th_suspend = False\<rparr>"

definition run_thread :: "thread \<Rightarrow> process \<Rightarrow> process" where
  "run_thread t p = p\<lparr>th_on := (th_on p)(t := True), th_future := t # th_future p\<rparr>"

text \<open>The event of a thread that closes is raised once.\<close>

definition stop_thread :: "thread \<Rightarrow> process \<Rightarrow> process" where
  "stop_thread t p = (if th_on p t then p\<lparr>th_on := (th_on p)(t := False), th_closed := th_closed p @ [t]\<rparr> else p)"

section \<open>Start\<close>

record procCfg =
  cfg_privateListen :: bool
  cfg_connect :: nat
  cfg_public :: bool
  cfg_flash :: bool
  cfg_http :: bool

definition table_insert :: "string \<Rightarrow> thread \<Rightarrow> process \<Rightarrow> process" where
  "table_insert name t p =
     (if map_of (th_table p) name = None then p\<lparr>th_table := omap_put name t (th_table p)\<rparr> else p)"

definition launch :: "bool \<Rightarrow> string \<Rightarrow> thread \<Rightarrow> process \<Rightarrow> process" where
  "launch present name t p = (if present then table_insert name t (run_thread t p) else p)"

text \<open>The http connections are run, but it is the main timer that is entered under their name.\<close>

definition launch_httpConns :: "bool \<Rightarrow> process \<Rightarrow> process" where
  "launch_httpConns present p = (if present then table_insert ''http conns'' MainTimer (run_thread HttpConns p) else p)"

definition launch_timer :: "process \<Rightarrow> process" where
  "launch_timer p = table_insert ''main timer'' MainTimer (run_thread MainTimer (p\<lparr>th_suspend := True\<rparr>))"

definition lanchThreads :: "procCfg \<Rightarrow> process \<Rightarrow> process" where
  "lanchThreads cfg p =
     launch_timer
       (launch True ''tcp conns'' TcpConns
       (launch (cfg_flash cfg) ''flash sandbox handler'' FlashHandler
       (launch (cfg_flash cfg) ''flash sandbox server'' FlashServer
       (launch True ''connection checker'' ConnChecker
       (launch_httpConns (cfg_http cfg)
       (launch (cfg_http cfg) ''http server'' HttpServer
       (launch (cfg_public cfg) ''public server'' PublicServer
       (launch (0 < cfg_connect cfg) ''private client'' PrivateClient
       (launch (cfg_privateListen cfg) ''private server'' PrivateServer p)))))))))"

section \<open>Stop and join\<close>

definition process_stop :: "process \<Rightarrow> process" where
  "process_stop p = fold (\<lambda>(name, t). stop_thread t) (th_table p) p"

datatype joinFault = FutureNoState | ThreadException bool

text \<open>
  The loop over the table ends at the first thread that has returned. An exception leaves the
  process as it is at that moment.
\<close>

fun join_loop :: "(thread \<Rightarrow> waitRet) \<Rightarrow> (string \<times> thread) list \<Rightarrow> process \<Rightarrow> joinFault option \<times> process" where
  "join_loop obs [] p = (None, p)"
| "join_loop obs ((name, t) # ts) p =
     (if t \<notin> set (th_future p) then (Some FutureNoState, p)
      else case obs t of
             WaitTimeout \<Rightarrow> join_loop obs ts p
           | WaitThrew known \<Rightarrow> (Some (ThreadException known), p\<lparr>th_future := removeAll t (th_future p)\<rparr>)
           | WaitDone ok \<Rightarrow>
               let p = p\<lparr>th_future := removeAll t (th_future p)\<rparr>;
                   p = (if ok then p else process_stop p)
               in (None, p\<lparr>th_table := filter (\<lambda>(n, _). n \<noteq> name) (th_table p)\<rparr>))"

definition resume_timer :: "procCfg \<Rightarrow> u32 \<Rightarrow> process \<Rightarrow> process" where
  "resume_timer cfg n p = (if th_suspend p \<and> unat n = cfg_connect cfg then p\<lparr>th_suspend := False\<rparr> else p)"

text \<open>
  What happens to the main thread: a round of \<open>joinThreads\<close>, with the number of private connections
  and what it finds of each thread, or a signal to end that is delivered to it, whose handler calls \<open>stop\<close>.
\<close>

datatype mainEvent = Look u32 "thread \<Rightarrow> waitRet" | Signal

fun joinThreads :: "procCfg \<Rightarrow> mainEvent list \<Rightarrow> process \<Rightarrow> joinFault option \<times> process" where
  "joinThreads cfg [] p = (None, p)"
| "joinThreads cfg (Look n obs # evs) p =
     (if th_table p = [] then (None, p)
      else case join_loop obs (th_table p) (resume_timer cfg n p) of
             (Some e, p) \<Rightarrow> (Some e, p)
           | (None, p) \<Rightarrow> joinThreads cfg evs p)"
| "joinThreads cfg (Signal # evs) p =
     (if th_table p = [] then (None, p) else joinThreads cfg evs (process_stop p))"

text \<open>
  \<open>start\<close> stops the threads when an exception comes out of the loop that is of a kind it names, and
  returns. The flag is the exception.
\<close>

definition process_start :: "procCfg \<Rightarrow> mainEvent list \<Rightarrow> process \<times> bool" where
  "process_start cfg evs =
     (case joinThreads cfg evs (lanchThreads cfg process_init) of
        (None, p) \<Rightarrow> (p, False)
      | (Some e, p) \<Rightarrow> (if e = ThreadException False then p else process_stop p, True))"

section \<open>The table\<close>

definition running_table :: "process \<Rightarrow> bool" where
  "running_table p \<longleftrightarrow> distinct (map fst (th_table p)) \<and> distinct (map snd (th_table p))
     \<and> snd ` set (th_table p) \<subseteq> set (th_future p)"

lemma stop_thread_frame [simp]:
  "th_table (stop_thread t p) = th_table p" "th_future (stop_thread t p) = th_future p"
  "th_suspend (stop_thread t p) = th_suspend p" "th_on (stop_thread t p) u \<longleftrightarrow> th_on p u \<and> u \<noteq> t"
  by (simp_all add: stop_thread_def)

lemma stop_fold:
  "(th_on (fold (\<lambda>(name, t). stop_thread t) ts p) t \<longleftrightarrow> th_on p t \<and> t \<notin> snd ` set ts)
   \<and> th_table (fold (\<lambda>(name, t). stop_thread t) ts p) = th_table p
   \<and> th_future (fold (\<lambda>(name, t). stop_thread t) ts p) = th_future p
   \<and> th_suspend (fold (\<lambda>(name, t). stop_thread t) ts p) = th_suspend p"
proof (induction ts arbitrary: p)
  case (Cons x ts)
  obtain name u where "x = (name, u)" by force
  with Cons.IH [of "stop_thread u p"] show ?case by auto
qed simp

lemma process_stop_frame [simp]:
  "th_table (process_stop p) = th_table p" "th_future (process_stop p) = th_future p"
  "th_suspend (process_stop p) = th_suspend p" "th_on (process_stop p) t \<longleftrightarrow> th_on p t \<and> t \<notin> snd ` set (th_table p)"
  unfolding process_stop_def using stop_fold [of "th_table p" p t] by blast+

lemma set_omap_put: "k \<notin> fst ` set m \<Longrightarrow> set (omap_put k v m) = insert (k, v) (set m)"
proof (induction m)
  case (Cons kv m)
  obtain k' v' where "kv = (k', v')" by force
  with Cons show ?case by auto
qed simp

lemma distinct_omap_put:
  "k \<notin> fst ` set m \<Longrightarrow> distinct (map fst (omap_put k v m)) = distinct (map fst m)"
proof (induction m)
  case (Cons kv m)
  obtain k' v' where kv: "kv = (k', v')" by force
  with Cons have "k \<notin> fst ` set m" "k \<noteq> k'" by auto
  with Cons kv set_omap_put [of k m v] show ?case by auto
qed simp

definition names :: "process \<Rightarrow> string set" where "names p = fst ` set (th_table p)"
definition entered :: "process \<Rightarrow> thread set" where "entered p = snd ` set (th_table p)"

lemma insert_fresh:
  assumes "name \<notin> names p"
  shows "names (table_insert name t p) = insert name (names p)" "entered (table_insert name t p) = insert t (entered p)"
    "distinct (map fst (th_table (table_insert name t p))) = distinct (map fst (th_table p))"
    "length (th_table (table_insert name t p)) = Suc (length (th_table p))"
proof -
  have k: "name \<notin> fst ` set (th_table p)" using assms by (simp add: names_def)
  then have "map_of (th_table p) name = None" by (simp add: map_of_eq_None_iff)
  then have i: "table_insert name t p = p\<lparr>th_table := omap_put name t (th_table p)\<rparr>" by (simp add: table_insert_def)
  have "length (omap_put name t m) = Suc (length m)" if "name \<notin> fst ` set m" for m
    using that
  proof (induction m)
    case (Cons kv m)
    then show ?case by (cases kv) auto
  qed simp
  with k set_omap_put [OF k, of t] distinct_omap_put [OF k, of t] i
  show "names (table_insert name t p) = insert name (names p)" "entered (table_insert name t p) = insert t (entered p)"
    "distinct (map fst (th_table (table_insert name t p))) = distinct (map fst (th_table p))"
    "length (th_table (table_insert name t p)) = Suc (length (th_table p))"
    by (simp_all add: names_def entered_def)
qed

lemma insert_frame [simp]:
  "th_on (table_insert name t p) = th_on p" "th_future (table_insert name t p) = th_future p"
  "th_suspend (table_insert name t p) = th_suspend p"
  by (simp_all add: table_insert_def)

lemma run_frame [simp]:
  "names (run_thread t p) = names p" "entered (run_thread t p) = entered p"
  "th_table (run_thread t p) = th_table p" "th_suspend (run_thread t p) = th_suspend p"
  "names (p\<lparr>th_suspend := b\<rparr>) = names p" "entered (p\<lparr>th_suspend := b\<rparr>) = entered p"
  "th_on (run_thread t p) u = (u = t \<or> th_on p u)" "set (th_future (run_thread t p)) = insert t (set (th_future p))"
  by (simp_all add: run_thread_def names_def entered_def)

text \<open>What a step of the start adds: \<open>table\<close> collects the names, the threads entered, those running, and the size.\<close>

definition started :: "process \<Rightarrow> string set \<Rightarrow> thread set \<Rightarrow> thread set \<Rightarrow> nat \<Rightarrow> bool" where
  "started p ns es ts n \<longleftrightarrow> names p = ns \<and> entered p = es \<and> {t. th_on p t} = ts \<and> set (th_future p) = ts
     \<and> distinct (map fst (th_table p)) \<and> length (th_table p) = n"

lemma started_init: "started process_init {} {} {} 0"
  by (simp add: started_def process_init_def names_def entered_def)

lemma started_launch:
  assumes "started p ns es ts n" and "name \<notin> ns"
  shows "started (launch b name t p) (if b then insert name ns else ns) (if b then insert t es else es)
    (if b then insert t ts else ts) (if b then Suc n else n)"
  using assms insert_fresh [of name "run_thread t p" t] by (auto simp: started_def launch_def)

lemma started_http:
  assumes "started p ns es ts n" and "''http conns'' \<notin> ns"
  shows "started (launch_httpConns b p) (if b then insert ''http conns'' ns else ns) (if b then insert MainTimer es else es)
    (if b then insert HttpConns ts else ts) (if b then Suc n else n)"
  using assms insert_fresh [of "''http conns''" "run_thread HttpConns p" MainTimer] by (auto simp: started_def launch_httpConns_def)

lemma started_timer:
  assumes "started p ns es ts n" and "''main timer'' \<notin> ns"
  shows "started (launch_timer p) (insert ''main timer'' ns) (insert MainTimer es) (insert MainTimer ts) (Suc n)"
  using assms insert_fresh [of "''main timer''" "run_thread MainTimer (p\<lparr>th_suspend := True\<rparr>)" MainTimer]
  by (auto simp: started_def launch_timer_def)

definition launched :: "procCfg \<Rightarrow> thread set" where
  "launched cfg = {t. case t of PrivateServer \<Rightarrow> cfg_privateListen cfg | PrivateClient \<Rightarrow> 0 < cfg_connect cfg
     | PublicServer \<Rightarrow> cfg_public cfg | HttpServer \<Rightarrow> cfg_http cfg | HttpConns \<Rightarrow> cfg_http cfg
     | FlashServer \<Rightarrow> cfg_flash cfg | FlashHandler \<Rightarrow> cfg_flash cfg | _ \<Rightarrow> True}"

lemma started_cong: "started p ns es ts n \<Longrightarrow> es = es' \<Longrightarrow> ts = ts' \<Longrightarrow> n = n' \<Longrightarrow> started p ns es' ts' n'"
  by simp

lemma lanch_started:
  "\<exists>ns. started (lanchThreads cfg process_init) ns (launched cfg - {HttpConns}) (launched cfg) (card (launched cfg))"
proof -
  let ?n0 = "{} :: string set"
  let ?n1 = "if cfg_privateListen cfg then insert ''private server'' ?n0 else ?n0"
  let ?n2 = "if 0 < cfg_connect cfg then insert ''private client'' ?n1 else ?n1"
  let ?n3 = "if cfg_public cfg then insert ''public server'' ?n2 else ?n2"
  let ?n4 = "if cfg_http cfg then insert ''http server'' ?n3 else ?n3"
  let ?n5 = "if cfg_http cfg then insert ''http conns'' ?n4 else ?n4"
  let ?n6 = "if True then insert ''connection checker'' ?n5 else ?n5"
  let ?n7 = "if cfg_flash cfg then insert ''flash sandbox server'' ?n6 else ?n6"
  let ?n8 = "if cfg_flash cfg then insert ''flash sandbox handler'' ?n7 else ?n7"
  let ?n9 = "if True then insert ''tcp conns'' ?n8 else ?n8"
  have "''private server'' \<notin> ?n0" by simp
  note s1 = started_launch [OF started_init this, of "cfg_privateListen cfg" PrivateServer]
  have "''private client'' \<notin> ?n1" by simp
  note s2 = started_launch [OF s1 this, of "0 < cfg_connect cfg" PrivateClient]
  have "''public server'' \<notin> ?n2" by simp
  note s3 = started_launch [OF s2 this, of "cfg_public cfg" PublicServer]
  have "''http server'' \<notin> ?n3" by simp
  note s4 = started_launch [OF s3 this, of "cfg_http cfg" HttpServer]
  have "''http conns'' \<notin> ?n4" by simp
  note s5 = started_http [OF s4 this, of "cfg_http cfg"]
  have "''connection checker'' \<notin> ?n5" by simp
  note s6 = started_launch [OF s5 this, of "True" ConnChecker]
  have "''flash sandbox server'' \<notin> ?n6" by simp
  note s7 = started_launch [OF s6 this, of "cfg_flash cfg" FlashServer]
  have "''flash sandbox handler'' \<notin> ?n7" by simp
  note s8 = started_launch [OF s7 this, of "cfg_flash cfg" FlashHandler]
  have "''tcp conns'' \<notin> ?n8" by simp
  note s9 = started_launch [OF s8 this, of "True" TcpConns]
  have "''main timer'' \<notin> ?n9" by simp
  note s10 = started_timer [OF s9 this]
  have all: "launched cfg = (if cfg_privateListen cfg then {PrivateServer} else {}) \<union> (if 0 < cfg_connect cfg then {PrivateClient} else {})
    \<union> (if cfg_public cfg then {PublicServer} else {}) \<union> (if cfg_http cfg then {HttpServer, HttpConns} else {})
    \<union> (if cfg_flash cfg then {FlashServer, FlashHandler} else {}) \<union> {ConnChecker, TcpConns, MainTimer}"
    (is "_ = ?all")
  proof (rule set_eqI)
    fix t
    show "t \<in> launched cfg \<longleftrightarrow> t \<in> ?all" by (cases t) (simp_all add: launched_def)
  qed
  show ?thesis
    unfolding lanchThreads_def all
    by (rule exI, rule started_cong [OF s10]) (auto split: if_splits)
qed

section \<open>Joining\<close>

text \<open>The threads have been entered once each, and their results are all there to be taken.\<close>

definition takeable :: "process \<Rightarrow> bool" where
  "takeable p \<longleftrightarrow> distinct (map snd (th_table p)) \<and> snd ` set (th_table p) \<subseteq> set (th_future p)"

definition quiet :: "mainEvent \<Rightarrow> bool" where
  "quiet ev \<longleftrightarrow> (\<exists>n obs. ev = Look n obs \<and> (\<forall>t. obs t = WaitTimeout))"

definition all_done :: "mainEvent \<Rightarrow> bool" where
  "all_done ev \<longleftrightarrow> (\<exists>n obs. ev = Look n obs \<and> (\<forall>t. obs t = WaitDone True))"

text \<open>No thread fails: a round finds each running or ended with success.\<close>

definition in_order :: "mainEvent \<Rightarrow> bool" where
  "in_order ev \<longleftrightarrow> (\<forall>n obs t. ev = Look n obs \<longrightarrow> obs t \<in> {WaitTimeout, WaitDone True})"

lemma resume_frame [simp]:
  "th_table (resume_timer cfg n p) = th_table p" "th_future (resume_timer cfg n p) = th_future p"
  "th_on (resume_timer cfg n p) = th_on p"
  by (simp_all add: resume_timer_def)

text \<open>
  A round in which no thread fails: the first that has ended leaves the table and its result is
  taken, unless a thread without a result comes before it.
\<close>

lemma join_round:
  assumes "th_table p = xs @ ts" and "distinct (map fst (th_table p))"
    and "\<forall>t. obs t \<in> {WaitTimeout, WaitDone True}" and "join_loop obs ts p = (f, q)"
  shows "th_on q = th_on p
    \<and> (case f of Some e \<Rightarrow> q = p \<and> e = FutureNoState \<and> \<not> snd ` set ts \<subseteq> set (th_future p)
       | None \<Rightarrow> (q = p \<and> (\<forall>t \<in> snd ` set ts. obs t = WaitTimeout \<and> t \<in> set (th_future p)))
          \<or> (\<exists>ys name t zs. ts = ys @ (name, t) # zs \<and> t \<in> set (th_future p) \<and> th_table q = xs @ ys @ zs
               \<and> set (th_future q) = set (th_future p) - {t}))"
  using assms
proof (induction ts arbitrary: xs)
  case (Cons x ts)
  obtain name t where x: "x = (name, t)" by force
  show ?case
  proof (cases "t \<in> set (th_future p)")
    case False
    then show ?thesis using Cons.prems(4) by (auto simp: x)
  next
    case True
    consider (run) "obs t = WaitTimeout" | (ended) "obs t = WaitDone True" using Cons.prems(3) by auto
    then show ?thesis
    proof cases
      case run
      then have "join_loop obs ts p = (f, q)" using Cons.prems(4) True by (simp add: x)
      from Cons.IH [of "xs @ [x]", OF _ Cons.prems(2,3) this] Cons.prems(1) have
        on: "th_on q = th_on p" and
        r: "case f of Some e \<Rightarrow> q = p \<and> e = FutureNoState \<and> \<not> snd ` set ts \<subseteq> set (th_future p)
           | None \<Rightarrow> (q = p \<and> (\<forall>t \<in> snd ` set ts. obs t = WaitTimeout \<and> t \<in> set (th_future p)))
              \<or> (\<exists>ys name t zs. ts = ys @ (name, t) # zs \<and> t \<in> set (th_future p) \<and> th_table q = (xs @ [x]) @ ys @ zs
                   \<and> set (th_future q) = set (th_future p) - {t})" by simp_all
      show ?thesis
      proof (cases f)
        case (Some e)
        then show ?thesis using r on by (auto simp: x)
      next
        case None
        from r [unfolded None option.case] show ?thesis
        proof
          assume "q = p \<and> (\<forall>t \<in> snd ` set ts. obs t = WaitTimeout \<and> t \<in> set (th_future p))"
          then show ?thesis using on run True None by (simp add: x)
        next
          assume "\<exists>ys name t zs. ts = ys @ (name, t) # zs \<and> t \<in> set (th_future p) \<and> th_table q = (xs @ [x]) @ ys @ zs
            \<and> set (th_future q) = set (th_future p) - {t}"
          then obtain ys name' t' zs where "x # ts = (x # ys) @ (name', t') # zs" "t' \<in> set (th_future p)"
            "th_table q = xs @ (x # ys) @ zs" "set (th_future q) = set (th_future p) - {t'}" by auto
          then show ?thesis using on None by (simp only: option.case) blast
        qed
      qed
    next
      case ended
      have "name \<notin> fst ` set (xs @ ts)" using Cons.prems(1,2) by (auto simp: x)
      then have "\<forall>y \<in> set (xs @ ts). (\<lambda>(n, _). n \<noteq> name) y" by force
      then have "filter (\<lambda>(n, _). n \<noteq> name) (xs @ ts) = xs @ ts" by (rule filter_True)
      then have "filter (\<lambda>(n, _). n \<noteq> name) (th_table p) = xs @ ts" using Cons.prems(1) by (simp add: x)
      then have "f = None" "th_on q = th_on p" "th_table q = xs @ [] @ ts" "set (th_future q) = set (th_future p) - {t}"
        using Cons.prems(4) True ended by (auto simp: x)
      moreover have "x # ts = [] @ (name, t) # ts" by (simp add: x)
      ultimately show ?thesis using True by (simp only: option.case) blast
    qed
  qed
qed simp

lemma takeable_step:
  assumes "th_table p = ys @ (name, t) # zs" and "t \<in> set (th_future p)" and "th_table q = ys @ zs"
    and "set (th_future q) = set (th_future p) - {t}"
  shows "takeable q \<longleftrightarrow> takeable p"
  using assms by (auto simp: takeable_def)

text \<open>What no event changes: a thread that is not in the table, and that none is switched on or entered.\<close>

definition keeps :: "process \<Rightarrow> process \<Rightarrow> bool" where
  "keeps p q \<longleftrightarrow> (\<forall>t. th_on q t \<longrightarrow> th_on p t) \<and> snd ` set (th_table q) \<subseteq> snd ` set (th_table p)
    \<and> (\<forall>t. t \<notin> snd ` set (th_table p) \<longrightarrow> th_on q t = th_on p t \<and> (t \<in> set (th_future q) \<longleftrightarrow> t \<in> set (th_future p)))
    \<and> (distinct (map fst (th_table p)) \<longrightarrow> distinct (map fst (th_table q)))"

lemma keeps_refl: "keeps p p"
  by (simp add: keeps_def)

lemma keeps_trans:
  assumes "keeps p q" and "keeps q r"
  shows "keeps p r"
proof -
  have "th_on r t = th_on p t \<and> (t \<in> set (th_future r) \<longleftrightarrow> t \<in> set (th_future p))"
    if "t \<notin> snd ` set (th_table p)" for t
  proof -
    have "t \<notin> snd ` set (th_table q)" using that assms(1) by (auto simp: keeps_def)
    then show ?thesis using that assms by (simp add: keeps_def)
  qed
  then show ?thesis using assms unfolding keeps_def by (meson subset_trans)
qed

lemma keeps_stop: "keeps p (process_stop p)"
  by (simp add: keeps_def)

lemma keeps_resume: "keeps p (resume_timer cfg n p)"
  by (simp add: keeps_def)

lemma keeps_taken:
  assumes "th_table p = ys @ (name, t) # zs" and "th_table q = ys @ zs" and "set (th_future q) = set (th_future p) - {t}"
    and "th_on q = th_on p"
  shows "keeps p q"
  using assms by (auto simp: keeps_def)

lemma round_keeps:
  assumes "join_loop obs (th_table p) p = (f, q)" and "distinct (map fst (th_table p))"
    and "\<forall>t. obs t \<in> {WaitTimeout, WaitDone True}"
  shows "keeps p q"
proof -
  have on: "th_on q = th_on p" and c: "q = p \<or> (\<exists>ys name t zs. th_table p = ys @ (name, t) # zs \<and> th_table q = ys @ zs
      \<and> set (th_future q) = set (th_future p) - {t})"
    using join_round [of p "[]", OF _ assms(2,3,1)] by (auto split: option.splits)
  from c show ?thesis
  proof (elim disjE exE conjE)
    show ?thesis if "q = p" using that keeps_refl by simp
  qed (rule keeps_taken [OF _ _ _ on])
qed

lemma join_keeps:
  assumes "joinThreads cfg evs p = (f, q)" and "distinct (map fst (th_table p))" and "\<forall>ev \<in> set evs. in_order ev"
  shows "keeps p q"
  using assms
proof (induction evs arbitrary: p)
  case Nil
  then show ?case by (simp add: keeps_refl)
next
  case (Cons ev evs)
  have more: "keeps p q" if "joinThreads cfg evs r = (f, q)" "keeps p r" for r
  proof -
    have "distinct (map fst (th_table r))" using that(2) Cons.prems(2) by (simp add: keeps_def)
    then have "keeps r q" using Cons.IH [OF that(1)] Cons.prems(3) by simp
    with that(2) show ?thesis by (rule keeps_trans)
  qed
  show ?case
  proof (cases ev)
    case Signal
    then show ?thesis using Cons.prems(1) more [of "process_stop p"] keeps_stop keeps_refl
      by (auto split: if_splits)
  next
    case (Look n obs)
    let ?p = "resume_timer cfg n p"
    obtain g r where g: "join_loop obs (th_table ?p) ?p = (g, r)" by force
    have "\<forall>t. obs t \<in> {WaitTimeout, WaitDone True}" using Cons.prems(3) Look by (simp add: in_order_def)
    from round_keeps [OF g _ this] Cons.prems(2) have "keeps p r"
      using keeps_trans [OF keeps_resume] by simp
    then show ?thesis using Cons.prems(1) Look g more keeps_refl by (auto split: if_splits option.splits)
  qed
qed

text \<open>
  When the rounds in which all have ended are as many as the entries, either every entry is joined, or
  the result of an entry is missing.
\<close>

lemma not_done: "\<not> all_done Signal"
  by (simp add: all_done_def)

lemma join_all:
  assumes "length (th_table p) \<le> length (filter all_done evs)" and "distinct (map fst (th_table p))"
    and "\<forall>ev \<in> set evs. in_order ev"
  shows "\<exists>q. joinThreads cfg evs p = (if takeable p then None else Some FutureNoState, q)
    \<and> (takeable p \<longrightarrow> th_table q = [] \<and> set (th_future q) = set (th_future p) - snd ` set (th_table p))"
  using assms
proof (induction evs arbitrary: p)
  case Nil
  then show ?case by (simp add: takeable_def)
next
  case (Cons ev evs)
  show ?case
  proof (cases "th_table p = []")
    case True
    then show ?thesis by (cases ev) (auto simp: takeable_def)
  next
    case False
    show ?thesis
    proof (cases ev)
      case Signal
      then have "length (th_table (process_stop p)) \<le> length (filter all_done evs)"
        using Cons.prems(1) not_done by simp
      from Cons.IH [OF this] Cons.prems(2,3) show ?thesis using Signal False by (simp add: takeable_def)
    next
      case (Look n obs)
      let ?p = "resume_timer cfg n p"
      obtain g r where g: "join_loop obs (th_table ?p) ?p = (g, r)" by force
      have "\<forall>t. obs t \<in> {WaitTimeout, WaitDone True}" using Cons.prems(3) Look by (simp add: in_order_def)
      from join_round [of ?p "[]", OF _ _ this g] Cons.prems(2)
      have c: "case g of Some e \<Rightarrow> r = ?p \<and> e = FutureNoState \<and> \<not> snd ` set (th_table p) \<subseteq> set (th_future p)
         | None \<Rightarrow> (r = ?p \<and> (\<forall>t \<in> snd ` set (th_table p). obs t = WaitTimeout))
          \<or> (\<exists>ys name t zs. th_table p = ys @ (name, t) # zs \<and> t \<in> set (th_future p) \<and> th_table r = ys @ zs
             \<and> set (th_future r) = set (th_future p) - {t})"
        by (simp split: option.splits) blast
      show ?thesis
      proof (cases g)
        case (Some e)
        then show ?thesis using c Look False g by (simp add: takeable_def)
      next
        case None
        have step: "joinThreads cfg (ev # evs) p = joinThreads cfg evs r" using None Look False g by simp
        from c [unfolded None option.case] show ?thesis
        proof
          assume same: "r = ?p \<and> (\<forall>t \<in> snd ` set (th_table p). obs t = WaitTimeout)"
          obtain t where "obs t = WaitTimeout" using same False by (cases "th_table p") auto
          then have "obs t \<noteq> WaitDone True" by simp
          then have "\<not> all_done ev" using Look by (auto simp: all_done_def)
          then have "length (th_table r) \<le> length (filter all_done evs)" using Cons.prems(1) same by simp
          from Cons.IH [OF this] Cons.prems(2,3) same show ?thesis unfolding step by (simp add: takeable_def)
        next
          assume "\<exists>ys name t zs. th_table p = ys @ (name, t) # zs \<and> t \<in> set (th_future p) \<and> th_table r = ys @ zs
             \<and> set (th_future r) = set (th_future p) - {t}"
          then obtain ys name t zs where e: "th_table p = ys @ (name, t) # zs" "t \<in> set (th_future p)" "th_table r = ys @ zs"
             "set (th_future r) = set (th_future p) - {t}" by blast
          have "length (th_table r) \<le> length (filter all_done evs)" using Cons.prems(1) e by (simp split: if_splits)
          moreover have "distinct (map fst (th_table r))" using Cons.prems(2) e by auto
          ultimately obtain q where q: "joinThreads cfg evs r = (if takeable r then None else Some FutureNoState, q)"
            "takeable r \<longrightarrow> th_table q = [] \<and> set (th_future q) = set (th_future r) - snd ` set (th_table r)"
            using Cons.IH [of r] Cons.prems(3) by auto
          have "set (th_future r) - snd ` set (th_table r) = set (th_future p) - snd ` set (th_table p)"
            using e by auto
          then show ?thesis using q takeable_step [OF e] unfolding step by simp
        qed
      qed
    qed
  qed
qed

text \<open>While all threads run nothing is joined, and the timer is resumed by the first round with the right number.\<close>

lemma loop_quiet:
  "snd ` set ts \<subseteq> set (th_future p) \<Longrightarrow> \<forall>t. obs t = WaitTimeout \<Longrightarrow> join_loop obs ts p = (None, p)"
  by (induction ts) auto

lemma join_quiet:
  assumes "snd ` set (th_table p) \<subseteq> set (th_future p)" and "th_table p \<noteq> []" and "\<forall>ev \<in> set evs. quiet ev"
  shows "joinThreads cfg (evs @ rest) p = joinThreads cfg rest
    (p\<lparr>th_suspend := th_suspend p \<and> (\<forall>n obs. Look n obs \<in> set evs \<longrightarrow> unat n \<noteq> cfg_connect cfg)\<rparr>)"
  using assms
proof (induction evs arbitrary: p)
  case (Cons ev evs)
  then obtain n obs where ev: "ev = Look n obs" "\<forall>t. obs t = WaitTimeout" by (auto simp: quiet_def)
  let ?p = "resume_timer cfg n p"
  have p: "?p = p\<lparr>th_suspend := th_suspend p \<and> unat n \<noteq> cfg_connect cfg\<rparr>"
    by (cases p) (auto simp: resume_timer_def)
  have "join_loop obs (th_table p) ?p = (None, ?p)" using Cons.prems ev by (intro loop_quiet) auto
  then have "joinThreads cfg ((ev # evs) @ rest) p = joinThreads cfg (evs @ rest) ?p" using Cons.prems(2) by (simp add: ev)
  also have "\<dots> = joinThreads cfg rest
    (?p\<lparr>th_suspend := th_suspend ?p \<and> (\<forall>n obs. Look n obs \<in> set evs \<longrightarrow> unat n \<noteq> cfg_connect cfg)\<rparr>)"
    using Cons.prems by (intro Cons.IH) auto
  also have "?p\<lparr>th_suspend := th_suspend ?p \<and> (\<forall>n obs. Look n obs \<in> set evs \<longrightarrow> unat n \<noteq> cfg_connect cfg)\<rparr>
    = p\<lparr>th_suspend := (th_suspend p \<and> unat n \<noteq> cfg_connect cfg)
    \<and> (\<forall>n obs. Look n obs \<in> set evs \<longrightarrow> unat n \<noteq> cfg_connect cfg)\<rparr>"
    by (simp add: p)
  also have "((th_suspend p \<and> unat n \<noteq> cfg_connect cfg) \<and> (\<forall>n obs. Look n obs \<in> set evs \<longrightarrow> unat n \<noteq> cfg_connect cfg))
    \<longleftrightarrow> (th_suspend p \<and> (\<forall>n obs. Look n obs \<in> set (ev # evs) \<longrightarrow> unat n \<noteq> cfg_connect cfg))"
    by (auto simp: ev)
  finally show ?case .
qed simp

lemma lanch_takeable:
  "\<exists>ns. started (lanchThreads cfg process_init) ns (launched cfg - {HttpConns}) (launched cfg) (card (launched cfg))
    \<and> (takeable (lanchThreads cfg process_init) \<longleftrightarrow> \<not> cfg_http cfg)
    \<and> snd ` set (th_table (lanchThreads cfg process_init)) \<subseteq> set (th_future (lanchThreads cfg process_init))
    \<and> th_table (lanchThreads cfg process_init) \<noteq> []"
proof -
  let ?p = "lanchThreads cfg process_init"
  obtain ns where st: "started ?p ns (launched cfg - {HttpConns}) (launched cfg) (card (launched cfg))"
    using lanch_started by blast
  have fin: "finite (launched cfg)" using st finite_set [of "th_future ?p"] by (simp add: started_def)
  have http: "HttpConns \<in> launched cfg \<longleftrightarrow> cfg_http cfg" by (simp add: launched_def)
  have sub: "snd ` set (th_table ?p) \<subseteq> set (th_future ?p)" using st by (auto simp: started_def entered_def)
  have "distinct (map snd (th_table ?p)) \<longleftrightarrow> card (launched cfg - {HttpConns}) = card (launched cfg)"
    using st distinct_card [of "map snd (th_table ?p)"] card_distinct [of "map snd (th_table ?p)"]
    by (auto simp: started_def entered_def)
  also have "\<dots> \<longleftrightarrow> \<not> cfg_http cfg"
    using http fin card_Diff1_less [of "launched cfg" HttpConns] by (cases "HttpConns \<in> launched cfg") auto
  finally have "takeable ?p \<longleftrightarrow> \<not> cfg_http cfg" using sub by (simp add: takeable_def)
  moreover have "MainTimer \<in> launched cfg" by (simp add: launched_def)
  then have "th_table ?p \<noteq> []" using st by (auto simp: started_def entered_def)
  ultimately show ?thesis using st sub by blast
qed

text \<open>A thread that is not in the table is left as it is, and none is switched on.\<close>

lemma start_keeps:
  assumes "\<forall>ev \<in> set evs. in_order ev" and "process_start cfg evs = (q, failed)"
  shows "(th_on q t \<longrightarrow> t \<in> launched cfg)
    \<and> (cfg_http cfg \<longrightarrow> th_on q HttpConns \<and> HttpConns \<in> set (th_future q))"
proof -
  let ?p = "lanchThreads cfg process_init"
  obtain ns where st: "started ?p ns (launched cfg - {HttpConns}) (launched cfg) (card (launched cfg))"
    using lanch_started by blast
  obtain f r where j: "joinThreads cfg evs ?p = (f, r)" by force
  have d: "distinct (map fst (th_table ?p))" "HttpConns \<notin> snd ` set (th_table ?p)"
    using st by (auto simp: started_def entered_def)
  have "cfg_http cfg \<longleftrightarrow> th_on ?p HttpConns \<and> HttpConns \<in> set (th_future ?p)"
    using st by (auto simp: started_def launched_def)
  moreover have "th_on ?p t \<longrightarrow> t \<in> launched cfg" using st by (auto simp: started_def)
  ultimately show ?thesis
    using join_keeps [OF j d(1) assms(1)] assms(2) j d(2)
    by (auto simp: keeps_def process_start_def split: option.splits if_splits)
qed

text \<open>What a signal that comes while all threads run leaves on: no thread that is in the table.\<close>

lemma start_stopped:
  assumes "\<forall>ev \<in> set (before @ Signal # after). in_order ev" and "\<forall>ev \<in> set before. quiet ev"
    and "process_start cfg (before @ Signal # after) = (q, failed)"
  shows "th_on q t \<longrightarrow> t = HttpConns"
proof -
  let ?p = "lanchThreads cfg process_init"
  let ?r = "?p\<lparr>th_suspend := th_suspend ?p \<and> (\<forall>n obs. Look n obs \<in> set before \<longrightarrow> unat n \<noteq> cfg_connect cfg)\<rparr>"
  obtain ns where st: "started ?p ns (launched cfg - {HttpConns}) (launched cfg) (card (launched cfg))"
    and sub: "snd ` set (th_table ?p) \<subseteq> set (th_future ?p)" "th_table ?p \<noteq> []"
    using lanch_takeable by blast
  obtain f s where j: "joinThreads cfg (before @ Signal # after) ?p = (f, s)" by force
  then have "joinThreads cfg after (process_stop ?r) = (f, s)"
    using join_quiet [OF sub assms(2), of cfg "Signal # after"] sub(2) by simp
  from join_keeps [OF this] st assms(1) have "th_on s t \<longrightarrow> th_on ?p t \<and> t \<notin> snd ` set (th_table ?p)"
    by (auto simp: keeps_def started_def)
  then have "th_on s t \<longrightarrow> t = HttpConns" using st by (auto simp: started_def entered_def)
  then show ?thesis using assms(3) j by (auto simp: process_start_def split: option.splits if_splits)
qed

text \<open>C37: Stopping and joining the threads of a process, when no thread fails and each returns: there are
  at least as many rounds that find all of them ended as threads were started, in whatever order with
  signals and with rounds that find some still running. Without a http server \<open>start\<close> then
  returns in order, with an empty table and with the result of every thread taken; and after a signal that came
  while all were running every thread is switched off. With a http server the table holds the main timer under the
  name of the http connections: its result is taken twice, so that \<open>start\<close> ends by an exception, and in the state it
  ends in the thread of the http connections is still switched on, with or without a signal, and its result was
  never taken.\<close>

theorem threads_joined:
  assumes "\<forall>ev \<in> set evs. in_order ev" and "card (launched cfg) \<le> length (filter all_done evs)"
  shows "case process_start cfg evs of (p, failed) \<Rightarrow>
    (if cfg_http cfg then failed \<and> th_on p HttpConns \<and> HttpConns \<in> set (th_future p)
     else \<not> failed \<and> th_table p = [] \<and> th_future p = [])
    \<and> (\<forall>before after. evs = before @ Signal # after \<and> (\<forall>ev \<in> set before. quiet ev) \<longrightarrow>
         {t. th_on p t} = (if cfg_http cfg then {HttpConns} else {}))"
proof -
  let ?p = "lanchThreads cfg process_init"
  obtain ns where st: "started ?p ns (launched cfg - {HttpConns}) (launched cfg) (card (launched cfg))"
    and tk: "takeable ?p \<longleftrightarrow> \<not> cfg_http cfg" using lanch_takeable by blast
  have len: "length (th_table ?p) \<le> length (filter all_done evs)" and d: "distinct (map fst (th_table ?p))"
    using st assms(2) by (simp_all add: started_def)
  obtain q where q: "joinThreads cfg evs ?p = (if takeable ?p then None else Some FutureNoState, q)"
    "takeable ?p \<longrightarrow> th_table q = [] \<and> set (th_future q) = set (th_future ?p) - snd ` set (th_table ?p)"
    using join_all [OF len d assms(1)] by blast
  obtain p failed where p: "process_start cfg evs = (p, failed)" by force
  have failed: "failed \<longleftrightarrow> cfg_http cfg" using p q(1) tk by (auto simp: process_start_def)
  have taken: "\<not> cfg_http cfg \<longrightarrow> th_table p = [] \<and> th_future p = []"
    using p q tk st by (auto simp: process_start_def started_def entered_def launched_def)
  have left: "cfg_http cfg \<longrightarrow> th_on p HttpConns \<and> HttpConns \<in> set (th_future p)"
    using start_keeps [OF assms(1) p] by blast
  have off: "{t. th_on p t} = (if cfg_http cfg then {HttpConns} else {})"
    if "evs = before @ Signal # after" "\<forall>ev \<in> set before. quiet ev" for before after
  proof -
    have "th_on p t \<longrightarrow> t = HttpConns" for t
      using start_stopped [OF _ that(2)] assms(1) p that(1) by blast
    moreover have "th_on p t \<longrightarrow> t \<in> launched cfg" for t using start_keeps [OF assms(1) p] by blast
    moreover have "HttpConns \<in> launched cfg \<longleftrightarrow> cfg_http cfg" by (simp add: launched_def)
    ultimately show ?thesis using left by auto
  qed
  have "if cfg_http cfg then failed \<and> th_on p HttpConns \<and> HttpConns \<in> set (th_future p)
    else \<not> failed \<and> th_table p = [] \<and> th_future p = []"
    using failed taken left by simp
  then show ?thesis unfolding p prod.case using off by blast
qed

theorem threads_joined_witness:
  "case process_start \<lparr>cfg_privateListen = True, cfg_connect = 1, cfg_public = False, cfg_flash = False, cfg_http = True\<rparr>
     (Look 0 (\<lambda>t. WaitTimeout) # Signal # replicate 10 (Look 0 (\<lambda>t. WaitDone True))) of (p, failed) \<Rightarrow>
     failed \<and> {t. th_on p t} = {HttpConns}"
proof -
  let ?cfg = "\<lparr>cfg_privateListen = True, cfg_connect = 1, cfg_public = False, cfg_flash = False, cfg_http = True\<rparr>"
  let ?before = "[Look 0 (\<lambda>t. WaitTimeout)]" and ?after = "replicate 10 (Look 0 (\<lambda>t. WaitDone True))"
  have "launched ?cfg \<subseteq> {PrivateServer, PrivateClient, HttpServer, HttpConns, ConnChecker, TcpConns, MainTimer}"
    by (rule subsetI) (simp add: launched_def split: thread.splits)
  then have "card (launched ?cfg) \<le> 7"
    by (rule order_trans [OF card_mono, rotated]) simp_all
  then have "card (launched ?cfg) \<le> length (filter all_done (?before @ Signal # ?after))"
    by (simp add: all_done_def)
  moreover have "\<forall>ev \<in> set (?before @ Signal # ?after). in_order ev" "\<forall>ev \<in> set ?before. quiet ev"
    by (simp_all add: in_order_def quiet_def)
  ultimately have "case process_start ?cfg (?before @ Signal # ?after) of (p, failed) \<Rightarrow>
      failed \<and> {t. th_on p t} = (if cfg_http ?cfg then {HttpConns} else {})"
    using threads_joined [of "?before @ Signal # ?after" ?cfg] by (simp only: split_beta procCfg.simps if_True)
  then show ?thesis by (simp only: append.simps procCfg.simps if_True)
qed

section \<open>When the main timer starts\<close>

text \<open>When a process starts to work. While all threads run, the main timer, and with it
  every handler of packets, is held back until a round of the main thread finds as many private
  connections as the process has to open, no more and no less: connections that other processes
  opened count too, so that a round that finds one too many keeps the process from starting. As
  long as the timer is held back it does nothing.\<close>

theorem start_gate:
  assumes "\<forall>ev \<in> set evs. quiet ev"
  shows "\<exists>p. process_start cfg evs = (p, False)
    \<and> (th_suspend p \<longleftrightarrow> (\<forall>n obs. Look n obs \<in> set evs \<longrightarrow> unat n \<noteq> cfg_connect cfg))
    \<and> (th_suspend p \<longrightarrow> ptimer_round run now a \<lparr>m_suspend = th_suspend p, m_timer = tm\<rparr> s
         = Inr (\<lparr>m_suspend = th_suspend p, m_timer = tm\<rparr>, s))"
proof -
  let ?p = "lanchThreads cfg process_init"
  have "th_suspend ?p" by (simp add: lanchThreads_def launch_timer_def)
  then show ?thesis
    using lanch_takeable [of cfg] join_quiet [OF _ _ assms, of ?p cfg "[]"]
    by (auto simp: process_start_def ptimer_round_def)
qed

end
