(* ===== verification/ProcessInit.thy ===== *)
theory ProcessInit
  imports Config TcpEnds ProcessThreads
begin

text \<open>
  From the configuration to the threads: the part of \<open>Process::init\<close> (\<^verbatim>\<open>base/process.cpp\<close>) that
  decides which threads there are and gives the private client its endpoints. Subscriptions of the
  events of the components are the order of the calls in the models of the components.
\<close>

definition init_procCfg :: "processConfig \<Rightarrow> procCfg" where
  "init_procCfg pc =
     \<lparr>cfg_privateListen = (pc_listen pc \<noteq> None), cfg_connect = length (pc_connect pc), cfg_public = (pc_public pc \<noteq> []),
      cfg_flash = (pc_flash pc \<noteq> []), cfg_http = (pc_http pc \<noteq> [])\<rparr>"

definition init_client :: "processConfig \<Rightarrow> int \<Rightarrow> endpoint tcpClient" where
  "init_client pc now = fold (\<lambda>ep. addRemoteEndpoint ep 5 now) (pc_connect pc) tcpClient_init"

section \<open>The endpoints of the client\<close>

lemma lookup_all_sorted:
  "lookup_all eps ids ret = Some r \<Longrightarrow> sorted ret \<Longrightarrow> distinct ret \<Longrightarrow> sorted r \<and> distinct r"
  by (induction ids arbitrary: ret) (auto split: option.splits simp: sorted_insort_insert distinct_insort_insert)

lemma load_connect_sorted:
  assumes "load_config me num doc = Inr pc"
  shows "sorted (pc_connect pc)" "distinct (pc_connect pc)"
proof -
  obtain n2t pc1 p where "load_this n2t pc1 p = Inr pc"
    using assms by (auto simp: load_config_def Let_def split: option.splits sum.splits)
  then obtain ids where "lookup_all (pc_listenEps pc1) ids [] = Some (pc_connect pc)"
    by (auto simp: load_this_def parsePrivateEndpoint_def split: option.splits sum.splits)
  from lookup_all_sorted [OF this] show "sorted (pc_connect pc)" "distinct (pc_connect pc)" by auto
qed

definition fresh_info :: "int \<Rightarrow> remoteInfo" where
  "fresh_info now = \<lparr>ri_retryTimepoint = now, ri_retryInterval = 5, ri_conn = None\<rparr>"

lemma omap_put_last: "\<forall>k' \<in> set (map fst m). k' < k \<Longrightarrow> omap_put k v m = m @ [(k, v)]"
  by (induction m) (auto simp: not_less_iff_gr_or_eq)

lemma add_all:
  "sorted_wrt (<) (map fst (tc_endpoints tc) @ eps) \<Longrightarrow>
    fold (\<lambda>ep. addRemoteEndpoint ep 5 now) eps tc = tc\<lparr>tc_endpoints := tc_endpoints tc @ map (\<lambda>ep. (ep, fresh_info now)) eps\<rparr>"
proof (induction eps arbitrary: tc)
  case (Cons ep eps)
  have lt: "\<forall>k \<in> set (map fst (tc_endpoints tc)). k < ep"
    using Cons.prems by (simp add: sorted_wrt_append)
  then have "map_of (tc_endpoints tc) ep = None" by (fastforce simp: map_of_eq_None_iff)
  then have s: "addRemoteEndpoint ep 5 now tc = tc\<lparr>tc_endpoints := tc_endpoints tc @ [(ep, fresh_info now)]\<rparr>"
    using omap_put_last [OF lt] by (simp add: addRemoteEndpoint_def fresh_info_def)
  show ?case using Cons.prems by (simp add: s Cons.IH)
qed simp

lemma init_client_endpoints:
  assumes "load_config me num doc = Inr pc"
  shows "init_client pc now = tcpClient_init\<lparr>tc_endpoints := map (\<lambda>ep. (ep, fresh_info now)) (pc_connect pc)\<rparr>"
proof -
  have "sorted_wrt (<) (pc_connect pc)"
    using load_connect_sorted [OF assms] by (simp add: strict_sorted_iff)
  then show ?thesis by (simp add: init_client_def add_all tcpClient_init_def)
qed

lemma first_pass:
  assumes "now \<le> now'"
  shows "client_loop alive (\<lambda>ep. Connected) (\<lambda>ep. True) now' (map (\<lambda>ep. (ep, fresh_info now)) eps) tc =
    (map (\<lambda>(i, ep). (ep, fresh_info now\<lparr>ri_conn := Some (tc_next tc + i)\<rparr>)) (enumerate 0 eps),
     tc\<lparr>tc_next := tc_next tc + length eps,
        tc_newConn := tc_newConn tc @ map (\<lambda>(i, ep). (ep, tc_next tc + i)) (enumerate 0 eps),
        tc_log := tc_log tc @ map (\<lambda>(i, ep). (now', ep, Connected, tc_next tc + i)) (enumerate 0 eps)\<rparr>)"
proof (induction eps arbitrary: tc)
  case (Cons ep eps)
  have sh: "enumerate 0 (ep # eps) = (0, ep) # map (\<lambda>(i, ep). (Suc i, ep)) (enumerate 0 eps)"
    by (auto simp: enumerate_Suc_eq)
  show ?case using assms
    unfolding sh by (simp add: client_visit_def fresh_info_def expired_def Cons.IH [unfolded fresh_info_def] Let_def
        case_prod_unfold comp_def)
qed simp

text \<open>C35: A process whose configuration loads and whose peers can be reached opens, in the first
  pass of its client, exactly one connection to each configured endpoint, in their order, and they
  are as many as the main timer waits for: when these connections, and no others, are confirmed, the
  timer is resumed; with one more or one less it is not.\<close>

theorem boot_connects:
  assumes "load_config me num doc = Inr pc" and "now \<le> now'"
  shows "map fst (tc_newConn (client_pass alive (\<lambda>ep. Connected) (\<lambda>ep. True) now' (init_client pc now))) = pc_connect pc
    \<and> distinct (map snd (tc_newConn (client_pass alive (\<lambda>ep. Connected) (\<lambda>ep. True) now' (init_client pc now))))
    \<and> distinct (pc_connect pc)
    \<and> (let n = length (tc_newConn (client_pass alive (\<lambda>ep. Connected) (\<lambda>ep. True) now' (init_client pc now)));
           p = lanchThreads (init_procCfg pc) process_init
       in \<forall>k :: u32. th_suspend (resume_timer (init_procCfg pc) k p) \<longleftrightarrow> unat k \<noteq> n)"
proof -
  let ?tc = "client_pass alive (\<lambda>ep. Connected) (\<lambda>ep. True) now' (init_client pc now)"
  have n: "tc_newConn ?tc = map (\<lambda>(i, ep). (ep, i)) (enumerate 0 (pc_connect pc))"
    by (simp add: client_pass_def init_client_endpoints [OF assms(1)] first_pass [OF assms(2)] tcpClient_init_def Let_def)
  have "map fst (tc_newConn ?tc) = pc_connect pc" "map snd (tc_newConn ?tc) = [0..<length (pc_connect pc)]"
    by (simp_all add: n case_prod_unfold comp_def enumerate_eq_zip)
  moreover have "length (tc_newConn ?tc) = length (pc_connect pc)" by (simp add: n)
  moreover have "th_suspend (lanchThreads (init_procCfg pc) process_init)"
    by (simp add: lanchThreads_def launch_timer_def)
  ultimately show ?thesis
    using load_connect_sorted [OF assms(1)] by (simp add: resume_timer_def init_procCfg_def Let_def)
qed

theorem boot_connects_witness:
  "map fst (tc_newConn (client_pass (\<lambda>n. True) (\<lambda>ep. Connected) (\<lambda>ep. True) 5
      (init_client (the (case load_config ''gateway'' 1 (Some (Some sample_doc)) of Inr pc \<Rightarrow> Some pc | Inl e \<Rightarrow> None)) 3))) = [(0x0100007f, 6000)]"
  using boot_connects [OF sample_loads, of 3 5 "\<lambda>n. True"] by (simp add: sample_loads)

end
