(* ===== verification/AnySdk.thy ===== *)
theory AnySdk
  imports Tokens HttpConns
begin

text \<open>
  The http side of \<open>AnySdkLoginManager\<close> (\<^verbatim>\<open>processes/gateway/anysdk_login_manager.cpp\<close>): the ids of new
  connections, the loop that takes the packets, whose handlers return at once, and the thread that
  resolves the name of the login server. What \<open>getaddrinfo\<close> answers is an argument: an error text, or
  the addresses it has found.
\<close>

section \<open>Connections and packets\<close>

definition onNewHttpConnection ::
  "'p httpParser \<Rightarrow> bool \<Rightarrow> sendAns list \<Rightarrow> int \<Rightarrow> bufConn \<Rightarrow> anySdk \<times> 'p httpMgr \<Rightarrow> anySdk \<times> 'p httpMgr" where
  "onNewHttpConnection hp epollOk as fd c p =
     (case p of (s, m) \<Rightarrow>
       let (s, hcid) = genHttpConnectionId s in (s, http_addConnection hp epollOk as hcid fd c HttpRequest m))"

definition clientVerifyRequest :: "u64 \<Rightarrow> 'p httpPacket \<Rightarrow> anySdk \<Rightarrow> anySdk" where
  "clientVerifyRequest hcid pk s = (if msg_type (hp_msg pk) \<noteq> HttpRequest then s else s)"

definition assVerifyResponse :: "'p httpPacket \<Rightarrow> anySdk \<Rightarrow> anySdk" where
  "assVerifyResponse pk s = (if msg_type (hp_msg pk) \<noteq> HttpResponse then s else s)"

function sdk_deal_loop :: "anySdk \<times> 'p httpMgr \<Rightarrow> anySdk \<times> 'p httpMgr" where
  "sdk_deal_loop (s, m) =
     (case http_getPacket m of
        (m', None) \<Rightarrow> (s, m')
      | (m', Some (r, pk)) \<Rightarrow>
          let conn = hm_holders m' ! r
          in sdk_deal_loop (if hh_type conn = HttpRequest then clientVerifyRequest (hh_hcid conn) pk s else assVerifyResponse pk s, m'))"
  by pat_completeness auto

termination
  by (relation "measure (\<lambda>(s, m). length (hm_recvQueue m))") (auto simp: http_getPacket_def split: list.splits)

declare sdk_deal_loop.simps [simp del]

definition dealHttpPackets :: "int \<Rightarrow> anySdk \<times> 'p httpMgr \<Rightarrow> anySdk \<times> 'p httpMgr" where
  "dealHttpPackets now p = sdk_deal_loop p"

section \<open>The address of the login server\<close>

definition resolveHost :: "string + string list \<Rightarrow> string \<times> bool" where
  "resolveHost ans = (case ans of Inl err \<Rightarrow> (err, False) | Inr addrs \<Rightarrow> (case addrs of [] \<Rightarrow> ([], True) | a # rest \<Rightarrow> (a, True)))"

text \<open>A round of the thread: the address it leaves, and the seconds it sleeps.\<close>

definition resolve_round :: "string + string list \<Rightarrow> string \<times> nat \<Rightarrow> string \<times> nat" where
  "resolve_round ans st =
     (case st of (ip, slept) \<Rightarrow> let (host, ok) = resolveHost ans in if \<not> ok then (ip, slept + 5) else (host, slept + 25))"

definition nameResolve :: "(string + string list) list \<Rightarrow> string \<times> nat \<Rightarrow> string \<times> nat" where
  "nameResolve answers st = fold resolve_round answers st"

section \<open>Sessions\<close>

definition sdk_ok :: "anySdk \<Rightarrow> 'p httpMgr \<Rightarrow> bool" where
  "sdk_ok s m \<longleftrightarrow> http_ok m \<and> (\<forall>i r. map_of (hm_hcid2Conns m) i = Some r \<longrightarrow> i \<le> as_lastHcid s)"

text \<open>An id is given once, until the counter wraps around.\<close>

lemma new_http_session:
  assumes "sdk_ok s m" and "conn_ok c" and "as_lastHcid s \<noteq> - 1" and "map_of (hm_allConns m) fd = None"
    and "onNewHttpConnection hp epollOk as fd c (s, m) = (s', m')"
  shows "sdk_ok s' m'" "map_of (hm_hcid2Conns m) (as_lastHcid s') = None"
    "map_of (hm_hcid2Conns m') (as_lastHcid s') = Some (length (hm_holders m))"
    "i \<noteq> as_lastHcid s' \<Longrightarrow> map_of (hm_hcid2Conns m') i = map_of (hm_hcid2Conns m) i"
proof -
  let ?i = "as_lastHcid s + 1"
  have s': "s' = s\<lparr>as_lastHcid := ?i\<rparr>" and m': "m' = http_addConnection hp epollOk as ?i fd c HttpRequest m"
    using assms(5) by (auto simp: onNewHttpConnection_def genHttpConnectionId_def Let_def)
  have up: "as_lastHcid s < ?i" using assms(3) by (simp add: not_le [symmetric] inc_less_eq_self_iff_eq del: not_le)
  then show fresh: "map_of (hm_hcid2Conns m) (as_lastHcid s') = None"
    using assms(1) by (auto simp: sdk_ok_def s' not_le [symmetric] simp del: not_le intro: ccontr)
  obtain res as' c' where ts: "trySend as c = (res, as', c')" by (metis prod_cases3)
  have ids: "hm_hcid2Conns m' = hm_hcid2Conns m @ [(?i, length (hm_holders m))]"
    using fresh assms(4)
    by (cases res) (simp_all add: m' s' http_addConnection_def map_insert_def ts Let_def)
  then show "map_of (hm_hcid2Conns m') (as_lastHcid s') = Some (length (hm_holders m))"
    "i \<noteq> as_lastHcid s' \<Longrightarrow> map_of (hm_hcid2Conns m') i = map_of (hm_hcid2Conns m) i"
    using fresh by (simp_all add: s' map_add_def split: option.split)
  have "i \<le> ?i" if "map_of (hm_hcid2Conns m') i = Some r" for i r
    using that ids assms(1) up by (fastforce simp: sdk_ok_def map_add_Some_iff split: if_splits)
  then show "sdk_ok s' m'" using assms(1,2) http_ok_add by (auto simp: sdk_ok_def m' s')
qed

lemma deal_loop_empties: "sdk_deal_loop (s, m) = (s, m\<lparr>hm_recvQueue := []\<rparr>)"
proof (induction "hm_recvQueue m" arbitrary: m)
  case Nil
  then have "http_getPacket m = (m, None)" "m\<lparr>hm_recvQueue := []\<rparr> = m" by (cases m; simp add: http_getPacket_def)+
  then show ?case by (simp add: sdk_deal_loop.simps [of s m])
next
  case (Cons x q)
  obtain r pk where "x = (r, pk)" by (cases x)
  then have "hm_recvQueue m = (r, pk) # q" using Cons(2) by simp
  then have "http_getPacket m = (m\<lparr>hm_recvQueue := q\<rparr>, Some (r, pk))" by (simp add: http_getPacket_def)
  then have "sdk_deal_loop (s, m) = sdk_deal_loop (s, m\<lparr>hm_recvQueue := q\<rparr>)"
    by (simp add: sdk_deal_loop.simps [of s m] clientVerifyRequest_def assVerifyResponse_def Let_def)
  also have "\<dots> = (s, m\<lparr>hm_recvQueue := q\<rparr>\<lparr>hm_recvQueue := []\<rparr>)" by (rule Cons(1)) simp
  finally show ?case by simp
qed

text \<open>No packet issues a token: the table of the tokens is the one from before.\<close>

lemma packets_issue_no_token:
  "checkAccessToken openid token (fst (dealHttpPackets now (s, m))) = checkAccessToken openid token s"
  by (simp add: dealHttpPackets_def deal_loop_empties)

text \<open>A failure leaves the last address that was found.\<close>

lemma address_of_last_success:
  assumes "snd (resolveHost ans)" and "\<forall>a \<in> set later. \<not> snd (resolveHost a)"
  shows "fst (nameResolve (earlier @ ans # later) st) = fst (resolveHost ans)"
proof -
  have "fst (fold resolve_round later (ip, n)) = ip" for ip n
    using assms(2) by (induction later arbitrary: n) (auto simp: resolve_round_def split: prod.split)
  moreover obtain ip n where "fold resolve_round earlier st = (ip, n)" by (cases "fold resolve_round earlier st")
  ultimately show ?thesis
    using assms(1) by (auto simp: nameResolve_def resolve_round_def split: prod.splits)
qed

end
