(* ===== verification/Sockets.thy ===== *)
theory Sockets
  imports Config "HOL-Library.Signed_Division"
begin

text \<open>
  \<open>TcpSocket\<close>, \<open>TcpConnection\<close> and \<open>TcpListener\<close> of \<^verbatim>\<open>water/net/socket.cpp\<close>, \<^verbatim>\<open>connection.cpp\<close> and
  \<^verbatim>\<open>listener.cpp\<close>: what the code does around the calls of the system. The answers of the calls
  are arguments, and the calls that change a socket are written to a log. The flags of a
  file descriptor are kept by the system as they were set. An object that is no longer referenced is
  destroyed when the function that held it is left.
\<close>

section \<open>Sockets\<close>

datatype shutHow = SHUT_RD | SHUT_WR | SHUT_RDWR

text \<open>\<open>RaiseClose\<close> is the event \<open>e_close\<close>.\<close>

datatype sysCall = SysShutdown int shutHow | SysClose int | RaiseClose int | SysReuse int | SysBind int u32 u16
  | SysListen int int

record tcpSocket =
  so_fd :: int
  so_flags :: u32
  so_log :: "sysCall list"

datatype sockFault = NetException string

definition O_NONBLOCK :: u32 where "O_NONBLOCK = 2048"

definition sock_isAvaliable :: "'a tcpSocket_scheme \<Rightarrow> bool" where
  "sock_isAvaliable s \<longleftrightarrow> so_fd s \<noteq> - 1"

definition sock_close :: "'a tcpSocket_scheme \<Rightarrow> 'a tcpSocket_scheme" where
  "sock_close s =
     (if \<not> sock_isAvaliable s then s
      else s\<lparr>so_log := so_log s @ [SysClose (so_fd s), RaiseClose (so_fd s)], so_fd := - 1\<rparr>)"

text \<open>The argument \<open>ok\<close> says of each call of \<open>fcntl\<close> in turn whether it succeeds.\<close>

definition isNonBlocking :: "bool \<Rightarrow> 'a tcpSocket_scheme \<Rightarrow> sockFault + bool" where
  "isNonBlocking ok s = (if \<not> ok then Inl (NetException ''::fcntl'') else Inr (so_flags s AND O_NONBLOCK \<noteq> 0))"

definition set_flags :: "bool \<Rightarrow> bool \<Rightarrow> (u32 \<Rightarrow> u32) \<Rightarrow> 'a tcpSocket_scheme \<Rightarrow> sockFault + 'a tcpSocket_scheme" where
  "set_flags okGet okSet f s =
     (if \<not> okGet then Inl (NetException ''::fcntl'')
      else if \<not> okSet then Inl (NetException ''::fcntl'')
      else Inr (s\<lparr>so_flags := f (so_flags s)\<rparr>))"

definition setNonBlocking :: "bool \<times> bool \<times> bool \<Rightarrow> 'a tcpSocket_scheme \<Rightarrow> sockFault + 'a tcpSocket_scheme" where
  "setNonBlocking ok s =
     (case isNonBlocking (fst ok) s of
        Inl e \<Rightarrow> Inl e
      | Inr b \<Rightarrow> if b then Inr s else set_flags (fst (snd ok)) (snd (snd ok)) (\<lambda>flags. flags OR O_NONBLOCK) s)"

definition setBlocking :: "bool \<times> bool \<times> bool \<Rightarrow> 'a tcpSocket_scheme \<Rightarrow> sockFault + 'a tcpSocket_scheme" where
  "setBlocking ok s =
     (case isNonBlocking (fst ok) s of
        Inl e \<Rightarrow> Inl e
      | Inr b \<Rightarrow> if \<not> b then Inr s else set_flags (fst (snd ok)) (snd (snd ok)) (\<lambda>flags. flags AND NOT O_NONBLOCK) s)"

text \<open>A port in the order of bytes of the network, and back.\<close>

definition htons :: "u16 \<Rightarrow> u16" where
  "htons p = push_bit 8 p OR drop_bit 8 p"

definition sock_bind :: "bool \<Rightarrow> bool \<Rightarrow> endpoint \<Rightarrow> 'a tcpSocket_scheme \<Rightarrow> (sockFault + unit) \<times> 'a tcpSocket_scheme" where
  "sock_bind reuseOk bindOk ep s =
     (if \<not> reuseOk then (Inl (NetException ''::setsockopt''), s)
      else let s = s\<lparr>so_log := so_log s @ [SysReuse (so_fd s)]\<rparr>
           in if \<not> bindOk then (Inl (NetException ''::bind''), s)
              else (Inr (), s\<lparr>so_log := so_log s @ [SysBind (so_fd s) (fst ep) (htons (snd ep))]\<rparr>))"

definition sock_listen :: "bool \<Rightarrow> int \<Rightarrow> 'a tcpSocket_scheme \<Rightarrow> (sockFault + unit) \<times> 'a tcpSocket_scheme" where
  "sock_listen ok backlog s =
     (if \<not> ok then (Inl (NetException ''::listen''), s) else (Inr (), s\<lparr>so_log := so_log s @ [SysListen (so_fd s) backlog]\<rparr>))"

section \<open>Connections\<close>

datatype tcpConnState = StClosed | StRead | StWrite | StReadWrite

fun state_value :: "tcpConnState \<Rightarrow> u8" where
  "state_value StClosed = 0" | "state_value StRead = 1" | "state_value StWrite = 2" | "state_value StReadWrite = 3"

definition state_of :: "u8 \<Rightarrow> tcpConnState" where
  "state_of v = (if v = 0 then StClosed else if v = 1 then StRead else if v = 2 then StWrite else StReadWrite)"

record tcpConn = tcpSocket +
  cn_remote :: endpoint
  cn_state :: tcpConnState

definition TcpConnection :: "int \<Rightarrow> u32 \<Rightarrow> endpoint \<Rightarrow> tcpConn" where
  "TcpConnection fd flags ep = \<lparr>so_fd = fd, so_flags = flags, so_log = [], cn_remote = ep, cn_state = StReadWrite\<rparr>"

text \<open>The case of reading falls through to the one of writing.\<close>

definition shutdown_calls :: "int \<Rightarrow> tcpConnState \<Rightarrow> sysCall list" where
  "shutdown_calls fd st =
     (case st of
        StRead \<Rightarrow> [SysShutdown fd SHUT_RD, SysShutdown fd SHUT_WR]
      | StWrite \<Rightarrow> [SysShutdown fd SHUT_WR]
      | StReadWrite \<Rightarrow> [SysShutdown fd SHUT_RDWR]
      | StClosed \<Rightarrow> [])"

definition conn_shutdown :: "tcpConnState \<Rightarrow> tcpConn \<Rightarrow> tcpConn" where
  "conn_shutdown st c =
     (if \<not> sock_isAvaliable c then c
      else let c = c\<lparr>so_log := so_log c @ shutdown_calls (so_fd c) st,
                     cn_state := state_of (state_value (cn_state c) AND NOT (state_value st))\<rparr>
           in if cn_state c = StClosed then sock_close c else c)"

text \<open>The destructor, of the connection and then of the socket.\<close>

definition conn_destroy :: "tcpConn \<Rightarrow> tcpConn" where
  "conn_destroy c = sock_close (if cn_state c \<noteq> StClosed then sock_close c else c)"

text \<open>A move, from the second to the first: the remote endpoint is assigned to itself.\<close>

definition conn_move :: "tcpConn \<times> tcpConn \<Rightarrow> tcpConn \<times> tcpConn" where
  "conn_move p =
     (case p of (self, other) \<Rightarrow>
       (self\<lparr>so_fd := so_fd other, so_flags := so_flags other, cn_state := cn_state other\<rparr>, other\<lparr>so_fd := - 1\<rparr>))"

text \<open>The answers of \<open>::send\<close> and \<open>::recv\<close> are a number of bytes, or -1 with an error number.\<close>

definition EAGAIN :: nat where "EAGAIN = 11"
definition EWOULDBLOCK :: nat where "EWOULDBLOCK = 11"
definition EINTR :: nat where "EINTR = 4"
definition EINPROGRESS :: nat where "EINPROGRESS = 115"

definition conn_send :: "int \<Rightarrow> nat \<Rightarrow> sockFault + int" where
  "conn_send ans errno =
     (let sendLen = word_of_int ans :: u32
      in if sendLen = - 1 then (if errno = EAGAIN \<or> errno = EWOULDBLOCK then Inr (- 1) else Inl (NetException ''::send''))
         else Inr (sint sendLen))"

definition conn_recv :: "int \<Rightarrow> nat \<Rightarrow> sockFault + int" where
  "conn_recv ans errno =
     (let recvLen = word_of_int ans :: u32
      in if recvLen = - 1 then (if errno = EAGAIN \<or> errno = EWOULDBLOCK then Inr (- 1) else Inl (NetException ''::recv''))
         else Inr (sint recvLen))"

text \<open>\<open>accept\<close> answers with an error number, or with the socket and the address of the peer.\<close>

definition listener_accept :: "nat + int \<times> u32 \<times> u32 \<times> u16 \<Rightarrow> sockFault + tcpConn option" where
  "listener_accept ans =
     (case ans of
        Inl errno \<Rightarrow>
          if errno = EAGAIN \<or> errno = EWOULDBLOCK \<or> errno = EINTR then Inr None else Inl (NetException ''::accept'')
      | Inr (fd, flags, ip, port) \<Rightarrow> Inr (Some (TcpConnection fd flags (ip, htons port))))"

section \<open>Connecting\<close>

text \<open>
  The answers to the calls of a connection attempt: the new socket, if there is one; success or the
  error number of \<open>::connect\<close>; what \<open>::select\<close> returns for a time in seconds and microseconds; the value of
  \<open>SO_ERROR\<close>, if it can be read; the calls of \<open>fcntl\<close>.
\<close>

record connectCalls =
  cc_socket :: "(int \<times> u32) option"
  cc_connect :: "nat option"
  cc_select :: "int \<Rightarrow> int \<Rightarrow> int"
  cc_sockError :: "nat option"
  cc_nonBlock :: "bool \<times> bool \<times> bool"
  cc_block :: "bool \<times> bool \<times> bool"

text \<open>A connection that is not returned is destroyed; the log is that of the socket at the end.\<close>

definition give_up :: "sockFault + tcpConn option \<Rightarrow> tcpConn \<Rightarrow> (sockFault + tcpConn option) \<times> sysCall list" where
  "give_up r c = (r, so_log (conn_destroy c))"

definition back_to_blocking :: "connectCalls \<Rightarrow> tcpConn \<Rightarrow> (sockFault + tcpConn option) \<times> sysCall list" where
  "back_to_blocking cc c =
     (case setBlocking (cc_block cc) c of Inl e \<Rightarrow> give_up (Inl e) c | Inr c \<Rightarrow> (Inr (Some c), so_log c))"

definition connect_plain :: "connectCalls \<Rightarrow> endpoint \<Rightarrow> (sockFault + tcpConn option) \<times> sysCall list" where
  "connect_plain cc ep =
     (case cc_socket cc of
        None \<Rightarrow> (Inl (NetException ''::socket''), [])
      | Some (fd, flags) \<Rightarrow>
          let c = TcpConnection fd flags ep
          in if cc_connect cc \<noteq> None then give_up (Inl (NetException ''::connect:'')) c else (Inr (Some c), so_log c))"

definition select_time :: "int \<Rightarrow> int \<times> int" where
  "select_time timeout = (timeout sdiv 1000, timeout smod 1000)"

definition connect_timed :: "connectCalls \<Rightarrow> endpoint \<Rightarrow> int \<Rightarrow> (sockFault + tcpConn option) \<times> sysCall list" where
  "connect_timed cc ep timeout =
     (case cc_socket cc of
        None \<Rightarrow> (Inl (NetException ''::socket''), [])
      | Some (fd, flags) \<Rightarrow>
          (case setNonBlocking (cc_nonBlock cc) (TcpConnection fd flags ep) of
             Inl e \<Rightarrow> give_up (Inl e) (TcpConnection fd flags ep)
           | Inr c \<Rightarrow>
               (case cc_connect cc of
                  None \<Rightarrow> back_to_blocking cc c
                | Some errno \<Rightarrow>
                    if errno \<noteq> EINPROGRESS then give_up (Inl (NetException ''::connect:'')) c
                    else let (sec, usec) = select_time timeout; ret = cc_select cc sec usec
                         in if 0 < ret
                            then (case cc_sockError cc of
                                    None \<Rightarrow> give_up (Inl (NetException ''::getsocketopt'')) c
                                  | Some connectErrno \<Rightarrow>
                                      if connectErrno \<noteq> 0 then give_up (Inl (NetException ''::connect'')) c
                                      else back_to_blocking cc c)
                            else if ret = 0 then give_up (Inr None) c
                            else give_up (Inl (NetException ''::select'')) c)))"

section \<open>Descriptors are closed once\<close>

text \<open>\<open>rd\<close> and \<open>wr\<close>: that reading, and writing, has been shut down.\<close>

definition shut_inv :: "int \<Rightarrow> bool \<Rightarrow> bool \<Rightarrow> tcpConn \<Rightarrow> bool" where
  "shut_inv fd rd wr c \<longleftrightarrow>
     cn_state c = (if rd then if wr then StClosed else StWrite else if wr then StRead else StReadWrite)
   \<and> so_fd c = (if rd \<and> wr then - 1 else fd)
   \<and> count_list (so_log c) (SysClose fd) = (if rd \<and> wr then 1 else 0)"

lemma no_close_in_calls [simp]: "count_list (shutdown_calls fd st) (SysClose fd') = 0"
  by (simp add: shutdown_calls_def split: tcpConnState.split)

lemma shut_step:
  assumes "shut_inv fd rd wr c" and "fd \<noteq> - 1"
  shows "shut_inv fd (rd \<or> st \<in> {StRead, StReadWrite}) (wr \<or> st \<in> {StWrite, StReadWrite}) (conn_shutdown st c)"
  using assms
  by (cases rd; cases wr; cases st)
    (simp_all add: shut_inv_def conn_shutdown_def sock_isAvaliable_def state_of_def sock_close_def Let_def)

lemma shut_all:
  assumes "shut_inv fd rd wr c" and "fd \<noteq> - 1"
  shows "shut_inv fd (rd \<or> (\<exists>st \<in> set sts. st \<in> {StRead, StReadWrite})) (wr \<or> (\<exists>st \<in> set sts. st \<in> {StWrite, StReadWrite}))
    (fold conn_shutdown sts c)"
  using assms(1)
proof (induction sts arbitrary: rd wr c)
  case (Cons st sts)
  from Cons.IH [OF shut_step [OF Cons.prems assms(2), of st]] show ?case by (simp add: disj_assoc)
qed simp

text \<open>C36: However a connection is shut down, for reading and for writing, in any order and any number of times, its
  descriptor is closed as soon as both have been asked for and not before, and over the whole life of the connection,
  its destruction included, it is closed exactly once.\<close>

theorem descriptor_closed_once:
  fixes sts :: "tcpConnState list" and flags :: u32 and ep :: endpoint
  assumes "fd \<noteq> - 1"
  defines "c \<equiv> fold conn_shutdown sts (TcpConnection fd flags ep)"
  shows "(sock_isAvaliable c \<longleftrightarrow> \<not> ((\<exists>st \<in> set sts. st \<in> {StRead, StReadWrite}) \<and> (\<exists>st \<in> set sts. st \<in> {StWrite, StReadWrite})))
    \<and> count_list (so_log c) (SysClose fd) = (if sock_isAvaliable c then 0 else 1)
    \<and> count_list (so_log (conn_destroy c)) (SysClose fd) = 1 \<and> \<not> sock_isAvaliable (conn_destroy c)"
proof -
  have "shut_inv fd False False (TcpConnection fd flags ep)" by (simp add: shut_inv_def TcpConnection_def)
  from shut_all [OF this assms(1), of sts] have i: "shut_inv fd (\<exists>st \<in> set sts. st \<in> {StRead, StReadWrite}) (\<exists>st \<in> set sts. st \<in> {StWrite, StReadWrite}) c"
    by (simp add: c_def)
  show ?thesis
    using i assms(1) by (simp add: shut_inv_def sock_isAvaliable_def conn_destroy_def sock_close_def split: if_splits)
qed

theorem descriptor_closed_once_witness:
  "count_list (so_log (conn_destroy (fold conn_shutdown [StWrite, StWrite, StRead] (TcpConnection 7 0 (16777343, 80))))) (SysClose 7) = 1"
  using descriptor_closed_once [of 7 "[StWrite, StWrite, StRead]" 0 "(16777343, 80)"] by simp

text \<open>Shutting down for reading ends writing too, while the state says that the connection can be written to.\<close>

lemma shutdown_read_ends_writing:
  "SysShutdown 7 SHUT_WR \<in> set (so_log (conn_shutdown StRead (TcpConnection 7 flags ep)))"
  "cn_state (conn_shutdown StRead (TcpConnection 7 flags ep)) = StWrite"
  by (simp_all add: conn_shutdown_def sock_isAvaliable_def TcpConnection_def shutdown_calls_def state_of_def Let_def)

text \<open>A move leaves the remote endpoint of the target as it was, and its old descriptor open.\<close>

lemma move_keeps_remote:
  "cn_remote (fst (conn_move (c, d))) = cn_remote c" "so_log (fst (conn_move (c, d))) = so_log c"
  by (simp_all add: conn_move_def)

section \<open>A connection attempt\<close>

lemma htons_htons [simp]: "htons (htons p) = p"
  by (rule bit_word_eqI) (auto simp: htons_def bit_simps dest: bit_imp_le_length)

text \<open>The time given in milliseconds is waited in full only when it is a number of seconds: the rest of the division
  is passed on as microseconds.\<close>

lemma select_waits_short:
  assumes "0 \<le> timeout" and "select_time timeout = (sec, usec)"
  shows "sec * 1000000 + usec = timeout * 1000 - (timeout mod 1000) * 999"
  using assms by (auto simp: select_time_def signed_divide_int_def signed_modulo_int_def abs_mult sgn_if minus_div_mult_eq_mod [symmetric])

lemma flags_cleared: "((f OR O_NONBLOCK) AND NOT O_NONBLOCK) AND O_NONBLOCK = 0" "(f AND NOT O_NONBLOCK) AND O_NONBLOCK = 0"
  by (rule bit_word_eqI; simp add: bit_simps)+

text \<open>What a connection is when an attempt leaves it.\<close>

definition fresh_conn :: "int \<Rightarrow> endpoint \<Rightarrow> tcpConn \<Rightarrow> bool" where
  "fresh_conn fd ep c \<longleftrightarrow> so_fd c = fd \<and> cn_remote c = ep \<and> cn_state c = StReadWrite \<and> so_log c = []"

lemma nonBlock_fresh:
  assumes "setNonBlocking ok c = Inr c'" and "fresh_conn fd ep c"
  shows "fresh_conn fd ep c'"
  using assms by (auto simp: setNonBlocking_def isNonBlocking_def set_flags_def fresh_conn_def split: if_splits)

lemma give_up_closes:
  assumes "fresh_conn fd ep c" and "fd \<noteq> - 1" and "give_up r c = (res, log)"
  shows "res = r \<and> log = [SysClose fd, RaiseClose fd]"
  using assms by (auto simp: give_up_def conn_destroy_def fresh_conn_def sock_close_def sock_isAvaliable_def)

definition attempt_ok :: "int \<Rightarrow> endpoint \<Rightarrow> bool \<Rightarrow> (sockFault + tcpConn option) \<times> sysCall list \<Rightarrow> bool" where
  "attempt_ok fd ep linked r \<longleftrightarrow>
     (case r of
        (Inr (Some c), log) \<Rightarrow> linked \<and> fresh_conn fd ep c \<and> log = [] \<and> so_flags c AND O_NONBLOCK = 0
      | (_, log) \<Rightarrow> log = [SysClose fd, RaiseClose fd])"

lemma attempt_give_up:
  assumes "fresh_conn fd ep c" and "fd \<noteq> - 1" and "\<And>c. r \<noteq> Inr (Some c)"
  shows "attempt_ok fd ep linked (give_up r c)"
  using give_up_closes [OF assms(1,2), of r] assms(3)
  by (cases "give_up r c") (auto simp: attempt_ok_def split: sum.splits option.splits)

lemma attempt_back:
  assumes "fresh_conn fd ep c" and "fd \<noteq> - 1" and linked
  shows "attempt_ok fd ep linked (back_to_blocking cc c)"
proof (cases "setBlocking (cc_block cc) c")
  case (Inl e)
  then show ?thesis using attempt_give_up [OF assms(1,2)] by (simp add: back_to_blocking_def)
next
  case (Inr c')
  then have "fresh_conn fd ep c' \<and> so_flags c' AND O_NONBLOCK = 0"
    using assms(1) by (auto simp: setBlocking_def isNonBlocking_def set_flags_def fresh_conn_def flags_cleared split: if_splits)
  then show ?thesis using Inr assms(3) by (simp add: back_to_blocking_def attempt_ok_def fresh_conn_def)
qed

definition linked_up :: "connectCalls \<Rightarrow> int \<Rightarrow> bool" where
  "linked_up cc timeout \<longleftrightarrow> cc_connect cc = None
     \<or> cc_connect cc = Some EINPROGRESS \<and> 0 < cc_select cc (fst (select_time timeout)) (snd (select_time timeout)) \<and> cc_sockError cc = Some 0"

text \<open>C24: A connection attempt with a timeout returns a connection only when the system has established it, blocking
  again and to the endpoint that was asked for; on every other path, the timeout and each of the errors, the
  descriptor it has opened is closed, once. When the flags of the descriptor can be changed, an established connection is
  always returned.\<close>

theorem connect_cleans_up:
  assumes "cc_socket cc = Some (fd, flags)" and "fd \<noteq> - 1"
  shows "attempt_ok fd ep (linked_up cc timeout) (connect_timed cc ep timeout)
    \<and> (linked_up cc timeout \<and> cc_nonBlock cc = (True, True, True) \<and> cc_block cc = (True, True, True)
      \<longrightarrow> (\<exists>c. fst (connect_timed cc ep timeout) = Inr (Some c)))"
proof -
  have new: "fresh_conn fd ep (TcpConnection fd flags ep)" by (simp add: fresh_conn_def TcpConnection_def)
  have "attempt_ok fd ep (linked_up cc timeout) (connect_timed cc ep timeout)"
  proof (cases "setNonBlocking (cc_nonBlock cc) (TcpConnection fd flags ep)")
    case (Inl e)
    then show ?thesis using attempt_give_up [OF new assms(2)] assms(1) by (simp add: connect_timed_def)
  next
    case (Inr c)
    note c = nonBlock_fresh [OF Inr new]
    have gone: "attempt_ok fd ep l (give_up (Inl e) c)" "attempt_ok fd ep l (give_up (Inr None) c)" for l e
      using attempt_give_up [OF c assms(2)] by simp_all
    have again: "attempt_ok fd ep (linked_up cc timeout) (back_to_blocking cc c)" if "linked_up cc timeout"
      using attempt_back [OF c assms(2) that] .
    show ?thesis
      using assms(1) Inr gone again
      by (auto simp: connect_timed_def linked_up_def Let_def split: option.splits prod.splits)
  qed
  moreover have "linked_up cc timeout \<and> cc_nonBlock cc = (True, True, True) \<and> cc_block cc = (True, True, True)
      \<longrightarrow> (\<exists>c. fst (connect_timed cc ep timeout) = Inr (Some c))"
    using assms(1)
    by (auto simp: connect_timed_def linked_up_def back_to_blocking_def setNonBlocking_def setBlocking_def isNonBlocking_def
        set_flags_def Let_def split: prod.splits)
  ultimately show ?thesis ..
qed

definition slow_peer :: connectCalls where
  "slow_peer = \<lparr>cc_socket = Some (9, 2), cc_connect = Some EINPROGRESS, cc_select = (\<lambda>sec usec. if 3 \<le> sec then 1 else 0),
     cc_sockError = Some 0, cc_nonBlock = (True, True, True), cc_block = (True, True, True)\<rparr>"

theorem connect_cleans_up_witness:
  "attempt_ok 9 (16777343, 80) (linked_up slow_peer 5000) (connect_timed slow_peer (16777343, 80) 5000)"
  using connect_cleans_up [of slow_peer 9 2 "(16777343, 80)" 5000] by (simp add: slow_peer_def)

text \<open>Without a timeout.\<close>

lemma connect_plain_ok:
  assumes "cc_socket cc = Some (fd, flags)" and "fd \<noteq> - 1"
  shows "(\<exists>c. connect_plain cc ep = (Inr (Some c), []) \<and> fresh_conn fd ep c \<and> cc_connect cc = None)
    \<or> (\<exists>e. connect_plain cc ep = (Inl e, [SysClose fd, RaiseClose fd]) \<and> cc_connect cc \<noteq> None)"
  using assms by (cases "cc_connect cc")
    (auto simp: connect_plain_def give_up_def conn_destroy_def fresh_conn_def TcpConnection_def sock_close_def sock_isAvaliable_def)

end
