(* ===== verification/Epoll.thy ===== *)
theory Epoll
  imports ConnIndex ConnSend Sockets
begin

text \<open>
  \<open>Epoller\<close> of \<^verbatim>\<open>water/net/epoller.cpp\<close>: which events it asks the system for, and how it hands the
  reported ones to its handler. The calls of \<open>epoll_ctl\<close> are a parameter that answers with an error number
  or none; the handler is a parameter that may not return. Then the thread of the connection manager
  (\<^verbatim>\<open>base/tcp_connection_manager.cpp\<close>), whose handler is that of \<open>TcpConns\<close>.
\<close>

section \<open>The poller\<close>

datatype epEvent = EpError | EpRead | EpWrite | EpReadWrite

datatype ctlOp = CtlAdd | CtlMod | CtlDel

definition EPOLLIN :: u32 where "EPOLLIN = 1"
definition EPOLLOUT :: u32 where "EPOLLOUT = 4"
definition EPOLLERR :: u32 where "EPOLLERR = 8"
definition EPOLLHUP :: u32 where "EPOLLHUP = 16"
definition ENOENT :: nat where "ENOENT = 2"
definition EBADF :: nat where "EBADF = 9"

definition watch_bits :: "epEvent \<Rightarrow> u32 option" where
  "watch_bits et =
     (case et of
        EpRead \<Rightarrow> Some EPOLLIN
      | EpWrite \<Rightarrow> Some EPOLLOUT
      | EpReadWrite \<Rightarrow> Some (EPOLLIN OR EPOLLOUT)
      | EpError \<Rightarrow> None)"

type_synonym 's ctl = "ctlOp \<Rightarrow> int \<Rightarrow> u32 \<Rightarrow> 's \<Rightarrow> nat option \<times> 's"

definition regSocket :: "'s ctl \<Rightarrow> int \<Rightarrow> epEvent \<Rightarrow> 's \<Rightarrow> (sockFault + unit) \<times> 's" where
  "regSocket ctl fd et s =
     (case watch_bits et of
        None \<Rightarrow> (Inr (), s)
      | Some bits \<Rightarrow>
          (case ctl CtlAdd fd bits s of
             (None, s) \<Rightarrow> (Inr (), s)
           | (Some errno, s) \<Rightarrow> (Inl (NetException ''::epoll_ctl, EPOLL_CTL_ADD''), s)))"

definition modifySocket :: "'s ctl \<Rightarrow> int \<Rightarrow> epEvent \<Rightarrow> 's \<Rightarrow> (sockFault + unit) \<times> 's" where
  "modifySocket ctl fd et s =
     (case watch_bits et of
        None \<Rightarrow> (Inr (), s)
      | Some bits \<Rightarrow>
          (case ctl CtlMod fd bits s of
             (None, s) \<Rightarrow> (Inr (), s)
           | (Some errno, s) \<Rightarrow> (Inl (NetException ''::epoll_ctl, EPOLL_CTL_MOD''), s)))"

definition delSocket :: "'s ctl \<Rightarrow> int \<Rightarrow> 's \<Rightarrow> (sockFault + unit) \<times> 's" where
  "delSocket ctl fd s =
     (case ctl CtlDel fd 0 s of
        (None, s) \<Rightarrow> (Inr (), s)
      | (Some errno, s) \<Rightarrow>
          if errno = ENOENT \<or> errno = EBADF then (Inr (), s) else (Inl (NetException ''::epoll_ctl, EPOLL_CTL_DEL''), s))"

text \<open>One reported event: reading, writing and error in this order. \<open>None\<close>: the handler does not return.\<close>

definition call_if :: "bool \<Rightarrow> ('s \<Rightarrow> 's option) \<Rightarrow> 's \<Rightarrow> 's option" where
  "call_if b f s = (if b then f s else Some s)"

definition wants_read :: "u32 \<Rightarrow> bool" where
  "wants_read bits \<longleftrightarrow> bits AND EPOLLIN \<noteq> 0 \<or> bits AND EPOLLHUP \<noteq> 0"

definition wants_write :: "u32 \<Rightarrow> bool" where
  "wants_write bits \<longleftrightarrow> bits AND EPOLLOUT \<noteq> 0"

definition reports_error :: "u32 \<Rightarrow> bool" where
  "reports_error bits \<longleftrightarrow> \<not> (wants_read bits \<or> wants_write bits) \<or> bits AND EPOLLERR \<noteq> 0"

definition dispatch_event ::
  "(int \<Rightarrow> epEvent \<Rightarrow> 's \<Rightarrow> 's option) \<Rightarrow> 's ctl \<Rightarrow> int \<Rightarrow> u32 \<Rightarrow> 's \<Rightarrow> ((sockFault + unit) \<times> 's) option" where
  "dispatch_event h ctl fd bits s =
     (case call_if (wants_read bits) (h fd EpRead) s of
        None \<Rightarrow> None
      | Some s \<Rightarrow>
          (case call_if (wants_write bits) (h fd EpWrite) s of
             None \<Rightarrow> None
           | Some s \<Rightarrow>
               if reports_error bits
               then (case h fd EpError s of None \<Rightarrow> None | Some s \<Rightarrow> Some (delSocket ctl fd s))
               else Some (Inr (), s)))"

fun dispatch_all ::
  "(int \<Rightarrow> epEvent \<Rightarrow> 's \<Rightarrow> 's option) \<Rightarrow> 's ctl \<Rightarrow> (int \<times> u32) list \<Rightarrow> 's \<Rightarrow> ((sockFault + unit) \<times> 's) option" where
  "dispatch_all h ctl [] s = Some (Inr (), s)"
| "dispatch_all h ctl ((fd, bits) # evs) s =
     (case dispatch_event h ctl fd bits s of
        None \<Rightarrow> None
      | Some (Inl e, s) \<Rightarrow> Some (Inl e, s)
      | Some (Inr u, s) \<Rightarrow> dispatch_all h ctl evs s)"

text \<open>\<open>epoll_wait\<close> answers with an error number or with the events.\<close>

definition waitImpl ::
  "(int \<Rightarrow> epEvent \<Rightarrow> 's \<Rightarrow> 's option) \<Rightarrow> 's ctl \<Rightarrow> nat + (int \<times> u32) list \<Rightarrow> 's \<Rightarrow> ((sockFault + unit) \<times> 's) option" where
  "waitImpl h ctl ans s =
     (case ans of
        Inl errno \<Rightarrow> if errno \<noteq> EINTR then Some (Inl (NetException ''::epoll_wait''), s) else Some (Inr (), s)
      | Inr evs \<Rightarrow> dispatch_all h ctl evs s)"

section \<open>The thread of the connection manager\<close>

text \<open>What the sockets answer to the reads and writes of one round, by socket.\<close>

record sockAnswers =
  sa_recv :: "int \<Rightarrow> recvAns list"
  sa_send :: "int \<Rightarrow> sendAns list"
  sa_del :: "int \<Rightarrow> nat option"

definition mgr_handler :: "sockAnswers \<Rightarrow> int \<Rightarrow> epEvent \<Rightarrow> connMgr \<Rightarrow> connMgr option" where
  "mgr_handler sa fd ev m =
     (case ev of
        EpRead \<Rightarrow> epollerEventHandler fd (EvRead (sa_recv sa fd)) m
      | EpWrite \<Rightarrow> epollerEventHandler fd (EvWrite (sa_send sa fd)) m
      | EpError \<Rightarrow> epollerEventHandler fd EvError m
      | EpReadWrite \<Rightarrow> Some m)"

text \<open>The poller asks for the removal of a socket; the table that the manager keeps is that of its requests.\<close>

definition mgr_ctl :: "sockAnswers \<Rightarrow> connMgr ctl" where
  "mgr_ctl sa op fd bits m =
     (case op of CtlDel \<Rightarrow> (sa_del sa fd, m\<lparr>epoll := AList.delete fd (epoll m)\<rparr>) | _ \<Rightarrow> (None, m))"

text \<open>The rounds until the switch is turned off; the answer is that of \<open>exec\<close>.\<close>

fun mgr_exec :: "(sockAnswers \<times> (nat + (int \<times> u32) list)) list \<Rightarrow> connMgr \<Rightarrow> (bool \<times> connMgr) option" where
  "mgr_exec [] m = Some (True, m)"
| "mgr_exec ((sa, ans) # rounds) m =
     (case waitImpl (mgr_handler sa) (mgr_ctl sa) ans m of
        None \<Rightarrow> None
      | Some (Inl e, m) \<Rightarrow> Some (False, m)
      | Some (Inr u, m) \<Rightarrow> mgr_exec rounds m)"

section \<open>Rounds\<close>

definition both_ok :: "connMgr \<Rightarrow> bool" where
  "both_ok m \<longleftrightarrow> mgr_ok m \<and> index_ok m"

definition gone :: "int \<Rightarrow> connMgr \<Rightarrow> bool" where
  "gone fd m \<longleftrightarrow> map_of (allConns m) fd = None \<and> map_of (epoll m) fd = None"

lemma epollerEventHandler_both:
  assumes "both_ok m"
  obtains m' where "epollerEventHandler fd ev m = Some m'" "both_ok m'"
  using assms handler_ok [of m fd ev] index_ok_handler [of m fd ev] by (auto simp: both_ok_def)

lemma gone_erase:
  assumes "gone fd m"
  shows "gone fd (eraseConnection fd' m)"
  using assms by (simp add: gone_def eraseConnection_def Let_def delete_conv' split: option.split)

lemma erase_gone:
  assumes "map_of (allConns m) fd = Some r"
  shows "gone fd (eraseConnection fd m)"
  using assms by (simp add: gone_def eraseConnection_def Let_def delete_conv')

lemma gone_close [simp]: "gone fd (closeConn r m) = gone fd m" "gone fd (setHolder r h m) = gone fd m"
  "gone fd (m\<lparr>recvQueue := q\<rparr>) = gone fd m" "gone fd (m\<lparr>packets := ps\<rparr>) = gone fd m"
  by (simp_all add: gone_def closeConn_def setHolder_def)

lemma gone_handler:
  assumes "gone fd m" and "epollerEventHandler fd' ev m = Some m'"
  shows "gone fd m'"
proof (cases "map_of (allConns m) fd'")
  case None
  then have "m' = m\<lparr>epoll := AList.delete fd' (epoll m)\<rparr>" using assms(2) by (simp add: epollerEventHandler_def)
  then show ?thesis using assms(1) by (simp add: gone_def delete_conv')
next
  case (Some r)
  then have "fd' \<noteq> fd" using assms(1) by (auto simp: gone_def)
  then have upd: "modifyWatch fd' w x = (err, y) \<Longrightarrow> gone fd x \<Longrightarrow> gone fd y" for w x err y
    by (auto simp: gone_def modifyWatch_def update_conv' split: if_splits)
  show ?thesis
    using assms Some gone_erase upd
    by (auto simp: epollerEventHandler_def Let_def split: sockEvent.splits option.splits prod.splits if_splits sum.splits)
qed

lemma error_gone:
  assumes "epollerEventHandler fd EvError m = Some m'"
  shows "gone fd (m'\<lparr>epoll := AList.delete fd (epoll m')\<rparr>)"
proof (cases "map_of (allConns m) fd")
  case None
  then show ?thesis using assms by (auto simp: epollerEventHandler_def gone_def delete_conv')
next
  case (Some r)
  then have "gone fd m'" using assms erase_gone [OF Some] by (auto simp: epollerEventHandler_def)
  then show ?thesis by (simp add: gone_def delete_conv')
qed

lemma handler_both:
  assumes "both_ok m"
  obtains m' where "call_if b (mgr_handler sa fd ev) m = Some m'" "both_ok m'" "\<forall>fd. gone fd m \<longrightarrow> gone fd m'"
proof -
  have "\<exists>m'. mgr_handler sa fd ev m = Some m' \<and> both_ok m' \<and> (\<forall>fd. gone fd m \<longrightarrow> gone fd m')"
    using assms epollerEventHandler_both [OF assms] gone_handler by (cases ev) (simp_all add: mgr_handler_def, metis+)
  then show thesis using assms that by (cases b) (auto simp: call_if_def)
qed

definition del_answers :: "sockAnswers \<Rightarrow> bool" where
  "del_answers sa \<longleftrightarrow> (\<forall>fd. sa_del sa fd \<in> {None, Some ENOENT, Some EBADF})"

lemma del_both:
  assumes "both_ok m" and "del_answers sa"
  shows "\<exists>m'. delSocket (mgr_ctl sa) fd m = (Inr (), m') \<and> both_ok m' \<and> m' = m\<lparr>epoll := AList.delete fd (epoll m)\<rparr>"
proof -
  have "sa_del sa fd = None \<or> sa_del sa fd = Some ENOENT \<or> sa_del sa fd = Some EBADF" using assms(2) by (auto simp: del_answers_def)
  then show ?thesis using assms(1) by (auto simp: delSocket_def mgr_ctl_def both_ok_def)
qed

lemma event_both:
  assumes "both_ok m" and "del_answers sa"
  shows "\<exists>m'. dispatch_event (mgr_handler sa) (mgr_ctl sa) fd bits m = Some (Inr (), m') \<and> both_ok m'
    \<and> (\<forall>fd. gone fd m \<longrightarrow> gone fd m') \<and> (reports_error bits \<longrightarrow> gone fd m')"
proof -
  obtain m1 where 1: "call_if (wants_read bits) (mgr_handler sa fd EpRead) m = Some m1" "both_ok m1" "\<forall>fd. gone fd m \<longrightarrow> gone fd m1"
    by (rule handler_both [OF assms(1)])
  obtain m2 where 2: "call_if (wants_write bits) (mgr_handler sa fd EpWrite) m1 = Some m2" "both_ok m2" "\<forall>fd. gone fd m1 \<longrightarrow> gone fd m2"
    by (rule handler_both [OF 1(2)])
  obtain m3 where 3: "epollerEventHandler fd EvError m2 = Some m3" "both_ok m3"
    by (rule epollerEventHandler_both [OF 2(2)])
  have g: "gone fd' m3" if "gone fd' m2" for fd' using gone_handler [OF that 3(1)] .
  obtain m4 where 4: "delSocket (mgr_ctl sa) fd m3 = (Inr (), m4)" "both_ok m4" "m4 = m3\<lparr>epoll := AList.delete fd (epoll m3)\<rparr>"
    using del_both [OF 3(2) assms(2)] by blast
  have "gone fd' m4" if "gone fd' m3" for fd' using that 4(3) by (simp add: gone_def delete_conv')
  then show ?thesis
    using 1 2 3 4 g error_gone [OF 3(1)] by (simp add: dispatch_event_def mgr_handler_def)
qed

lemma events_both:
  assumes "both_ok m" and "del_answers sa"
  shows "\<exists>m'. dispatch_all (mgr_handler sa) (mgr_ctl sa) evs m = Some (Inr (), m') \<and> both_ok m'
    \<and> (\<forall>fd. gone fd m \<longrightarrow> gone fd m') \<and> (\<forall>(fd, bits) \<in> set evs. reports_error bits \<longrightarrow> gone fd m')"
  using assms(1)
proof (induction evs arbitrary: m)
  case (Cons ev evs)
  obtain fd bits where ev: "ev = (fd, bits)" by (cases ev)
  obtain m1 where 1: "dispatch_event (mgr_handler sa) (mgr_ctl sa) fd bits m = Some (Inr (), m1)" "both_ok m1"
    "\<forall>fd. gone fd m \<longrightarrow> gone fd m1" "reports_error bits \<longrightarrow> gone fd m1"
    using event_both [OF Cons.prems assms(2)] by blast
  from Cons.IH [OF 1(2)] obtain m2 where 2: "dispatch_all (mgr_handler sa) (mgr_ctl sa) evs m1 = Some (Inr (), m2)" "both_ok m2"
    "\<forall>fd. gone fd m1 \<longrightarrow> gone fd m2" "\<forall>(fd, bits) \<in> set evs. reports_error bits \<longrightarrow> gone fd m2" by blast
  show ?case using 1 2 by (auto simp: ev)
qed simp

text \<open>C12: A round of the connection manager's thread returns whatever events the system reports and whatever the sockets
  answer, keeps the buffers and the indices of the connections sound, and leaves no socket registered, with the manager
  or with the poller, for which an error, or nothing that can be read or written, was reported.\<close>

theorem poll_round_sound:
  assumes "mgr_ok m" and "index_ok m" and "del_answers sa"
  shows "\<exists>m'. waitImpl (mgr_handler sa) (mgr_ctl sa) (Inr evs) m = Some (Inr (), m') \<and> mgr_ok m' \<and> index_ok m'
    \<and> (\<forall>(fd, bits) \<in> set evs. reports_error bits \<longrightarrow> map_of (allConns m') fd = None \<and> map_of (epoll m') fd = None)"
  using events_both [of m sa evs] assms by (auto simp: both_ok_def waitImpl_def gone_def)

theorem poll_round_sound_witness:
  "\<exists>m'. waitImpl (mgr_handler \<lparr>sa_recv = (\<lambda>fd. [RBytes [0, 0, 0, 0], RBytes []]), sa_send = (\<lambda>fd. []), sa_del = (\<lambda>fd. Some EBADF)\<rparr>)
      (mgr_ctl \<lparr>sa_recv = (\<lambda>fd. [RBytes [0, 0, 0, 0], RBytes []]), sa_send = (\<lambda>fd. []), sa_del = (\<lambda>fd. Some EBADF)\<rparr>)
      (Inr [(5, 1 + 8), (7, 0)]) (fst (addPublicConnection True 5 bufConn_new 65536 connMgr_init)) = Some (Inr (), m')
    \<and> map_of (allConns m') 5 = None \<and> map_of (epoll m') 5 = None"
proof -
  let ?sa = "\<lparr>sa_recv = (\<lambda>fd. [RBytes [0, 0, 0, 0], RBytes []]), sa_send = (\<lambda>fd. []), sa_del = (\<lambda>fd. Some EBADF)\<rparr>"
  let ?m = "fst (addPublicConnection True 5 bufConn_new 65536 connMgr_init)"
  have "conn_ok bufConn_new" by (simp add: conn_ok_def bufConn_new_def)
  then have "mgr_ok ?m" by (simp add: addPublicConnection_def connMgr_init_def map_insert_def mgr_ok_def newHolder_def)
  moreover have "index_ok ?m" by (rule index_ok_addPublic [OF index_ok_init]) simp
  moreover have "del_answers ?sa" by (simp add: del_answers_def)
  ultimately have "\<exists>m'. waitImpl (mgr_handler ?sa) (mgr_ctl ?sa) (Inr [(5, 1 + 8), (7, 0)]) ?m = Some (Inr (), m') \<and> mgr_ok m' \<and> index_ok m'
    \<and> (\<forall>(fd, bits) \<in> set [(5, 1 + 8), (7, 0)]. reports_error bits \<longrightarrow> map_of (allConns m') fd = None \<and> map_of (epoll m') fd = None)"
    by (rule poll_round_sound)
  moreover have "reports_error (1 + 8)" by (simp add: reports_error_def EPOLLERR_def)
  ultimately show ?thesis by auto
qed

text \<open>The thread ends early, and with a failure, only when the system refuses to wait; a signal does not count.\<close>

lemma exec_runs:
  assumes "both_ok m" and "\<forall>(sa, ans) \<in> set rounds. del_answers sa"
  shows "\<exists>m'. mgr_exec rounds m = Some (\<forall>(sa, ans) \<in> set rounds. \<forall>errno. ans = Inl errno \<longrightarrow> errno = EINTR, m') \<and> both_ok m'"
  using assms
proof (induction rounds arbitrary: m)
  case (Cons x rounds)
  obtain sa ans where x: "x = (sa, ans)" by (cases x)
  show ?case
  proof (cases ans)
    case (Inl errno)
    then show ?thesis using Cons by (auto simp: x waitImpl_def)
  next
    case (Inr evs)
    obtain m1 where 1: "dispatch_all (mgr_handler sa) (mgr_ctl sa) evs m = Some (Inr (), m1)" "both_ok m1"
      using events_both [OF Cons.prems(1), of sa evs] Cons.prems(2) by (auto simp: x)
    then show ?thesis using Cons.IH [OF 1(2)] Cons.prems(2) Inr by (simp add: x waitImpl_def)
  qed
qed simp

text \<open>
  The poller removes the socket after its handler has run for the error. The connection manager closes the
  socket in the handler, so that its number is free: if another thread is given the number for a new connection and
  registers it before the removal, the new connection is no longer watched.
\<close>

definition table_ctl :: "(int \<times> u32) list ctl" where
  "table_ctl op fd bits t = (None, if op = CtlDel then AList.delete fd t else AList.update fd bits t)"

lemma reused_number_unwatched:
  defines "h \<equiv> (\<lambda>fd ev t. Some (snd (table_ctl CtlAdd fd EPOLLIN (snd (table_ctl CtlDel fd 0 t)))))"
  shows "map_of (the (h 5 EpError t)) 5 = Some EPOLLIN"
    and "\<exists>t'. dispatch_event h table_ctl 5 EPOLLERR t = Some (Inr (), t') \<and> map_of t' 5 = None"
  by (simp_all add: h_def table_ctl_def update_conv' dispatch_event_def call_if_def wants_read_def wants_write_def
      reports_error_def EPOLLIN_def EPOLLOUT_def EPOLLERR_def EPOLLHUP_def delSocket_def delete_conv')

end
