(* ===== verification/Coroutines.thy ===== *)
theory Coroutines
  imports Prelude "HOL-Library.Multiset"
begin

text \<open>
  The scheduler of coroutines of \<^verbatim>\<open>water/coroutine/coroutine.cpp\<close>. What a coroutine does until it
  yields or returns is the function \<open>body\<close>: the functions of which it creates coroutines, and the
  rest of it if it yields. The rest stands for the context and the saved stack, which is restored
  as it was saved. What \<open>getcontext\<close> and \<open>swapcontext\<close> answer when a coroutine is resumed is an
  argument; that the switch back to the scheduler fails, and that the stack overflows, is left out.
  Ids and sizes of tables are natural numbers: a \<open>CorotId\<close> has 32 bits, of which the greatest value stands for
  the scheduler, so that there may be fewer than \<open>2 ^ 32 - 1\<close> coroutines at a time.
\<close>

section \<open>State\<close>

datatype corotStatus = CorotNull | Ready | Running | Sleeping

record 'b corot =
  co_id :: nat
  co_body :: 'b
  co_status :: corotStatus

text \<open>\<open>sc_running\<close>: \<open>None\<close> is \<open>SCHEDULE_TASK_ID\<close>. \<open>sc_log\<close>: what has been run.\<close>

record 'b scheduler =
  sc_tasks :: "'b corot option list"
  sc_running :: "nat option"
  sc_avail :: "nat list"
  sc_log :: "(nat \<times> 'b) list"

definition scheduler_init :: "'b scheduler" where
  "scheduler_init = \<lparr>sc_tasks = [], sc_running = None, sc_avail = [], sc_log = []\<rparr>"

section \<open>Operations\<close>

definition corot_create :: "'b \<Rightarrow> 'b scheduler \<Rightarrow> nat \<times> 'b scheduler" where
  "corot_create func s =
     (case sc_avail s of
        [] \<Rightarrow> let i = length (sc_tasks s)
             in (i, s\<lparr>sc_tasks := sc_tasks s @ [Some \<lparr>co_id = i, co_body = func, co_status = Ready\<rparr>]\<rparr>)
      | i # avail \<Rightarrow>
          (i, s\<lparr>sc_avail := avail, sc_tasks := (sc_tasks s)[i := Some \<lparr>co_id = i, co_body = func, co_status = Ready\<rparr>]\<rparr>))"

definition corot_destroy :: "nat \<Rightarrow> 'b scheduler \<Rightarrow> 'b scheduler" where
  "corot_destroy i s = s\<lparr>sc_tasks := (sc_tasks s)[i := None], sc_avail := sc_avail s @ [i]\<rparr>"

definition getCorot :: "nat option \<Rightarrow> 'b scheduler \<Rightarrow> 'b corot option" where
  "getCorot i s = (case i of None \<Rightarrow> None | Some i \<Rightarrow> if length (sc_tasks s) \<le> i then None else sc_tasks s ! i)"

definition set_corot :: "nat \<Rightarrow> 'b corot \<Rightarrow> 'b scheduler \<Rightarrow> 'b scheduler" where
  "set_corot i co s = s\<lparr>sc_tasks := (sc_tasks s)[i := Some co]\<rparr>"

definition yieldRunningCorot :: "'b \<Rightarrow> 'b scheduler \<Rightarrow> 'b scheduler" where
  "yieldRunningCorot rest s =
     (case sc_running s of
        None \<Rightarrow> s
      | Some i \<Rightarrow>
          (case getCorot (Some i) s of
             None \<Rightarrow> s
           | Some co \<Rightarrow> (set_corot i (co\<lparr>co_body := rest, co_status := Sleeping\<rparr>) s)\<lparr>sc_running := None\<rparr>))"

definition invoke_end :: "nat \<Rightarrow> 'b scheduler \<Rightarrow> 'b scheduler" where
  "invoke_end i s = (corot_destroy i s)\<lparr>sc_running := None\<rparr>"

definition run_slice :: "('b \<Rightarrow> 'b list \<times> 'b option) \<Rightarrow> nat \<Rightarrow> 'b corot \<Rightarrow> 'b scheduler \<Rightarrow> 'b scheduler" where
  "run_slice body i co s =
     (let (new, rest) = body (co_body co);
          s = fold (\<lambda>f s. snd (corot_create f s)) new (s\<lparr>sc_log := sc_log s @ [(i, co_body co)]\<rparr>)
      in case rest of None \<Rightarrow> invoke_end i s | Some b \<Rightarrow> yieldRunningCorot b s)"

datatype switchAns = Switched | GetFails | SwapFails

definition suspend_running :: "'b scheduler \<Rightarrow> 'b scheduler" where
  "suspend_running s =
     (case getCorot (sc_running s) s of
        None \<Rightarrow> s
      | Some r \<Rightarrow> set_corot (the (sc_running s)) (r\<lparr>co_status := Sleeping\<rparr>) s)"

definition enter_corot :: "nat \<Rightarrow> 'b corot \<Rightarrow> 'b scheduler \<Rightarrow> 'b scheduler" where
  "enter_corot i co s = (set_corot i (co\<lparr>co_status := Running\<rparr>) s)\<lparr>sc_running := Some i\<rparr>"

definition resumeCorot ::
  "('b \<Rightarrow> 'b list \<times> 'b option) \<Rightarrow> switchAns \<Rightarrow> nat \<Rightarrow> 'b scheduler \<Rightarrow> bool \<times> 'b scheduler" where
  "resumeCorot body ans i s =
     (if getCorot (Some i) s = None then (True, s)
      else let s = suspend_running s
           in case getCorot (Some i) s of
                None \<Rightarrow> (True, s)
              | Some co \<Rightarrow>
                  (case co_status co of
                     Ready \<Rightarrow> if ans = GetFails then (False, s)
                             else if ans = SwapFails then (False, enter_corot i co s)
                             else (True, run_slice body i co (enter_corot i co s))
                   | Sleeping \<Rightarrow> if ans = SwapFails then (False, enter_corot i co s)
                                else (True, run_slice body i co (enter_corot i co s))
                   | CorotNull \<Rightarrow> (True, s)
                   | Running \<Rightarrow> (True, s)))"

text \<open>The bound of the loop is read anew in every round: a coroutine created by another may still be run.\<close>

partial_function (option) sched_loop ::
  "('b \<Rightarrow> 'b list \<times> 'b option) \<Rightarrow> (nat \<Rightarrow> switchAns) \<Rightarrow> nat \<Rightarrow> nat \<Rightarrow> 'b scheduler \<Rightarrow> (nat \<times> 'b scheduler) option" where
  "sched_loop body ans i ret s =
     (if length (sc_tasks s) \<le> i then Some (ret, s)
      else case sc_tasks s ! i of
             None \<Rightarrow> sched_loop body ans (i + 1) ret s
           | Some co \<Rightarrow>
               (case resumeCorot body (ans i) i s of
                  (ok, s') \<Rightarrow> if ok then sched_loop body ans (i + 1) (ret + 1) s'
                             else sched_loop body ans (i + 1) ret (corot_destroy i s')))"

definition doSchedule ::
  "('b \<Rightarrow> 'b list \<times> 'b option) \<Rightarrow> (nat \<Rightarrow> switchAns) \<Rightarrow> 'b scheduler \<Rightarrow> (nat \<times> 'b scheduler) option" where
  "doSchedule body ans s = (if sc_running s \<noteq> None then Some (0, s) else sched_loop body ans 0 0 s)"

section \<open>The tables\<close>

definition slot_ok :: "nat \<Rightarrow> 'b corot option \<Rightarrow> bool" where
  "slot_ok i t \<longleftrightarrow> (case t of None \<Rightarrow> True | Some co \<Rightarrow> co_id co = i \<and> co_status co \<in> {Ready, Sleeping})"

definition tables_ok :: "'b scheduler \<Rightarrow> bool" where
  "tables_ok s \<longleftrightarrow> distinct (sc_avail s) \<and> set (sc_avail s) = {i. i < length (sc_tasks s) \<and> sc_tasks s ! i = None}"

definition sched_ok :: "'b scheduler \<Rightarrow> bool" where
  "sched_ok s \<longleftrightarrow> tables_ok s \<and> (\<forall>i < length (sc_tasks s). slot_ok i (sc_tasks s ! i)) \<and> sc_running s = None"

lemma scheduler_init_ok: "sched_ok scheduler_init"
  by (simp add: sched_ok_def tables_ok_def scheduler_init_def)

text \<open>
  What the creations of a run leave: every slot is as it was, or was empty or behind the table and
  holds a new coroutine.
\<close>

definition kept :: "'b set \<Rightarrow> 'b corot option list \<Rightarrow> 'b corot option list \<Rightarrow> nat \<Rightarrow> bool" where
  "kept F ts ts' i \<longleftrightarrow> (i < length ts \<and> ts' ! i = ts ! i)
     \<or> ((i < length ts \<longrightarrow> ts ! i = None) \<and> (\<exists>f \<in> F. ts' ! i = Some \<lparr>co_id = i, co_body = f, co_status = Ready\<rparr>))"

lemma kept_trans:
  assumes "kept F ts ts' i" "kept G ts' ts'' i" "length ts \<le> length ts'"
  shows "kept (F \<union> G) ts ts'' i"
  using assms by (elim kept_def [THEN iffD1, elim_format] disjE) (auto simp: kept_def)

lemma kept_same: "i < length ts \<Longrightarrow> ts' ! i = ts ! i \<Longrightarrow> kept F ts ts' i"
  by (simp add: kept_def)

lemma kept_live: "kept F ts ts' i \<Longrightarrow> i < length ts \<Longrightarrow> ts ! i = Some co \<Longrightarrow> ts' ! i = Some co"
  by (auto simp: kept_def)

lemma kept_cong:
  "kept F ts1 ts2 j \<Longrightarrow> length ts1 = length ts \<Longrightarrow> (j < length ts \<Longrightarrow> ts1 ! j = ts ! j) \<Longrightarrow> ts3 ! j = ts2 ! j \<Longrightarrow> kept F ts ts3 j"
  by (simp add: kept_def) (elim disjE conjE bexE; simp)

lemma kept_ok: "kept F ts ts' i \<Longrightarrow> (i < length ts \<Longrightarrow> slot_ok i (ts ! i)) \<Longrightarrow> slot_ok i (ts' ! i)"
  by (auto simp: kept_def slot_ok_def)

definition grown :: "'b set \<Rightarrow> 'b scheduler \<Rightarrow> 'b scheduler \<Rightarrow> bool" where
  "grown F s s' \<longleftrightarrow> tables_ok s' \<and> sc_running s' = sc_running s \<and> sc_log s' = sc_log s
     \<and> length (sc_tasks s) \<le> length (sc_tasks s') \<and> (\<forall>i < length (sc_tasks s'). kept F (sc_tasks s) (sc_tasks s') i)"

lemma grown_refl: "tables_ok s \<Longrightarrow> grown {} s s"
  by (simp add: grown_def kept_same)

lemma grown_create1:
  assumes "tables_ok s"
  shows "grown {f} s (snd (corot_create f s))"
proof (cases "sc_avail s")
  case Nil
  let ?new = "Some \<lparr>co_id = length (sc_tasks s), co_body = f, co_status = Ready\<rparr>"
  have "tables_ok (s\<lparr>sc_tasks := sc_tasks s @ [?new]\<rparr>)"
    using assms Nil by (auto simp: tables_ok_def nth_append less_Suc_eq split: if_splits)
  moreover have "kept {f} (sc_tasks s) (sc_tasks s @ [?new]) i" if "i < Suc (length (sc_tasks s))" for i
    using that by (cases "i = length (sc_tasks s)") (auto simp: kept_def nth_append)
  ultimately show ?thesis using Nil by (simp add: corot_create_def grown_def Let_def)
next
  case (Cons a avail)
  let ?s' = "s\<lparr>sc_avail := avail, sc_tasks := (sc_tasks s)[a := Some \<lparr>co_id = a, co_body = f, co_status = Ready\<rparr>]\<rparr>"
  have m: "i \<in> set (sc_avail s) \<longleftrightarrow> i < length (sc_tasks s) \<and> sc_tasks s ! i = None" for i
    using assms by (auto simp: tables_ok_def)
  have a: "a < length (sc_tasks s)" "sc_tasks s ! a = None" using m [of a] Cons by auto
  have d: "a \<notin> set avail" "distinct avail" using assms Cons by (auto simp: tables_ok_def)
  have "i \<in> set avail \<longleftrightarrow> i < length (sc_tasks s) \<and> sc_tasks ?s' ! i = None" for i
    using m [of i] Cons d a by (cases "i = a") auto
  then have "tables_ok ?s'" using d by (auto simp: tables_ok_def)
  moreover have "kept {f} (sc_tasks s) (sc_tasks ?s') i" if "i < length (sc_tasks s)" for i
    using that a by (cases "i = a") (auto simp: kept_def)
  ultimately show ?thesis using Cons by (simp add: corot_create_def grown_def)
qed

lemma grown_trans: "grown F s s' \<Longrightarrow> grown G s' s'' \<Longrightarrow> grown (F \<union> G) s s''"
proof -
  assume a: "grown F s s'" "grown G s' s''"
  have "kept (F \<union> G) (sc_tasks s) (sc_tasks s'') i" if "i < length (sc_tasks s'')" for i
  proof (cases "i < length (sc_tasks s')")
    case True
    then show ?thesis using a that by (intro kept_trans [of F _ "sc_tasks s'"]) (simp_all add: grown_def)
  next
    case False
    then have "kept G (sc_tasks s') (sc_tasks s'') i" "\<not> i < length (sc_tasks s)" using a that by (simp_all add: grown_def)
    then show ?thesis using False by (auto simp: kept_def)
  qed
  then show ?thesis using a by (simp add: grown_def)
qed

lemma grown_fold: "grown F s s' \<Longrightarrow> grown (F \<union> set fs) s (fold (\<lambda>f s. snd (corot_create f s)) fs s')"
proof (induction fs arbitrary: F s')
  case (Cons f fs)
  have "grown (F \<union> {f}) s (snd (corot_create f s'))"
    using Cons.prems by (intro grown_trans [OF Cons.prems] grown_create1) (simp add: grown_def)
  from Cons.IH [OF this] show ?case by simp
qed simp

section \<open>One coroutine\<close>

text \<open>What is left of the run of the coroutine in slot \<open>i\<close>, which is its own.\<close>

definition ran :: "'b set \<Rightarrow> nat \<Rightarrow> 'b \<Rightarrow> 'b scheduler \<Rightarrow> 'b scheduler \<Rightarrow> bool" where
  "ran F i b s s' \<longleftrightarrow> sched_ok s' \<and> sc_log s' = sc_log s @ [(i, b)] \<and> length (sc_tasks s) \<le> length (sc_tasks s')
     \<and> (\<forall>j < length (sc_tasks s'). j \<noteq> i \<longrightarrow> kept F (sc_tasks s) (sc_tasks s') j)"

lemma tables_okI:
  assumes "distinct (sc_avail s)" "\<And>k. k \<in> set (sc_avail s) \<longleftrightarrow> k < length (sc_tasks s) \<and> sc_tasks s ! k = None"
  shows "tables_ok s"
  unfolding tables_ok_def using assms by blast

lemma tables_okD: "tables_ok s \<Longrightarrow> k \<in> set (sc_avail s) \<longleftrightarrow> k < length (sc_tasks s) \<and> sc_tasks s ! k = None"
  unfolding tables_ok_def by blast

lemma tables_ok_set:
  assumes "tables_ok s" "i < length (sc_tasks s)" "sc_tasks s ! i \<noteq> None"
  shows "tables_ok (set_corot i co s)"
proof (rule tables_okI)
  show "distinct (sc_avail (set_corot i co s))" using assms(1) by (simp add: tables_ok_def set_corot_def)
  show "k \<in> set (sc_avail (set_corot i co s)) \<longleftrightarrow>
      k < length (sc_tasks (set_corot i co s)) \<and> sc_tasks (set_corot i co s) ! k = None" for k
    using tables_okD [OF assms(1), of k] assms(2, 3) by (cases "k = i") (simp_all add: set_corot_def)
qed

lemma tables_ok_simps [simp]:
  "tables_ok (s\<lparr>sc_running := r\<rparr>) = tables_ok s" "tables_ok (s\<lparr>sc_log := l\<rparr>) = tables_ok s"
  by (simp_all add: tables_ok_def)

lemma tables_ok_destroy:
  assumes "tables_ok s" "i < length (sc_tasks s)" "sc_tasks s ! i \<noteq> None"
  shows "tables_ok (corot_destroy i s)"
proof (rule tables_okI)
  have "i \<notin> set (sc_avail s)" using tables_okD [OF assms(1), of i] assms(3) by blast
  then show "distinct (sc_avail (corot_destroy i s))" using assms(1) by (simp add: tables_ok_def corot_destroy_def)
  show "k \<in> set (sc_avail (corot_destroy i s)) \<longleftrightarrow>
      k < length (sc_tasks (corot_destroy i s)) \<and> sc_tasks (corot_destroy i s) ! k = None" for k
    using tables_okD [OF assms(1), of k] assms(2) by (cases "k = i") (simp_all add: corot_destroy_def)
qed

lemma resume_ok:
  assumes ok: "sched_ok s" and i: "i < length (sc_tasks s)" "sc_tasks s ! i = Some co"
    and sw: "ans = Switched"
  obtains s' where "resumeCorot body ans i s = (True, s')" "ran (set (fst (body (co_body co)))) i (co_body co) s s'"
proof -
  obtain new rest where b: "body (co_body co) = (new, rest)" by fastforce
  have st: "slot_ok j (sc_tasks s ! j)" if "j < length (sc_tasks s)" for j using ok that by (simp add: sched_ok_def)
  define s1 where "s1 = (enter_corot i co s)\<lparr>sc_log := sc_log s @ [(i, co_body co)]\<rparr>"
  define s2 where "s2 = fold (\<lambda>f s. snd (corot_create f s)) new s1"
  define s3 where "s3 = (case rest of None \<Rightarrow> invoke_end i s2 | Some b \<Rightarrow> yieldRunningCorot b s2)"
  have st1: "co_status co = Ready \<or> co_status co = Sleeping" "co_id co = i" using st [OF i(1)] i(2) by (simp_all add: slot_ok_def)
  have "run_slice body i co (enter_corot i co s) = s3"
    unfolding run_slice_def b s3_def s2_def s1_def Let_def prod.case
    by (simp add: enter_corot_def set_corot_def cong: option.case_cong)
  then have r: "resumeCorot body ans i s = (True, s3)"
    using i sw ok st1 by (auto simp: resumeCorot_def getCorot_def suspend_running_def sched_ok_def)
  have l1: "length (sc_tasks s1) = length (sc_tasks s)" by (simp add: s1_def enter_corot_def set_corot_def)
  have t1: "tables_ok s1" using ok i by (simp add: s1_def enter_corot_def sched_ok_def tables_ok_set)
  have g: "grown (set new) s1 s2" using grown_fold [OF grown_refl [OF t1], of new] by (simp add: s2_def)
  have i1: "sc_tasks s1 ! i = Some (co\<lparr>co_status := Running\<rparr>)" "sc_running s1 = Some i"
    using i by (simp_all add: s1_def enter_corot_def set_corot_def)
  have i2: "i < length (sc_tasks s2)" using g i(1) l1 by (simp add: grown_def)
  have v2: "sc_tasks s2 ! i = Some (co\<lparr>co_status := Running\<rparr>)"
    using g i2 i(1) l1 by (intro kept_live [of "set new", OF _ _ i1(1)]) (simp_all add: grown_def)
  have r2: "sc_running s2 = Some i" "tables_ok s2" "sc_log s2 = sc_log s @ [(i, co_body co)]"
    "length (sc_tasks s) \<le> length (sc_tasks s2)"
    using g i1 l1 by (simp_all add: grown_def s1_def)
  have t3: "tables_ok s3 \<and> sc_running s3 = None \<and> sc_log s3 = sc_log s2 \<and> length (sc_tasks s3) = length (sc_tasks s2)
    \<and> (\<forall>j. j \<noteq> i \<longrightarrow> sc_tasks s3 ! j = sc_tasks s2 ! j) \<and> slot_ok i (sc_tasks s3 ! i)"
  proof (cases rest)
    case None
    then show ?thesis using r2(1) i2 v2 tables_ok_destroy [OF r2(2) i2] by (simp add: s3_def invoke_end_def) (simp add: corot_destroy_def slot_ok_def)
  next
    case (Some b)
    then have "s3 = (set_corot i (co\<lparr>co_body := b, co_status := Sleeping\<rparr>) s2)\<lparr>sc_running := None\<rparr>"
      using i2 v2 r2(1) by (simp add: s3_def yieldRunningCorot_def getCorot_def)
    then show ?thesis using i2 v2 st1 tables_ok_set [OF r2(2) i2] by (simp add: set_corot_def slot_ok_def)
  qed
  have o: "kept (set new) (sc_tasks s) (sc_tasks s3) j" if j: "j < length (sc_tasks s3)" "j \<noteq> i" for j
  proof -
    have s1: "j < length (sc_tasks s) \<Longrightarrow> sc_tasks s1 ! j = sc_tasks s ! j"
      using j(2) by (simp add: s1_def enter_corot_def set_corot_def)
    have "kept (set new) (sc_tasks s1) (sc_tasks s2) j" using g j t3 by (simp add: grown_def)
    moreover have "sc_tasks s3 ! j = sc_tasks s2 ! j" using t3 j(2) by blast
    ultimately show ?thesis using s1 l1 by (auto intro: kept_cong)
  qed
  have "slot_ok j (sc_tasks s3 ! j)" if j: "j < length (sc_tasks s3)" for j
    using kept_ok [OF o [OF j]] st [of j] t3 by (cases "j = i") auto
  then have "sched_ok s3" using t3 by (simp add: sched_ok_def)
  then have "ran (set new) i (co_body co) s s3" unfolding ran_def using t3 r2(3, 4) o by simp
  with r b that show ?thesis by simp
qed

section \<open>A round\<close>

definition round_log :: "nat \<Rightarrow> 'b scheduler \<Rightarrow> (nat \<times> 'b) list \<Rightarrow> bool" where
  "round_log i s l \<longleftrightarrow> sorted_wrt (<) (map fst l) \<and> (\<forall>x \<in> set l. i \<le> fst x)
     \<and> (\<forall>j co. i \<le> j \<and> j < length (sc_tasks s) \<and> sc_tasks s ! j = Some co \<longrightarrow> (j, co_body co) \<in> set l)"

lemma round_log_skip:
  assumes "sc_tasks s ! i = None" "round_log (Suc i) s l"
  shows "round_log i s l"
proof -
  have "Suc i \<le> j" if "i \<le> j" "sc_tasks s ! j = Some co" for j co
    using that assms(1) by (cases "j = i") simp_all
  then show ?thesis using assms(2) unfolding round_log_def by (meson Suc_leD)
qed

lemma filter_key: "distinct (map fst l) \<Longrightarrow> (i, b) \<in> set l \<Longrightarrow> filter (\<lambda>x. fst x = i) l = [(i, b)]"
proof (induction l)
  case (Cons x l)
  have x: "fst x \<notin> fst ` set l" using Cons.prems by simp
  show ?case
  proof (cases "x = (i, b)")
    case True
    then have "\<forall>y \<in> set l. fst y \<noteq> i" using x by force
    then show ?thesis using True by (simp add: filter_empty_conv)
  next
    case False
    then have m: "(i, b) \<in> set l" using Cons.prems by auto
    have "fst x \<noteq> i" using m x by (metis fst_conv imageI)
    then show ?thesis using Cons m by simp
  qed
qed simp

lemma round_log_ran:
  assumes r: "ran F i (co_body co) s s'" and i: "i < length (sc_tasks s)" "sc_tasks s ! i = Some co"
    and l: "round_log (Suc i) s' l"
  shows "round_log i s ((i, co_body co) # l)"
  unfolding round_log_def
proof (intro conjI allI impI)
  have "\<forall>x \<in> set l. i < fst x" using l by (simp add: round_log_def Suc_le_eq)
  then show "sorted_wrt (<) (map fst ((i, co_body co) # l))" "\<forall>x \<in> set ((i, co_body co) # l). i \<le> fst x"
    using l by (simp_all add: round_log_def less_imp_le)
next
  fix j co'
  assume j: "i \<le> j \<and> j < length (sc_tasks s) \<and> sc_tasks s ! j = Some co'"
  show "(j, co_body co') \<in> set ((i, co_body co) # l)"
  proof (cases "j = i")
    case False
    have n: "j < length (sc_tasks s')" using r j by (simp add: ran_def)
    have "kept F (sc_tasks s) (sc_tasks s') j" using r False n by (simp add: ran_def)
    then have "sc_tasks s' ! j = Some co'" using j kept_live by blast
    then have "(j, co_body co') \<in> set l" using l n j False by (simp add: round_log_def)
    then show ?thesis by simp
  qed (use i j in simp)
qed

lemma sched_loop_round:
  "sched_loop body ans i ret s = Some r \<Longrightarrow> (\<And>i. ans i = Switched) \<Longrightarrow> sched_ok s
    \<Longrightarrow> sched_ok (snd r) \<and> (\<exists>l. sc_log (snd r) = sc_log s @ l \<and> fst r = ret + length l \<and> round_log i s l)"
proof (induction rule: sched_loop.raw_induct [rotated, consumes 1, case_names round])
  case (round loop body ans i ret s r)
  show ?case
  proof (cases "length (sc_tasks s) \<le> i")
    case True
    then show ?thesis using round.hyps round.prems by (auto simp: round_log_def intro!: exI [of _ "[]"])
  next
    case False
    then have il: "i < length (sc_tasks s)" by simp
    show ?thesis
    proof (cases "sc_tasks s ! i")
      case None
      then have "loop body ans (i + 1) ret s = Some r" using round.hyps False by simp
      from round.IH [OF this round.prems] show ?thesis using round_log_skip [OF None] by auto
    next
      case (Some co)
      obtain s1 where s1: "resumeCorot body (ans i) i s = (True, s1)" "ran (set (fst (body (co_body co)))) i (co_body co) s s1"
        by (rule resume_ok [OF round.prems(2) il Some round.prems(1)]) (rule that)
      have ok1: "sched_ok s1" "sc_log s1 = sc_log s @ [(i, co_body co)]" using s1(2) by (simp_all add: ran_def)
      have "loop body ans (i + 1) (ret + 1) s1 = Some r" using round.hyps False Some s1(1) by simp
      from round.IH [OF this round.prems(1) ok1(1)] obtain l where
        l: "sched_ok (snd r)" "sc_log (snd r) = sc_log s1 @ l" "fst r = ret + 1 + length l" "round_log (Suc i) s1 l"
        by auto
      then show ?thesis
        using round_log_ran [OF s1(2) _ Some l(4)] False ok1(2) by (auto intro!: exI [of _ "(i, co_body co) # l"])
    qed
  qed
qed

text \<open>A round that returns has run every coroutine alive at its start exactly once, in the order of
  the ids.\<close>

lemma round_runs_each:
  assumes "sched_ok s" and "doSchedule body (\<lambda>i. Switched) s = Some (n, s')"
  shows "sched_ok s' \<and> (\<exists>l. sc_log s' = sc_log s @ l \<and> n = length l \<and> sorted_wrt (<) (map fst l)
    \<and> (\<forall>i co. i < length (sc_tasks s) \<and> sc_tasks s ! i = Some co \<longrightarrow> filter (\<lambda>x. fst x = i) l = [(i, co_body co)]))"
proof -
  have "sched_loop body (\<lambda>i. Switched) 0 0 s = Some (n, s')" using assms by (simp add: doSchedule_def sched_ok_def)
  from sched_loop_round [OF this _ assms(1)] obtain l where
    l: "sched_ok s'" "sc_log s' = sc_log s @ l" "n = length l" "round_log 0 s l" by auto
  have "distinct (map fst l)" using l(4) by (auto simp: round_log_def dest: strict_sorted_iff [THEN iffD1])
  then show ?thesis using l filter_key [of l] by (auto simp: round_log_def)
qed

text \<open>The example: a coroutine is the number of times it still yields; one that yields is joined by another.\<close>

definition demo_body :: "nat \<Rightarrow> nat list \<times> nat option" where
  "demo_body n = (if n = 0 then ([], None) else ([n - 1], Some (n - 1)))"

definition demo_sched :: "nat scheduler" where
  "demo_sched = snd (corot_create 0 (snd (corot_create 1 scheduler_init)))"

lemma demo_ok: "sched_ok demo_sched"
  by (auto simp: demo_sched_def corot_create_def scheduler_init_def sched_ok_def tables_ok_def slot_ok_def less_Suc_eq nth_Cons')

lemma demo_round:
  "doSchedule demo_body (\<lambda>i. Switched) demo_sched = Some (3,
     \<lparr>sc_tasks = [Some \<lparr>co_id = 0, co_body = 0, co_status = Sleeping\<rparr>, None, None], sc_running = None, sc_avail = [1, 2],
      sc_log = [(0, 1), (1, 0), (2, 0)]\<rparr>)"
  by (simp add: doSchedule_def sched_loop.simps demo_sched_def demo_body_def corot_create_def scheduler_init_def resumeCorot_def
      getCorot_def suspend_running_def enter_corot_def set_corot_def run_slice_def invoke_end_def corot_destroy_def
      yieldRunningCorot_def Let_def)

section \<open>A round returns\<close>

definition live :: "('b \<Rightarrow> nat) \<Rightarrow> nat \<Rightarrow> 'b scheduler \<Rightarrow> nat multiset" where
  "live rank i s = image_mset (\<lambda>j. rank (co_body (the (sc_tasks s ! j))))
     (mset_set {j. i \<le> j \<and> j < length (sc_tasks s) \<and> sc_tasks s ! j \<noteq> None})"

lemma live_skip: "sc_tasks s ! i = None \<Longrightarrow> live rank i s = live rank (Suc i) s"
proof -
  assume "sc_tasks s ! i = None"
  then have "{j. i \<le> j \<and> j < length (sc_tasks s) \<and> sc_tasks s ! j \<noteq> None} = {j. Suc i \<le> j \<and> j < length (sc_tasks s) \<and> sc_tasks s ! j \<noteq> None}"
    by (auto simp: Suc_le_eq order_le_less)
  then show ?thesis by (simp add: live_def)
qed

lemma live_take:
  assumes "i < length (sc_tasks s)" "sc_tasks s ! i = Some co"
  shows "live rank i s = add_mset (rank (co_body co)) (live rank (Suc i) s)"
proof -
  have "{j. i \<le> j \<and> j < length (sc_tasks s) \<and> sc_tasks s ! j \<noteq> None}
      = insert i {j. Suc i \<le> j \<and> j < length (sc_tasks s) \<and> sc_tasks s ! j \<noteq> None}"
    using assms by auto
  then show ?thesis using assms by (simp add: live_def)
qed

lemma live_ran:
  assumes "ran F i b s s'"
  obtains K where "live rank (Suc i) s' = live rank (Suc i) s + K" "\<And>k. k \<in># K \<Longrightarrow> \<exists>f \<in> F. k = rank f"
proof -
  let ?A = "{j. Suc i \<le> j \<and> j < length (sc_tasks s) \<and> sc_tasks s ! j \<noteq> None}"
  let ?B = "{j. Suc i \<le> j \<and> j < length (sc_tasks s') \<and> sc_tasks s' ! j \<noteq> None}"
  let ?r = "\<lambda>s j. rank (co_body (the (sc_tasks s ! j)))"
  have k: "kept F (sc_tasks s) (sc_tasks s') j" if "Suc i \<le> j" "j < length (sc_tasks s')" for j
    using assms that by (simp add: ran_def)
  have len: "length (sc_tasks s) \<le> length (sc_tasks s')" using assms by (simp add: ran_def)
  have same: "sc_tasks s' ! j = sc_tasks s ! j" if j: "j \<in> ?A" for j
  proof -
    from j obtain co where "sc_tasks s ! j = Some co" by auto
    then show ?thesis using kept_live [OF k [of j]] j len by simp
  qed
  have sub: "?A \<subseteq> ?B" using same len by auto
  have m: "mset_set ?B = mset_set ?A + mset_set (?B - ?A)"
    using mset_set_Union [of ?A "?B - ?A"] sub by (simp add: Un_absorb1)
  have "image_mset (?r s') (mset_set ?A) = image_mset (?r s) (mset_set ?A)"
    by (rule image_mset_cong) (simp add: same)
  then have "live rank (Suc i) s' = live rank (Suc i) s + image_mset (?r s') (mset_set (?B - ?A))"
    by (simp only: live_def m image_mset_union)
  moreover have "\<exists>f \<in> F. k = rank f" if kk: "k \<in># image_mset (?r s') (mset_set (?B - ?A))" for k
  proof -
    have "finite (?B - ?A)" by simp
    then have "k \<in> ?r s' ` (?B - ?A)" using kk by (simp only: set_image_mset finite_set_mset_mset_set)
    then obtain j where j: "j \<in> ?B - ?A" "k = ?r s' j" by (rule imageE) (rule that)
    with k [of j] have "\<exists>f \<in> F. sc_tasks s' ! j = Some \<lparr>co_id = j, co_body = f, co_status = Ready\<rparr>"
      unfolding kept_def by fastforce
    then show ?thesis using j(2) by auto
  qed
  ultimately show ?thesis by (rule that)
qed

lemma sched_loop_returns:
  assumes small: "\<And>b c. c \<in> set (fst (body b)) \<Longrightarrow> rank c < (rank b :: nat)"
  shows "sched_ok s \<Longrightarrow> \<exists>r. sched_loop body (\<lambda>i. Switched) i ret s = Some r"
proof (induction "(live rank i s, length (sc_tasks s) - i)" arbitrary: i ret s
    rule: wf_induct [OF wf_lex_prod [OF wf_mult [OF wf_less_than] wf_less_than], consumes 0, case_names less])
  case less
  show ?case
  proof (cases "length (sc_tasks s) \<le> i")
    case True
    then show ?thesis by (subst sched_loop.simps) simp
  next
    case False
    then have il: "i < length (sc_tasks s)" by simp
    show ?thesis
    proof (cases "sc_tasks s ! i")
      case None
      have "\<exists>r. sched_loop body (\<lambda>i. Switched) (i + 1) ret s = Some r"
        using il live_skip [OF None, of rank] less.prems by (intro less.hyps [rule_format, OF _ refl]) auto
      then show ?thesis using None il by (subst sched_loop.simps) simp
    next
      case (Some co)
      obtain s1 where s1: "resumeCorot body Switched i s = (True, s1)" "ran (set (fst (body (co_body co)))) i (co_body co) s s1"
        by (rule resume_ok [OF less.prems il Some refl]) (rule that)
      obtain K where K: "live rank (Suc i) s1 = live rank (Suc i) s + K" "\<And>k. k \<in># K \<Longrightarrow> \<exists>f \<in> set (fst (body (co_body co))). k = rank f"
        by (rule live_ran [OF s1(2)]) (rule that)
      have "(live rank (Suc i) s + K, live rank (Suc i) s + {#rank (co_body co)#}) \<in> mult less_than"
        using K(2) small by (intro one_step_implies_mult) auto
      then have "(live rank (i + 1) s1, live rank i s) \<in> mult less_than"
        using K(1) live_take [OF il Some] by simp
      then have "\<exists>r. sched_loop body (\<lambda>i. Switched) (i + 1) (ret + 1) s1 = Some r"
        using s1(2) by (intro less.hyps [rule_format, OF _ refl]) (simp_all add: ran_def)
      then show ?thesis using Some il s1(1) by (subst sched_loop.simps) simp
    qed
  qed
qed

lemma round_returns:
  assumes "sched_ok s" and "\<And>b c. c \<in> set (fst (body b)) \<Longrightarrow> rank c < (rank b :: nat)"
  shows "\<exists>n s'. doSchedule body (\<lambda>i. Switched) s = Some (n, s')"
proof -
  have "sc_running s = None" using assms(1) by (simp add: sched_ok_def)
  then show ?thesis using sched_loop_returns [OF assms(2) assms(1), where i = 0 and ret = 0] by (auto simp: doSchedule_def)
qed

text \<open>C19: A round is fair. When no switch of contexts fails, and what a coroutine creates in one run is
  smaller than itself in some measure, a round returns, although its bound grows with the coroutines that are created in it;
  every coroutine alive at its start has then run exactly once, in the order of the ids, from the point at which it had
  stopped, and whatever else has run was created in the round. The number that is returned is that of the runs, not that of the
  coroutines there are. After it every coroutine is ready or asleep, and the free ids are the empty slots.\<close>

theorem round_fair:
  assumes "sched_ok s" and "\<And>b c. c \<in> set (fst (body b)) \<Longrightarrow> rank c < (rank b :: nat)"
  shows "\<exists>s' l. doSchedule body (\<lambda>i. Switched) s = Some (length l, s') \<and> sched_ok s' \<and> sc_log s' = sc_log s @ l
    \<and> sorted_wrt (<) (map fst l)
    \<and> (\<forall>i co. i < length (sc_tasks s) \<and> sc_tasks s ! i = Some co \<longrightarrow> filter (\<lambda>x. fst x = i) l = [(i, co_body co)])"
proof -
  obtain n s' where r: "doSchedule body (\<lambda>i. Switched) s = Some (n, s')" using round_returns [of s body rank, OF assms] by blast
  from round_runs_each [OF assms(1) r] r show ?thesis by blast
qed

theorem round_fair_witness:
  "\<exists>l. [(0, 1), (1, 0), (2, 0)] = sc_log demo_sched @ l \<and> filter (\<lambda>x. fst x = 1) l = [(1, 0)]"
proof -
  have "c < b" if "c \<in> set (fst (demo_body b))" for b c using that by (simp add: demo_body_def split: if_splits)
  from round_fair [OF demo_ok, of demo_body "\<lambda>n. n", OF this] obtain s' l where
    "doSchedule demo_body (\<lambda>i. Switched) demo_sched = Some (length l, s')" "sc_log s' = sc_log demo_sched @ l"
    "\<forall>i co. i < length (sc_tasks demo_sched) \<and> sc_tasks demo_sched ! i = Some co \<longrightarrow> filter (\<lambda>x. fst x = i) l = [(i, co_body co)]"
    by blast
  then show ?thesis using demo_round by (auto simp: demo_sched_def corot_create_def scheduler_init_def)
qed

text \<open>Two coroutines can be left when the number returned is three: both are counted that have come to their end.\<close>

lemma returns_runs:
  "\<exists>s'. doSchedule demo_body (\<lambda>i. Switched) demo_sched = Some (3, s') \<and> length (filter (\<lambda>t. t \<noteq> None) (sc_tasks s')) = 1"
  by (simp add: demo_round)

text \<open>Without the measure a round need not return: a coroutine that starts another like itself, and yields, holds
  the scheduler in one round for ever.\<close>

definition spawner :: "'b \<Rightarrow> 'b list \<times> 'b option" where
  "spawner b = ([b], Some b)"

lemma spawn_step:
  assumes "sched_ok s" "sc_avail s = []" "i < length (sc_tasks s)" "sc_tasks s ! i = Some co"
  shows "\<exists>s'. resumeCorot spawner Switched i s = (True, s') \<and> sched_ok s' \<and> sc_avail s' = [] \<and> length (sc_tasks s) < length (sc_tasks s')"
proof -
  obtain s' where s': "resumeCorot spawner Switched i s = (True, s')" "ran (set (fst (spawner (co_body co)))) i (co_body co) s s'"
    by (rule resume_ok [OF assms(1,3,4) refl]) (rule that)
  have "co_status co = Ready \<or> co_status co = Sleeping" "sc_running s = None"
    using assms(1,3,4) by (auto simp: sched_ok_def slot_ok_def)
  then have "sc_avail s' = [] \<and> length (sc_tasks s) < length (sc_tasks s')"
    using s'(1) assms(2-4)
    by (auto simp: resumeCorot_def getCorot_def suspend_running_def enter_corot_def set_corot_def run_slice_def spawner_def
        corot_create_def yieldRunningCorot_def Let_def nth_append)
  then show ?thesis using s' by (simp add: ran_def)
qed

lemma spawner_loops:
  assumes "sched_loop body ans i ret s = Some r" "body = spawner" "\<And>j. ans j = Switched" "sched_ok s" "sc_avail s = []" "i < length (sc_tasks s)"
  shows False
  using assms
proof (induction rule: sched_loop.raw_induct [rotated, consumes 1, case_names round])
  case (round loop body ans i ret s r)
  have il: "i < length (sc_tasks s)" by (rule round.prems(5))
  then obtain co where co: "sc_tasks s ! i = Some co"
    using tables_okD [of s i] round.prems(3,4) by (auto simp: sched_ok_def)
  obtain s' where s': "resumeCorot spawner Switched i s = (True, s')" "sched_ok s'" "sc_avail s' = []"
    "length (sc_tasks s) < length (sc_tasks s')"
    using spawn_step [OF round.prems(3,4) il co] by blast
  have "loop body ans (i + 1) (ret + 1) s' = Some r" using round.hyps il co s'(1) round.prems(1,2) by simp
  from round.IH [OF this round.prems(1,2) s'(2,3)] show False using il s'(4) by simp
qed

lemma spawner_never_returns:
  assumes "sched_ok s" "sc_avail s = []" "sc_tasks s \<noteq> []"
  shows "doSchedule spawner (\<lambda>i. Switched) s = None"
  using spawner_loops [of spawner "\<lambda>i. Switched" 0 0 s] assms by (cases "sched_loop spawner (\<lambda>i. Switched) 0 0 s") (auto simp: doSchedule_def sched_ok_def)

section \<open>A switch that fails\<close>

lemma length_simps [simp]:
  "length (sc_tasks (corot_destroy i s)) = length (sc_tasks s)" "length (sc_tasks (set_corot i co s)) = length (sc_tasks s)"
  "length (sc_tasks (enter_corot i co s)) = length (sc_tasks s)" "length (sc_tasks (invoke_end i s)) = length (sc_tasks s)"
  "length (sc_tasks (yieldRunningCorot b s)) = length (sc_tasks s)" "length (sc_tasks (suspend_running s)) = length (sc_tasks s)"
  by (auto simp: corot_destroy_def set_corot_def enter_corot_def invoke_end_def yieldRunningCorot_def suspend_running_def
      split: option.split)

lemma length_create: "length (sc_tasks s) \<le> length (sc_tasks (snd (corot_create f s)))"
  by (auto simp: corot_create_def Let_def split: list.split)

lemma length_creates: "length (sc_tasks s) \<le> length (sc_tasks (fold (\<lambda>f s. snd (corot_create f s)) fs s))"
  by (induction fs arbitrary: s) (auto intro: order.trans [OF length_create])

lemma length_slice: "length (sc_tasks s) \<le> length (sc_tasks (run_slice body i co s))"
  using length_creates [of "s\<lparr>sc_log := sc_log s @ [(i, co_body co)]\<rparr>"]
  by (auto simp: run_slice_def Let_def split: prod.split option.split)

lemma length_resume: "length (sc_tasks s) \<le> length (sc_tasks (snd (resumeCorot body ans i s)))"
  using length_slice [of "enter_corot i co (suspend_running s)" for co]
  by (auto simp: resumeCorot_def Let_def split: option.split corotStatus.split)

lemma length_sched_loop: "sched_loop body ans i ret s = Some r \<Longrightarrow> length (sc_tasks s) \<le> length (sc_tasks (snd r))"
proof (induction rule: sched_loop.raw_induct [rotated, consumes 1, case_names round])
  case (round loop body ans i ret s r)
  obtain ok s1 where s1: "resumeCorot body (ans i) i s = (ok, s1)" by fastforce
  then have "length (sc_tasks s) \<le> length (sc_tasks s1)" using length_resume [of s body "ans i" i] by simp
  then show ?case
    using round.hyps round.IH [of body ans "i + 1"] s1
    by (fastforce split: if_splits option.splits dest: round.IH)
qed

lemma sched_loop_stuck:
  assumes ans: "\<And>j. j < k \<Longrightarrow> ans j = Switched" "ans k = SwapFails" and len: "length (sc_tasks (snd r)) = Suc k"
  shows "sched_loop body ans i ret s = Some r \<Longrightarrow> sched_ok s \<Longrightarrow> i \<le> k \<Longrightarrow> k < length (sc_tasks s) \<Longrightarrow> sc_tasks s ! k = Some co
    \<Longrightarrow> sc_running (snd r) = Some k \<and> sc_tasks (snd r) ! k = None"
proof (induction "k - i" arbitrary: i ret s)
  case 0
  then have i: "i = k" by simp
  have st: "co_status co = Ready \<or> co_status co = Sleeping" "sc_running s = None"
    using 0 by (auto simp: sched_ok_def slot_ok_def)
  have "resumeCorot body (ans k) k s = (False, enter_corot k co s)"
    using st 0 ans(2) by (auto simp: resumeCorot_def getCorot_def suspend_running_def)
  then have l: "sched_loop body ans (k + 1) ret (corot_destroy k (enter_corot k co s)) = Some r"
    using 0 i by (subst (asm) sched_loop.simps) simp
  then have "length (sc_tasks s) \<le> Suc k" using length_sched_loop [OF l] len by simp
  then show ?case using l 0 by (subst (asm) sched_loop.simps) (auto simp: corot_destroy_def enter_corot_def set_corot_def)
next
  case (Suc d)
  have il: "i < length (sc_tasks s)" "i < k" "d = k - (i + 1)" using Suc.hyps(2) Suc.prems by simp_all
  show ?case
  proof (cases "sc_tasks s ! i")
    case None
    then have "sched_loop body ans (i + 1) ret s = Some r" using Suc.prems(1) il by (subst (asm) sched_loop.simps) simp
    from Suc.hyps(1) [OF il(3) this] show ?thesis using Suc.prems il by simp
  next
    case (Some c)
    obtain s1 where s1: "resumeCorot body (ans i) i s = (True, s1)" "ran (set (fst (body (co_body c)))) i (co_body c) s s1"
      by (rule resume_ok [OF Suc.prems(2) il(1) Some ans(1) [OF il(2)]]) (rule that)
    have l: "sched_loop body ans (i + 1) (ret + 1) s1 = Some r"
      using Suc.prems(1) il Some s1(1) by (subst (asm) sched_loop.simps) simp
    have k: "k < length (sc_tasks s1)" using s1(2) Suc.prems(4) by (simp add: ran_def)
    then have "kept (set (fst (body (co_body c)))) (sc_tasks s) (sc_tasks s1) k" using s1(2) il by (simp add: ran_def)
    then have "sc_tasks s1 ! k = Some co" using Suc.prems(4, 5) kept_live by blast
    then show ?thesis using Suc.hyps(1) [OF il(3) l] s1(2) il k by (simp add: ran_def)
  qed
qed

text \<open>When the switch to a coroutine fails and it is the last of the table, the scheduler stops for
  ever: it takes itself to be inside a coroutine that no longer exists, every later round runs nothing
  and returns zero, and the coroutines that were alive stay as they are.\<close>

theorem failed_switch_stops:
  assumes "sched_ok s" and "k < length (sc_tasks s)" "sc_tasks s ! k = Some co"
    and "doSchedule body (\<lambda>j. if j = k then SwapFails else Switched) s = Some (n, s')" and "length (sc_tasks s') = Suc k"
  shows "getCorot (Some k) s' = None \<and> (\<forall>ans. doSchedule body ans s' = Some (0, s'))"
proof -
  have "sched_loop body (\<lambda>j. if j = k then SwapFails else Switched) 0 0 s = Some (n, s')"
    using assms(1, 4) by (simp add: doSchedule_def sched_ok_def)
  from sched_loop_stuck [OF _ _ _ this assms(1) _ assms(2, 3)] assms(5)
  have "sc_running s' = Some k \<and> sc_tasks s' ! k = None" by simp
  then show ?thesis by (simp add: doSchedule_def getCorot_def)
qed

definition demo_stuck :: "nat scheduler" where
  "demo_stuck = \<lparr>sc_tasks = [Some \<lparr>co_id = 0, co_body = 0, co_status = Sleeping\<rparr>, None], sc_running = Some 1, sc_avail = [1],
     sc_log = [(0, 1)]\<rparr>"

definition quiet_body :: "nat \<Rightarrow> nat list \<times> nat option" where
  "quiet_body n = ([], if n = 0 then None else Some (n - 1))"

lemma demo_fails: "doSchedule quiet_body (\<lambda>j. if j = 1 then SwapFails else Switched) demo_sched = Some (1, demo_stuck)"
  by (simp add: doSchedule_def sched_loop.simps demo_sched_def quiet_body_def corot_create_def scheduler_init_def resumeCorot_def
      getCorot_def suspend_running_def enter_corot_def set_corot_def run_slice_def invoke_end_def corot_destroy_def
      yieldRunningCorot_def Let_def demo_stuck_def)

theorem failed_switch_stops_witness:
  "getCorot (Some 0) demo_stuck \<noteq> None \<and> doSchedule quiet_body (\<lambda>j. Switched) demo_stuck = Some (0, demo_stuck)"
proof -
  have "1 < length (sc_tasks demo_sched)" "sc_tasks demo_sched ! 1 = Some \<lparr>co_id = 1, co_body = 0, co_status = Ready\<rparr>"
    "length (sc_tasks demo_stuck) = Suc 1"
    by (simp_all add: demo_sched_def corot_create_def scheduler_init_def demo_stuck_def)
  from failed_switch_stops [OF demo_ok this(1, 2) demo_fails this(3)] show ?thesis
    by (simp add: demo_stuck_def getCorot_def)
qed

end
