(* ===== verification/AStar.thy ===== *)
theory AStar
  imports Prelude "HOL-Library.Product_Lexorder"
begin

text \<open>
  Path finding: \<open>AStar::findPath\<close> of \<^verbatim>\<open>water/componet/astar.h\<close>. Positions are of any ordered type; what the
  class is given, neighbours, obstacles, costs and the estimate, is a record. Costs are of 32 bits: a sum
  out of range, which is undefined, is a fault. The priority queue is a sorted list, as equal entries
  cannot be told apart.
\<close>

section \<open>The search\<close>

record 'p grid =
  nighbors :: "'p \<Rightarrow> 'p list"
  enterable :: "'p \<Rightarrow> bool"
  stepCost :: "'p \<Rightarrow> 'p \<Rightarrow> int"
  heruistic :: "'p \<Rightarrow> 'p \<Rightarrow> int"

text \<open>\<open>pa_prev\<close> is \<open>None\<close> while nothing has been stored there.\<close>

record 'p posAttr =
  pa_prev :: "'p option"
  pa_cost :: int

record 'p astar =
  as_frontier :: "(int \<times> 'p) list"
  as_area :: "'p \<rightharpoonup> 'p posAttr"
  as_nearest :: "int \<times> 'p"

datatype pathFault = CostOverflow | NoPrevious

definition add32 :: "int \<Rightarrow> int \<Rightarrow> pathFault + int" where
  "add32 a b = (if in_i32 (a + b) then Inr (a + b) else Inl CostOverflow)"

definition attr_at :: "('p \<rightharpoonup> 'p posAttr) \<Rightarrow> 'p \<Rightarrow> 'p posAttr" where
  "attr_at area p = (case area p of None \<Rightarrow> \<lparr>pa_prev = None, pa_cost = - 1\<rparr> | Some a \<Rightarrow> a)"

definition store_step :: "'p::linorder grid \<Rightarrow> 'p \<Rightarrow> 'p \<Rightarrow> 'p \<Rightarrow> int \<Rightarrow> 'p astar \<Rightarrow> pathFault + 'p astar" where
  "store_step g goal cur nxt nextCost st =
     (let h = heruistic g nxt goal
      in case add32 nextCost h of
           Inl e \<Rightarrow> Inl e
         | Inr f \<Rightarrow>
             Inr (st\<lparr>as_area := (as_area st)(nxt \<mapsto> \<lparr>pa_prev = Some cur, pa_cost = nextCost\<rparr>),
                     as_frontier := insort (f, nxt) (as_frontier st),
                     as_nearest := (if h < fst (as_nearest st) then (h, nxt) else as_nearest st)\<rparr>))"

text \<open>The new cost is compared with the cost of the position that is left, not with that stored for the next one.\<close>

fun expand :: "'p::linorder grid \<Rightarrow> 'p \<Rightarrow> 'p \<Rightarrow> 'p list \<Rightarrow> 'p astar \<Rightarrow> pathFault + 'p astar" where
  "expand g goal cur [] st = Inr st"
| "expand g goal cur (nxt # ns) st =
     (if \<not> enterable g nxt then expand g goal cur ns st
      else case add32 (pa_cost (attr_at (as_area st) cur)) (stepCost g cur nxt) of
             Inl e \<Rightarrow> Inl e
           | Inr nextCost \<Rightarrow>
               if pa_cost (attr_at (as_area st) nxt) = - 1 \<or> nextCost < pa_cost (attr_at (as_area st) cur) then
                 (case store_step g goal cur nxt nextCost st of
                    Inl e \<Rightarrow> Inl e
                  | Inr st \<Rightarrow> expand g goal cur ns st)
               else expand g goal cur ns (st\<lparr>as_area := (as_area st)(nxt \<mapsto> attr_at (as_area st) nxt)\<rparr>))"

partial_function (option) search :: "'p::linorder grid \<Rightarrow> 'p \<Rightarrow> 'p astar \<Rightarrow> (pathFault + 'p astar) option" where
  "search g goal st =
     (case as_frontier st of
        [] \<Rightarrow> Some (Inr st)
      | (f, cur) # rest \<Rightarrow>
          if cur = goal then Some (Inr (st\<lparr>as_frontier := rest, as_nearest := (fst (as_nearest st), goal)\<rparr>))
          else (case expand g goal cur (nighbors g cur)
                  (st\<lparr>as_frontier := rest, as_area := (as_area st)(cur \<mapsto> attr_at (as_area st) cur)\<rparr>) of
                  Inl e \<Rightarrow> Some (Inl e)
                | Inr st' \<Rightarrow> search g goal st'))"

partial_function (option) walk_back :: "('p \<rightharpoonup> 'p posAttr) \<Rightarrow> 'p \<Rightarrow> 'p \<Rightarrow> 'p list \<Rightarrow> (pathFault + 'p list) option" where
  "walk_back area start pos path =
     (if pos = start then Some (Inr path)
      else case pa_prev (attr_at area pos) of
             None \<Rightarrow> Some (Inl NoPrevious)
           | Some q \<Rightarrow> walk_back area start q (pos # path))"

definition astar_init :: "'p::linorder grid \<Rightarrow> 'p \<Rightarrow> 'p \<Rightarrow> 'p astar" where
  "astar_init g start goal =
     \<lparr>as_frontier = [(0, start)], as_area = [start \<mapsto> \<lparr>pa_prev = None, pa_cost = 0\<rparr>], as_nearest = (heruistic g start goal, start)\<rparr>"

definition findPath :: "'p::linorder grid \<Rightarrow> 'p \<Rightarrow> 'p \<Rightarrow> (pathFault + 'p list) option" where
  "findPath g start goal =
     (case search g goal (astar_init g start goal) of
        None \<Rightarrow> None
      | Some (Inl e) \<Rightarrow> Some (Inl e)
      | Some (Inr st) \<Rightarrow> walk_back (as_area st) start (snd (as_nearest st)) [])"

section \<open>What can be reached\<close>

inductive reach :: "'p grid \<Rightarrow> 'p \<Rightarrow> 'p \<Rightarrow> bool" for g start where
  reach_start: "reach g start start"
| reach_step: "reach g start p \<Longrightarrow> q \<in> set (nighbors g p) \<Longrightarrow> enterable g q \<Longrightarrow> reach g start q"

text \<open>A walk from \<open>p\<close> over the cells of a list.\<close>

fun walk :: "'p grid \<Rightarrow> 'p \<Rightarrow> 'p list \<Rightarrow> bool" where
  "walk g p [] = True"
| "walk g p (q # qs) = (q \<in> set (nighbors g p) \<and> enterable g q \<and> walk g q qs)"

lemma walk_snoc: "walk g p (qs @ [q]) \<longleftrightarrow> walk g p qs \<and> q \<in> set (nighbors g (last (p # qs))) \<and> enterable g q"
  by (induction qs arbitrary: p) auto

definition calm :: "'p grid \<Rightarrow> 'p \<Rightarrow> 'p \<Rightarrow> int \<Rightarrow> int \<Rightarrow> bool" where
  "calm g start goal C H \<longleftrightarrow> finite {p. reach g start p} \<and> 0 \<le> C
     \<and> (\<forall>p q. reach g start p \<and> q \<in> set (nighbors g p) \<and> enterable g q \<longrightarrow> 0 \<le> stepCost g p q \<and> stepCost g p q \<le> C)
     \<and> (\<forall>p. reach g start p \<longrightarrow> 0 \<le> heruistic g p goal \<and> heruistic g p goal \<le> H)
     \<and> C * int (card {p. reach g start p}) + H < 2147483648"

section \<open>The invariant\<close>

text \<open>The previous cells lead back to the start.\<close>

inductive chain :: "('p \<rightharpoonup> 'p posAttr) \<Rightarrow> 'p \<Rightarrow> 'p list \<Rightarrow> 'p \<Rightarrow> bool" for area start where
  chain_start: "chain area start [] start"
| chain_step: "chain area start ps q \<Longrightarrow> area p = Some a \<Longrightarrow> pa_prev a = Some q \<Longrightarrow> p \<noteq> start \<Longrightarrow> chain area start (ps @ [p]) p"

lemma chain_mono: "chain area start ps p \<Longrightarrow> area \<subseteq>\<^sub>m area' \<Longrightarrow> chain area' start ps p"
proof (induction rule: chain.induct)
  case (chain_step ps q p a)
  then have "area' p = Some a" by (metis domI map_le_def)
  then show ?case using chain_step by (blast intro: chain.chain_step)
qed (rule chain.chain_start)

lemma walk_back_chain: "chain area start ps p \<Longrightarrow> walk_back area start p path = Some (Inr (ps @ path))"
proof (induction arbitrary: path rule: chain.induct)
  case chain_start
  show ?case by (subst walk_back.simps) simp
next
  case (chain_step ps q p a)
  then show ?case by (subst walk_back.simps) (simp add: attr_at_def)
qed

definition edge_ok :: "'p grid \<Rightarrow> 'p \<Rightarrow> ('p \<rightharpoonup> 'p posAttr) \<Rightarrow> bool" where
  "edge_ok g start area \<longleftrightarrow> (\<forall>p a q. area p = Some a \<and> pa_prev a = Some q \<longrightarrow> p \<in> set (nighbors g q) \<and> enterable g p)"

lemma chain_walk: "chain area start ps p \<Longrightarrow> edge_ok g start area \<Longrightarrow> walk g start ps \<and> last (start # ps) = p"
  by (induction rule: chain.induct) (auto simp: walk_snoc edge_ok_def)

definition costs_ok :: "int \<Rightarrow> ('p \<rightharpoonup> 'p posAttr) \<Rightarrow> bool" where
  "costs_ok C area \<longleftrightarrow> (\<forall>p a. area p = Some a \<longrightarrow> 0 \<le> pa_cost a \<and> pa_cost a \<le> C * (int (card (dom area)) - 1))"

definition nearest_ok :: "'p grid \<Rightarrow> 'p \<Rightarrow> 'p astar \<Rightarrow> bool" where
  "nearest_ok g goal st \<longleftrightarrow> snd (as_nearest st) \<in> dom (as_area st) \<and> fst (as_nearest st) = heruistic g (snd (as_nearest st)) goal
     \<and> (\<forall>p \<in> dom (as_area st). fst (as_nearest st) \<le> heruistic g p goal)"

text \<open>Cells that have left the frontier have their neighbours in the area, except those of \<open>busy\<close>.\<close>

definition astar_ok :: "'p::linorder grid \<Rightarrow> 'p \<Rightarrow> 'p \<Rightarrow> int \<Rightarrow> 'p set \<Rightarrow> 'p astar \<Rightarrow> bool" where
  "astar_ok g start goal C busy st \<longleftrightarrow> dom (as_area st) \<subseteq> {p. reach g start p} \<and> start \<in> dom (as_area st)
     \<and> costs_ok C (as_area st) \<and> edge_ok g start (as_area st) \<and> (\<forall>p \<in> dom (as_area st). \<exists>ps. chain (as_area st) start ps p)
     \<and> snd ` set (as_frontier st) \<subseteq> dom (as_area st)
     \<and> (\<forall>p \<in> dom (as_area st). p \<notin> snd ` set (as_frontier st) \<and> p \<notin> busy
          \<longrightarrow> p \<noteq> goal \<and> (\<forall>q \<in> set (nighbors g p). enterable g q \<longrightarrow> q \<in> dom (as_area st)))
     \<and> nearest_ok g goal st"

lemma dom_card:
  assumes "calm g start goal C H" "astar_ok g start goal C busy st"
  shows "finite (dom (as_area st))" "card (dom (as_area st)) \<le> card {p. reach g start p}" "0 < card (dom (as_area st))"
proof -
  have r: "finite {p. reach g start p}" "dom (as_area st) \<subseteq> {p. reach g start p}" "start \<in> dom (as_area st)"
    using assms by (simp_all add: calm_def astar_ok_def)
  then show f: "finite (dom (as_area st))" using finite_subset by blast
  show "card (dom (as_area st)) \<le> card {p. reach g start p}" using r by (simp add: card_mono)
  show "0 < card (dom (as_area st))" using r f by (auto simp: card_gt_0_iff)
qed

lemma step_cost:
  assumes c: "calm g start goal C H" and ok: "astar_ok g start goal C busy st" and cur: "as_area st cur = Some a"
    and n: "nxt \<in> set (nighbors g cur)" "enterable g nxt"
  shows "add32 (pa_cost (attr_at (as_area st) cur)) (stepCost g cur nxt) = Inr (pa_cost a + stepCost g cur nxt)"
    "pa_cost a \<le> pa_cost a + stepCost g cur nxt" "0 \<le> pa_cost a + stepCost g cur nxt"
    "pa_cost a + stepCost g cur nxt \<le> C * int (card (dom (as_area st)))"
    "C * int (card (dom (as_area st))) + H < 2147483648" "reach g start nxt"
proof -
  have r: "reach g start cur" using ok cur by (auto simp: astar_ok_def)
  then show rn: "reach g start nxt" using n by (rule reach_step)
  have st: "0 \<le> stepCost g cur nxt" "stepCost g cur nxt \<le> C" using c r n by (auto simp: calm_def)
  have pc: "0 \<le> pa_cost a" "pa_cost a \<le> C * (int (card (dom (as_area st))) - 1)"
    using ok cur by (auto simp: astar_ok_def costs_ok_def)
  then show le: "pa_cost a + stepCost g cur nxt \<le> C * int (card (dom (as_area st)))" using st by (simp add: algebra_simps)
  have "0 \<le> C" "0 \<le> H" "C * int (card {p. reach g start p}) + H < 2147483648"
    using c rn order_trans by (fastforce simp: calm_def)+
  moreover have "C * int (card (dom (as_area st))) \<le> C * int (card {p. reach g start p})"
    using \<open>0 \<le> C\<close> dom_card(2) [OF c ok] by (intro mult_left_mono) simp_all
  ultimately show b: "C * int (card (dom (as_area st))) + H < 2147483648" and "pa_cost a \<le> pa_cost a + stepCost g cur nxt"
    "0 \<le> pa_cost a + stepCost g cur nxt"
    using st pc by simp_all
  then show "add32 (pa_cost (attr_at (as_area st) cur)) (stepCost g cur nxt) = Inr (pa_cost a + stepCost g cur nxt)"
    using cur le \<open>0 \<le> H\<close> by (simp add: add32_def attr_at_def in_i32_def)
qed

lemma store_step_ok:
  assumes c: "calm g start goal C H" and ok: "astar_ok g start goal C {cur} st" and cur: "as_area st cur = Some a"
    and n: "nxt \<in> set (nighbors g cur)" "enterable g nxt" and new: "nxt \<notin> dom (as_area st)"
  obtains st' where "store_step g goal cur nxt (pa_cost a + stepCost g cur nxt) st = Inr st'" "astar_ok g start goal C {cur} st'"
    "dom (as_area st') = insert nxt (dom (as_area st))" "as_area st \<subseteq>\<^sub>m as_area st'"
    "length (as_frontier st') = Suc (length (as_frontier st))"
proof -
  note s = step_cost [OF c ok cur n]
  let ?h = "heruistic g nxt goal" and ?cost = "pa_cost a + stepCost g cur nxt"
  let ?area = "(as_area st)(nxt \<mapsto> \<lparr>pa_prev = Some cur, pa_cost = ?cost\<rparr>)"
  let ?st = "st\<lparr>as_area := ?area, as_frontier := insort (?cost + ?h, nxt) (as_frontier st),
      as_nearest := (if ?h < fst (as_nearest st) then (?h, nxt) else as_nearest st)\<rparr>"
  have h: "0 \<le> ?h" "?h \<le> H" using c s(6) by (auto simp: calm_def)
  have "store_step g goal cur nxt ?cost st = Inr ?st"
    using s(3, 4, 5) h by (simp add: store_step_def add32_def in_i32_def Let_def)
  moreover have "astar_ok g start goal C {cur} ?st"
  proof -
    have m: "as_area st \<subseteq>\<^sub>m ?area" using new by (auto simp: map_le_def)
    have f: "finite (dom (as_area st))" by (rule dom_card(1) [OF c ok])
    have cp: "0 \<le> C" using c by (simp add: calm_def)
    have "0 \<le> pa_cost b \<and> pa_cost b \<le> C * (int (card (dom ?area)) - 1)" if "?area p = Some b" for p b
    proof (cases "p = nxt")
      case True
      then show ?thesis using that s(3, 4) f new by auto
    next
      case False
      then have "0 \<le> pa_cost b" "pa_cost b \<le> C * (int (card (dom (as_area st))) - 1)"
        using that ok by (auto simp: astar_ok_def costs_ok_def)
      then show ?thesis using f new cp by (simp add: algebra_simps)
    qed
    then have 1: "costs_ok C ?area" unfolding costs_ok_def by blast
    have 2: "edge_ok g start ?area" using ok n by (auto simp: astar_ok_def edge_ok_def)
    have "cur \<in> dom (as_area st)" using cur by (rule domI)
    then obtain ps where "chain (as_area st) start ps cur" using ok unfolding astar_ok_def by blast
    then have "chain ?area start (ps @ [nxt]) nxt"
      using m new ok by (intro chain_step [of _ _ _ cur _ "\<lparr>pa_prev = Some cur, pa_cost = ?cost\<rparr>"] chain_mono [OF _ m])
        (auto simp: astar_ok_def)
    moreover have "\<exists>ps. chain ?area start ps p" if "p \<in> dom (as_area st)" for p
      using ok that chain_mono [OF _ m] by (meson astar_ok_def)
    ultimately have 3: "\<forall>p \<in> dom ?area. \<exists>ps. chain ?area start ps p" by auto
    have no: "nearest_ok g goal st" using ok by (simp add: astar_ok_def)
    then have mn: "fst (as_nearest st) \<le> heruistic g p goal" if "as_area st p = Some b" for p b
      using that by (auto simp: nearest_ok_def)
    have 4: "nearest_ok g goal ?st"
      using no by (auto simp: nearest_ok_def dest: mn)
    show ?thesis using ok 1 2 3 4 s(6) unfolding astar_ok_def by (auto simp: set_insort_key)
  qed
  ultimately show thesis using new by (intro that [of ?st]) (auto simp: map_le_def)
qed

definition effort :: "'p grid \<Rightarrow> 'p \<Rightarrow> 'p astar \<Rightarrow> nat" where
  "effort g start st = 2 * (card {p. reach g start p} - card (dom (as_area st))) + length (as_frontier st)"

lemma expand_ok:
  assumes c: "calm g start goal C H"
  shows "astar_ok g start goal C {cur} st \<Longrightarrow> cur \<in> dom (as_area st) \<Longrightarrow> set ns \<subseteq> set (nighbors g cur)
    \<Longrightarrow> \<exists>st'. expand g goal cur ns st = Inr st' \<and> astar_ok g start goal C {cur} st' \<and> dom (as_area st) \<subseteq> dom (as_area st')
      \<and> (\<forall>q \<in> set ns. enterable g q \<longrightarrow> q \<in> dom (as_area st')) \<and> effort g start st' \<le> effort g start st"
proof (induction ns arbitrary: st)
  case (Cons nxt ns)
  obtain a where a: "as_area st cur = Some a" using Cons.prems(2) by auto
  show ?case
  proof (cases "enterable g nxt")
    case False
    with Cons show ?thesis by auto
  next
    case True
    have n: "nxt \<in> set (nighbors g cur)" using Cons.prems(3) by simp
    note s = step_cost [OF c Cons.prems(1) a n True]
    show ?thesis
    proof (cases "nxt \<in> dom (as_area st)")
      case known: True
      then obtain b where b: "as_area st nxt = Some b" by auto
      then have "0 \<le> pa_cost b" using Cons.prems(1) by (auto simp: astar_ok_def costs_ok_def)
      then have "expand g goal cur (nxt # ns) st = expand g goal cur ns (st\<lparr>as_area := as_area st\<rparr>)"
        using True s(1, 2) a b by (simp add: attr_at_def fun_upd_idem)
      then have "expand g goal cur (nxt # ns) st = expand g goal cur ns st" by simp
      moreover obtain st' where "expand g goal cur ns st = Inr st'" "astar_ok g start goal C {cur} st'"
        "dom (as_area st) \<subseteq> dom (as_area st')" "\<forall>q \<in> set ns. enterable g q \<longrightarrow> q \<in> dom (as_area st')"
        "effort g start st' \<le> effort g start st"
        using Cons.IH [OF Cons.prems(1, 2)] Cons.prems(3) by auto
      moreover from this have "nxt \<in> dom (as_area st')" using known by (rule_tac subsetD)
      ultimately show ?thesis by auto
    next
      case False
      obtain st1 where st1: "store_step g goal cur nxt (pa_cost a + stepCost g cur nxt) st = Inr st1"
        "astar_ok g start goal C {cur} st1" "dom (as_area st1) = insert nxt (dom (as_area st))"
        "as_area st \<subseteq>\<^sub>m as_area st1" "length (as_frontier st1) = Suc (length (as_frontier st))"
        by (rule store_step_ok [OF c Cons.prems(1) a n True False]) (rule that)
      have "pa_cost (attr_at (as_area st) nxt) = - 1" using False by (auto simp: attr_at_def split: option.split)
      then have e: "expand g goal cur (nxt # ns) st = expand g goal cur ns st1"
        using True s(1) st1(1) by simp
      have "Suc (card (dom (as_area st))) = card (dom (as_area st1))" using st1(3) False dom_card(1) [OF c Cons.prems(1)] by simp
      moreover have "card (dom (as_area st1)) \<le> card {p. reach g start p}" by (rule dom_card(2) [OF c st1(2)])
      ultimately have "effort g start st1 \<le> effort g start st" using st1(5) by (simp add: effort_def)
      then show ?thesis using Cons.IH [of st1] Cons.prems(2, 3) st1(2, 3) e by fastforce
    qed
  qed
qed simp

section \<open>The path that is found\<close>

lemma init_ok:
  assumes "calm g start goal C H"
  shows "astar_ok g start goal C {} (astar_init g start goal)"
proof -
  have "edge_ok g start [start \<mapsto> \<lparr>pa_prev = None, pa_cost = 0\<rparr>]" by (simp add: edge_ok_def)
  then show ?thesis
    by (auto simp: astar_ok_def astar_init_def costs_ok_def nearest_ok_def reach_start intro: chain_start)
qed

text \<open>The search ends at the goal, or with the whole of what can be reached in the area.\<close>

lemma search_ok:
  assumes c: "calm g start goal C H"
  shows "astar_ok g start goal C {} st \<Longrightarrow> \<exists>st'. search g goal st = Some (Inr st')
    \<and> (\<forall>p \<in> dom (as_area st'). \<exists>ps. chain (as_area st') start ps p) \<and> edge_ok g start (as_area st')
    \<and> dom (as_area st') \<subseteq> {p. reach g start p}
    \<and> (if reach g start goal then snd (as_nearest st') = goal \<and> goal \<in> dom (as_area st')
       else dom (as_area st') = {p. reach g start p} \<and> nearest_ok g goal st')"
proof (induction "effort g start st" arbitrary: st rule: less_induct)
  case less
  note ok = less.prems
  show ?case
  proof (cases "as_frontier st")
    case Nil
    have "p \<in> dom (as_area st)" if "reach g start p" for p
      using that
    proof (induction rule: reach.induct)
      case reach_start show ?case using ok by (simp add: astar_ok_def)
    next
      case (reach_step p q)
      then show ?case using ok Nil by (auto simp: astar_ok_def)
    qed
    then have d: "dom (as_area st) = {p. reach g start p}" using ok by (auto simp: astar_ok_def)
    moreover have "goal \<notin> dom (as_area st)" using ok Nil by (auto simp: astar_ok_def)
    ultimately have "\<not> reach g start goal" by blast
    then show ?thesis using Nil ok d by (subst search.simps) (simp add: astar_ok_def)
  next
    case (Cons x rest)
    obtain f cur where x: "x = (f, cur)" by fastforce
    have cur: "cur \<in> dom (as_area st)" using ok Cons x by (auto simp: astar_ok_def)
    show ?thesis
    proof (cases "cur = goal")
      case True
      then have "reach g start goal" using ok cur by (auto simp: astar_ok_def)
      then show ?thesis using Cons x True ok cur by (subst search.simps) (auto simp: astar_ok_def)
    next
      case False
      let ?st = "st\<lparr>as_frontier := rest, as_area := (as_area st)(cur \<mapsto> attr_at (as_area st) cur)\<rparr>"
      have a: "(as_area st)(cur \<mapsto> attr_at (as_area st) cur) = as_area st" using cur by (auto simp: attr_at_def fun_upd_idem)
      have st: "astar_ok g start goal C {cur} ?st"
        using ok Cons x False unfolding astar_ok_def nearest_ok_def a by auto
      have e: "effort g start ?st < effort g start st" unfolding effort_def using Cons by (simp add: a)
      obtain st1 where st1: "expand g goal cur (nighbors g cur) ?st = Inr st1" "astar_ok g start goal C {cur} st1"
        "\<forall>q \<in> set (nighbors g cur). enterable g q \<longrightarrow> q \<in> dom (as_area st1)" "effort g start st1 \<le> effort g start ?st"
        using expand_ok [OF c st, of "nighbors g cur"] cur by (auto simp: a)
      have "astar_ok g start goal C {} st1"
        using st1(2, 3) False by (auto simp: astar_ok_def)
      with less.hyps [of st1] e st1(4) obtain st' where "search g goal st1 = Some (Inr st')" and
        "(\<forall>p \<in> dom (as_area st'). \<exists>ps. chain (as_area st') start ps p) \<and> edge_ok g start (as_area st')
          \<and> dom (as_area st') \<subseteq> {p. reach g start p}
          \<and> (if reach g start goal then snd (as_nearest st') = goal \<and> goal \<in> dom (as_area st')
             else dom (as_area st') = {p. reach g start p} \<and> nearest_ok g goal st')"
        by auto
      moreover from this have "search g goal st = Some (Inr st')"
        using Cons x False st1(1) by (subst search.simps) simp
      ultimately show ?thesis by blast
    qed
  qed
qed

lemma findPath_ok:
  assumes "calm g start goal C H"
  shows "\<exists>path. findPath g start goal = Some (Inr path) \<and> walk g start path
    \<and> (if reach g start goal then last (start # path) = goal
       else reach g start (last (start # path))
         \<and> (\<forall>p. reach g start p \<longrightarrow> heruistic g (last (start # path)) goal \<le> heruistic g p goal))"
proof -
  from search_ok [OF assms init_ok [OF assms]] obtain st where
    st: "search g goal (astar_init g start goal) = Some (Inr st)" "\<forall>p \<in> dom (as_area st). \<exists>ps. chain (as_area st) start ps p"
      "edge_ok g start (as_area st)" "dom (as_area st) \<subseteq> {p. reach g start p}"
      "if reach g start goal then snd (as_nearest st) = goal \<and> goal \<in> dom (as_area st)
       else dom (as_area st) = {p. reach g start p} \<and> nearest_ok g goal st"
    by blast
  have d: "snd (as_nearest st) \<in> dom (as_area st)" using st(5) by (auto simp: nearest_ok_def split: if_splits)
  then obtain ps where ps: "chain (as_area st) start ps (snd (as_nearest st))" using st(2) by blast
  have "findPath g start goal = Some (Inr ps)"
    using walk_back_chain [OF ps, of "[]"] by (simp add: findPath_def st(1))
  moreover have "walk g start ps" "last (start # ps) = snd (as_nearest st)" using chain_walk [OF ps st(3)] by simp_all
  moreover have "\<forall>p. reach g start p \<longrightarrow> heruistic g (snd (as_nearest st)) goal \<le> heruistic g p goal" if "\<not> reach g start goal"
    using st(5) that by (auto simp: nearest_ok_def)
  ultimately show ?thesis using st(4, 5) d by auto
qed

text \<open>C20: Where finitely many cells can be reached, steps cost something between nothing and a bound,
  and the sums fit into 32 bits, the search returns, without a fault, a walk from the start over cells
  that can be entered. It ends at the goal if the goal can be reached, and otherwise at a reachable cell
  with the least estimate of all.\<close>

theorem findPath_reaches:
  assumes "calm g start goal C H"
  shows "\<exists>path. findPath g start goal = Some (Inr path) \<and> walk g start path
    \<and> (if reach g start goal then last (start # path) = goal
       else reach g start (last (start # path))
         \<and> (\<forall>p. reach g start p \<longrightarrow> heruistic g (last (start # path)) goal \<le> heruistic g p goal))"
  using findPath_ok [OF assms] .

section \<open>An example\<close>

text \<open>The way over the third cell is dear; the one over the second is found later and is not taken.\<close>

definition sample_grid :: "nat grid" where
  "sample_grid = \<lparr>nighbors = (\<lambda>p. if p = 0 then [1, 2] else if p = 1 then [2] else if p = 2 then [3] else []),
     enterable = (\<lambda>p. True), stepCost = (\<lambda>p q. if p = 0 \<and> q = 2 then 10 else 1), heruistic = (\<lambda>p goal. 0)\<rparr>"

lemma sample_reach: "{p. reach sample_grid 0 p} \<subseteq> {0, 1, 2, 3}"
proof -
  have "reach sample_grid 0 p \<Longrightarrow> p \<in> {0, 1, 2, 3}" for p
    by (induction rule: reach.induct) (auto simp: sample_grid_def split: if_splits)
  then show ?thesis by blast
qed

lemma sample_calm: "calm sample_grid 0 3 10 0"
proof -
  have "card {p. reach sample_grid 0 p} \<le> card {0, 1, 2, 3 :: nat}" by (rule card_mono [OF _ sample_reach]) simp
  then have "card {p. reach sample_grid 0 p} \<le> 4" by simp
  then show ?thesis using finite_subset [OF sample_reach] by (auto simp: calm_def sample_grid_def)
qed

theorem findPath_reaches_witness:
  "\<exists>path. findPath sample_grid 0 3 = Some (Inr path) \<and> walk sample_grid 0 path \<and> last (0 # path) = 3"
proof -
  have "reach sample_grid 0 2" by (rule reach_step [OF reach_start]) (simp_all add: sample_grid_def)
  then have "reach sample_grid 0 3" by (rule reach_step) (simp_all add: sample_grid_def)
  then show ?thesis using findPath_reaches [OF sample_calm] by auto
qed

fun cost_of :: "'p grid \<Rightarrow> 'p \<Rightarrow> 'p list \<Rightarrow> int" where
  "cost_of g p [] = 0"
| "cost_of g p (q # qs) = stepCost g p q + cost_of g q qs"

text \<open>The estimate is exact enough for a shortest path, but the path that is found is not one.\<close>

lemma findPath_not_shortest:
  "findPath sample_grid 0 3 = Some (Inr [2, 3])" "cost_of sample_grid 0 [2, 3] = 11"
  "walk sample_grid 0 [1, 2, 3]" "cost_of sample_grid 0 [1, 2, 3] = 3"
proof -
  show "findPath sample_grid 0 3 = Some (Inr [2, 3])"
    by (simp add: findPath_def search.simps walk_back.simps astar_init_def sample_grid_def attr_at_def add32_def in_i32_def
        store_step_def Let_def)
qed (simp_all add: sample_grid_def)

end
