(* ===== verification/Coord.thy ===== *)
theory Coord
  imports Config "HOL-Library.Signed_Division"
begin

text \<open>
  Cells and directions of a map: \<^verbatim>\<open>water/componet/coord.h\<close> and \<^verbatim>\<open>coord.cpp\<close>. A coordinate is a word
  of 16 bits, which the unions of the code read as signed or unsigned; here it is read with \<open>sint\<close>
  or \<open>uint\<close>. The Euclidean distance is left out.
\<close>

section \<open>Directions\<close>

datatype direction = DirNone | Leftup | Up | Rightup | DirLeft | DirRight | Leftdown | Down | Rightdown

fun dir_value :: "direction \<Rightarrow> nat" where
  "dir_value DirNone = 0" | "dir_value Leftup = 1" | "dir_value Up = 2" | "dir_value Rightup = 3" | "dir_value DirLeft = 4"
| "dir_value DirRight = 5" | "dir_value Leftdown = 6" | "dir_value Down = 7" | "dir_value Rightdown = 8"

definition all_dirs :: "direction list" where
  "all_dirs = [DirNone, Leftup, Up, Rightup, DirLeft, DirRight, Leftdown, Down, Rightdown]"

text \<open>The reverse of no direction is a value outside the enumeration.\<close>

definition reverseDirection :: "direction \<Rightarrow> direction option" where
  "reverseDirection d = (let v = 9 - dir_value d in if v < 9 then Some (all_dirs ! v) else None)"

definition clock_dirs :: "nat list" where
  "clock_dirs = [8, 7, 0, 1, 6, 2, 5, 4, 3]"

definition direction_2_dir :: "direction \<Rightarrow> nat" where
  "direction_2_dir d = clock_dirs ! dir_value d"

definition dir_2_direction :: "nat \<Rightarrow> direction" where
  "dir_2_direction k = (case map_of (zip clock_dirs all_dirs) k of Some d \<Rightarrow> d | None \<Rightarrow> DirNone)"

definition relativeDirection_2_absoluteDirection :: "direction \<Rightarrow> direction \<Rightarrow> direction" where
  "relativeDirection_2_absoluteDirection origion relative =
     dir_2_direction ((direction_2_dir origion + direction_2_dir relative) mod 8)"

section \<open>Cells\<close>

datatype coord2D = Coord2D (coord_x: u16) (coord_y: u16)

definition toInt :: "coord2D \<Rightarrow> u32" where
  "toInt c = push_bit 16 (ucast (coord_x c)) OR ucast (coord_y c)"

definition coord_less :: "coord2D \<Rightarrow> coord2D \<Rightarrow> bool" where
  "coord_less c d \<longleftrightarrow> toInt c < toInt d"

definition manhattanDistance :: "coord2D \<Rightarrow> coord2D \<Rightarrow> int" where
  "manhattanDistance c d = \<bar>sint (coord_x c) - sint (coord_x d)\<bar> + \<bar>sint (coord_y c) - sint (coord_y d)\<bar>"

definition dirVecUnit :: "(int \<times> int) list" where
  "dirVecUnit = [(0, 0), (- 1, - 1), (0, - 1), (1, - 1), (- 1, 0), (1, 0), (- 1, 1), (0, 1), (1, 1)]"

definition neighbor :: "coord2D \<Rightarrow> direction \<Rightarrow> coord2D" where
  "neighbor c d = (let (dx, dy) = dirVecUnit ! dir_value d in Coord2D (coord_x c + word_of_int dx) (coord_y c + word_of_int dy))"

definition allNeighbors :: "coord2D \<Rightarrow> coord2D list" where
  "allNeighbors c = map (neighbor c) [Leftup, Up, Rightup, DirLeft, DirRight, Leftdown, Down, Rightdown]"

definition meAndAllNeighbors :: "coord2D \<Rightarrow> coord2D list" where
  "meAndAllNeighbors c = c # map (neighbor c) [Leftup, Up, Rightup, DirLeft, DirRight, Leftdown, Down, Rightdown]"

definition middle :: "coord2D \<Rightarrow> coord2D \<Rightarrow> coord2D" where
  "middle c d = Coord2D (word_of_int ((sint (coord_x c) + sint (coord_x d)) sdiv 2)) (word_of_int ((sint (coord_y c) + sint (coord_y d)) sdiv 2))"

text \<open>The direction to another cell, by the slope in thousandths.\<close>

definition slope_direction :: "int \<Rightarrow> int \<Rightarrow> direction" where
  "slope_direction subX subY =
     (let tan = (1000 * subY) sdiv subX
      in if 2414 \<le> tan \<or> tan < - 2414 then (if 0 < subY then Down else Up)
         else if 414 \<le> tan then (if 0 < subX then Rightdown else Leftup)
         else if - 414 \<le> tan then (if 0 < subX then DirRight else DirLeft)
         else if - 2414 \<le> tan then (if 0 < subX then Rightup else Leftdown)
         else DirNone)"

definition direction_to :: "coord2D \<Rightarrow> coord2D \<Rightarrow> direction" where
  "direction_to c pos =
     (if toInt pos = toInt c then DirNone
      else let subX = sint (coord_x pos) - sint (coord_x c); subY = sint (coord_y pos) - sint (coord_y c)
           in if subX = 0 then (if 0 < subY then Down else Up)
              else if subY = 0 then (if 0 < subX then DirRight else DirLeft)
              else slope_direction subX subY)"

definition signed_decimal :: "int \<Rightarrow> string" where
  "signed_decimal v = (if v < 0 then ''-'' @ decimal (nat (- v)) else decimal (nat v))"

definition coord_toString :: "coord2D \<Rightarrow> string" where
  "coord_toString c = signed_decimal (sint (coord_x c)) @ '', '' @ signed_decimal (sint (coord_y c))"

definition coord_fromString :: "string \<Rightarrow> coord2D \<Rightarrow> coord2D" where
  "coord_fromString s c =
     (let croods = fromString_i16s s
      in if length croods < 2 then c else Coord2D (word_of_int (croods ! 0)) (word_of_int (croods ! 1)))"

section \<open>Order\<close>

lemma toInt_eq [simp]: "toInt c = toInt d \<longleftrightarrow> c = d"
proof
  assume "toInt c = toInt d"
  then have b: "bit (toInt c) n = bit (toInt d) n" for n by simp
  have "bit (coord_y c) n = bit (coord_y d) n" if "n < 16" for n
    using b [of n] that by (simp add: toInt_def bit_simps)
  moreover have "bit (coord_x c) n = bit (coord_x d) n" if "n < 16" for n
    using b [of "n + 16"] that bit_imp_le_length [of "coord_y c" "n + 16"] bit_imp_le_length [of "coord_y d" "n + 16"]
    by (auto simp: toInt_def bit_simps)
  ultimately have "coord_x c = coord_x d" "coord_y c = coord_y d" by (auto intro!: bit_word_eqI)
  then show "c = d" by (simp add: coord2D.expand)
qed simp

instantiation coord2D :: linorder
begin
definition less_coord2D_def: "c < d \<longleftrightarrow> coord_less c d"
definition less_eq_coord2D_def: "c \<le> d \<longleftrightarrow> \<not> coord_less d c"
instance by standard (auto simp: less_coord2D_def less_eq_coord2D_def coord_less_def)
end

text \<open>The order is that of the unsigned values: below zero comes after.\<close>

lemma order_of_negative: "Coord2D 0 0 < Coord2D (- 1) 0"
  by code_simp

lemma nine_cells_not_sorted: "\<not> sorted (meAndAllNeighbors (Coord2D 5 5))"
  by (simp add: meAndAllNeighbors_def neighbor_def dirVecUnit_def less_eq_coord2D_def coord_less_def toInt_def)

section \<open>The compass\<close>

lemma sdiv_neg: "(- a) sdiv (- b) = a sdiv (b :: int)"
  by (simp add: signed_divide_int_def)

lemma slope_direction_some: "slope_direction a b \<noteq> DirNone"
  by (simp add: slope_direction_def Let_def)

lemma slope_reverse:
  assumes "a \<noteq> 0" "b \<noteq> 0"
  shows "reverseDirection (slope_direction a b) = Some (slope_direction (- a) (- b))"
proof -
  have t: "(1000 * - b) sdiv (- a) = (1000 * b) sdiv a" using sdiv_neg [of "1000 * b" a] by simp
  show ?thesis
    using assms by (auto simp: slope_direction_def t Let_def reverseDirection_def all_dirs_def)
qed

lemma reverse_to:
  assumes "c \<noteq> d"
  shows "reverseDirection (direction_to c d) = Some (direction_to d c)"
proof -
  let ?a = "sint (coord_x d) - sint (coord_x c)" and ?b = "sint (coord_y d) - sint (coord_y c)"
  have z: "\<not> (?a = 0 \<and> ?b = 0)"
  proof
    assume "?a = 0 \<and> ?b = 0"
    then have "coord_x d = coord_x c" "coord_y d = coord_y c" by (metis eq_iff_diff_eq_0 signed_word_eqI)+
    then show False using assms by (simp add: coord2D.expand)
  qed
  show ?thesis
  proof (cases "?a = 0 \<or> ?b = 0")
    case True
    then show ?thesis using assms z by (auto simp: direction_to_def Let_def reverseDirection_def all_dirs_def)
  next
    case False
    then have "direction_to c d = slope_direction ?a ?b" "direction_to d c = slope_direction (- ?a) (- ?b)"
      using assms by (simp_all add: direction_to_def Let_def)
    then show ?thesis using slope_reverse [of ?a ?b] False by simp
  qed
qed

lemma neighbor_reverse:
  assumes "reverseDirection d = Some e"
  shows "neighbor (neighbor c d) e = c"
  using assms by (cases d; cases c) (auto simp: reverseDirection_def all_dirs_def neighbor_def dirVecUnit_def)

text \<open>Away from the edge of the 16 bits nothing wraps.\<close>

definition inner :: "coord2D \<Rightarrow> bool" where
  "inner c \<longleftrightarrow> \<bar>sint (coord_x c)\<bar> < 32767 \<and> \<bar>sint (coord_y c)\<bar> < 32767"

lemma sint_step:
  assumes "\<bar>sint (x :: u16)\<bar> < 32767" "d \<in> {- 1, 0, 1}"
  shows "sint (x + word_of_int d) = sint x + d"
proof -
  have e: "signed_take_bit 15 (sint x + d) = sint x + d" using assms by (intro signed_take_bit_int_eq_self) auto
  show ?thesis using assms(2) e by (elim insertE) (simp_all add: sint_word_ariths)
qed

lemma direction_neighbor:
  assumes "inner c" "d \<noteq> DirNone"
  shows "direction_to c (neighbor c d) = d"
proof -
  have s: "sint (coord_x c + 1) = sint (coord_x c) + 1" "sint (coord_x c - 1) = sint (coord_x c) - 1"
    "sint (coord_y c + 1) = sint (coord_y c) + 1" "sint (coord_y c - 1) = sint (coord_y c) - 1"
    using assms(1) sint_step [of _ 1] sint_step [of _ "- 1"] by (simp_all add: inner_def)
  have n: "neighbor c d \<noteq> c" using assms(2) by (cases d; cases c) (auto simp: neighbor_def dirVecUnit_def)
  show ?thesis using assms(2) s n
    by (cases d) (simp_all add: direction_to_def neighbor_def dirVecUnit_def Let_def slope_direction_def signed_divide_int_def)
qed

text \<open>The compass is consistent. Between two different cells there is always a direction, and
  the way back is its reverse; a step in a direction and a step in its reverse lead back, wherever the
  cell is, even over the edge of the coordinates; and a neighbour lies in the direction in which it
  was found, unless the coordinates wrap.\<close>

theorem compass:
  "(direction_to c d = DirNone \<longleftrightarrow> c = d)
   \<and> (c \<noteq> d \<longrightarrow> reverseDirection (direction_to c d) = Some (direction_to d c))
   \<and> (e \<noteq> DirNone \<longrightarrow> (\<exists>r. reverseDirection e = Some r \<and> neighbor (neighbor c e) r = c))
   \<and> (inner c \<and> e \<noteq> DirNone \<longrightarrow> direction_to c (neighbor c e) = e)"
proof (intro conjI impI)
  show "direction_to c d = DirNone \<longleftrightarrow> c = d"
  proof
    assume n: "direction_to c d = DirNone"
    show "c = d"
    proof (rule ccontr)
      assume "c \<noteq> d"
      from reverse_to [OF this] n show False by (simp add: reverseDirection_def)
    qed
  qed (simp add: direction_to_def)
next
  assume "c \<noteq> d"
  then show "reverseDirection (direction_to c d) = Some (direction_to d c)" by (rule reverse_to)
next
  assume e: "e \<noteq> DirNone"
  then obtain r where "reverseDirection e = Some r" by (cases e) (auto simp: reverseDirection_def)
  then show "\<exists>r. reverseDirection e = Some r \<and> neighbor (neighbor c e) r = c" using neighbor_reverse by blast
next
  assume "inner c \<and> e \<noteq> DirNone"
  then show "direction_to c (neighbor c e) = e" using direction_neighbor by blast
qed

theorem compass_witness:
  "direction_to (Coord2D 1 1) (Coord2D 4 3) = Rightdown \<and> reverseDirection Rightdown = Some (direction_to (Coord2D 4 3) (Coord2D 1 1))
   \<and> direction_to (Coord2D 1 1) (neighbor (Coord2D 1 1) Leftup) = Leftup"
proof -
  have "direction_to (Coord2D 1 1) (Coord2D 4 3) = Rightdown" by code_simp
  then show ?thesis using compass [of "Coord2D 1 1" "Coord2D 4 3" Leftup] by (simp add: inner_def)
qed

text \<open>No direction has no reverse, and going nowhere relative to nothing is going up.\<close>

lemma none_has_no_reverse: "reverseDirection DirNone = None"
  by (simp add: reverseDirection_def)

lemma relative_to_none: "relativeDirection_2_absoluteDirection DirNone DirNone = Up"
  by (simp add: relativeDirection_2_absoluteDirection_def direction_2_dir_def clock_dirs_def dir_2_direction_def all_dirs_def)

text \<open>Relative directions add up like the hours of a clock.\<close>

lemma clock_inverse:
  assumes "k < 8"
  shows "direction_2_dir (dir_2_direction k) = k"
proof -
  have "k = 0 \<or> k = 1 \<or> k = 2 \<or> k = 3 \<or> k = 4 \<or> k = 5 \<or> k = 6 \<or> k = 7" using assms by linarith
  then show ?thesis by (elim disjE) (simp_all add: direction_2_dir_def dir_2_direction_def clock_dirs_def all_dirs_def)
qed

lemma relative_assoc:
  "relativeDirection_2_absoluteDirection (relativeDirection_2_absoluteDirection a b) c =
    relativeDirection_2_absoluteDirection a (relativeDirection_2_absoluteDirection b c)"
  by (simp add: relativeDirection_2_absoluteDirection_def clock_inverse mod_simps add.assoc)

section \<open>Reading back a cell\<close>

lemma signed_no: "\<not> is_digit c \<Longrightarrow> c \<noteq> CHR ''-'' \<Longrightarrow> c \<notin> set (signed_decimal v)"
  by (auto simp: signed_decimal_def dest: decimal_no)

lemma signed_nonempty: "signed_decimal v \<noteq> []"
  by (simp add: signed_decimal_def decimal_nonempty)

lemma read_signed: "read_number (signed_decimal v) = (v < 0, \<bar>v\<bar>)"
proof (cases "v < 0")
  case True
  then show ?thesis
    using digits_decimal [of "nat (- v)"] by (simp add: signed_decimal_def read_number_def is_space_def)
next
  case False
  then show ?thesis by (simp add: signed_decimal_def read_decimal)
qed

lemma read_space: "read_number (CHR '' '' # s) = read_number s"
  by (simp add: read_number_def is_space_def)

lemma int_signed: "- 32768 \<le> v \<Longrightarrow> v < 32768 \<Longrightarrow> fromString_int 32767 (signed_decimal v) = v
  \<and> fromString_int 32767 (CHR '' '' # signed_decimal v) = v"
  by (simp add: fromString_int_def read_signed read_space)

text \<open>A cell is read back from its text, for all values of its coordinates.\<close>

theorem coord_roundtrip: "coord_fromString (coord_toString c) c' = c"
proof -
  have no: "CHR '','' \<notin> set (signed_decimal v)" for v by (rule signed_no) (simp_all add: is_digit_def)
  have "splitString (coord_toString c) (CHR '','') =
      [signed_decimal (sint (coord_x c)), CHR '' '' # signed_decimal (sint (coord_y c))]"
    using split_word [OF no signed_nonempty, where s = "CHR '' '' # signed_decimal (sint (coord_y c))"]
      split_last [of "CHR '',''" "CHR '' '' # signed_decimal (sint (coord_y c))"] no
    by (simp add: coord_toString_def)
  moreover have "- 32768 \<le> sint w \<and> sint w < 32768" for w :: u16
    using sint_ge [of w] sint_lt [of w] by simp
  ultimately show ?thesis by (simp add: coord_fromString_def fromString_i16s_def int_signed)
qed

end
