(* ===== verification/MapPaths.thy ===== *)
theory MapPaths
  imports AStar Coord
begin

text \<open>
  Path finding on the cells of a map, with the neighbours, the costs and the estimate of
  \<^verbatim>\<open>water/componet/example/astar.cpp\<close>; a scene is a list of lines, the first coordinate the line.
\<close>

definition scene_enterable :: "string list \<Rightarrow> coord2D \<Rightarrow> bool" where
  "scene_enterable scene pos =
     (let x = sint (coord_x pos); y = sint (coord_y pos)
      in if x < 0 \<or> int (length scene) \<le> x then False
         else if y < 0 \<or> int (length (scene ! nat x)) \<le> y then False
         else scene ! nat x ! nat y \<noteq> CHR ''#'')"

definition scene_stepCost :: "coord2D \<Rightarrow> coord2D \<Rightarrow> int" where
  "scene_stepCost from to = (if coord_x from = coord_x to \<or> coord_y from = coord_y to then 10 else 16)"

definition scene_heruistic :: "coord2D \<Rightarrow> coord2D \<Rightarrow> int" where
  "scene_heruistic pos goal =
     8 * (\<bar>sint (coord_x pos) - sint (coord_x goal)\<bar> + \<bar>sint (coord_y pos) - sint (coord_y goal)\<bar>)"

definition scene_grid :: "string list \<Rightarrow> coord2D grid" where
  "scene_grid scene = \<lparr>nighbors = allNeighbors, enterable = scene_enterable scene, stepCost = scene_stepCost,
     heruistic = scene_heruistic\<rparr>"

definition box :: "nat \<Rightarrow> nat \<Rightarrow> coord2D set" where
  "box n m = {c. 0 \<le> sint (coord_x c) \<and> sint (coord_x c) < int n \<and> 0 \<le> sint (coord_y c) \<and> sint (coord_y c) < int m}"

lemma box_card: "finite (box n m) \<and> card (box n m) \<le> n * m"
proof -
  let ?f = "\<lambda>c. (nat (sint (coord_x c)), nat (sint (coord_y c)))"
  have i: "inj_on ?f (box n m)"
  proof (rule inj_onI)
    fix c d assume "c \<in> box n m" "d \<in> box n m" "?f c = ?f d"
    then have "sint (coord_x c) = sint (coord_x d)" "sint (coord_y c) = sint (coord_y d)" by (auto simp: box_def)
    then have "coord_x c = coord_x d" "coord_y c = coord_y d" by (auto intro: signed_word_eqI)
    then show "c = d" by (simp add: coord2D.expand)
  qed
  have s: "?f ` box n m \<subseteq> {..<n} \<times> {..<m}" by (auto simp: box_def nat_less_iff)
  have f: "finite (?f ` box n m)" using s by (rule finite_subset) simp
  have "card (box n m) = card (?f ` box n m)" using i by (simp add: card_image)
  also have "\<dots> \<le> card ({..<n} \<times> {..<m})" using s by (intro card_mono) simp_all
  finally show ?thesis using finite_imageD [OF f i] by (simp add: card_cartesian_product)
qed

definition scene_fits :: "string list \<Rightarrow> coord2D \<Rightarrow> bool" where
  "scene_fits scene start \<longleftrightarrow> length scene \<le> 8192 \<and> (\<forall>line \<in> set scene. length line \<le> 8192) \<and> start \<in> box 8192 8192"

lemma scene_box: "reach g start p \<Longrightarrow> g = scene_grid scene \<Longrightarrow> scene_fits scene start \<Longrightarrow> p \<in> box 8192 8192"
proof (induction rule: reach.induct)
  case reach_start
  then show ?case by (simp add: scene_fits_def)
next
  case (reach_step p q)
  then have e: "scene_enterable scene q" and f: "length scene \<le> 8192" "\<forall>line \<in> set scene. length line \<le> 8192"
    by (simp_all add: scene_grid_def scene_fits_def)
  let ?x = "sint (coord_x q)" and ?y = "sint (coord_y q)"
  have x: "0 \<le> ?x" "?x < int (length scene)" and y: "0 \<le> ?y" "?y < int (length (scene ! nat ?x))"
    using e by (auto simp: scene_enterable_def Let_def split: if_splits)
  have "scene ! nat ?x \<in> set scene" using x by (intro nth_mem) (simp add: nat_less_iff)
  then have "length (scene ! nat ?x) \<le> 8192" using f(2) by blast
  then show ?case using x y f(1) by (simp add: box_def)
qed

lemma scene_calm:
  assumes "scene_fits scene start"
  shows "calm (scene_grid scene) start goal 16 1048560"
proof -
  let ?R = "{p. reach (scene_grid scene) start p}"
  have s: "?R \<subseteq> box 8192 8192" using scene_box assms by blast
  then have f: "finite ?R" using box_card finite_subset by blast
  have "card ?R \<le> card (box 8192 8192)" using s box_card by (intro card_mono) auto
  then have c: "card ?R \<le> 8192 * 8192" using box_card [of 8192 8192] by linarith
  have h: "0 \<le> scene_heruistic p goal \<and> scene_heruistic p goal \<le> 1048560" for p
  proof -
    have b: "\<bar>sint v - sint w\<bar> \<le> 65535" for v w :: u16
      using sint_ge [of w] sint_lt [of w] sint_ge [of v] sint_lt [of v] by simp
    show ?thesis using b [of "coord_x p" "coord_x goal"] b [of "coord_y p" "coord_y goal"]
      by (simp add: scene_heruistic_def)
  qed
  show ?thesis using f c h by (simp add: calm_def) (simp add: scene_grid_def scene_stepCost_def)
qed

text \<open>On a map of at most 8192 lines and columns the path finder needs no further assumption: it
  always returns, no sum overflows, the path leads over open cells, each a neighbour of the one
  before, and it reaches the goal whenever the goal can be reached.\<close>

theorem scene_path:
  assumes "scene_fits scene start"
  shows "\<exists>path. findPath (scene_grid scene) start goal = Some (Inr path) \<and> walk (scene_grid scene) start path
    \<and> (\<forall>c \<in> set path. scene_enterable scene c)
    \<and> (reach (scene_grid scene) start goal \<longrightarrow> last (start # path) = goal)"
proof -
  have w: "walk g p qs \<Longrightarrow> \<forall>c \<in> set qs. enterable g c" for g :: "coord2D grid" and p qs
    by (induction qs arbitrary: p) auto
  obtain path where "findPath (scene_grid scene) start goal = Some (Inr path)" "walk (scene_grid scene) start path"
    "reach (scene_grid scene) start goal \<longrightarrow> last (start # path) = goal"
    using findPath_ok [OF scene_calm [OF assms]] by (meson)
  then show ?thesis using w [of "scene_grid scene" start path] by (auto simp: scene_grid_def)
qed

definition small_scene :: "string list" where
  "small_scene = [''  '', '' #'', ''  '']"

theorem scene_path_witness:
  "\<exists>path. findPath (scene_grid small_scene) (Coord2D 0 0) (Coord2D 2 1) = Some (Inr path)
    \<and> (\<forall>c \<in> set path. scene_enterable small_scene c)"
proof -
  have "scene_fits small_scene (Coord2D 0 0)" by (simp add: scene_fits_def small_scene_def box_def)
  from scene_path [OF this, of "Coord2D 2 1"] show ?thesis by blast
qed

end
