(* ===== verification/LruCache.thy ===== *)
theory LruCache
  imports Prelude
begin

text \<open>
  The cache of bounded size, \<open>LimitedSizeUnorderedMapCache\<close> of
  \<^verbatim>\<open>water/componet/limited_size_unordered_map_cache.h\<close>: a list of pairs and a map from keys to
  iterators of the list. A node of the list has a number, which is the iterator that points to it.
  The cache is a list of the pairs, the last used first.
\<close>

section \<open>The cache\<close>

record ('k, 'v) ucache =
  uc_list :: "(nat \<times> 'k \<times> 'v) list"
  uc_map :: "('k \<times> nat) list"
  uc_next :: nat

definition ucache_init :: "('k, 'v) ucache" where
  "ucache_init = \<lparr>uc_list = [], uc_map = [], uc_next = 0\<rparr>"

definition uc_size :: "('k, 'v) ucache \<Rightarrow> nat" where
  "uc_size c = length (uc_map c)"

definition map_erase :: "'k \<Rightarrow> ('k \<times> nat) list \<Rightarrow> ('k \<times> nat) list" where
  "map_erase k m = filter (\<lambda>(k', n). k' \<noteq> k) m"

definition uc_insert :: "nat \<Rightarrow> 'k \<Rightarrow> 'v \<Rightarrow> ('k, 'v) ucache \<Rightarrow> ('k, 'v) ucache \<times> bool" where
  "uc_insert maxSize k v c =
     (let n = uc_next c; l = (n, k, v) # uc_list c; c = c\<lparr>uc_next := n + 1\<rparr>
      in if map_of (uc_map c) k \<noteq> None then (c\<lparr>uc_list := tl l\<rparr>, False)
         else let m = (k, n) # uc_map c
              in if maxSize < length m
                 then (c\<lparr>uc_list := butlast l, uc_map := map_erase (fst (snd (last l))) m\<rparr>, True)
                 else (c\<lparr>uc_list := l, uc_map := m\<rparr>, True))"

definition node :: "nat \<Rightarrow> ('k, 'v) ucache \<Rightarrow> (nat \<times> 'k \<times> 'v) option" where
  "node n c = find (\<lambda>x. fst x = n) (uc_list c)"

text \<open>The node moves to the front and keeps its number.\<close>

definition splice_front :: "nat \<Rightarrow> (nat \<times> 'k \<times> 'v) list \<Rightarrow> (nat \<times> 'k \<times> 'v) list" where
  "splice_front n l = filter (\<lambda>x. fst x = n) l @ filter (\<lambda>x. fst x \<noteq> n) l"

definition uc_find :: "'k \<Rightarrow> ('k, 'v) ucache \<Rightarrow> ('k, 'v) ucache \<times> nat option" where
  "uc_find k c = (case map_of (uc_map c) k of None \<Rightarrow> (c, None) | Some n \<Rightarrow> (c\<lparr>uc_list := splice_front n (uc_list c)\<rparr>, Some n))"

definition uc_eraseIter :: "nat \<Rightarrow> ('k, 'v) ucache \<Rightarrow> ('k, 'v) ucache" where
  "uc_eraseIter n c =
     (case node n c of
        None \<Rightarrow> c
      | Some (i, k, v) \<Rightarrow> c\<lparr>uc_map := map_erase k (uc_map c), uc_list := filter (\<lambda>x. fst x \<noteq> n) (uc_list c)\<rparr>)"

definition uc_erase :: "'k \<Rightarrow> ('k, 'v) ucache \<Rightarrow> ('k, 'v) ucache" where
  "uc_erase k c = (case map_of (uc_map c) k of None \<Rightarrow> c | Some n \<Rightarrow> uc_eraseIter n c)"

definition getValues :: "('k, 'v) ucache \<Rightarrow> 'v list" where
  "getValues c = map (\<lambda>(n, k, v). v) (uc_list c)"

section \<open>The recency list\<close>

datatype ('k, 'v) cacheOp = Insert 'k 'v | Find 'k | EraseKey 'k

datatype 'v cacheAns = Inserted bool | Found "'v option" | Erased

definition lru_insert :: "nat \<Rightarrow> 'k \<Rightarrow> 'v \<Rightarrow> ('k \<times> 'v) list \<Rightarrow> ('k \<times> 'v) list \<times> bool" where
  "lru_insert cap k v xs = (if k \<in> fst ` set xs then (xs, False) else (take cap ((k, v) # xs), True))"

definition lru_find :: "'k \<Rightarrow> ('k \<times> 'v) list \<Rightarrow> ('k \<times> 'v) list \<times> 'v option" where
  "lru_find k xs =
     (case map_of xs k of None \<Rightarrow> (xs, None) | Some v \<Rightarrow> ((k, v) # filter (\<lambda>x. fst x \<noteq> k) xs, Some v))"

fun lru_op :: "nat \<Rightarrow> ('k, 'v) cacheOp \<Rightarrow> ('k \<times> 'v) list \<Rightarrow> ('k \<times> 'v) list \<times> 'v cacheAns" where
  "lru_op cap (Insert k v) xs = (let (xs, b) = lru_insert cap k v xs in (xs, Inserted b))"
| "lru_op cap (Find k) xs = (let (xs, r) = lru_find k xs in (xs, Found r))"
| "lru_op cap (EraseKey k) xs = (filter (\<lambda>x. fst x \<noteq> k) xs, Erased)"

text \<open>What \<open>find\<close> answers is read through the iterator.\<close>

fun cache_op :: "nat \<Rightarrow> ('k, 'v) cacheOp \<Rightarrow> ('k, 'v) ucache \<Rightarrow> ('k, 'v) ucache \<times> 'v cacheAns" where
  "cache_op cap (Insert k v) c = (let (c, b) = uc_insert cap k v c in (c, Inserted b))"
| "cache_op cap (Find k) c =
     (let (c, r) = uc_find k c
      in (c, Found (case r of None \<Rightarrow> None | Some n \<Rightarrow> map_option (\<lambda>x. snd (snd x)) (node n c))))"
| "cache_op cap (EraseKey k) c = (uc_erase k c, Erased)"

fun run_ops :: "('o \<Rightarrow> 's \<Rightarrow> 's \<times> 'a) \<Rightarrow> 'o list \<Rightarrow> 's \<Rightarrow> 's \<times> 'a list" where
  "run_ops f [] s = (s, [])"
| "run_ops f (op # ops) s = (let (s, a) = f op s; (s, as) = run_ops f ops s in (s, a # as))"

section \<open>Refinement\<close>

definition uc_inv :: "nat \<Rightarrow> ('k, 'v) ucache \<Rightarrow> bool" where
  "uc_inv cap c \<longleftrightarrow> distinct (map fst (uc_list c)) \<and> distinct (map (\<lambda>x. fst (snd x)) (uc_list c)) \<and> distinct (map fst (uc_map c))
     \<and> (\<forall>k n. (k, n) \<in> set (uc_map c) \<longleftrightarrow> (\<exists>v. (n, k, v) \<in> set (uc_list c)))
     \<and> (\<forall>n k v. (n, k, v) \<in> set (uc_list c) \<longrightarrow> n < uc_next c) \<and> length (uc_list c) \<le> cap \<and> length (uc_map c) = length (uc_list c)"

definition pairs :: "('k, 'v) ucache \<Rightarrow> ('k \<times> 'v) list" where
  "pairs c = map snd (uc_list c)"

lemma inv_init: "uc_inv cap ucache_init" "pairs ucache_init = []"
  by (simp_all add: uc_inv_def ucache_init_def pairs_def)

lemma map_of_inv:
  assumes "uc_inv cap c"
  shows "map_of (uc_map c) k = Some n \<longleftrightarrow> (\<exists>v. (n, k, v) \<in> set (uc_list c))"
proof -
  have "map_of (uc_map c) k = Some n \<longleftrightarrow> (k, n) \<in> set (uc_map c)"
    using assms by (intro map_of_eq_Some_iff) (simp add: uc_inv_def)
  then show ?thesis using assms by (simp add: uc_inv_def)
qed

lemma map_of_pairs:
  assumes "uc_inv cap c"
  shows "map_of (pairs c) k = Some v \<longleftrightarrow> (\<exists>n. (n, k, v) \<in> set (uc_list c))"
proof -
  have "distinct (map fst (pairs c))" using assms by (simp add: uc_inv_def pairs_def comp_def)
  then have "map_of (pairs c) k = Some v \<longleftrightarrow> (k, v) \<in> set (pairs c)" by (rule map_of_eq_Some_iff)
  then show ?thesis by (force simp: pairs_def)
qed

lemma map_of_none: "uc_inv cap c \<Longrightarrow> map_of (uc_map c) k = None \<longleftrightarrow> map_of (pairs c) k = None"
  using map_of_inv [of cap c k] map_of_pairs [of cap c k] by (metis not_None_eq)

lemma node_inv:
  assumes "uc_inv cap c" "(n, k, v) \<in> set (uc_list c)"
  shows "node n c = Some (n, k, v)"
proof -
  have "distinct (map fst l) \<Longrightarrow> (n, k, v) \<in> set l \<Longrightarrow> find (\<lambda>x. fst x = n) l = Some (n, k, v)" for l
    by (induction l) force+
  then show ?thesis using assms by (simp add: node_def uc_inv_def)
qed

text \<open>The nodes with one number, with one key.\<close>

lemma same_node:
  assumes "uc_inv cap c" "(n, k, v) \<in> set (uc_list c)"
  shows "x \<in> set (uc_list c) \<Longrightarrow> fst x = n \<longleftrightarrow> fst (snd x) = k" "filter (\<lambda>x. fst x = n) (uc_list c) = [(n, k, v)]"
proof -
  have d: "inj_on fst (set (uc_list c))" "inj_on (\<lambda>x. fst (snd x)) (set (uc_list c))"
    using assms(1) by (auto simp: uc_inv_def distinct_map)
  show "fst x = n \<longleftrightarrow> fst (snd x) = k" if "x \<in> set (uc_list c)"
    using inj_onD [OF d(1) _ that assms(2)] inj_onD [OF d(2) _ that assms(2)] by (cases x) auto
  have "distinct (map fst l) \<Longrightarrow> (n, k, v) \<in> set l \<Longrightarrow> filter (\<lambda>x. fst x = n) l = [(n, k, v)]" for l
    by (induction l) (force simp: filter_empty_conv)+
  then show "filter (\<lambda>x. fst x = n) (uc_list c) = [(n, k, v)]" using assms by (simp add: uc_inv_def)
qed

lemma remove_node:
  assumes "uc_inv cap c" "(n, k, v) \<in> set (uc_list c)"
  shows "map snd (filter (\<lambda>x. fst x \<noteq> n) (uc_list c)) = filter (\<lambda>x. fst x \<noteq> k) (pairs c)"
proof -
  have "filter (\<lambda>x. fst x \<noteq> n) (uc_list c) = filter (\<lambda>x. fst (snd x) \<noteq> k) (uc_list c)"
    using same_node(1) [OF assms] by (intro filter_cong) auto
  then show ?thesis by (simp add: pairs_def filter_map comp_def)
qed

lemma length_card: "distinct (map f xs) \<Longrightarrow> length xs = card (set xs)"
  by (simp add: distinct_map distinct_card)

lemma inv_erase:
  assumes "uc_inv cap c" "(n, k, v) \<in> set (uc_list c)"
  shows "uc_inv cap (uc_eraseIter n c) \<and> pairs (uc_eraseIter n c) = filter (\<lambda>x. fst x \<noteq> k) (pairs c)"
proof -
  let ?l = "filter (\<lambda>x. fst x \<noteq> n) (uc_list c)" and ?m = "map_erase k (uc_map c)"
  have e: "uc_eraseIter n c = c\<lparr>uc_map := ?m, uc_list := ?l\<rparr>" using node_inv [OF assms] by (simp add: uc_eraseIter_def)
  have c: "(k', n') \<in> set ?m \<longleftrightarrow> (\<exists>v. (n', k', v) \<in> set ?l)" for k' n'
  proof -
    have "(k', n') \<in> set ?m \<longleftrightarrow> k' \<noteq> k \<and> (\<exists>v. (n', k', v) \<in> set (uc_list c))"
      using assms(1) by (auto simp: uc_inv_def map_erase_def)
    moreover have "k' \<noteq> k \<longleftrightarrow> n' \<noteq> n" if "(n', k', v') \<in> set (uc_list c)" for v'
      using same_node(1) [OF assms that] by auto
    ultimately show ?thesis by auto
  qed
  have d: "distinct (map fst ?m)" using assms(1) by (simp add: uc_inv_def map_erase_def distinct_map_filter)
  have dl: "distinct (map fst ?l)" "distinct (map (\<lambda>x. fst (snd x)) ?l)" using assms(1) by (simp_all add: uc_inv_def distinct_map_filter)
  have "length ?m = card (set ?m)" by (rule length_card [OF d])
  also have "set ?m = (\<lambda>x. (fst (snd x), fst x)) ` set ?l" using c by force
  also have "card \<dots> = card (set ?l)"
    using dl(1) by (intro card_image) (auto simp: inj_on_def distinct_map)
  also have "\<dots> = length ?l" by (rule length_card [OF dl(1), symmetric])
  finally have len: "length ?m = length ?l" .
  have "length ?l \<le> cap" using assms(1) by (intro le_trans [OF length_filter_le]) (simp add: uc_inv_def)
  then have "uc_inv cap (uc_eraseIter n c)"
    using d dl c len assms(1) by (simp add: uc_inv_def e)
  then show ?thesis using remove_node [OF assms] by (simp add: e pairs_def)
qed

lemma inv_find:
  assumes "uc_inv cap c" "(n, k, v) \<in> set (uc_list c)"
  shows "uc_inv cap (c\<lparr>uc_list := splice_front n (uc_list c)\<rparr>)
    \<and> pairs (c\<lparr>uc_list := splice_front n (uc_list c)\<rparr>) = (k, v) # filter (\<lambda>x. fst x \<noteq> k) (pairs c)"
proof -
  let ?l = "filter (\<lambda>x. fst x \<noteq> n) (uc_list c)"
  have l: "splice_front n (uc_list c) = (n, k, v) # ?l" by (simp add: splice_front_def same_node(2) [OF assms])
  have s: "set (splice_front n (uc_list c)) = set (uc_list c)" by (auto simp: splice_front_def)
  have d: "distinct (map fst ?l)" "distinct (map (\<lambda>x. fst (snd x)) ?l)" using assms(1) by (simp_all add: uc_inv_def distinct_map_filter)
  have k: "k \<notin> (\<lambda>x. fst (snd x)) ` set ?l" using same_node(1) [OF assms] by auto
  have ds: "distinct (map fst (splice_front n (uc_list c)))" "distinct (map (\<lambda>x. fst (snd x)) (splice_front n (uc_list c)))"
    using d k by (auto simp: l)
  have "length (splice_front n (uc_list c)) = card (set (uc_list c))" using length_card [OF ds(1)] unfolding s .
  also have "\<dots> = length (uc_list c)" using assms(1) by (intro length_card [symmetric, of fst]) (simp add: uc_inv_def)
  finally have "length (splice_front n (uc_list c)) = length (uc_list c)" .
  then have "uc_inv cap (c\<lparr>uc_list := splice_front n (uc_list c)\<rparr>)"
    using assms(1) ds by (simp add: uc_inv_def s)
  then show ?thesis using remove_node [OF assms] by (simp add: pairs_def l)
qed

lemma inv_fresh:
  assumes "uc_inv cap c" "map_of (uc_map c) k = None"
  shows "uc_inv (Suc cap) (c\<lparr>uc_next := uc_next c + 1, uc_list := (uc_next c, k, v) # uc_list c, uc_map := (k, uc_next c) # uc_map c\<rparr>)"
proof -
  have "k \<notin> fst ` set (uc_map c)" using assms(2) by (simp add: map_of_eq_None_iff)
  moreover from this have "k \<notin> (\<lambda>x. fst (snd x)) ` set (uc_list c)" using assms(1) by (force simp: uc_inv_def)
  moreover have "uc_next c \<notin> fst ` set (uc_list c)" using assms(1) by (fastforce simp: uc_inv_def)
  ultimately show ?thesis using assms(1) by (auto simp: uc_inv_def less_Suc_eq)
qed

lemma erase_last:
  assumes "uc_inv cap c" "uc_list c \<noteq> []"
  shows "c\<lparr>uc_list := butlast (uc_list c), uc_map := map_erase (fst (snd (last (uc_list c)))) (uc_map c)\<rparr> =
    uc_eraseIter (fst (last (uc_list c))) c" "filter (\<lambda>x. fst x \<noteq> fst (last (pairs c))) (pairs c) = butlast (pairs c)"
proof -
  obtain l n k v where l: "uc_list c = l @ [(n, k, v)]" using assms(2) by (metis append_butlast_last_id prod_cases3)
  have "node n c = Some (n, k, v)" by (rule node_inv [OF assms(1)]) (simp add: l)
  moreover have "n \<notin> fst ` set l" "k \<notin> (\<lambda>x. fst (snd x)) ` set l" using assms(1) l by (auto simp: uc_inv_def)
  moreover from this have "filter (\<lambda>x. fst x \<noteq> n) l = l" "filter (\<lambda>x. fst x \<noteq> k) (map snd l) = map snd l"
    by (auto simp: filter_id_conv)
  ultimately show "c\<lparr>uc_list := butlast (uc_list c), uc_map := map_erase (fst (snd (last (uc_list c)))) (uc_map c)\<rparr> =
    uc_eraseIter (fst (last (uc_list c))) c" "filter (\<lambda>x. fst x \<noteq> fst (last (pairs c))) (pairs c) = butlast (pairs c)"
    by (simp_all add: l uc_eraseIter_def pairs_def)
qed

lemma inv_insert:
  assumes i: "uc_inv cap c"
  shows "uc_inv cap (fst (uc_insert cap k v c)) \<and> (pairs (fst (uc_insert cap k v c)), snd (uc_insert cap k v c)) = lru_insert cap k v (pairs c)"
proof (cases "map_of (uc_map c) k = None")
  case False
  then have "k \<in> fst ` set (pairs c)" using map_of_none [OF i, of k] by (simp add: map_of_eq_None_iff)
  moreover have "uc_inv cap (c\<lparr>uc_next := uc_next c + 1\<rparr>)" using i by (auto simp: uc_inv_def less_Suc_eq)
  ultimately show ?thesis using False by (auto simp: uc_insert_def Let_def lru_insert_def pairs_def)
next
  case True
  then have k: "k \<notin> fst ` set (pairs c)" using map_of_none [OF i, of k] by (simp add: map_of_eq_None_iff)
  define c1 where "c1 = c\<lparr>uc_next := uc_next c + 1, uc_list := (uc_next c, k, v) # uc_list c, uc_map := (k, uc_next c) # uc_map c\<rparr>"
  have c: "uc_inv (Suc cap) c1" unfolding c1_def by (rule inv_fresh [OF i True])
  have len: "length (uc_map c) = length (uc_list c)" "length (uc_list c) \<le> cap" "length (pairs c) = length (uc_list c)"
    using i by (simp_all add: uc_inv_def pairs_def)
  have p: "pairs c1 = (k, v) # pairs c" by (simp add: pairs_def c1_def)
  show ?thesis
  proof (cases "cap < Suc (length (uc_map c))")
    case False
    then have "uc_inv cap c1" using c len by (simp add: uc_inv_def c1_def)
    moreover have "uc_insert cap k v c = (c1, True)" using True False by (simp add: uc_insert_def Let_def c1_def)
    ultimately show ?thesis using False k len p by (simp add: lru_insert_def)
  next
    case full: True
    let ?x = "last (uc_list c1)"
    have ne: "uc_list c1 \<noteq> []" by (simp add: c1_def)
    have e: "fst (uc_insert cap k v c) = uc_eraseIter (fst ?x) c1" "snd (uc_insert cap k v c)"
      using erase_last(1) [OF c ne] True full by (simp_all add: uc_insert_def Let_def c1_def)
    have x: "(fst ?x, fst (snd ?x), snd (snd ?x)) \<in> set (uc_list c1)" using last_in_set [OF ne] by simp
    note er = inv_erase [OF c x]
    have lp: "fst (snd ?x) = fst (last (pairs c1))" unfolding pairs_def by (subst last_map [OF ne]) simp
    have pr: "pairs (uc_eraseIter (fst ?x) c1) = butlast (pairs c1)"
      using er erase_last(2) [OF c ne] unfolding lp by simp
    moreover have "length (pairs c1) = Suc cap" using len full p by simp
    ultimately have t: "pairs (uc_eraseIter (fst ?x) c1) = take cap ((k, v) # pairs c)"
      by (simp add: butlast_conv_take p)
    have "length (uc_list (uc_eraseIter (fst ?x) c1)) \<le> cap"
      using t by (metis length_map length_take min.cobounded2 pairs_def)
    then have "uc_inv cap (uc_eraseIter (fst ?x) c1)" using er by (simp add: uc_inv_def)
    then show ?thesis using e t k by (simp add: lru_insert_def)
  qed
qed

lemma op_refines:
  assumes i: "uc_inv cap c"
  shows "uc_inv cap (fst (cache_op cap op c)) \<and> (pairs (fst (cache_op cap op c)), snd (cache_op cap op c)) = lru_op cap op (pairs c)"
proof (cases op)
  case (Insert k v)
  then show ?thesis using inv_insert [OF i, of k v] by (cases "uc_insert cap k v c") (auto simp: split: prod.split)
next
  case (Find k)
  show ?thesis
  proof (cases "map_of (uc_map c) k")
    case None
    then show ?thesis using Find i map_of_none [OF i, of k] by (simp add: uc_find_def lru_find_def)
  next
    case (Some n)
    then obtain v where v: "(n, k, v) \<in> set (uc_list c)" using map_of_inv [OF i] by blast
    then have "map_of (pairs c) k = Some v" using map_of_pairs [OF i] by blast
    moreover have "node n (c\<lparr>uc_list := splice_front n (uc_list c)\<rparr>) = Some (n, k, v)"
      by (rule node_inv [OF conjunct1 [OF inv_find [OF i v]]]) (use v in \<open>simp add: splice_front_def\<close>)
    ultimately show ?thesis using Find Some inv_find [OF i v] by (simp add: uc_find_def lru_find_def)
  qed
next
  case (EraseKey k)
  show ?thesis
  proof (cases "map_of (uc_map c) k")
    case None
    then have "k \<notin> fst ` set (pairs c)" using map_of_none [OF i, of k] by (simp add: map_of_eq_None_iff)
    then have "filter (\<lambda>x. fst x \<noteq> k) (pairs c) = pairs c" by (force simp: filter_id_conv)
    then show ?thesis using EraseKey None i by (simp add: uc_erase_def)
  next
    case (Some n)
    then obtain v where "(n, k, v) \<in> set (uc_list c)" using map_of_inv [OF i] by blast
    from inv_erase [OF i this] show ?thesis using EraseKey Some by (simp add: uc_erase_def)
  qed
qed

text \<open>C23: Whatever is done to a new cache, it answers as the list of its pairs by recency: a found
  pair comes to the front, a new one is put there and pushes the least recently used one out when
  the bound is passed, a key that is present is refused. It never holds more than its bound, and
  its values are listed by recency.\<close>

theorem cache_refines_lru:
  "snd (run_ops (cache_op cap) ops ucache_init) = snd (run_ops (lru_op cap) ops [])
   \<and> getValues (fst (run_ops (cache_op cap) ops ucache_init)) = map snd (fst (run_ops (lru_op cap) ops []))
   \<and> uc_size (fst (run_ops (cache_op cap) ops ucache_init)) \<le> cap"
proof -
  have "uc_inv cap c \<Longrightarrow> uc_inv cap (fst (run_ops (cache_op cap) ops c))
      \<and> (pairs (fst (run_ops (cache_op cap) ops c)), snd (run_ops (cache_op cap) ops c)) = run_ops (lru_op cap) ops (pairs c)" for c
  proof (induction ops arbitrary: c)
    case (Cons op ops)
    obtain c' a where c': "cache_op cap op c = (c', a)" by fastforce
    have "uc_inv cap c'" "lru_op cap op (pairs c) = (pairs c', a)" using op_refines [OF Cons.prems, of op] c' by simp_all
    with Cons.IH [of c'] c' show ?case by (cases "run_ops (cache_op cap) ops c'") (auto split: prod.split)
  qed simp
  from this [OF inv_init(1)] have r: "uc_inv cap (fst (run_ops (cache_op cap) ops ucache_init))"
    "run_ops (lru_op cap) ops [] = (pairs (fst (run_ops (cache_op cap) ops ucache_init)), snd (run_ops (cache_op cap) ops ucache_init))"
    by (simp_all add: inv_init(2))
  then show ?thesis unfolding r(2) by (simp add: uc_inv_def uc_size_def getValues_def pairs_def case_prod_unfold)
qed

text \<open>A cache without room says that it has inserted.\<close>

lemma no_room: "snd (uc_insert 0 k v ucache_init)" "uc_list (fst (uc_insert 0 k v ucache_init)) = []"
  by (simp_all add: uc_insert_def ucache_init_def)

end
