(* ===== verification/CircularQueue.thy ===== *)
theory CircularQueue
  imports RecvQueue
begin

text \<open>
  The circular queue of one thread, \<^verbatim>\<open>water/componet/circular_queue.h\<close>, and that it meets the
  contract \<open>bounded_queue\<close> of the receive queue. Indices stay below the length of the array, so
  that their 32 bits do not matter.
\<close>

record 'a cqueue =
  cq_begin :: nat
  cq_end :: nat
  cq_size :: nat
  cq_data :: "'a list"

definition cq_new :: "'a \<Rightarrow> nat \<Rightarrow> 'a cqueue" where
  "cq_new d maxSize = \<lparr>cq_begin = 0, cq_end = 0, cq_size = 0, cq_data = replicate maxSize d\<rparr>"

definition cq_maxSize :: "'a cqueue \<Rightarrow> nat" where
  "cq_maxSize q = length (cq_data q)"

definition cq_empty :: "'a cqueue \<Rightarrow> bool" where "cq_empty q \<longleftrightarrow> cq_size q = 0"
definition cq_full :: "'a cqueue \<Rightarrow> bool" where "cq_full q \<longleftrightarrow> cq_size q = cq_maxSize q"

definition cq_nextPos :: "'a cqueue \<Rightarrow> nat \<Rightarrow> nat" where
  "cq_nextPos q pos = (pos + 1) mod cq_maxSize q"

text \<open>The left side is \<open>GetFromEmptyCircularQueue\<close>.\<close>

definition cq_top :: "'a cqueue \<Rightarrow> unit + 'a" where
  "cq_top q = (if cq_empty q then Inl () else Inr (cq_data q ! cq_begin q))"

definition cq_push :: "'a \<Rightarrow> 'a cqueue \<Rightarrow> 'a cqueue \<times> bool" where
  "cq_push x q =
     (if cq_size q = cq_maxSize q then (q, False)
      else (q\<lparr>cq_data := (cq_data q)[cq_end q := x], cq_end := cq_nextPos q (cq_end q), cq_size := cq_size q + 1\<rparr>, True))"

definition cq_pop :: "'a \<Rightarrow> 'a cqueue \<Rightarrow> 'a cqueue" where
  "cq_pop d q =
     (if cq_empty q then q
      else q\<lparr>cq_data := (cq_data q)[cq_begin q := d], cq_begin := (cq_begin q + 1) mod cq_maxSize q, cq_size := cq_size q - 1\<rparr>)"

text \<open>The items are visited until the callback says no; it may change them.\<close>

fun traverse_loop :: "('a \<Rightarrow> 's \<Rightarrow> bool \<times> 'a \<times> 's) \<Rightarrow> nat \<Rightarrow> nat \<Rightarrow> 'a cqueue \<Rightarrow> 's \<Rightarrow> 'a cqueue \<times> 's" where
  "traverse_loop callback i 0 q s = (q, s)"
| "traverse_loop callback i (Suc n) q s =
     (let (go, x, s) = callback (cq_data q ! i) s; q = q\<lparr>cq_data := (cq_data q)[i := x]\<rparr>
      in if go then traverse_loop callback (cq_nextPos q i) n q s else (q, s))"

definition cq_traverse :: "('a \<Rightarrow> 's \<Rightarrow> bool \<times> 'a \<times> 's) \<Rightarrow> 'a cqueue \<Rightarrow> 's \<Rightarrow> 'a cqueue \<times> 's" where
  "cq_traverse callback q s = traverse_loop callback (cq_begin q) (cq_size q) q s"

section \<open>The queue it stands for\<close>

definition cq_rep :: "nat \<Rightarrow> 'a cqueue \<Rightarrow> 'a list \<Rightarrow> bool" where
  "cq_rep m q xs \<longleftrightarrow> cq_maxSize q = m \<and> cq_size q = length xs \<and> length xs \<le> m \<and> (0 < m \<longrightarrow> cq_begin q < m)
     \<and> (0 < m \<longrightarrow> cq_end q = (cq_begin q + length xs) mod m)
     \<and> (\<forall>i < length xs. cq_data q ! ((cq_begin q + i) mod m) = xs ! i)"

lemma rep_new: "cq_rep m (cq_new d m) []"
  by (simp add: cq_rep_def cq_new_def cq_maxSize_def)

lemma mod_apart:
  assumes "i < j" "j < (m :: nat)"
  shows "(b + i) mod m \<noteq> (b + j) mod m"
proof
  assume "(b + i) mod m = (b + j) mod m"
  then have "m dvd (b + j) - (b + i)" using assms by (intro mod_eq_dvd_iff_nat [THEN iffD1]) simp_all
  then have "m dvd j - i" by simp
  then show False using assms by (meson diff_le_self dvd_imp_le le_less_trans not_le zero_less_diff)
qed

lemma rep_push:
  assumes "cq_rep m q xs"
  shows "cq_rep m (fst (cq_push x q)) (fst (list_push m x xs)) \<and> snd (cq_push x q) = snd (list_push m x xs)"
proof (cases "length xs = m")
  case True
  then show ?thesis using assms by (auto simp: cq_rep_def cq_push_def list_push_def)
next
  case False
  then have lt: "length xs < m" using assms by (simp add: cq_rep_def)
  have q: "cq_maxSize q = m" "cq_size q = length xs" "cq_end q = (cq_begin q + length xs) mod m" "cq_begin q < m"
    "\<And>i. i < length xs \<Longrightarrow> cq_data q ! ((cq_begin q + i) mod m) = xs ! i"
    using assms lt by (auto simp: cq_rep_def)
  have e: "cq_end q < length (cq_data q)" using q lt by (simp add: cq_maxSize_def)
  have "(cq_data q)[cq_end q := x] ! ((cq_begin q + i) mod m) = (xs @ [x]) ! i" if i: "i < Suc (length xs)" for i
  proof (cases "i = length xs")
    case True
    then show ?thesis using e q(3) by simp
  next
    case False
    then have "i < length xs" using i by simp
    then show ?thesis using mod_apart [of i "length xs" m "cq_begin q"] lt q(3, 5) by (simp add: nth_append)
  qed
  then show ?thesis
    using q lt by (simp add: cq_push_def list_push_def cq_rep_def cq_maxSize_def cq_nextPos_def mod_Suc_eq)
qed

lemma rep_pop:
  assumes "cq_rep m q (x # xs)"
  shows "cq_top q = Inr x" "cq_rep m (cq_pop d q) xs"
proof -
  have q: "cq_maxSize q = m" "cq_size q = Suc (length xs)" "cq_end q = (cq_begin q + Suc (length xs)) mod m" "cq_begin q < m"
    "Suc (length xs) \<le> m" "\<And>i. i < Suc (length xs) \<Longrightarrow> cq_data q ! ((cq_begin q + i) mod m) = (x # xs) ! i"
    using assms by (auto simp: cq_rep_def)
  show "cq_top q = Inr x" using q(2, 4) q(6) [of 0] by (simp add: cq_top_def cq_empty_def)
  have "(cq_data q)[cq_begin q := d] ! (((cq_begin q + 1) mod m + i) mod m) = xs ! i" if i: "i < length xs" for i
  proof -
    have "((cq_begin q + 1) mod m + i) mod m = (cq_begin q + Suc i) mod m" by (simp add: mod_simps)
    moreover have "(cq_begin q + Suc i) mod m \<noteq> cq_begin q"
      using mod_apart [of 0 "Suc i" m "cq_begin q"] i q(4, 5) by simp
    ultimately show ?thesis using q(6) [of "Suc i"] i by simp
  qed
  then show "cq_rep m (cq_pop d q) xs"
    using q by (auto simp: cq_pop_def cq_empty_def cq_rep_def cq_maxSize_def mod_simps)
qed

text \<open>What its user does: look at the front, then drop it.\<close>

definition cq_take :: "'a \<Rightarrow> 'a cqueue \<Rightarrow> 'a cqueue \<times> 'a option" where
  "cq_take d q = (case cq_top q of Inl e \<Rightarrow> (q, None) | Inr x \<Rightarrow> (cq_pop d q, Some x))"

interpretation cq: bounded_queue "cq_rep m" m cq_push "cq_take d" for m d
proof unfold_locales
  fix q :: "'a cqueue" and xs x
  assume r: "cq_rep m q xs"
  show "cq_rep m (fst (cq_push x q)) (fst (list_push m x xs))" "snd (cq_push x q) = snd (list_push m x xs)"
    using rep_push [OF r] by simp_all
  show "cq_rep m (fst (cq_take d q)) (fst (list_pop xs))" "snd (cq_take d q) = snd (list_pop xs)"
    using r rep_pop(1) [of m q "hd xs" "tl xs"] rep_pop(2) [of m q "hd xs" "tl xs" d]
    by (cases xs; simp add: cq_take_def cq_top_def cq_empty_def cq_rep_def)+
qed

text \<open>The circular queue answers every sequence of operations as a bounded list: what is pushed
  comes out in order, a push into a full queue is refused, and taking from an empty one is an error.\<close>

theorem circular_queue_refined:
  "snd (queue_ops cq_push (cq_take d) ops (cq_new d m)) = snd (queue_ops (list_push m) list_pop ops [])"
  using cq.ops_refine [OF rep_new] by (rule conjunct2)

lemma traverse_order:
  "cq_rep m q xs \<Longrightarrow> cq_traverse (\<lambda>x s. (True, x, s @ [x])) q s = (q, s @ xs)"
proof -
  assume r: "cq_rep m q xs"
  have "traverse_loop (\<lambda>x s. (True, x, s @ [x])) ((cq_begin q + i) mod m) (length xs - i) q s = (q, s @ drop i xs)"
    if "i \<le> length xs" for i s
    using that
  proof (induction "length xs - i" arbitrary: i s)
    case (Suc n)
    then have i: "i < length xs" "length xs - i = Suc n" "n = length xs - Suc i" by simp_all
    have x: "cq_data q ! ((cq_begin q + i) mod m) = xs ! i" "cq_maxSize q = m" using r i(1) by (simp_all add: cq_rep_def)
    have "cq_nextPos q ((cq_begin q + i) mod m) = (cq_begin q + Suc i) mod m"
      using x(2) by (simp add: cq_nextPos_def mod_Suc_eq)
    moreover have "q\<lparr>cq_data := (cq_data q)[(cq_begin q + i) mod m := xs ! i]\<rparr> = q" using x(1) by (metis list_update_id cqueue.surjective cqueue.update_convs(4))
    ultimately show ?case using Suc.hyps(1) [OF i(3), of "s @ [xs ! i]"] i x
      by (simp add: Let_def Cons_nth_drop_Suc [symmetric])
  qed simp
  from this [of 0 s] r show ?thesis by (cases "m = 0") (auto simp: cq_traverse_def cq_rep_def)
qed

end
