(* ===== verification/MpmcQueue.thy ===== *)
theory MpmcQueue
  imports Prelude
begin

unbundle bit_operations_syntax

text \<open>
  The lock-free queue for several producers and several consumers,
  \<open>LockFreeCircularQueueMPMC\<close> of \<^verbatim>\<open>water/componet/lock_free_circular_queue_mm.h\<close>. Both operations are cut
  into the steps at which another thread can observe them: each read, write and compare-and-exchange of
  a shared variable. Any number of threads push and pop in any order. A compare-and-exchange is a weak one,
  which may fail although the values agree; whether it does is part of the step. The steps interleave as if memory were
  sequentially consistent, which the relaxed stores with which a failed attempt is undone do not promise.
\<close>

section \<open>The queue\<close>

datatype mmStatus = MmWriting | MmReading | MmEmpty | MmFull

record 'a mmQueue =
  mm_begin :: u32
  mm_end :: u32
  mm_data :: "(mmStatus \<times> 'a) list"

text \<open>\<open>d\<close> is the default value of the element type.\<close>

definition MPMC :: "'a \<Rightarrow> nat \<Rightarrow> 'a mmQueue" where
  "MPMC d powArg =
     \<lparr>mm_begin = 0, mm_end = 0, mm_data = replicate (2 ^ (if powArg < 24 then powArg else 24)) (MmEmpty, d)\<rparr>"

definition mm_maxSize :: "'a mmQueue \<Rightarrow> nat" where
  "mm_maxSize q = length (mm_data q)"

definition realIndex :: "'a mmQueue \<Rightarrow> u32 \<Rightarrow> nat" where
  "realIndex q index = unat (index AND (of_nat (mm_maxSize q) - 1))"

definition mm_status :: "nat \<Rightarrow> 'a mmQueue \<Rightarrow> mmStatus" where
  "mm_status j q = fst (mm_data q ! j)"

definition mm_value :: "nat \<Rightarrow> 'a mmQueue \<Rightarrow> 'a" where
  "mm_value j q = snd (mm_data q ! j)"

definition store_status :: "nat \<Rightarrow> mmStatus \<Rightarrow> 'a mmQueue \<Rightarrow> 'a mmQueue" where
  "store_status j st q = q\<lparr>mm_data := (mm_data q)[j := (st, mm_value j q)]\<rparr>"

definition store_value :: "nat \<Rightarrow> 'a \<Rightarrow> 'a mmQueue \<Rightarrow> 'a mmQueue" where
  "store_value j x q = q\<lparr>mm_data := (mm_data q)[j := (mm_status j q, x)]\<rparr>"

definition mm_empty :: "'a mmQueue \<Rightarrow> bool" where
  "mm_empty q \<longleftrightarrow> mm_status (realIndex q (mm_begin q)) q = MmEmpty"

definition mm_full :: "'a mmQueue \<Rightarrow> bool" where
  "mm_full q \<longleftrightarrow> mm_status (realIndex q (mm_end q)) q = MmFull"

section \<open>The steps of the two operations\<close>

text \<open>
  Where a thread is: in \<open>push\<close> with the item, the attempts made and the end it has read, or in \<open>pop\<close>.
\<close>

datatype 'a mmPlace =
  AtRest
| PushTry 'a nat
| PushLook 'a nat u32
| PushLock 'a nat u32
| PushMove 'a nat u32
| PushUndo 'a nat u32
| PushFill 'a u32
| PushPublish 'a u32
| Pushed bool
| PopTry nat
| PopLook nat u32
| PopLock nat u32
| PopMove nat u32
| PopUndo nat u32
| PopTake u32
| PopReset 'a u32
| PopRelease 'a u32
| Popped "'a option"

text \<open>\<open>spurious\<close>: a compare-and-exchange fails without a reason.\<close>

fun mm_push_step :: "bool \<Rightarrow> 'a mmPlace \<Rightarrow> 'a mmQueue \<Rightarrow> 'a mmPlace \<times> 'a mmQueue" where
  "mm_push_step spurious (PushTry item i) q = (if i = 5 then Pushed False else PushLook item (i + 1) (mm_end q), q)"
| "mm_push_step spurious (PushLook item i oldEnd) q =
     (if mm_status (realIndex q oldEnd) q \<noteq> MmEmpty then PushTry item i else PushLock item i oldEnd, q)"
| "mm_push_step spurious (PushLock item i oldEnd) q =
     (if spurious \<or> mm_status (realIndex q oldEnd) q \<noteq> MmEmpty then (PushTry item i, q)
      else (PushMove item i oldEnd, store_status (realIndex q oldEnd) MmWriting q))"
| "mm_push_step spurious (PushMove item i oldEnd) q =
     (if spurious \<or> mm_end q \<noteq> oldEnd then (PushUndo item i oldEnd, q)
      else (PushFill item oldEnd, q\<lparr>mm_end := oldEnd + 1\<rparr>))"
| "mm_push_step spurious (PushUndo item i oldEnd) q = (PushTry item i, store_status (realIndex q oldEnd) MmEmpty q)"
| "mm_push_step spurious (PushFill item oldEnd) q = (PushPublish item oldEnd, store_value (realIndex q oldEnd) item q)"
| "mm_push_step spurious (PushPublish item oldEnd) q = (Pushed True, store_status (realIndex q oldEnd) MmFull q)"
| "mm_push_step spurious p q = (p, q)"

fun mm_pop_step :: "'a \<Rightarrow> bool \<Rightarrow> 'a mmPlace \<Rightarrow> 'a mmQueue \<Rightarrow> 'a mmPlace \<times> 'a mmQueue" where
  "mm_pop_step d spurious (PopTry i) q = (if i = 5 then Popped None else PopLook (i + 1) (mm_begin q), q)"
| "mm_pop_step d spurious (PopLook i oldBegin) q =
     (if mm_status (realIndex q oldBegin) q \<noteq> MmFull then PopTry i else PopLock i oldBegin, q)"
| "mm_pop_step d spurious (PopLock i oldBegin) q =
     (if spurious \<or> mm_status (realIndex q oldBegin) q \<noteq> MmFull then (PopTry i, q)
      else (PopMove i oldBegin, store_status (realIndex q oldBegin) MmReading q))"
| "mm_pop_step d spurious (PopMove i oldBegin) q =
     (if spurious \<or> mm_begin q \<noteq> oldBegin then (PopUndo i oldBegin, q)
      else (PopTake oldBegin, q\<lparr>mm_begin := oldBegin + 1\<rparr>))"
| "mm_pop_step d spurious (PopUndo i oldBegin) q = (PopTry i, store_status (realIndex q oldBegin) MmFull q)"
| "mm_pop_step d spurious (PopTake oldBegin) q = (PopReset (mm_value (realIndex q oldBegin) q) oldBegin, q)"
| "mm_pop_step d spurious (PopReset t oldBegin) q = (PopRelease t oldBegin, store_value (realIndex q oldBegin) d q)"
| "mm_pop_step d spurious (PopRelease t oldBegin) q = (Popped (Some t), store_status (realIndex q oldBegin) MmEmpty q)"
| "mm_pop_step d spurious p q = (p, q)"

definition mm_push_call :: "'a \<Rightarrow> 'a mmPlace" where
  "mm_push_call item = PushTry item 0"

definition mm_pop_call :: "'a mmPlace" where
  "mm_pop_call = PopTry 1"

text \<open>An operation that runs alone, without a spurious failure: its steps up to the return.\<close>

fun mm_run :: "nat \<Rightarrow> ('a mmPlace \<Rightarrow> 'a mmQueue \<Rightarrow> 'a mmPlace \<times> 'a mmQueue) \<Rightarrow> 'a mmPlace \<Rightarrow> 'a mmQueue \<Rightarrow> 'a mmPlace \<times> 'a mmQueue" where
  "mm_run 0 f p q = (p, q)"
| "mm_run (Suc n) f p q = (let (p, q) = f p q in mm_run n f p q)"

definition mm_push :: "'a \<Rightarrow> 'a mmQueue \<Rightarrow> 'a mmQueue \<times> bool" where
  "mm_push item q = (case mm_run 16 (mm_push_step False) (mm_push_call item) q of (p, q) \<Rightarrow> (q, p = Pushed True))"

definition mm_pop :: "'a \<Rightarrow> 'a mmQueue \<Rightarrow> 'a mmQueue \<times> 'a option" where
  "mm_pop d q = (case mm_run 16 (mm_pop_step d False) mm_pop_call q of (p, q) \<Rightarrow> (q, case p of Popped r \<Rightarrow> r | _ \<Rightarrow> None))"

section \<open>Many threads\<close>

text \<open>
  A state of the system: the queue, the place of each thread, and as history variables the items in the order in which
  the end was moved over them, the number of moves of the beginning, for each thread the position over which it
  last moved the beginning, and what has been taken out, with its position.
\<close>

record 'a mmSys =
  ms_queue :: "'a mmQueue"
  ms_place :: "nat \<Rightarrow> 'a mmPlace"
  ms_pushed :: "'a list"
  ms_begun :: nat
  ms_ticket :: "nat \<Rightarrow> nat"
  ms_taken :: "(nat \<times> 'a) list"

datatype 'a mmMove = CallPush 'a | CallPop | StepOn bool

definition mm_idle :: "'a mmPlace \<Rightarrow> bool" where
  "mm_idle p \<longleftrightarrow> (case p of AtRest \<Rightarrow> True | Pushed b \<Rightarrow> True | Popped r \<Rightarrow> True | _ \<Rightarrow> False)"

definition mm_is_pop :: "'a mmPlace \<Rightarrow> bool" where
  "mm_is_pop p \<longleftrightarrow> (case p of PopTry i \<Rightarrow> True | PopLook i w \<Rightarrow> True | PopLock i w \<Rightarrow> True | PopMove i w \<Rightarrow> True
     | PopUndo i w \<Rightarrow> True | PopTake w \<Rightarrow> True | PopReset t w \<Rightarrow> True | PopRelease t w \<Rightarrow> True | _ \<Rightarrow> False)"

definition mm_note :: "nat \<Rightarrow> 'a mmPlace \<Rightarrow> 'a mmPlace \<Rightarrow> 'a mmSys \<Rightarrow> 'a mmSys" where
  "mm_note t p p' s =
     (case (p, p') of
        (PushMove item i w, PushFill x v) \<Rightarrow> s\<lparr>ms_pushed := ms_pushed s @ [item]\<rparr>
      | (PopMove i w, PopTake v) \<Rightarrow> s\<lparr>ms_begun := ms_begun s + 1, ms_ticket := (ms_ticket s)(t := ms_begun s)\<rparr>
      | (PopTake w, PopReset x v) \<Rightarrow> s\<lparr>ms_taken := ms_taken s @ [(ms_ticket s t, x)]\<rparr>
      | _ \<Rightarrow> s)"

definition mm_move :: "'a \<Rightarrow> nat \<times> 'a mmMove \<Rightarrow> 'a mmSys \<Rightarrow> 'a mmSys" where
  "mm_move d mv s =
     (case mv of (t, act) \<Rightarrow>
       (case act of
          CallPush item \<Rightarrow> if mm_idle (ms_place s t) then s\<lparr>ms_place := (ms_place s)(t := mm_push_call item)\<rparr> else s
        | CallPop \<Rightarrow> if mm_idle (ms_place s t) then s\<lparr>ms_place := (ms_place s)(t := mm_pop_call)\<rparr> else s
        | StepOn spurious \<Rightarrow>
            let p = ms_place s t;
                (p', q) = (if mm_is_pop p then mm_pop_step d spurious p (ms_queue s) else mm_push_step spurious p (ms_queue s))
            in mm_note t p p' (s\<lparr>ms_place := (ms_place s)(t := p'), ms_queue := q\<rparr>)))"

definition mm_start :: "'a \<Rightarrow> nat \<Rightarrow> 'a mmSys" where
  "mm_start d powArg =
     \<lparr>ms_queue = MPMC d powArg, ms_place = (\<lambda>t. AtRest), ms_pushed = [], ms_begun = 0, ms_ticket = (\<lambda>t. 0), ms_taken = []\<rparr>"

section \<open>The invariant\<close>

lemma mm_cells [simp]:
  "length (mm_data (store_status j st q)) = length (mm_data q)" "length (mm_data (store_value j x q)) = length (mm_data q)"
  "mm_begin (store_status j st q) = mm_begin q" "mm_begin (store_value j x q) = mm_begin q"
  "mm_end (store_status j st q) = mm_end q" "mm_end (store_value j x q) = mm_end q"
  by (simp_all add: store_status_def store_value_def)

lemma mm_read [simp]:
  "i < length (mm_data q) \<Longrightarrow> mm_status i (store_status j st q) = (if i = j then st else mm_status i q)"
  "i < length (mm_data q) \<Longrightarrow> mm_value i (store_status j st q) = mm_value i q"
  "i < length (mm_data q) \<Longrightarrow> mm_status i (store_value j x q) = mm_status i q"
  "i < length (mm_data q) \<Longrightarrow> mm_value i (store_value j x q) = (if i = j then x else mm_value i q)"
  by (cases "i = j"; simp add: mm_status_def mm_value_def store_status_def store_value_def)+

lemma mm_counters [simp]:
  "mm_status i (q\<lparr>mm_end := w\<rparr>) = mm_status i q" "mm_value i (q\<lparr>mm_end := w\<rparr>) = mm_value i q"
  "mm_status i (q\<lparr>mm_begin := w\<rparr>) = mm_status i q" "mm_value i (q\<lparr>mm_begin := w\<rparr>) = mm_value i q"
  by (simp_all add: mm_status_def mm_value_def)

lemma realIndex_frame [simp]:
  "realIndex (store_status j st q) w = realIndex q w" "realIndex (store_value j x q) w = realIndex q w"
  "realIndex (q\<lparr>mm_end := v\<rparr>) w = realIndex q w" "realIndex (q\<lparr>mm_begin := v\<rparr>) w = realIndex q w"
  by (simp_all add: realIndex_def mm_maxSize_def)

lemma realIndex_mod:
  assumes "length (mm_data q) = 2 ^ k" and "k \<le> 24"
  shows "realIndex q (of_nat j) = j mod 2 ^ k"
proof -
  have "(of_nat (2 ^ k) - 1 :: u32) = mask k" by (simp add: mask_eq_exp_minus_1)
  then have "realIndex q (of_nat j) = unat (take_bit k (of_nat j :: u32))"
    by (simp add: realIndex_def mm_maxSize_def assms(1) take_bit_eq_mask)
  also have "\<dots> = j mod 2 ^ 32 mod 2 ^ k"
    by (simp only: unsigned_take_bit_eq unsigned_of_nat) (simp add: take_bit_eq_mod)
  also have "\<dots> = j mod 2 ^ k"
    using assms(2) by (intro mod_mod_cancel le_imp_power_dvd) simp
  finally show ?thesis .
qed

lemma realIndex_less:
  assumes "length (mm_data q) = 2 ^ k" and "k \<le> 24"
  shows "realIndex q w < 2 ^ k"
  using realIndex_mod [OF assms, of "unat w"] by simp

text \<open>Cell \<open>j\<close> is that of a position that has been pushed and not yet begun to be popped, which holds \<open>x\<close>; or there is none.\<close>

definition filled :: "nat \<Rightarrow> nat \<Rightarrow> 'a list \<Rightarrow> nat \<Rightarrow> 'a \<Rightarrow> bool" where
  "filled m b ps j x \<longleftrightarrow> (\<exists>k. b \<le> k \<and> k < length ps \<and> k mod m = j \<and> ps ! k = x)"

definition spare :: "nat \<Rightarrow> nat \<Rightarrow> 'a list \<Rightarrow> nat \<Rightarrow> bool" where
  "spare m b ps j \<longleftrightarrow> (\<forall>k. b \<le> k \<and> k < length ps \<longrightarrow> k mod m \<noteq> j)"

text \<open>The item that was popped from cell \<open>j\<close>, at position \<open>k\<close>, before anything was pushed there again.\<close>

definition popped_from :: "nat \<Rightarrow> nat \<Rightarrow> 'a list \<Rightarrow> nat \<Rightarrow> nat \<Rightarrow> 'a \<Rightarrow> bool" where
  "popped_from m b ps j k x \<longleftrightarrow> k < b \<and> k mod m = j \<and> length ps \<le> k + m \<and> k < length ps \<and> ps ! k = x"

definition held :: "'a mmQueue \<Rightarrow> 'a mmPlace \<Rightarrow> nat option" where
  "held q p =
     (case p of
        PushMove x i w \<Rightarrow> Some (realIndex q w) | PushUndo x i w \<Rightarrow> Some (realIndex q w)
      | PushFill x w \<Rightarrow> Some (realIndex q w) | PushPublish x w \<Rightarrow> Some (realIndex q w)
      | PopMove i w \<Rightarrow> Some (realIndex q w) | PopUndo i w \<Rightarrow> Some (realIndex q w)
      | PopTake w \<Rightarrow> Some (realIndex q w) | PopReset x w \<Rightarrow> Some (realIndex q w) | PopRelease x w \<Rightarrow> Some (realIndex q w)
      | _ \<Rightarrow> None)"

definition place_ok :: "'a mmQueue \<Rightarrow> nat \<Rightarrow> 'a list \<Rightarrow> (nat \<times> 'a) list \<Rightarrow> nat \<Rightarrow> 'a mmPlace \<Rightarrow> bool" where
  "place_ok q b ps out k p =
     (let m = length (mm_data q)
      in case p of
           PushMove x i w \<Rightarrow> mm_status (realIndex q w) q = MmWriting \<and> spare m b ps (realIndex q w)
         | PushUndo x i w \<Rightarrow> mm_status (realIndex q w) q = MmWriting \<and> spare m b ps (realIndex q w)
         | PushFill x w \<Rightarrow> mm_status (realIndex q w) q = MmWriting \<and> filled m b ps (realIndex q w) x
         | PushPublish x w \<Rightarrow> mm_status (realIndex q w) q = MmWriting \<and> filled m b ps (realIndex q w) x \<and> mm_value (realIndex q w) q = x
         | PopMove i w \<Rightarrow> mm_status (realIndex q w) q = MmReading \<and> filled m b ps (realIndex q w) (mm_value (realIndex q w) q)
         | PopUndo i w \<Rightarrow> mm_status (realIndex q w) q = MmReading \<and> filled m b ps (realIndex q w) (mm_value (realIndex q w) q)
         | PopTake w \<Rightarrow> mm_status (realIndex q w) q = MmReading \<and> k \<notin> fst ` set out
             \<and> popped_from m b ps (realIndex q w) k (mm_value (realIndex q w) q)
         | PopReset x w \<Rightarrow> mm_status (realIndex q w) q = MmReading \<and> popped_from m b ps (realIndex q w) k x
         | PopRelease x w \<Rightarrow> mm_status (realIndex q w) q = MmReading \<and> popped_from m b ps (realIndex q w) k x
         | _ \<Rightarrow> True)"

definition cell_ok :: "'a mmQueue \<Rightarrow> nat \<Rightarrow> 'a list \<Rightarrow> nat \<Rightarrow> bool" where
  "cell_ok q b ps j \<longleftrightarrow>
     mm_status j q = MmEmpty \<and> spare (length (mm_data q)) b ps j
   \<or> mm_status j q = MmFull \<and> filled (length (mm_data q)) b ps j (mm_value j q)"

definition queue_ok :: "nat \<Rightarrow> 'a mmQueue \<Rightarrow> nat \<Rightarrow> 'a list \<Rightarrow> bool" where
  "queue_ok e q b ps \<longleftrightarrow> e \<le> 24 \<and> length (mm_data q) = 2 ^ e \<and> mm_begin q = of_nat b \<and> mm_end q = of_nat (length ps)
     \<and> b \<le> length ps \<and> length ps \<le> b + 2 ^ e"

definition out_ok :: "nat \<Rightarrow> 'a list \<Rightarrow> (nat \<times> 'a) list \<Rightarrow> bool" where
  "out_ok b ps out \<longleftrightarrow> distinct (map fst out) \<and> (\<forall>(k, x) \<in> set out. k < b \<and> ps ! k = x)"

definition inv_of ::
  "nat \<Rightarrow> 'a mmQueue \<Rightarrow> (nat \<Rightarrow> 'a mmPlace) \<Rightarrow> nat \<Rightarrow> 'a list \<Rightarrow> (nat \<Rightarrow> nat) \<Rightarrow> (nat \<times> 'a) list \<Rightarrow> bool" where
  "inv_of e q pl b ps tk out \<longleftrightarrow> queue_ok e q b ps \<and> out_ok b ps out
     \<and> (\<forall>t. place_ok q b ps out (tk t) (pl t))
     \<and> (\<forall>t u j. held q (pl t) = Some j \<and> held q (pl u) = Some j \<longrightarrow> t = u)
     \<and> (\<forall>j < 2 ^ e. (\<forall>t. held q (pl t) \<noteq> Some j) \<longrightarrow> cell_ok q b ps j)"

definition mm_inv :: "nat \<Rightarrow> 'a mmSys \<Rightarrow> bool" where
  "mm_inv e s \<longleftrightarrow> inv_of e (ms_queue s) (ms_place s) (ms_begun s) (ms_pushed s) (ms_ticket s) (ms_taken s)"

lemma mm_inv_start: "mm_inv (if powArg < 24 then powArg else 24) (mm_start d powArg)"
  by (simp add: mm_inv_def inv_of_def mm_start_def MPMC_def queue_ok_def out_ok_def place_ok_def held_def cell_ok_def spare_def
      mm_status_def)

lemma inv_ofD:
  assumes "inv_of e q pl b ps tk out"
  shows "queue_ok e q b ps" "out_ok b ps out" "place_ok q b ps out (tk t) (pl t)"
    "held q (pl t) = Some j \<Longrightarrow> held q (pl u) = Some j \<Longrightarrow> t = u"
    "j < 2 ^ e \<Longrightarrow> (\<And>t. held q (pl t) \<noteq> Some j) \<Longrightarrow> cell_ok q b ps j"
  using assms by (auto simp: inv_of_def)

text \<open>Two queues that differ in one cell at most.\<close>

definition off_cell :: "nat \<Rightarrow> 'a mmQueue \<Rightarrow> 'a mmQueue \<Rightarrow> bool" where
  "off_cell j q q' \<longleftrightarrow> length (mm_data q') = length (mm_data q)
     \<and> (\<forall>i < length (mm_data q). i \<noteq> j \<longrightarrow> mm_status i q' = mm_status i q \<and> mm_value i q' = mm_value i q)"

lemma off_cell_store [simp]:
  "off_cell j q (store_status j st q)" "off_cell j q (store_value j x q)" "off_cell j q q"
  "off_cell j q (q\<lparr>mm_end := w\<rparr>)" "off_cell j q (q\<lparr>mm_begin := w\<rparr>)"
  by (simp_all add: off_cell_def)

lemma held_off: "off_cell j q q' \<Longrightarrow> held q' p = held q p"
  by (simp add: held_def off_cell_def realIndex_def mm_maxSize_def split: mmPlace.split)

text \<open>What another thread relies on: cells it holds are not touched, and the histories grow away from them.\<close>

definition kept_for :: "nat \<Rightarrow> nat \<Rightarrow> nat \<Rightarrow> 'a list \<Rightarrow> nat \<Rightarrow> 'a list \<Rightarrow> nat \<Rightarrow> bool" where
  "kept_for m j b ps b' ps' i \<longleftrightarrow> i \<noteq> j
     \<and> (spare m b ps i \<longrightarrow> spare m b' ps' i)
     \<and> (\<forall>x. filled m b ps i x \<longrightarrow> filled m b' ps' i x)
     \<and> (\<forall>k x. popped_from m b ps i k x \<longrightarrow> popped_from m b' ps' i k x)"

lemma mm_kept_same: "i \<noteq> j \<Longrightarrow> kept_for m j b ps b ps i"
  by (simp add: kept_for_def)

lemma kept_push:
  assumes "i \<noteq> length ps mod m"
  shows "kept_for m (length ps mod m) b ps b (ps @ [x]) i"
proof -
  have "spare m b (ps @ [x]) i" if "spare m b ps i" using that assms by (auto simp: spare_def less_Suc_eq)
  moreover have "filled m b (ps @ [x]) i y" if "filled m b ps i y" for y
    using that by (force simp: filled_def nth_append)
  moreover have "popped_from m b (ps @ [x]) i k y" if "popped_from m b ps i k y" for k y
  proof -
    have "length ps \<noteq> k + m" using that assms by (auto simp: popped_from_def)
    then show ?thesis using that by (auto simp: popped_from_def nth_append)
  qed
  ultimately show ?thesis using assms by (simp add: kept_for_def)
qed

lemma kept_pop:
  assumes "i \<noteq> b mod m"
  shows "kept_for m (b mod m) b ps (b + 1) ps i"
proof -
  have "spare m (b + 1) ps i" if "spare m b ps i" using that by (auto simp: spare_def)
  moreover have "filled m (b + 1) ps i y" if f: "filled m b ps i y" for y
  proof -
    obtain k where k: "b \<le> k" "k < length ps" "k mod m = i" "ps ! k = y" using f by (auto simp: filled_def)
    then have "k \<noteq> b" using assms by auto
    then show ?thesis using k by (auto simp: filled_def intro!: exI [of _ k])
  qed
  moreover have "popped_from m (b + 1) ps i k y" if "popped_from m b ps i k y" for k y
    using that by (auto simp: popped_from_def)
  ultimately show ?thesis using assms by (simp add: kept_for_def)
qed

lemma place_kept:
  assumes "place_ok q b ps out k p" and "off_cell j q q'" and "held q p \<noteq> Some j"
    and "\<And>i. i \<noteq> j \<Longrightarrow> kept_for (length (mm_data q)) j b ps b' ps' i" and "\<And>w. realIndex q w < length (mm_data q)"
    and "\<And>w x. p = PopTake w \<Longrightarrow> k \<notin> fst ` set out'"
  shows "place_ok q' b' ps' out' k p"
proof -
  have ix: "realIndex q' w = realIndex q w" for w
    using assms(2) by (simp add: off_cell_def realIndex_def mm_maxSize_def)
  have same: "mm_status (realIndex q w) q' = mm_status (realIndex q w) q" "mm_value (realIndex q w) q' = mm_value (realIndex q w) q"
    if "realIndex q w \<noteq> j" for w
    using assms(2,5) that by (simp_all add: off_cell_def)
  have len: "length (mm_data q') = length (mm_data q)" using assms(2) by (simp add: off_cell_def)
  have k: "i \<noteq> j \<Longrightarrow> spare (length (mm_data q)) b ps i \<Longrightarrow> spare (length (mm_data q)) b' ps' i"
    "i \<noteq> j \<Longrightarrow> filled (length (mm_data q)) b ps i x \<Longrightarrow> filled (length (mm_data q)) b' ps' i x"
    "i \<noteq> j \<Longrightarrow> popped_from (length (mm_data q)) b ps i l x \<Longrightarrow> popped_from (length (mm_data q)) b' ps' i l x" for i l x
    using assms(4) [of i] unfolding kept_for_def by blast+
  show ?thesis
  proof (cases "held q p")
    case None
    then show ?thesis by (cases p) (simp_all add: held_def place_ok_def)
  next
    case (Some i)
    then have "i \<noteq> j" using assms(3) by simp
    with Some show ?thesis
      using assms(1,6) by (cases p) (auto simp: place_ok_def held_def ix same len Let_def intro: k)
  qed
qed

lemma cell_kept:
  assumes "cell_ok q b ps i" and "off_cell j q q'" and "i < length (mm_data q)" "i \<noteq> j"
    and "kept_for (length (mm_data q)) j b ps b' ps' i"
  shows "cell_ok q' b' ps' i"
  using assms by (auto simp: cell_ok_def off_cell_def kept_for_def)

text \<open>A move of one thread that owns cell \<open>j\<close> before or after it.\<close>

lemma inv_move:
  assumes inv: "inv_of e q pl b ps tk out"
    and own: "held q (pl t) = Some j \<or> held q (pl t) = None \<and> (\<forall>u. held q (pl u) \<noteq> Some j)"
    and q': "off_cell j q q'" "queue_ok e q' b' ps'" "out_ok b' ps' out'"
    and kept: "\<And>i. i \<noteq> j \<Longrightarrow> kept_for (2 ^ e) j b ps b' ps' i"
    and p': "held q p' = Some j \<or> held q p' = None \<and> cell_ok q' b' ps' j" "place_ok q' b' ps' out' k p'"
    and out': "\<And>u w. u \<noteq> t \<Longrightarrow> pl u = PopTake w \<Longrightarrow> tk u \<notin> fst ` set out'"
  shows "inv_of e q' (pl(t := p')) b' ps' (tk(t := k)) out'"
proof -
  have len: "length (mm_data q) = 2 ^ e" "e \<le> 24" using inv_ofD(1) [OF inv] by (simp_all add: queue_ok_def)
  have held': "held q' p = held q p" for p using held_off [OF q'(1)] .
  have off: "held q (pl u) \<noteq> Some j" if "u \<noteq> t" for u
    using own that inv_ofD(4) [OF inv, of u j t] by auto
  have P: "place_ok q' b' ps' out' ((tk(t := k)) u) ((pl(t := p')) u)" for u
  proof (cases "u = t")
    case False
    then show ?thesis
      using place_kept [OF inv_ofD(3) [OF inv, of u] q'(1) off [OF False], of b' ps' out'] kept out' realIndex_less [OF len] len
      by simp
  qed (simp add: p'(2))
  have Q: "u = v" if "held q ((pl(t := p')) u) = Some i" "held q ((pl(t := p')) v) = Some i" for u v i
    using that off p'(1) inv_ofD(4) [OF inv, of u i v] by (auto split: if_splits)
  have R: "cell_ok q' b' ps' i" if i: "i < 2 ^ e" "\<And>u. held q ((pl(t := p')) u) \<noteq> Some i" for i
  proof (cases "i = j")
    case True
    then show ?thesis using i(2) [of t] p'(1) by auto
  next
    case False
    have "held q (pl u) \<noteq> Some i" for u using i(2) [of u] False own by (cases "u = t") auto
    then have "cell_ok q b ps i" by (rule inv_ofD(5) [OF inv i(1)])
    then show ?thesis
      by (rule cell_kept [OF _ q'(1)]) (simp_all add: False i(1) len(1) kept [OF False])
  qed
  show ?thesis unfolding inv_of_def held' using q'(2,3) P Q R by blast
qed

lemma same_residue:
  fixes k l m :: nat
  assumes "k < l" and "l mod m = k mod m"
  shows "k + m \<le> l"
proof -
  have "m dvd l - k" using assms by (metis less_imp_le mod_eq_dvd_iff_nat)
  then have "m \<le> l - k" using assms(1) by (intro dvd_imp_le) simp_all
  then show ?thesis using assms(1) by linarith
qed

lemma popped_spare:
  assumes "popped_from m b ps j k x"
  shows "spare m b ps j"
proof -
  have "l mod m \<noteq> j" if "b \<le> l" "l < length ps" for l
    using same_residue [of k l m] assms that by (auto simp: popped_from_def)
  then show ?thesis by (simp add: spare_def)
qed

lemma filled_at_begin:
  assumes "filled m b ps (b mod m) x" and "length ps \<le> b + m"
  shows "b < length ps" "ps ! b = x"
proof -
  obtain k where k: "b \<le> k" "k < length ps" "k mod m = b mod m" "ps ! k = x" using assms(1) by (auto simp: filled_def)
  then have "k = b" using same_residue [of b k m] assms(2) by (cases "b < k") auto
  then show "b < length ps" "ps ! b = x" using k by auto
qed

lemma spare_at_end:
  assumes "spare m b ps (length ps mod m)" and "b \<le> length ps" "length ps \<le> b + m" "0 < m"
  shows "length ps < b + m"
proof (rule ccontr)
  assume "\<not> ?thesis"
  then have "length ps = b + m" using assms(3) by simp
  then show False using assms(1,4) by (auto simp: spare_def)
qed

lemma queue_ok_store [simp]:
  "queue_ok e (store_status j st q) b ps = queue_ok e q b ps" "queue_ok e (store_value j x q) b ps = queue_ok e q b ps"
  by (simp_all add: queue_ok_def)

lemma not_held:
  assumes "inv_of e q pl b ps tk out" and "mm_status j q = MmEmpty \<or> mm_status j q = MmFull"
  shows "held q (pl u) \<noteq> Some j"
proof
  assume h: "held q (pl u) = Some j"
  show False
    using h inv_ofD(3) [OF assms(1), of u] assms(2) by (cases "pl u") (auto simp: held_def place_ok_def Let_def)
qed

text \<open>The moves within a step that no other thread notices: nothing of the histories changes.\<close>

lemma inv_quiet:
  assumes "inv_of e q pl b ps tk out" and "held q (pl t) = None" "held q p' = None"
  shows "inv_of e q (pl(t := p')) b ps tk out"
proof -
  have "place_ok q b ps out k p'" for k using assms(3) by (cases p') (simp_all add: held_def place_ok_def)
  moreover have eq: "held q ((pl(t := p')) u) = held q (pl u)" for u using assms(2,3) by simp
  ultimately show ?thesis using assms(1) unfolding inv_of_def eq by simp
qed

lemma inv_local:
  assumes inv: "inv_of e q pl b ps tk out"
    and own: "held q (pl t) = Some j \<or> held q (pl t) = None \<and> (\<forall>u. held q (pl u) \<noteq> Some j)"
    and q': "off_cell j q q'" "queue_ok e q' b ps"
    and p': "held q p' = Some j \<or> held q p' = None \<and> cell_ok q' b ps j" "place_ok q' b ps out (tk t) p'"
  shows "inv_of e q' (pl(t := p')) b ps tk out"
proof -
  have "inv_of e q' (pl(t := p')) b ps (tk(t := tk t)) out"
  proof (rule inv_move [OF inv own q' inv_ofD(2) [OF inv] mm_kept_same p'])
    fix u w assume "u \<noteq> t" "pl u = PopTake w"
    then show "tk u \<notin> fst ` set out" using inv_ofD(3) [OF inv, of u] by (simp add: place_ok_def Let_def)
  qed
  then show ?thesis by simp
qed

text \<open>The three moves that are noted in the histories.\<close>

lemma inv_pushed:
  assumes inv: "inv_of e q pl b ps tk out" and p: "pl t = PushMove x i w" and w: "mm_end q = w"
  shows "inv_of e (q\<lparr>mm_end := w + 1\<rparr>) (pl(t := PushFill x w)) b (ps @ [x]) tk out"
proof -
  have q: "queue_ok e q b ps" using inv_ofD(1) [OF inv] .
  then have len: "length (mm_data q) = 2 ^ e" "e \<le> 24" by (simp_all add: queue_ok_def)
  have j: "realIndex q w = length ps mod 2 ^ e" using q w realIndex_mod [OF len] by (simp add: queue_ok_def)
  have pl: "mm_status (realIndex q w) q = MmWriting" "spare (2 ^ e) b ps (length ps mod 2 ^ e)"
    using inv_ofD(3) [OF inv, of t] p len j by (simp_all add: place_ok_def Let_def)
  have room: "length ps < b + 2 ^ e" using spare_at_end [OF pl(2)] q by (simp add: queue_ok_def)
  have "inv_of e (q\<lparr>mm_end := w + 1\<rparr>) (pl(t := PushFill x w)) b (ps @ [x]) (tk(t := tk t)) out"
  proof (rule inv_move [OF inv, of t "length ps mod 2 ^ e"])
    show "queue_ok e (q\<lparr>mm_end := w + 1\<rparr>) b (ps @ [x])"
      using q w room by (auto simp: queue_ok_def)
    show "out_ok b (ps @ [x]) out"
      using inv_ofD(2) [OF inv] q by (fastforce simp: out_ok_def nth_append queue_ok_def)
    show "place_ok (q\<lparr>mm_end := w + 1\<rparr>) b (ps @ [x]) out (tk t) (PushFill x w)"
      using pl j len q by (auto simp: place_ok_def Let_def filled_def nth_append queue_ok_def intro!: exI [of _ "length ps"])
    fix u v assume "u \<noteq> t" "pl u = PopTake v"
    then show "tk u \<notin> fst ` set out" using inv_ofD(3) [OF inv, of u] by (simp add: place_ok_def Let_def)
  qed (use p j kept_push in \<open>auto simp: held_def\<close>)
  then show ?thesis by simp
qed

lemma inv_begun:
  assumes inv: "inv_of e q pl b ps tk out" and p: "pl t = PopMove i w" and w: "mm_begin q = w"
  shows "inv_of e (q\<lparr>mm_begin := w + 1\<rparr>) (pl(t := PopTake w)) (b + 1) ps (tk(t := b)) out"
proof -
  have q: "queue_ok e q b ps" using inv_ofD(1) [OF inv] .
  then have len: "length (mm_data q) = 2 ^ e" "e \<le> 24" by (simp_all add: queue_ok_def)
  have j: "realIndex q w = b mod 2 ^ e" using q w realIndex_mod [OF len] by (simp add: queue_ok_def)
  have pl: "mm_status (realIndex q w) q = MmReading" "filled (2 ^ e) b ps (b mod 2 ^ e) (mm_value (b mod 2 ^ e) q)"
    using inv_ofD(3) [OF inv, of t] p len j by (simp_all add: place_ok_def Let_def)
  have at: "b < length ps" "ps ! b = mm_value (b mod 2 ^ e) q"
    using filled_at_begin [OF pl(2)] q by (simp_all add: queue_ok_def)
  have new: "b \<notin> fst ` set out" using inv_ofD(2) [OF inv] by (auto simp: out_ok_def)
  show ?thesis
  proof (rule inv_move [OF inv, of t "b mod 2 ^ e"])
    show "queue_ok e (q\<lparr>mm_begin := w + 1\<rparr>) (b + 1) ps" using q w at by (auto simp: queue_ok_def)
    show "out_ok (b + 1) ps out" using inv_ofD(2) [OF inv] by (fastforce simp: out_ok_def)
    show "place_ok (q\<lparr>mm_begin := w + 1\<rparr>) (b + 1) ps out b (PopTake w)"
      using pl j len at new q by (simp add: place_ok_def Let_def popped_from_def queue_ok_def)
    fix u v assume "u \<noteq> t" "pl u = PopTake v"
    then show "tk u \<notin> fst ` set out" using inv_ofD(3) [OF inv, of u] by (simp add: place_ok_def Let_def)
  qed (use p j kept_pop [of _ b] in \<open>auto simp: held_def\<close>)
qed

lemma inv_taken:
  assumes inv: "inv_of e q pl b ps tk out" and p: "pl t = PopTake w"
  shows "inv_of e q (pl(t := PopReset (mm_value (realIndex q w) q) w)) b ps tk (out @ [(tk t, mm_value (realIndex q w) q)])"
proof -
  let ?x = "mm_value (realIndex q w) q"
  have q: "queue_ok e q b ps" using inv_ofD(1) [OF inv] .
  have pl: "mm_status (realIndex q w) q = MmReading" "popped_from (length (mm_data q)) b ps (realIndex q w) (tk t) ?x" "tk t \<notin> fst ` set out"
    using inv_ofD(3) [OF inv, of t] p by (simp_all add: place_ok_def Let_def)
  have "inv_of e q (pl(t := PopReset ?x w)) b ps (tk(t := tk t)) (out @ [(tk t, ?x)])"
  proof (rule inv_move [OF inv, of t "realIndex q w"])
    show "out_ok b ps (out @ [(tk t, ?x)])"
      using inv_ofD(2) [OF inv] pl(2,3) by (auto simp: out_ok_def popped_from_def)
    fix u v assume u: "u \<noteq> t" "pl u = PopTake v"
    have "realIndex q v \<noteq> realIndex q w"
      using inv_ofD(4) [OF inv, of u "realIndex q v" t] u p by (auto simp: held_def)
    moreover have pu: "tk u \<notin> fst ` set out" "popped_from (length (mm_data q)) b ps (realIndex q v) (tk u) (mm_value (realIndex q v) q)"
      using inv_ofD(3) [OF inv, of u] u by (simp_all add: place_ok_def Let_def)
    ultimately have "tk u \<noteq> tk t" using pl(2) by (auto simp: popped_from_def)
    then show "tk u \<notin> fst ` set (out @ [(tk t, ?x)])" using pu(1) by simp
  qed (use p pl q mm_kept_same in \<open>auto simp: held_def place_ok_def Let_def\<close>)
  then show ?thesis by simp
qed

section \<open>Every step keeps the invariant\<close>

lemma inv_index:
  assumes "inv_of e q pl b ps tk out"
  shows "realIndex q w < length (mm_data q)" "length (mm_data q) = 2 ^ e" "realIndex q w < 2 ^ e"
  using inv_ofD(1) [OF assms] realIndex_less [of q e w] by (simp_all add: queue_ok_def)

lemma free_cell:
  assumes "inv_of e q pl b ps tk out" and "mm_status (realIndex q w) q = MmEmpty \<or> mm_status (realIndex q w) q = MmFull"
  shows "cell_ok q b ps (realIndex q w)" "held q (pl u) \<noteq> Some (realIndex q w)"
  using inv_ofD(5) [OF assms(1) inv_index(3) [OF assms(1)]] not_held [OF assms] by auto

text \<open>What a step adds to the histories.\<close>

definition note_pushed :: "'a mmPlace \<Rightarrow> 'a mmPlace \<Rightarrow> 'a list \<Rightarrow> 'a list" where
  "note_pushed p p' ps = (case (p, p') of (PushMove item i w, PushFill x v) \<Rightarrow> ps @ [item] | _ \<Rightarrow> ps)"

definition note_begun :: "'a mmPlace \<Rightarrow> 'a mmPlace \<Rightarrow> nat \<Rightarrow> nat \<Rightarrow> (nat \<Rightarrow> nat) \<Rightarrow> nat \<times> (nat \<Rightarrow> nat)" where
  "note_begun p p' t b tk = (case (p, p') of (PopMove i w, PopTake v) \<Rightarrow> (b + 1, tk(t := b)) | _ \<Rightarrow> (b, tk))"

definition note_taken :: "'a mmPlace \<Rightarrow> 'a mmPlace \<Rightarrow> nat \<Rightarrow> (nat \<times> 'a) list \<Rightarrow> (nat \<times> 'a) list" where
  "note_taken p p' k out = (case (p, p') of (PopTake w, PopReset x v) \<Rightarrow> out @ [(k, x)] | _ \<Rightarrow> out)"

lemma note_sel [simp]:
  "ms_queue (mm_note t p p' s) = ms_queue s" "ms_place (mm_note t p p' s) = ms_place s"
  "ms_pushed (mm_note t p p' s) = note_pushed p p' (ms_pushed s)"
  "ms_begun (mm_note t p p' s) = fst (note_begun p p' t (ms_begun s) (ms_ticket s))"
  "ms_ticket (mm_note t p p' s) = snd (note_begun p p' t (ms_begun s) (ms_ticket s))"
  "ms_taken (mm_note t p p' s) = note_taken p p' (ms_ticket s t) (ms_taken s)"
  by (cases p; cases p'; simp add: mm_note_def note_pushed_def note_begun_def note_taken_def)+

lemma inv_push_step:
  assumes inv: "inv_of e q pl b ps tk out" and p: "pl t = p" "\<not> mm_is_pop p" and step: "mm_push_step sp p q = (p', q')"
    and new: "ps' = note_pushed p p' ps"
  shows "inv_of e q' (pl(t := p')) b ps' tk out"
proof -
  note note_new = new [unfolded note_pushed_def] and ok = inv_ofD(3) [OF inv, of t] and q = inv_ofD(1) [OF inv] and ix = inv_index [OF inv]
  have quiet: "inv_of e q (pl(t := r)) b ps tk out" if "held q p = None" "held q r = None" for r
    using inv_quiet [OF inv, of t r] that p(1) by simp
  show ?thesis
  proof (cases p)
    case (PushLock x i w)
    show ?thesis
    proof (cases "sp \<or> mm_status (realIndex q w) q \<noteq> MmEmpty")
      case True
      then show ?thesis using step note_new PushLock quiet [of "PushTry x i"] by (auto simp: held_def)
    next
      case False
      note free = free_cell [OF inv, of w]
      have "inv_of e (store_status (realIndex q w) MmWriting q) (pl(t := PushMove x i w)) b ps tk out"
        by (rule inv_local [OF inv, of _ "realIndex q w"])
          (use p PushLock False free q ix in \<open>auto simp: held_def place_ok_def cell_ok_def Let_def\<close>)
      then show ?thesis using step note_new PushLock False by simp
    qed
  next
    case (PushMove x i w)
    show ?thesis
    proof (cases "sp \<or> mm_end q \<noteq> w")
      case True
      have "inv_of e q (pl(t := PushUndo x i w)) b ps tk out"
        by (rule inv_local [OF inv, of _ "realIndex q w"]) (use p PushMove ok q in \<open>auto simp: held_def place_ok_def Let_def\<close>)
      then show ?thesis using step note_new PushMove True by auto
    next
      case False
      then show ?thesis using step note_new PushMove inv_pushed [OF inv, of t x i w] p by auto
    qed
  next
    case (PushUndo x i w)
    have "inv_of e (store_status (realIndex q w) MmEmpty q) (pl(t := PushTry x i)) b ps tk out"
      by (rule inv_local [OF inv, of _ "realIndex q w"])
        (use p PushUndo ok q ix in \<open>auto simp: held_def place_ok_def cell_ok_def Let_def\<close>)
    then show ?thesis using step note_new PushUndo by simp
  next
    case (PushFill x w)
    have "inv_of e (store_value (realIndex q w) x q) (pl(t := PushPublish x w)) b ps tk out"
      by (rule inv_local [OF inv, of _ "realIndex q w"])
        (use p PushFill ok q ix in \<open>auto simp: held_def place_ok_def cell_ok_def Let_def\<close>)
    then show ?thesis using step note_new PushFill by simp
  next
    case (PushPublish x w)
    have "inv_of e (store_status (realIndex q w) MmFull q) (pl(t := Pushed True)) b ps tk out"
      by (rule inv_local [OF inv, of _ "realIndex q w"])
        (use p PushPublish ok q ix in \<open>auto simp: held_def place_ok_def cell_ok_def Let_def\<close>)
    then show ?thesis using step note_new PushPublish by simp
  qed (use p(2) step note_new quiet in \<open>auto simp: held_def mm_is_pop_def split: if_splits\<close>)
qed

lemma inv_pop_step:
  assumes inv: "inv_of e q pl b ps tk out" and p: "pl t = p" "mm_is_pop p" and step: "mm_pop_step d sp p q = (p', q')"
    and new: "(b', tk') = note_begun p p' t b tk" "out' = note_taken p p' (tk t) out"
  shows "inv_of e q' (pl(t := p')) b' ps tk' out'"
proof -
  note note_new = new [unfolded note_begun_def note_taken_def] and ok = inv_ofD(3) [OF inv, of t] and q = inv_ofD(1) [OF inv] and ix = inv_index [OF inv]
  have quiet: "inv_of e q (pl(t := r)) b ps tk out" if "held q p = None" "held q r = None" for r
    using inv_quiet [OF inv, of t r] that p(1) by simp
  show ?thesis
  proof (cases p)
    case (PopLock i w)
    show ?thesis
    proof (cases "sp \<or> mm_status (realIndex q w) q \<noteq> MmFull")
      case True
      then show ?thesis using step note_new PopLock quiet [of "PopTry i"] by (auto simp: held_def)
    next
      case False
      note free = free_cell [OF inv, of w]
      have "inv_of e (store_status (realIndex q w) MmReading q) (pl(t := PopMove i w)) b ps tk out"
        by (rule inv_local [OF inv, of _ "realIndex q w"])
          (use p PopLock False free q ix in \<open>auto simp: held_def place_ok_def cell_ok_def Let_def\<close>)
      then show ?thesis using step note_new PopLock False by simp
    qed
  next
    case (PopMove i w)
    show ?thesis
    proof (cases "sp \<or> mm_begin q \<noteq> w")
      case True
      have "inv_of e q (pl(t := PopUndo i w)) b ps tk out"
        by (rule inv_local [OF inv, of _ "realIndex q w"]) (use p PopMove ok q in \<open>auto simp: held_def place_ok_def Let_def\<close>)
      then show ?thesis using step note_new PopMove True by auto
    next
      case False
      then show ?thesis using step note_new PopMove inv_begun [OF inv, of t i w] p by auto
    qed
  next
    case (PopUndo i w)
    have "inv_of e (store_status (realIndex q w) MmFull q) (pl(t := PopTry i)) b ps tk out"
      by (rule inv_local [OF inv, of _ "realIndex q w"])
        (use p PopUndo ok q ix in \<open>auto simp: held_def place_ok_def cell_ok_def Let_def\<close>)
    then show ?thesis using step note_new PopUndo by simp
  next
    case (PopTake w)
    then show ?thesis using step note_new inv_taken [OF inv, of t w] p by auto
  next
    case (PopReset x w)
    have "inv_of e (store_value (realIndex q w) d q) (pl(t := PopRelease x w)) b ps tk out"
      by (rule inv_local [OF inv, of _ "realIndex q w"])
        (use p PopReset ok q ix in \<open>auto simp: held_def place_ok_def cell_ok_def Let_def\<close>)
    then show ?thesis using step note_new PopReset by simp
  next
    case (PopRelease x w)
    have "spare (2 ^ e) b ps (realIndex q w)"
      using ok p PopRelease ix(2) popped_spare by (auto simp: place_ok_def Let_def)
    then have "inv_of e (store_status (realIndex q w) MmEmpty q) (pl(t := Popped (Some x))) b ps tk out"
      by (intro inv_local [OF inv, of _ "realIndex q w"])
        (use p PopRelease ok q ix in \<open>auto simp: held_def place_ok_def cell_ok_def Let_def\<close>)
    then show ?thesis using step note_new PopRelease by simp
  qed (use p(2) step note_new quiet in \<open>auto simp: held_def mm_is_pop_def split: if_splits\<close>)
qed

lemma inv_call:
  assumes "inv_of e q pl b ps tk out" and "mm_idle (pl t)" and "p' = mm_push_call x \<or> p' = mm_pop_call"
  shows "inv_of e q (pl(t := p')) b ps tk out"
  using assms(2,3) by (intro inv_quiet [OF assms(1)])
    (auto simp: mm_idle_def held_def mm_push_call_def mm_pop_call_def split: mmPlace.splits)

lemma mm_inv_move:
  assumes "mm_inv e s"
  shows "mm_inv e (mm_move d mv s)"
proof -
  obtain t act where mv: "mv = (t, act)" by (cases mv)
  have inv: "inv_of e (ms_queue s) (ms_place s) (ms_begun s) (ms_pushed s) (ms_ticket s) (ms_taken s)"
    using assms by (simp add: mm_inv_def)
  show ?thesis
  proof (cases act)
    case (CallPush x)
    then show ?thesis using inv inv_call [OF inv, of t] by (auto simp: mm_inv_def mm_move_def mv)
  next
    case CallPop
    then show ?thesis using inv inv_call [OF inv, of t] by (auto simp: mm_inv_def mm_move_def mv)
  next
    case (StepOn sp)
    let ?p = "ms_place s t"
    show ?thesis
    proof (cases "mm_is_pop ?p")
      case True
      obtain p' q' where st: "mm_pop_step d sp ?p (ms_queue s) = (p', q')" by (cases "mm_pop_step d sp ?p (ms_queue s)")
      have "note_pushed ?p p' (ms_pushed s) = ms_pushed s" using True by (cases ?p) (simp_all add: mm_is_pop_def note_pushed_def)
      then show ?thesis
        using inv_pop_step [OF inv refl True st prod.collapse refl] True st by (simp add: mm_inv_def mm_move_def mv StepOn)
    next
      case False
      obtain p' q' where st: "mm_push_step sp ?p (ms_queue s) = (p', q')" by (cases "mm_push_step sp ?p (ms_queue s)")
      have "note_begun ?p p' t (ms_begun s) (ms_ticket s) = (ms_begun s, ms_ticket s)"
        "note_taken ?p p' (ms_ticket s t) (ms_taken s) = ms_taken s"
        using False by (cases ?p; simp add: mm_is_pop_def note_begun_def note_taken_def)+
      then show ?thesis
        using inv_push_step [OF inv refl False st refl] False st by (simp add: mm_inv_def mm_move_def mv StepOn)
    qed
  qed
qed

lemma mm_inv_run: "mm_inv e s \<Longrightarrow> mm_inv e (fold (mm_move d) moves s)"
  by (induction moves arbitrary: s) (simp_all add: mm_inv_move)

text \<open>The tests are right whenever they say yes.\<close>

lemma mm_tests:
  assumes "mm_inv e s"
  shows "mm_empty (ms_queue s) \<Longrightarrow> ms_begun s = length (ms_pushed s)"
    and "mm_full (ms_queue s) \<Longrightarrow> length (ms_pushed s) = ms_begun s + 2 ^ e"
proof -
  let ?q = "ms_queue s" and ?b = "ms_begun s" and ?ps = "ms_pushed s"
  have inv: "inv_of e ?q (ms_place s) ?b ?ps (ms_ticket s) (ms_taken s)" using assms by (simp add: mm_inv_def)
  have q: "queue_ok e ?q ?b ?ps" using inv_ofD(1) [OF inv] .
  then have len: "length (mm_data ?q) = 2 ^ e" "e \<le> 24" by (simp_all add: queue_ok_def)
  have ib: "realIndex ?q (mm_begin ?q) = ?b mod 2 ^ e" and ie: "realIndex ?q (mm_end ?q) = length ?ps mod 2 ^ e"
    using q realIndex_mod [OF len] by (simp_all add: queue_ok_def)
  show "ms_begun s = length (ms_pushed s)" if "mm_empty ?q"
  proof -
    have "cell_ok ?q ?b ?ps (?b mod 2 ^ e)" "mm_status (?b mod 2 ^ e) ?q = MmEmpty"
      using free_cell(1) [OF inv, of "mm_begin ?q"] that by (simp_all add: mm_empty_def ib)
    then have "spare (2 ^ e) ?b ?ps (?b mod 2 ^ e)" using len by (simp add: cell_ok_def)
    then show ?thesis using q by (auto simp: spare_def queue_ok_def)
  qed
  show "length ?ps = ?b + 2 ^ e" if "mm_full ?q"
  proof -
    have "cell_ok ?q ?b ?ps (length ?ps mod 2 ^ e)" "mm_status (length ?ps mod 2 ^ e) ?q = MmFull"
      using free_cell(1) [OF inv, of "mm_end ?q"] that by (simp_all add: mm_full_def ie)
    then obtain x where "filled (2 ^ e) ?b ?ps (length ?ps mod 2 ^ e) x" using len by (auto simp: cell_ok_def)
    then obtain k where k: "?b \<le> k" "k < length ?ps" "k mod 2 ^ e = length ?ps mod 2 ^ e" by (auto simp: filled_def)
    then have "k + 2 ^ e \<le> length ?ps" by (intro same_residue) simp_all
    then show ?thesis using k q by (simp add: queue_ok_def)
  qed
qed

text \<open>C16: The queue of several producers and consumers is first in, first out, however the threads interleave and
  whatever compare-and-exchange fails without a reason: the \<open>k\<close>-th successful attempt to pop, counted by the moves of
  the beginning, takes out the \<open>k\<close>-th item over which the end was moved, every item is taken out once at most,
  there are never more items in the queue than cells, also when the counters of 32 bits wrap around, and
  a queue that tests as empty, or as full, is so.\<close>

theorem mpmc_fifo:
  assumes "s = fold (mm_move d) moves (mm_start d powArg)" and "m = 2 ^ (if powArg < 24 then powArg else 24)"
  shows "distinct (map fst (ms_taken s)) \<and> (\<forall>(k, x) \<in> set (ms_taken s). k < ms_begun s \<and> ms_pushed s ! k = x)
    \<and> ms_begun s \<le> length (ms_pushed s) \<and> length (ms_pushed s) \<le> ms_begun s + m
    \<and> (mm_empty (ms_queue s) \<longrightarrow> ms_begun s = length (ms_pushed s))
    \<and> (mm_full (ms_queue s) \<longrightarrow> length (ms_pushed s) = ms_begun s + m)"
proof -
  have inv: "mm_inv (if powArg < 24 then powArg else 24) s" using mm_inv_run [OF mm_inv_start] by (simp only: assms(1))
  then have "distinct (map fst (ms_taken s)) \<and> (\<forall>(k, x) \<in> set (ms_taken s). k < ms_begun s \<and> ms_pushed s ! k = x)"
    "ms_begun s \<le> length (ms_pushed s) \<and> length (ms_pushed s) \<le> ms_begun s + m"
    by (simp_all add: mm_inv_def inv_of_def out_ok_def queue_ok_def assms(2) split: if_splits)
  then show ?thesis using mm_tests [OF inv] by (simp add: assms(2))
qed

text \<open>Two threads that push and one that pops; the compare-and-exchange of the second fails once.\<close>

definition demo_moves :: "(nat \<times> nat mmMove) list" where
  "demo_moves = [(0, CallPush 7), (1, CallPush 8), (0, StepOn False), (1, StepOn False), (0, StepOn False), (1, StepOn False),
     (0, StepOn False), (1, StepOn True), (0, StepOn False), (0, StepOn False), (0, StepOn False)]
   @ (2, CallPop) # replicate 8 (2, StepOn False)"

theorem mpmc_fifo_witness:
  "ms_taken (fold (mm_move 0) demo_moves (mm_start 0 1)) = [(0, 7)]
    \<and> ms_pushed (fold (mm_move 0) demo_moves (mm_start 0 1)) ! 0 = 7"
proof -
  let ?s = "fold (mm_move (0 :: nat)) demo_moves (mm_start 0 1)"
  have t: "ms_taken ?s = [(0, 7)]" by code_simp
  then have "(0, 7) \<in> set (ms_taken ?s)" by simp
  then show ?thesis using mpmc_fifo [OF refl refl, where moves = demo_moves and d = 0 and powArg = 1] t by fast
qed

end
