(* ===== verification/MpmcSerial.thy ===== *)
theory MpmcSerial
  imports MpmcQueue RecvQueue
begin

text \<open>
  The queue of \<open>MpmcQueue\<close> used by one operation at a time: another interpretation of \<open>bounded_queue\<close>. An
  attempt that is not disturbed succeeds at once if it can.
\<close>

definition quiet_sys :: "'a mmQueue \<Rightarrow> nat \<Rightarrow> 'a list \<Rightarrow> (nat \<Rightarrow> nat) \<Rightarrow> (nat \<times> 'a) list \<Rightarrow> 'a mmSys" where
  "quiet_sys q b ps tk out = \<lparr>ms_queue = q, ms_place = (\<lambda>t. AtRest), ms_pushed = ps, ms_begun = b, ms_ticket = tk, ms_taken = out\<rparr>"

definition mm_rep :: "nat \<Rightarrow> 'a mmQueue \<Rightarrow> 'a list \<Rightarrow> bool" where
  "mm_rep e q xs \<longleftrightarrow> (\<exists>b ps tk out. mm_inv e (quiet_sys q b ps tk out) \<and> xs = drop b ps)"

lemma end_cell:
  assumes "mm_inv e (quiet_sys q b ps tk out)"
  shows "mm_status (realIndex q (mm_end q)) q = (if length ps < b + 2 ^ e then MmEmpty else MmFull)"
    "mm_status (realIndex q (mm_begin q)) q = (if b < length ps then MmFull else MmEmpty)"
    "b < length ps \<Longrightarrow> mm_value (realIndex q (mm_begin q)) q = ps ! b" "b \<le> length ps"
    "realIndex q w < length (mm_data q)"
proof -
  have inv: "inv_of e q (\<lambda>t. AtRest) b ps tk out" using assms by (simp add: mm_inv_def quiet_sys_def)
  have q: "queue_ok e q b ps" using inv_ofD(1) [OF inv] .
  then have len: "length (mm_data q) = 2 ^ e" "e \<le> 24" by (simp_all add: queue_ok_def)
  have ib: "realIndex q (mm_begin q) = b mod 2 ^ e" and ie: "realIndex q (mm_end q) = length ps mod 2 ^ e"
    using q realIndex_mod [OF len] by (simp_all add: queue_ok_def)
  have cell: "cell_ok q b ps (k mod 2 ^ e)" for k by (rule inv_ofD(5) [OF inv]) (simp_all add: held_def)
  show "b \<le> length ps" "realIndex q w < length (mm_data q)" using q inv_index [OF inv] by (simp_all add: queue_ok_def)
  have filled_end: "length ps = b + 2 ^ e" if "filled (2 ^ e) b ps (length ps mod 2 ^ e) x" for x
  proof -
    obtain k where k: "b \<le> k" "k < length ps" "k mod 2 ^ e = length ps mod 2 ^ e" using \<open>filled _ _ _ _ _\<close> by (auto simp: filled_def)
    then have "k + 2 ^ e \<le> length ps" by (intro same_residue) simp_all
    then show ?thesis using k q by (simp add: queue_ok_def)
  qed
  have spare_end: "length ps < b + 2 ^ e" if "spare (2 ^ e) b ps (length ps mod 2 ^ e)"
    using spare_at_end [OF that] q by (simp add: queue_ok_def)
  show "mm_status (realIndex q (mm_end q)) q = (if length ps < b + 2 ^ e then MmEmpty else MmFull)"
    using cell [of "length ps"] filled_end spare_end len by (auto simp: cell_ok_def ie)
  have at: "b < length ps \<and> ps ! b = x" if "filled (2 ^ e) b ps (b mod 2 ^ e) x" for x
    using filled_at_begin [OF that] q by (simp add: queue_ok_def)
  have none: "\<not> b < length ps" if "spare (2 ^ e) b ps (b mod 2 ^ e)" using that by (auto simp: spare_def)
  show "mm_status (realIndex q (mm_begin q)) q = (if b < length ps then MmFull else MmEmpty)"
    using cell [of b] at none len by (auto simp: cell_ok_def ib)
  show "mm_value (realIndex q (mm_begin q)) q = ps ! b" if "b < length ps"
    using cell [of b] at none len that by (auto simp: cell_ok_def ib)
qed

lemma back_at_rest:
  assumes "mm_inv e s" and "mm_idle (ms_place s 0)" and "ms_place s = (\<lambda>t. AtRest)(0 := p)"
  shows "mm_inv e (quiet_sys (ms_queue s) (ms_begun s) (ms_pushed s) (ms_ticket s) (ms_taken s))"
proof -
  have "held (ms_queue s) p = None" using assms(2,3) by (auto simp: mm_idle_def held_def split: mmPlace.splits)
  then have "inv_of e (ms_queue s) ((ms_place s)(0 := AtRest)) (ms_begun s) (ms_pushed s) (ms_ticket s) (ms_taken s)"
    using assms(1,3) by (intro inv_quiet) (simp_all add: mm_inv_def held_def)
  moreover have "(ms_place s)(0 := AtRest) = (\<lambda>t. AtRest)" by (simp add: assms(3) fun_eq_iff)
  ultimately show ?thesis by (simp add: mm_inv_def quiet_sys_def)
qed

lemma push_alone_mm:
  assumes inv: "mm_inv e (quiet_sys q b ps tk out)"
  shows "snd (mm_push x q) \<longleftrightarrow> length ps < b + 2 ^ e"
    and "\<exists>tk. mm_inv e (quiet_sys (fst (mm_push x q)) b (if length ps < b + 2 ^ e then ps @ [x] else ps) tk out)"
proof -
  note cell = end_cell(1) [OF inv] and ix = end_cell(5) [OF inv]
  let ?s = "fold (mm_move x) ((0, CallPush x) # replicate 6 (0, StepOn False)) (quiet_sys q b ps tk out)"
  have "mm_inv e ?s" by (rule mm_inv_run [OF inv])
  show "snd (mm_push x q) \<longleftrightarrow> length ps < b + 2 ^ e"
    using cell ix by (simp add: mm_push_def mm_push_call_def eval_nat_numeral)
  show "\<exists>tk. mm_inv e (quiet_sys (fst (mm_push x q)) b (if length ps < b + 2 ^ e then ps @ [x] else ps) tk out)"
  proof (cases "length ps < b + 2 ^ e")
    case True
    have s: "ms_place ?s = (\<lambda>t. AtRest)(0 := MpmcQueue.Pushed True)" "ms_queue ?s = fst (mm_push x q)" "ms_begun ?s = b"
      "ms_pushed ?s = ps @ [x]" "ms_taken ?s = out"
      using cell ix True
      by (simp_all add: mm_move_def quiet_sys_def mm_idle_def mm_push_call_def mm_is_pop_def eval_nat_numeral mm_push_def mm_note_def)
    have "mm_idle (ms_place ?s 0)" using s(1) by (simp add: mm_idle_def)
    from back_at_rest [OF \<open>mm_inv e ?s\<close> this s(1)] show ?thesis using True s by auto
  next
    case False
    then have "fst (mm_push x q) = q" using cell by (simp add: mm_push_def mm_push_call_def eval_nat_numeral)
    then show ?thesis using False inv by auto
  qed
qed

lemma pop_alone_mm:
  assumes inv: "mm_inv e (quiet_sys q b ps tk out)"
  shows "snd (mm_pop d q) = (if b < length ps then Some (ps ! b) else None)"
    and "\<exists>tk out. mm_inv e (quiet_sys (fst (mm_pop d q)) (if b < length ps then b + 1 else b) ps tk out)"
proof -
  note cell = end_cell(2,3) [OF inv] and ix = end_cell(5) [OF inv]
  let ?s = "fold (mm_move d) ((0, CallPop) # replicate 7 (0, StepOn False)) (quiet_sys q b ps tk out)"
  have "mm_inv e ?s" by (rule mm_inv_run [OF inv])
  show "snd (mm_pop d q) = (if b < length ps then Some (ps ! b) else None)"
    using cell ix by (simp add: mm_pop_def mm_pop_call_def eval_nat_numeral)
  show "\<exists>tk out. mm_inv e (quiet_sys (fst (mm_pop d q)) (if b < length ps then b + 1 else b) ps tk out)"
  proof (cases "b < length ps")
    case True
    have s: "ms_place ?s = (\<lambda>t. AtRest)(0 := MpmcQueue.Popped (Some (ps ! b)))" "ms_queue ?s = fst (mm_pop d q)" "ms_begun ?s = b + 1"
      "ms_pushed ?s = ps"
      using cell ix True
      by (simp_all add: mm_move_def quiet_sys_def mm_idle_def mm_pop_call_def mm_is_pop_def eval_nat_numeral mm_pop_def mm_note_def)
    have "mm_idle (ms_place ?s 0)" using s(1) by (simp add: mm_idle_def)
    from back_at_rest [OF \<open>mm_inv e ?s\<close> this s(1)] show ?thesis using True s by auto
  next
    case False
    then have "fst (mm_pop d q) = q" using cell by (simp add: mm_pop_def mm_pop_call_def eval_nat_numeral)
    then show ?thesis using False inv by auto
  qed
qed

interpretation mm: bounded_queue "mm_rep e" "2 ^ e" mm_push "mm_pop d" for e d
proof unfold_locales
  fix q :: "'a mmQueue" and xs x
  assume "mm_rep e q xs"
  then obtain b ps tk out where r: "mm_inv e (quiet_sys q b ps tk out)" "xs = drop b ps" by (auto simp: mm_rep_def)
  have b: "b \<le> length ps" by (rule end_cell(4) [OF r(1)])
  then have l: "length xs < 2 ^ e \<longleftrightarrow> length ps < b + 2 ^ e" using r(2) by auto
  note p = push_alone_mm [OF r(1), of x] and o = pop_alone_mm [OF r(1), of d]
  show "snd (mm_push x q) = snd (list_push (2 ^ e) x xs)" using p(1) l by (simp add: list_push_def)
  show "mm_rep e (fst (mm_push x q)) (fst (list_push (2 ^ e) x xs))"
    using p(2) l r(2) b by (fastforce simp: mm_rep_def list_push_def)
  show "snd (mm_pop d q) = snd (list_pop xs)"
    using o(1) r(2) by (cases xs) (auto simp: Cons_nth_drop_Suc [symmetric] dest: sym)
  have "drop (if b < length ps then b + 1 else b) ps = fst (list_pop xs)"
    using r(2) by (cases xs) (auto simp: drop_Suc tl_drop [symmetric] dest: sym)
  then show "mm_rep e (fst (mm_pop d q)) (fst (list_pop xs))" using o(2) unfolding mm_rep_def by metis
qed

text \<open>Used by one operation at a time, the queue answers every sequence of operations as a bounded list.\<close>

lemma mpmc_refined:
  assumes "powArg \<le> 24"
  shows "snd (queue_ops mm_push (mm_pop d) ops (MPMC d powArg)) = snd (queue_ops (list_push (2 ^ powArg)) list_pop ops [])"
proof -
  have "mm_inv powArg (mm_start d powArg)" using mm_inv_start [of powArg d] assms by (auto split: if_splits)
  then have "mm_rep powArg (MPMC d powArg) []"
    unfolding mm_rep_def by (intro exI [of _ 0] exI [of _ "[]"] exI [of _ "\<lambda>t. 0"] exI [of _ "[]"]) (simp add: mm_start_def quiet_sys_def)
  from mm.ops_refine [OF this] show ?thesis by (rule conjunct2)
qed

end
