(* ===== verification/Serialize.thy ===== *)
theory Serialize
  imports Wire
begin

text \<open>
  Serialisation: \<open>Serialize\<close> and \<open>Deserialize\<close> of \<^verbatim>\<open>water/componet/serialize.h\<close>, over the two kinds
  of buffer the code has, \<open>std::string\<close> and \<open>RawBuffer\<close> (\<^verbatim>\<open>water/componet/raw_buffer.cpp\<close>). The
  overloads that the compiler chooses by the type are the cases of one function over a description of
  the type. A trivially copyable object is its bytes; what an uninitialised one holds is taken to be
  zero. Sizes have 64 bits. The unordered containers, whose order is not determined, are left out.
\<close>

section \<open>Types and values\<close>

text \<open>
  \<open>TList\<close> also stands for \<open>std::deque\<close>, \<open>TVec\<close> for \<open>std::basic_string\<close>. The keys of a map are
  constant, so that only the operator for plain objects reads them, and it refuses at compile time
  what is not trivially copyable: the keys of \<open>TMap\<close> and \<open>TMultiMap\<close> are plain objects of a size.
\<close>

datatype stype = TRaw nat | TString | TPair stype stype | TVec stype | TList stype | TFwd stype
  | TSet stype | TMulti stype | TMap nat stype | TMultiMap nat stype

datatype sval = VRaw bytes | VString bytes | VPair sval sval | VSeq "sval list"

fun vfst :: "sval \<Rightarrow> sval" where
  "vfst (VPair a b) = a" | "vfst v = v"

fun vseq :: "sval \<Rightarrow> sval list" where
  "vseq (VSeq vs) = vs" | "vseq v = []"

fun raw_bytes :: "sval \<Rightarrow> bytes" where
  "raw_bytes (VRaw b) = b" | "raw_bytes v = []"

fun default_of :: "stype \<Rightarrow> sval" where
  "default_of (TRaw n) = VRaw (replicate n 0)"
| "default_of TString = VString []"
| "default_of (TPair s t) = VPair (default_of s) (default_of t)"
| "default_of t = VSeq []"

section \<open>Writing\<close>

text \<open>The left side is the exception of a buffer that has no room.\<close>

datatype serFault = RawBufferException | ReadOutside

record 'b serializer =
  sz_buffer :: 'b
  sz_opos :: nat

definition sz_append :: "(bytes \<Rightarrow> 'b \<Rightarrow> serFault + 'b) \<Rightarrow> bytes \<Rightarrow> 'b serializer \<Rightarrow> serFault + 'b serializer" where
  "sz_append app bs s =
     (case app bs (sz_buffer s) of Inl e \<Rightarrow> Inl e | Inr b \<Rightarrow> Inr \<lparr>sz_buffer = b, sz_opos = sz_opos s + length bs\<rparr>)"

fun put_all :: "('v \<Rightarrow> 's \<Rightarrow> serFault + 's) \<Rightarrow> 'v list \<Rightarrow> 's \<Rightarrow> serFault + 's" where
  "put_all f [] s = Inr s"
| "put_all f (v # vs) s = (case f v s of Inl e \<Rightarrow> Inl e | Inr s \<Rightarrow> put_all f vs s)"

lemma put_all_cong [fundef_cong]:
  "vs = vs' \<Longrightarrow> s = s' \<Longrightarrow> (\<And>v s. v \<in> set vs' \<Longrightarrow> f v s = f' v s) \<Longrightarrow> put_all f vs s = put_all f' vs' s'"
  by (induction vs arbitrary: vs' s s') (auto split: sum.split)

definition put_size :: "(bytes \<Rightarrow> 'b \<Rightarrow> serFault + 'b) \<Rightarrow> nat \<Rightarrow> 'b serializer \<Rightarrow> serFault + 'b serializer" where
  "put_size app n s = sz_append app (le64 (of_nat n)) s"

fun put :: "(bytes \<Rightarrow> 'b \<Rightarrow> serFault + 'b) \<Rightarrow> sval \<Rightarrow> 'b serializer \<Rightarrow> serFault + 'b serializer" where
  "put app (VRaw b) s = sz_append app b s"
| "put app (VString b) s = (case put_size app (length b) s of Inl e \<Rightarrow> Inl e | Inr s \<Rightarrow> sz_append app b s)"
| "put app (VPair v w) s = (case put app v s of Inl e \<Rightarrow> Inl e | Inr s \<Rightarrow> put app w s)"
| "put app (VSeq vs) s = (case put_size app (length vs) s of Inl e \<Rightarrow> Inl e | Inr s \<Rightarrow> put_all (put app) vs s)"

section \<open>Reading\<close>

text \<open>A trivial object takes the bytes that are left, and keeps the others it had.\<close>

definition get_raw :: "nat \<Rightarrow> bytes \<Rightarrow> bytes \<Rightarrow> nat \<Rightarrow> bytes \<times> nat" where
  "get_raw n old buf pos =
     (let k = min n (length buf - pos) in (take k (drop pos buf) @ drop k old, pos + k))"

definition get_size :: "bytes \<Rightarrow> nat \<Rightarrow> nat \<times> nat" where
  "get_size buf pos =
     (let (b, pos) = get_raw 8 (replicate 8 0) buf pos in (case read64 b of Inl e \<Rightarrow> 0 | Inr w \<Rightarrow> unat w, pos))"

fun get_over :: "('v \<Rightarrow> nat \<Rightarrow> serFault + 'v \<times> nat) \<Rightarrow> 'v list \<Rightarrow> nat \<Rightarrow> serFault + 'v list \<times> nat" where
  "get_over f [] pos = Inr ([], pos)"
| "get_over f (old # olds) pos =
     (case f old pos of
        Inl e \<Rightarrow> Inl e
      | Inr (v, pos) \<Rightarrow> (case get_over f olds pos of Inl e \<Rightarrow> Inl e | Inr (vs, pos) \<Rightarrow> Inr (v # vs, pos)))"

text \<open>Insertion into an ordered container: before the first greater one, unless there is an equal one.\<close>

fun set_insert :: "('v \<Rightarrow> 'v \<Rightarrow> bool) \<Rightarrow> 'v \<Rightarrow> 'v list \<Rightarrow> 'v list" where
  "set_insert lt v [] = [v]"
| "set_insert lt v (x # xs) = (if lt v x then v # x # xs else if lt x v then x # set_insert lt v xs else x # xs)"

fun multi_insert :: "('v \<Rightarrow> 'v \<Rightarrow> bool) \<Rightarrow> 'v \<Rightarrow> 'v list \<Rightarrow> 'v list" where
  "multi_insert lt v [] = [v]"
| "multi_insert lt v (x # xs) = (if lt v x then v # x # xs else x # multi_insert lt v xs)"

fun get_pair ::
  "(sval \<Rightarrow> nat \<Rightarrow> serFault + sval \<times> nat) \<Rightarrow> (sval \<Rightarrow> nat \<Rightarrow> serFault + sval \<times> nat) \<Rightarrow> sval \<Rightarrow> nat \<Rightarrow> serFault + sval \<times> nat" where
  "get_pair f g (VPair v w) pos =
     (case f v pos of
        Inl e \<Rightarrow> Inl e
      | Inr (v, pos) \<Rightarrow> (case g w pos of Inl e \<Rightarrow> Inl e | Inr (w, pos) \<Rightarrow> Inr (VPair v w, pos)))"
| "get_pair f g old pos = Inl ReadOutside"

text \<open>\<open>lt t\<close> is the order of values of type \<open>t\<close>. A vector is resized, an ordered container and a list are
  cleared, a forward list keeps what it had behind what is read.\<close>

fun get :: "(stype \<Rightarrow> sval \<Rightarrow> sval \<Rightarrow> bool) \<Rightarrow> stype \<Rightarrow> sval \<Rightarrow> bytes \<Rightarrow> nat \<Rightarrow> serFault + sval \<times> nat" where
  "get lt (TRaw n) old buf pos = (let (b, pos) = get_raw n (raw_bytes old) buf pos in Inr (VRaw b, pos))"
| "get lt TString old buf pos =
     (let (n, pos) = get_size buf pos
      in if length buf < pos + n then Inl ReadOutside else Inr (VString (take n (drop pos buf)), pos + n))"
| "get lt (TPair s t) old buf pos = get_pair (\<lambda>v pos. get lt s v buf pos) (\<lambda>w pos. get lt t w buf pos) old pos"
| "get lt (TVec t) old buf pos =
     (let (n, pos) = get_size buf pos; olds = take n (vseq old) @ replicate (n - length (vseq old)) (default_of t)
      in case get_over (\<lambda>v pos. get lt t v buf pos) olds pos of Inl e \<Rightarrow> Inl e | Inr (vs, pos) \<Rightarrow> Inr (VSeq vs, pos))"
| "get lt (TList t) old buf pos =
     (let (n, pos) = get_size buf pos
      in case get_over (\<lambda>v pos. get lt t v buf pos) (replicate n (default_of t)) pos of
           Inl e \<Rightarrow> Inl e | Inr (vs, pos) \<Rightarrow> Inr (VSeq vs, pos))"
| "get lt (TFwd t) old buf pos =
     (let (n, pos) = get_size buf pos
      in case get_over (\<lambda>v pos. get lt t v buf pos) (replicate n (default_of t)) pos of
           Inl e \<Rightarrow> Inl e | Inr (vs, pos) \<Rightarrow> Inr (VSeq (vs @ vseq old), pos))"
| "get lt (TSet t) old buf pos =
     (let (n, pos) = get_size buf pos
      in case get_over (\<lambda>v pos. get lt t v buf pos) (replicate n (default_of t)) pos of
           Inl e \<Rightarrow> Inl e | Inr (vs, pos) \<Rightarrow> Inr (VSeq (fold (set_insert (lt t)) vs []), pos))"
| "get lt (TMulti t) old buf pos =
     (let (n, pos) = get_size buf pos
      in case get_over (\<lambda>v pos. get lt t v buf pos) (replicate n (default_of t)) pos of
           Inl e \<Rightarrow> Inl e | Inr (vs, pos) \<Rightarrow> Inr (VSeq (fold (multi_insert (lt t)) vs []), pos))"
| "get lt (TMap k t) old buf pos =
     (let (n, pos) = get_size buf pos
      in case get_over (get_pair (\<lambda>v pos. get lt (TRaw k) v buf pos) (\<lambda>w pos. get lt t w buf pos)) (replicate n (default_of (TPair (TRaw k) t))) pos of
           Inl e \<Rightarrow> Inl e | Inr (vs, pos) \<Rightarrow> Inr (VSeq (fold (set_insert (\<lambda>a b. lt (TRaw k) (vfst a) (vfst b))) vs []), pos))"
| "get lt (TMultiMap k t) old buf pos =
     (let (n, pos) = get_size buf pos
      in case get_over (get_pair (\<lambda>v pos. get lt (TRaw k) v buf pos) (\<lambda>w pos. get lt t w buf pos)) (replicate n (default_of (TPair (TRaw k) t))) pos of
           Inl e \<Rightarrow> Inl e | Inr (vs, pos) \<Rightarrow> Inr (VSeq (fold (multi_insert (\<lambda>a b. lt (TRaw k) (vfst a) (vfst b))) vs []), pos))"

section \<open>What is written\<close>

fun ser :: "sval \<Rightarrow> bytes" where
  "ser (VRaw b) = b"
| "ser (VString b) = le64 (of_nat (length b)) @ b"
| "ser (VPair v w) = ser v @ ser w"
| "ser (VSeq vs) = le64 (of_nat (length vs)) @ concat (map ser vs)"

text \<open>What a buffer owes the serialiser: it takes the bytes behind its content, or refuses them for want of room.\<close>

locale byte_buffer =
  fixes app :: "bytes \<Rightarrow> 'b \<Rightarrow> serFault + 'b"
    and inv :: "'b \<Rightarrow> bool"
    and content :: "'b \<Rightarrow> bytes"
    and room :: "'b \<Rightarrow> nat \<Rightarrow> bool"
  assumes app_ok: "inv b \<Longrightarrow> length bs < 4294967296 \<Longrightarrow> room b (length bs) \<Longrightarrow>
      \<exists>b'. app bs b = Inr b' \<and> inv b' \<and> content b' = content b @ bs \<and> (\<forall>n. room b' n \<longleftrightarrow> room b (length bs + n))"
    and app_full: "inv b \<Longrightarrow> length bs < 4294967296 \<Longrightarrow> \<not> room b (length bs) \<Longrightarrow> app bs b = Inl RawBufferException"
    and room_less: "room b (m + n) \<Longrightarrow> room b m"
    and room_none: "inv b \<Longrightarrow> room b 0"
begin

definition wrote :: "bytes \<Rightarrow> 'b serializer \<Rightarrow> serFault + 'b serializer \<Rightarrow> bool" where
  "wrote bs s r \<longleftrightarrow> inv (sz_buffer s) \<and> length bs < 4294967296 \<longrightarrow>
     (if room (sz_buffer s) (length bs)
      then \<exists>s'. r = Inr s' \<and> inv (sz_buffer s') \<and> content (sz_buffer s') = content (sz_buffer s) @ bs
        \<and> sz_opos s' = sz_opos s + length bs \<and> (\<forall>n. room (sz_buffer s') n \<longleftrightarrow> room (sz_buffer s) (length bs + n))
      else r = Inl RawBufferException)"

lemma wrote_append: "wrote bs s (sz_append app bs s)"
  using app_ok [of "sz_buffer s" bs] app_full [of "sz_buffer s" bs] by (auto simp: wrote_def sz_append_def)

lemma wrote_nothing: "wrote [] s (Inr s)"
  using room_none by (auto simp: wrote_def)

lemma wrote_then:
  assumes "wrote bs s r" "\<And>s'. wrote cs s' (f s')"
  shows "wrote (bs @ cs) s (case r of Inl e \<Rightarrow> Inl e | Inr s' \<Rightarrow> f s')"
proof (cases "room (sz_buffer s) (length bs)")
  case True
  show ?thesis
  proof (cases "inv (sz_buffer s) \<and> length (bs @ cs) < 4294967296")
    case c: True
    then obtain s' where "r = Inr s'" "inv (sz_buffer s')" "content (sz_buffer s') = content (sz_buffer s) @ bs"
      "sz_opos s' = sz_opos s + length bs" "\<forall>n. room (sz_buffer s') n \<longleftrightarrow> room (sz_buffer s) (length bs + n)"
      using assms(1) True by (auto simp: wrote_def)
    then show ?thesis using assms(2) [of s'] c by (auto simp: wrote_def add.assoc)
  qed (auto simp: wrote_def)
next
  case False
  then have "\<not> room (sz_buffer s) (length (bs @ cs))" using room_less by auto
  then show ?thesis using assms(1) False by (auto simp: wrote_def)
qed

lemma put_wrote: "wrote (ser v) s (put app v s)"
proof (induction v arbitrary: s)
  case (VSeq vs)
  have all: "(\<And>v s. v \<in> set vs \<Longrightarrow> wrote (ser v) s (put app v s)) \<Longrightarrow> wrote (concat (map ser vs)) s (put_all (put app) vs s)" for vs s
  proof (induction vs arbitrary: s)
    case (Cons v vs)
    then show ?case using wrote_then [of "ser v" s "put app v s" "concat (map ser vs)" "put_all (put app) vs"] by simp
  qed (simp add: wrote_nothing)
  show ?case
    using wrote_then [OF wrote_append [of "le64 (of_nat (length vs))" s], of "concat (map ser vs)" "put_all (put app) vs"] all VSeq
    by (simp add: put_size_def)
next
  case (VPair v w)
  then show ?case using wrote_then [of "ser v" s "put app v s" "ser w" "put app w"] by simp
next
  case (VString b)
  then show ?case using wrote_then [OF wrote_append [of "le64 (of_nat (length b))" s], of b "sz_append app b"] wrote_append
    by (simp add: put_size_def)
qed (simp add: wrote_append)

end

text \<open>A string takes everything; a raw buffer has the length of the memory it was given.\<close>

definition string_append :: "bytes \<Rightarrow> bytes \<Rightarrow> serFault + bytes" where
  "string_append bs b = Inr (b @ bs)"

record rawBuffer =
  rb_size :: nat
  rb_mem :: bytes

definition RawBuffer :: "bytes \<Rightarrow> rawBuffer" where
  "RawBuffer mem = \<lparr>rb_size = 0, rb_mem = mem\<rparr>"

definition raw_append :: "bytes \<Rightarrow> rawBuffer \<Rightarrow> serFault + rawBuffer" where
  "raw_append bs b =
     (let len = length bs mod 4294967296
      in if length (rb_mem b) - rb_size b < len then Inl RawBufferException
         else Inr (b\<lparr>rb_mem := take (rb_size b) (rb_mem b) @ take len bs @ drop (rb_size b + len) (rb_mem b), rb_size := rb_size b + len\<rparr>))"

definition raw_clear :: "rawBuffer \<Rightarrow> rawBuffer" where
  "raw_clear b = b\<lparr>rb_size := 0\<rparr>"

definition raw_at :: "nat \<Rightarrow> rawBuffer \<Rightarrow> serFault + u8" where
  "raw_at pos b = (if length (rb_mem b) \<le> pos then Inl RawBufferException else Inr (rb_mem b ! pos))"

definition raw_copy :: "nat \<Rightarrow> nat \<Rightarrow> rawBuffer \<Rightarrow> serFault + bytes" where
  "raw_copy len pos b =
     (if rb_size b < pos then Inr []
      else if rb_size b - pos < len then Inl RawBufferException
      else Inr (take (min (rb_size b - pos) len) (drop pos (rb_mem b))))"

definition raw_swap :: "rawBuffer \<times> rawBuffer \<Rightarrow> rawBuffer \<times> rawBuffer" where
  "raw_swap p = (case p of (a, b) \<Rightarrow> (a\<lparr>rb_mem := rb_mem b\<rparr>, b\<lparr>rb_mem := rb_mem a\<rparr>))"

definition raw_ok :: "rawBuffer \<Rightarrow> bool" where
  "raw_ok b \<longleftrightarrow> rb_size b \<le> length (rb_mem b) \<and> length (rb_mem b) < 4294967296"

interpretation str: byte_buffer string_append "\<lambda>b. True" "\<lambda>b. b" "\<lambda>b n. True"
  by unfold_locales (simp_all add: string_append_def)

interpretation raw: byte_buffer raw_append raw_ok "\<lambda>b. take (rb_size b) (rb_mem b)" "\<lambda>b n. rb_size b + n \<le> length (rb_mem b)"
  by unfold_locales (auto simp: raw_append_def raw_ok_def Let_def)

section \<open>Reading back\<close>

fun has_type :: "(stype \<Rightarrow> sval \<Rightarrow> sval \<Rightarrow> bool) \<Rightarrow> stype \<Rightarrow> sval \<Rightarrow> bool" where
  "has_type lt (TRaw n) v \<longleftrightarrow> (case v of VRaw b \<Rightarrow> length b = n | _ \<Rightarrow> False)"
| "has_type lt TString v \<longleftrightarrow> (case v of VString b \<Rightarrow> length b < 18446744073709551616 | _ \<Rightarrow> False)"
| "has_type lt (TPair s t) v \<longleftrightarrow> (case v of VPair a b \<Rightarrow> has_type lt s a \<and> has_type lt t b | _ \<Rightarrow> False)"
| "has_type lt (TVec t) v \<longleftrightarrow> (case v of VSeq vs \<Rightarrow> length vs < 18446744073709551616 \<and> (\<forall>v \<in> set vs. has_type lt t v) | _ \<Rightarrow> False)"
| "has_type lt (TList t) v \<longleftrightarrow> (case v of VSeq vs \<Rightarrow> length vs < 18446744073709551616 \<and> (\<forall>v \<in> set vs. has_type lt t v) | _ \<Rightarrow> False)"
| "has_type lt (TFwd t) v \<longleftrightarrow> (case v of VSeq vs \<Rightarrow> length vs < 18446744073709551616 \<and> (\<forall>v \<in> set vs. has_type lt t v) | _ \<Rightarrow> False)"
| "has_type lt (TSet t) v \<longleftrightarrow> (case v of VSeq vs \<Rightarrow> length vs < 18446744073709551616 \<and> (\<forall>v \<in> set vs. has_type lt t v)
      \<and> sorted_wrt (lt t) vs | _ \<Rightarrow> False)"
| "has_type lt (TMulti t) v \<longleftrightarrow> (case v of VSeq vs \<Rightarrow> length vs < 18446744073709551616 \<and> (\<forall>v \<in> set vs. has_type lt t v)
      \<and> sorted_wrt (\<lambda>a b. \<not> lt t b a) vs | _ \<Rightarrow> False)"
| "has_type lt (TMap k t) v \<longleftrightarrow> (case v of VSeq vs \<Rightarrow> length vs < 18446744073709551616
      \<and> (\<forall>v \<in> set vs. case v of VPair a b \<Rightarrow> has_type lt (TRaw k) a \<and> has_type lt t b | _ \<Rightarrow> False)
      \<and> sorted_wrt (\<lambda>a b. lt (TRaw k) (vfst a) (vfst b)) vs | _ \<Rightarrow> False)"
| "has_type lt (TMultiMap k t) v \<longleftrightarrow> (case v of VSeq vs \<Rightarrow> length vs < 18446744073709551616
      \<and> (\<forall>v \<in> set vs. case v of VPair a b \<Rightarrow> has_type lt (TRaw k) a \<and> has_type lt t b | _ \<Rightarrow> False)
      \<and> sorted_wrt (\<lambda>a b. \<not> lt (TRaw k) (vfst b) (vfst a)) vs | _ \<Rightarrow> False)"

text \<open>
  What the variable may hold before: any object of the type, but a forward list, which is not
  cleared, must be empty, also where it is an element of a vector, whose elements are kept.
\<close>

fun over_ok :: "stype \<Rightarrow> sval \<Rightarrow> bool" where
  "over_ok (TRaw n) old \<longleftrightarrow> (case old of VRaw b \<Rightarrow> length b = n | _ \<Rightarrow> False)"
| "over_ok (TPair s t) old \<longleftrightarrow> (case old of VPair a b \<Rightarrow> over_ok s a \<and> over_ok t b | _ \<Rightarrow> False)"
| "over_ok (TVec t) old \<longleftrightarrow> (case old of VSeq vs \<Rightarrow> \<forall>v \<in> set vs. over_ok t v | _ \<Rightarrow> False)"
| "over_ok (TFwd t) old \<longleftrightarrow> old = VSeq []"
| "over_ok t old \<longleftrightarrow> True"

lemma over_ok_default: "over_ok t (default_of t)"
  by (induction t) simp_all

lemma get_raw_all: "get_raw (length b) old (pre @ b @ post) (length pre) = (b @ drop (length b) old, length pre + length b)"
  by (simp add: get_raw_def Let_def)

lemma get_size_all:
  "n < 18446744073709551616 \<Longrightarrow> get_size (pre @ le64 (of_nat n) @ post) (length pre) = (n, length pre + 8)"
  using get_raw_all [of "le64 (of_nat n)" "replicate 8 0" pre post] read64_le64 [of "of_nat n" "[]"]
  by (simp add: get_size_def unat_of_nat take_bit_nat_eq_self)

lemma insert_last:
  assumes "\<And>x. x \<in> set xs \<Longrightarrow> lt x v" "\<And>x y. lt x y \<Longrightarrow> \<not> lt y x"
  shows "set_insert lt v xs = xs @ [v]"
  using assms by (induction xs) (auto split: if_splits)

lemma multi_last: "(\<And>x. x \<in> set xs \<Longrightarrow> \<not> lt v x) \<Longrightarrow> multi_insert lt v xs = xs @ [v]"
  by (induction xs) auto

lemma fold_set_insert:
  assumes asym: "\<And>x y. lt x y \<Longrightarrow> \<not> lt y x"
  shows "sorted_wrt lt (acc @ vs) \<Longrightarrow> fold (set_insert lt) vs acc = acc @ vs"
proof (induction vs arbitrary: acc)
  case (Cons v vs)
  have "set_insert lt v acc = acc @ [v]" using Cons.prems asym by (intro insert_last) (auto simp: sorted_wrt_append)
  then show ?case using Cons by simp
qed simp

lemma fold_multi_insert:
  "sorted_wrt (\<lambda>a b. \<not> lt b a) (acc @ vs) \<Longrightarrow> fold (multi_insert lt) vs acc = acc @ vs"
proof (induction vs arbitrary: acc)
  case (Cons v vs)
  have "multi_insert lt v acc = acc @ [v]" using Cons.prems by (intro multi_last) (auto simp: sorted_wrt_append)
  then show ?case using Cons by simp
qed simp

text \<open>Items in a row, each over one that may be there.\<close>

lemma get_over_all:
  assumes "\<And>v d pre post. v \<in> set vs \<Longrightarrow> d \<in> set ds \<Longrightarrow> f (pre @ ser v @ post) d (length pre) = Inr (v, length pre + length (ser v))"
    and "length ds = length vs"
  shows "get_over (f (pre @ concat (map ser vs) @ post)) ds (length pre)
    = Inr (vs, length pre + length (concat (map ser vs)))"
  using assms
proof (induction vs arbitrary: pre ds)
  case (Cons v vs)
  obtain d ds' where ds: "ds = d # ds'" "length ds' = length vs" using Cons.prems(2) by (cases ds) auto
  have "f (pre @ ser v @ concat (map ser vs) @ post) d (length pre) = Inr (v, length (pre @ ser v))"
    using Cons.prems(1) [of v d pre "concat (map ser vs) @ post"] ds(1) by simp
  moreover have "get_over (f ((pre @ ser v) @ concat (map ser vs) @ post)) ds' (length (pre @ ser v))
      = Inr (vs, length (pre @ ser v) + length (concat (map ser vs)))"
    using Cons.prems(1) ds by (intro Cons.IH) simp_all
  ultimately show ?case by (simp add: ds(1) add.assoc)
qed simp

lemma get_seq:
  assumes n: "length vs < 18446744073709551616"
    and f: "\<And>v d pre post. v \<in> set vs \<Longrightarrow> d \<in> set ds \<Longrightarrow> f (pre @ ser v @ post) d (length pre) = Inr (v, length pre + length (ser v))"
    and ds: "length ds = length vs"
  shows "get_size (pre @ ser (VSeq vs) @ post) (length pre) = (length vs, length pre + 8)"
    "get_over (f (pre @ ser (VSeq vs) @ post)) ds (length pre + 8) = Inr (vs, length pre + length (ser (VSeq vs)))"
  using get_size_all [OF n, of pre "concat (map ser vs) @ post"]
    get_over_all [of vs ds f "pre @ le64 (of_nat (length vs))" post, OF f ds]
  by (simp_all add: add.assoc)

lemma get_fresh:
  assumes n: "length vs < 18446744073709551616"
    and f: "\<And>v pre post. v \<in> set vs \<Longrightarrow> f (pre @ ser v @ post) d (length pre) = Inr (v, length pre + length (ser v))"
  shows "get_size (pre @ ser (VSeq vs) @ post) (length pre) = (length vs, length pre + 8)"
    "get_over (f (pre @ ser (VSeq vs) @ post)) (replicate (length vs) d) (length pre + 8) =
      Inr (vs, length pre + length (ser (VSeq vs)))"
  using get_seq [OF n, of "replicate (length vs) d" f pre post] f by simp_all

lemma get_entry:
  assumes IH: "\<And>v old pre post. has_type lt t v \<Longrightarrow> over_ok t old
      \<Longrightarrow> get lt t old (pre @ ser v @ post) (length pre) = Inr (v, length pre + length (ser v))"
    and w: "case w of VPair a b \<Rightarrow> has_type lt (TRaw k) a \<and> has_type lt t b | _ \<Rightarrow> False"
  shows "get_pair (\<lambda>v pos. get lt (TRaw k) v (pre @ ser w @ post) pos) (\<lambda>v pos. get lt t v (pre @ ser w @ post) pos)
      (default_of (TPair (TRaw k) t)) (length pre) = Inr (w, length pre + length (ser w))"
proof -
  obtain a b where ab: "w = VPair (VRaw a) b" "length a = k" "has_type lt t b"
    using w by (auto split: sval.splits)
  from IH [OF ab(3) over_ok_default, of "pre @ a" post] show ?thesis
    using get_raw_all [of a "replicate k 0" pre "ser b @ post"] by (simp add: ab Let_def add.assoc)
qed

lemma get_ser:
  assumes asym: "\<And>t x y. lt t x y \<Longrightarrow> \<not> lt t y x"
  shows "has_type lt t v \<Longrightarrow> over_ok t old
    \<Longrightarrow> get lt t old (pre @ ser v @ post) (length pre) = Inr (v, length pre + length (ser v))"
proof (induction t arbitrary: v old pre post)
  case (TRaw n)
  then obtain b o' where "v = VRaw b" "length b = n" "old = VRaw o'" "length o' = n" by (auto split: sval.splits)
  then show ?case using get_raw_all [of b o' pre post] by (auto simp: Let_def)
next
  case TString
  then obtain b where "v = VString b" "length b < 18446744073709551616" by (auto split: sval.splits)
  then show ?case using get_size_all [of "length b" pre "b @ post"] by (simp add: Let_def)
next
  case (TPair s t)
  then obtain a b c d where v: "v = VPair a b" "has_type lt s a" "has_type lt t b"
    "old = VPair c d" "over_ok s c" "over_ok t d" by (auto split: sval.splits)
  then show ?case using TPair.IH(1) [of a c pre "ser b @ post"] TPair.IH(2) [of b d "pre @ ser a" post] by (simp add: add.assoc)
next
  case (TVec t)
  then obtain vs os where v: "v = VSeq vs" "length vs < 18446744073709551616" "\<forall>v \<in> set vs. has_type lt t v"
    "old = VSeq os" "\<forall>v \<in> set os. over_ok t v" by (auto split: sval.splits)
  let ?ds = "take (length vs) os @ replicate (length vs - length os) (default_of t)"
  have "over_ok t d" if "d \<in> set ?ds" for d using that v(5) over_ok_default by (auto dest: in_set_takeD)
  from get_seq [OF v(2), of ?ds "\<lambda>buf w pos. get lt t w buf pos" pre post] TVec.IH v(3) this
  show ?case unfolding v(1,4) by (simp add: Let_def min_def del: ser.simps)
next
  case (TList t)
  then obtain vs where v: "v = VSeq vs" "length vs < 18446744073709551616" "\<forall>v \<in> set vs. has_type lt t v" by (auto split: sval.splits)
  from get_fresh [OF v(2), of "\<lambda>buf w pos. get lt t w buf pos" "default_of t" pre post] TList.IH v(3) over_ok_default
  show ?case unfolding v(1) by (simp add: Let_def del: ser.simps)
next
  case (TFwd t)
  then obtain vs where v: "v = VSeq vs" "length vs < 18446744073709551616" "\<forall>v \<in> set vs. has_type lt t v" "old = VSeq []"
    by (auto split: sval.splits)
  from get_fresh [OF v(2), of "\<lambda>buf w pos. get lt t w buf pos" "default_of t" pre post] TFwd.IH v(3) over_ok_default
  show ?case unfolding v(1,4) by (simp add: Let_def del: ser.simps)
next
  case (TSet t)
  then obtain vs where v: "v = VSeq vs" "length vs < 18446744073709551616" "\<forall>v \<in> set vs. has_type lt t v" "sorted_wrt (lt t) vs"
    by (auto split: sval.splits)
  from get_fresh [OF v(2), of "\<lambda>buf w pos. get lt t w buf pos" "default_of t" pre post] TSet.IH v(3) over_ok_default
    fold_set_insert [of "lt t" "[]" vs] v(4) asym
  show ?case unfolding v(1) by (simp add: Let_def del: ser.simps)
next
  case (TMulti t)
  then obtain vs where v: "v = VSeq vs" "length vs < 18446744073709551616" "\<forall>v \<in> set vs. has_type lt t v"
    "sorted_wrt (\<lambda>a b. \<not> lt t b a) vs"
    by (auto split: sval.splits)
  from get_fresh [OF v(2), of "\<lambda>buf w pos. get lt t w buf pos" "default_of t" pre post] TMulti.IH v(3) over_ok_default
    fold_multi_insert [of "lt t" "[]" vs] v(4)
  show ?case unfolding v(1) by (simp add: Let_def del: ser.simps)
next
  case (TMap k t)
  then obtain vs where v: "v = VSeq vs" "length vs < 18446744073709551616"
    "\<forall>v \<in> set vs. case v of VPair a b \<Rightarrow> has_type lt (TRaw k) a \<and> has_type lt t b | _ \<Rightarrow> False"
    "sorted_wrt (\<lambda>a b. lt (TRaw k) (vfst a) (vfst b)) vs"
    by (auto split: sval.splits)
  let ?f = "\<lambda>buf. get_pair (\<lambda>v pos. get lt (TRaw k) v buf pos) (\<lambda>w pos. get lt t w buf pos)"
  from get_fresh [OF v(2), of ?f "default_of (TPair (TRaw k) t)" pre post] get_entry [OF TMap.IH] v(3)
    fold_set_insert [of "\<lambda>a b. lt (TRaw k) (vfst a) (vfst b)" "[]" vs] v(4) asym
  show ?case unfolding v(1) by (simp add: Let_def del: ser.simps get.simps(1) default_of.simps has_type.simps)
next
  case (TMultiMap k t)
  then obtain vs where v: "v = VSeq vs" "length vs < 18446744073709551616"
    "\<forall>v \<in> set vs. case v of VPair a b \<Rightarrow> has_type lt (TRaw k) a \<and> has_type lt t b | _ \<Rightarrow> False"
    "sorted_wrt (\<lambda>a b. \<not> lt (TRaw k) (vfst b) (vfst a)) vs"
    by (auto split: sval.splits)
  let ?f = "\<lambda>buf. get_pair (\<lambda>v pos. get lt (TRaw k) v buf pos) (\<lambda>w pos. get lt t w buf pos)"
  from get_fresh [OF v(2), of ?f "default_of (TPair (TRaw k) t)" pre post] get_entry [OF TMultiMap.IH] v(3)
    fold_multi_insert [of "\<lambda>a b. lt (TRaw k) (vfst a) (vfst b)" "[]" vs] v(4)
  show ?case unfolding v(1) by (simp add: Let_def del: ser.simps get.simps(1) default_of.simps has_type.simps)
qed

text \<open>C21: Whatever is written to a string is read back: a value of any type built from plain objects,
  strings, pairs, sequences and ordered containers, of maps those whose keys are plain objects, is read as it
  was, wherever it stands in the buffer, and the positions agree; two values one after the other are
  read one after the other. The variable it is read into may be fresh or hold another object of the type,
  as long as no forward list it keeps has items.\<close>

theorem serialize_roundtrip:
  assumes "\<And>t x y. lt t x y \<Longrightarrow> \<not> lt t y x" and "has_type lt t v" and "over_ok t old" and "length (ser v) < 4294967296"
  shows "\<exists>s. put string_append v \<lparr>sz_buffer = pre, sz_opos = length pre\<rparr> = Inr s
    \<and> get lt t old (sz_buffer s @ post) (length pre) = Inr (v, sz_opos s)
    \<and> over_ok t (default_of t)"
proof -
  obtain s where s: "put string_append v \<lparr>sz_buffer = pre, sz_opos = length pre\<rparr> = Inr s"
    "sz_buffer s = pre @ ser v" "sz_opos s = length pre + length (ser v)"
    using str.put_wrote [of v "\<lparr>sz_buffer = pre, sz_opos = length pre\<rparr>"] assms(4) by (auto simp: str.wrote_def)
  then show ?thesis using get_ser [where lt = lt, OF assms(1-3), of pre post] over_ok_default by simp
qed

theorem serialize_roundtrip_witness:
  "\<exists>s. put string_append (VSeq [VPair (VRaw [1, 0]) (VString [49])]) \<lparr>sz_buffer = [7], sz_opos = length [7 :: u8]\<rparr> = Inr s
    \<and> get (\<lambda>t x y. False) (TMap 2 TString) (VSeq [VPair (VRaw [3, 3]) (VString [])]) (sz_buffer s @ [9]) 1
      = Inr (VSeq [VPair (VRaw [1, 0]) (VString [49])], sz_opos s)"
  using serialize_roundtrip [of "\<lambda>t x y. False" "TMap 2 TString" "VSeq [VPair (VRaw [1, 0]) (VString [49])]"
      "VSeq [VPair (VRaw [3, 3]) (VString [])]" "[7]" "[9]"]
  by (simp del: get.simps put.simps)

text \<open>C38: A raw buffer takes exactly what fits into its memory: then its content is extended by the
  value, as in a string; otherwise the exception of the buffer comes out, whatever part was written.\<close>

theorem raw_buffer_fits:
  assumes "raw_ok (sz_buffer s)" and "length (ser v) < 4294967296"
  shows "if rb_size (sz_buffer s) + length (ser v) \<le> length (rb_mem (sz_buffer s))
    then \<exists>s'. put raw_append v s = Inr s' \<and> raw_ok (sz_buffer s')
      \<and> take (rb_size (sz_buffer s')) (rb_mem (sz_buffer s')) = take (rb_size (sz_buffer s)) (rb_mem (sz_buffer s)) @ ser v
    else put raw_append v s = Inl RawBufferException"
  using raw.put_wrote [of v s] assms by (auto simp: raw.wrote_def)

theorem raw_buffer_fits_witness:
  "put raw_append (VString [1, 2]) \<lparr>sz_buffer = RawBuffer (replicate 9 0), sz_opos = 0\<rparr> = Inl RawBufferException
   \<and> (\<exists>s'. put raw_append (VString [1, 2]) \<lparr>sz_buffer = RawBuffer (replicate 10 0), sz_opos = 0\<rparr> = Inr s')"
  using raw_buffer_fits [of "\<lparr>sz_buffer = RawBuffer (replicate 9 0), sz_opos = 0\<rparr>" "VString [1, 2]"]
    raw_buffer_fits [of "\<lparr>sz_buffer = RawBuffer (replicate 10 0), sz_opos = 0\<rparr>" "VString [1, 2]"]
  by (auto simp: RawBuffer_def raw_ok_def simp del: put.simps split: if_splits)

section \<open>Where it does not read back\<close>

text \<open>A forward list that was not empty keeps its items behind those that are read.\<close>

lemma forward_list_not_cleared:
  "get lt (TFwd (TRaw 1)) (VSeq [VRaw [5]]) (ser (VSeq [VRaw [1]])) 0 = Inr (VSeq [VRaw [1], VRaw [5]], 9)"
  using get_size_all [of 1 "[]" "[1]"] by (simp add: Let_def get_raw_def)

text \<open>A value cut short is read without an error.\<close>

lemma truncated_number: "get lt (TRaw 4) (VRaw [0, 0, 0, 0]) [1, 2] 0 = Inr (VRaw [1, 2, 0, 0], 2)"
  by (simp add: get_raw_def Let_def)

text \<open>The swap of two raw buffers leaves their sizes where they were.\<close>

lemma raw_swap_keeps_sizes: "raw_ok a \<Longrightarrow> rb_size (fst (raw_swap (a, b))) = rb_size a"
  by (simp add: raw_swap_def)

end
