(* ===== verification/Spec2Isabelle.thy ===== *)
theory Spec2Isabelle
  imports LobbyLife PrivateChecker Tokens RecvQueue HttpConns HttpRequest RelayPath GatewayLoop FlashSandbox ProcessInit AnySdk Epoll
    Coroutines MapPaths LruCache CircularQueue MpmcSerial Serialize
begin

text \<open>
  \<^bold>\<open>The program.\<close> \<open>casual_game\<close> is a cluster of server processes for a card game of thirteen
  cards. Clients connect over TCP to a gateway (\<open>src/processes/gateway\<close>); the gateway, the
  lobby (\<open>src/processes/lobby\<close>) and the hall (\<open>src/processes/hall\<close>) talk to each other
  through a router (\<open>src/processes/router\<close>). A process is a set of threads
  (\<open>src/base/process.cpp\<close>): one waits for socket events and cuts the streams into packets, one
  shakes hands with the other processes, one is the main timer, which takes the packets from a
  queue and runs the handlers. The game itself, rooms, dealing, the comparison of hands and the
  settlement, runs in the lobby's main timer.

  \<^bold>\<open>The theories\<close>, from the bottom:
  \<^item> \<open>Prelude\<close>: integers at their widths, faults (\<open>OutOfBounds\<close>, \<open>AssertionFailed\<close>,
    \<open>NullPointer\<close>) as the left side of a sum, association lists, shared lemmas.
  \<^item> \<open>Deck\<close>, \<open>Brands\<close>, \<open>SpecialBrand\<close> (\<open>deck.h\<close>, \<open>deck.cpp\<close>): cards, the type and points of a
    dun, the special hands of thirteen cards. \<open>BrandSpec\<close> and \<open>TieBreak\<close> state the rules of the
    game without the arrays; \<open>DeckTheorems\<close> relates the two.
  \<^item> \<open>GameTypes\<close>, \<open>Settle\<close>, \<open>SettleTheorems\<close> (\<open>game13.h\<close>, \<open>Game13::calcRound\<close>): data of a room and
    the settlement of a round.
  \<^item> \<open>FastTravel\<close> (\<open>fast_travel_unordered_map.h\<close>): the indexed map, with the locale \<open>key_map\<close> for
    what its clients use.
  \<^item> \<open>LobbyState\<close>, \<open>Game13\<close>, \<open>Handlers\<close> (\<open>client_manager.cpp\<close>, \<open>room.cpp\<close>, \<open>game13.cpp\<close>): the
    state of the lobby, every method of a game and every message handler. \<open>LobbyFrame\<close>,
    \<open>GameInv\<close>, \<open>LobbyReach\<close> and \<open>Clients\<close> hold the invariants and what each handler leaves
    alone; \<open>Dealing\<close>, \<open>LobbyTheorems\<close>, \<open>LobbyLife\<close> the properties.
  \<^item> \<open>Wire\<close>, \<open>Packets\<close> (\<open>process_id.cpp\<close>, \<open>tcp_message.h\<close>, \<open>packet.cpp\<close>, \<open>tcp_packet.cpp\<close>): the
    bytes of ids, envelopes and packets.
  \<^item> \<open>ConnBuffer\<close>, \<open>TcpConns\<close> (\<open>buffered_connection.cpp\<close>, \<open>tcp_connection_manager.cpp\<close>): the
    buffers of a connection and the connection manager; \<open>ConnReceive\<close>, \<open>ConnSend\<close>, \<open>ConnIndex\<close>
    hold what is received, what is sent and how the indices agree.
  \<^item> \<open>Sockets\<close> (\<open>socket.cpp\<close>, \<open>connection.cpp\<close>, \<open>listener.cpp\<close>), \<open>Epoll\<close> (\<open>epoller.cpp\<close>): what the
    code does around the calls of the system, and the thread of the connection manager.
  \<^item> \<open>SpscQueue\<close> (\<open>lock_free_circular_queue_ss.h\<close>): the queue between the two threads, as steps of
    two threads over shared cells; \<open>RecvQueue\<close> relates it to the list the connection manager is
    modelled with, over the locale \<open>bounded_queue\<close>.
  \<^item> \<open>PrivateChecker\<close> (\<open>private_connection_checker.cpp\<close>): the handshake of processes.
  \<^item> \<open>Dispatch\<close> (\<open>gateway.cpp\<close>, \<open>lobby.cpp\<close>, \<open>hall.cpp\<close>, \<open>router.cpp\<close>, \<open>proto_manager.cpp\<close>,
    \<open>rawmsg_manager.cpp\<close>): relaying of messages and their dispatch.
  \<^item> \<open>GatewayClients\<close>, \<open>Tokens\<close>, \<open>AnySdk\<close> (\<open>gateway/client_manager.cpp\<close>,
    \<open>anysdk_login_manager.cpp\<close>): sessions and login tokens of the gateway, its http connections.
  \<^item> \<open>ProcessLoop\<close>, \<open>GatewayLoop\<close> (\<open>process.cpp\<close>, \<open>register_client_msg_relay.cpp\<close>): the loop that
    takes packets from the receive queue, over the locale \<open>packet_handler\<close> for what a process
    does with one, and the handlers of the gateway, up to the packets it sends to the router;
    \<open>RelayPath\<close> puts the hops together: from the relay of one process through the bytes on the wire, the
    read events and the loop of the router to the dispatcher of another. A connection there is idle and its socket takes
    what it is given, since a busy one may add stale bytes to its stream (\<open>ConnSend\<close>).
  \<^item> \<open>Timers\<close> (\<open>event.h\<close>, \<open>timer.cpp\<close>, \<open>process_timer.cpp\<close>): events and the main timer. Times are
    signed nanoseconds of 64 bits, and the end of an interval may leave their range.
  \<^item> \<open>HttpPackets\<close>, \<open>HttpConns\<close> (\<open>http_packet.cpp\<close>, \<open>http_connection_manager.cpp\<close>): the http
    connections, over a parser that is a parameter; \<open>UrlCode\<close>, \<open>HttpRequest\<close>
    (\<open>url_en_decode.cpp\<close>, \<open>http_parse.cpp\<close>, \<open>http_callback.cpp\<close>): URL coding and requests.
  \<^item> \<open>FlashSandbox\<close> (\<open>flash_sanbox_handler.cpp\<close>): the answer to the policy request of Flash
    players, which is never given.
  \<^item> \<open>Config\<close> (\<open>process_config.cpp\<close>, \<open>endpoint.cpp\<close>, \<open>string_kit.h\<close>): from the attributes of the
    configuration file to endpoints and processes; \<open>TcpEnds\<close> (\<open>tcp_client.cpp\<close>,
    \<open>tcp_server.cpp\<close>): opening and accepting connections; \<open>ProcessThreads\<close>, \<open>ProcessInit\<close>
    (\<open>process.cpp\<close>, \<open>process_thread.cpp\<close>): the threads of a process, from its start, through the
    moment when its timer is resumed, to its end by itself, after a signal or by an exception.
  \<^item> The library the processes are built on: \<open>Coroutines\<close> (\<open>coroutine.cpp\<close>), the scheduler over a
    parameter that says what a coroutine does until it yields, with ids that are not bounded (the code has 32 bits for
    them, and the greatest is the scheduler's own); \<open>AStar\<close>, \<open>Coord\<close>, \<open>MapPaths\<close>
    (\<open>astar.h\<close>, \<open>coord.cpp\<close>, the example \<open>astar.cpp\<close>), path finding over a grid that is a parameter,
    cells and directions, and the two together; \<open>LruCache\<close>
    (\<open>limited_size_unordered_map_cache.h\<close>) and \<open>CircularQueue\<close> (\<open>circular_queue.h\<close>);
    \<open>MpmcQueue\<close>, \<open>MpmcSerial\<close> (\<open>lock_free_circular_queue_mm.h\<close>), the queue of any number of producers
    and consumers, as steps of the threads; the two queues are further interpretations of \<open>bounded_queue\<close>; \<open>Serialize\<close> (\<open>serialize.h\<close>, \<open>raw_buffer.cpp\<close>), over the locale
    \<open>byte_buffer\<close> for what a buffer owes the serialiser; the keys of a map that is read are plain objects, since reading others does
    not compile.

  \<^bold>\<open>How the code is modelled.\<close> An object is a record; a method takes the state and returns it
  updated; shared objects (clients, packets, connections) are positions in lists of the state.
  Integers that may wrap are words or are reduced at their width; an access outside a vector, a
  failed assertion and a null pointer are faults. Sent messages are appended to a log. Parameters
  stand for what is not in the repository or not determined by it: the permutation of
  \<open>std::shuffle\<close>, the order in which a hash map is traversed, the clock, the answers of the kernel
  to \<open>recv\<close>, \<open>send\<close> and the registration with epoll, the serialised bytes of a protobuf message,
  padding. The processor is little endian. Loops that end by structure are \<open>fun\<close>; the loops of the
  socket events, of the coroutines and of the path finder are \<open>partial_function\<close>, and that they return
  is a property. Operations of the
  connection manager run one after the other, since they hold its lock. To watch a socket for something else fails
  when it is not watched, with the exception of \<open>Epoller::modifySocket\<close>. The poller is level-triggered: it
  raises the read event of a socket as long as there is something to read (\<open>read_all\<close>).

  \<^bold>\<open>Not modelled\<close>: the vendored TinyXML and http parser, the MySQL and Redis clients, logging,
  the system itself (what its calls answer is an argument), the command line, dates, the test robot, the other
  examples, scripts and SQL. Exhaustion of memory is ignored.
\<close>

end
